(* ===== verification/Prelude.thy ===== *)
theory Prelude
  imports Main "HOL-Library.Word" "HOL-Library.Signed_Division"
begin

text \<open>
  Shared vocabulary of the development: the machine integers of the i686 target, the flat byte
  memory of the kernel (paging maps every address to itself, see theory \<open>Paging\<close>), little-endian
  loads and stores, byte ranges, and the lemma collections the component theories rest on.

  A C object of type \<open>uint8_t\<close>, \<open>uint16_t\<close>, \<open>uint32_t\<close>/\<open>size_t\<close>/\<open>uintptr_t\<close> or \<open>uint64_t\<close> is an
  8-, 16-, 32- or 64-bit word; a pointer is a 32-bit word.  Addresses wrap around at \<open>2 ^ 32\<close>
  as they do on the machine, so an access outside an array is an access to another byte of the
  memory and never an unspecified value.
\<close>

unbundle bit_operations_syntax

type_synonym byte = "8 word"
type_synonym u16 = "16 word"
type_synonym u32 = "32 word"
type_synonym u64 = "64 word"
type_synonym addr = "32 word"
type_synonym mem = "addr \<Rightarrow> byte"

named_theorems range_simps "facts about byte ranges and offsets"
named_theorems mem_simps "facts about loads and stores of the flat memory"
named_theorems const_defs "the numeric constants of the header files"

section \<open>Offsets and ranges\<close>

text \<open>
  \<open>in_range a n x\<close>: the address \<open>x\<close> is one of the \<open>n\<close> bytes that start at \<open>a\<close>.
\<close>

definition in_range :: "addr \<Rightarrow> nat \<Rightarrow> addr \<Rightarrow> bool" where
  "in_range a n x \<longleftrightarrow> unat (x - a) < n"

definition ranges_disjoint :: "addr \<Rightarrow> nat \<Rightarrow> addr \<Rightarrow> nat \<Rightarrow> bool" where
  "ranges_disjoint a n b k \<longleftrightarrow> (\<forall>x. in_range a n x \<longrightarrow> \<not> in_range b k x)"

lemma unat_of_nat32 [range_simps]: "i < 2 ^ 32 \<Longrightarrow> unat (of_nat i :: u32) = i"
  by (simp add: unat_of_nat take_bit_nat_eq_self)

lemma unat_of_nat16 [range_simps]: "i < 2 ^ 16 \<Longrightarrow> unat (of_nat i :: u16) = i"
  by (simp add: unat_of_nat take_bit_nat_eq_self)

lemma of_nat_eq_iff32 [range_simps]:
  "i < 2 ^ 32 \<Longrightarrow> j < 2 ^ 32 \<Longrightarrow> (of_nat i :: u32) = of_nat j \<longleftrightarrow> i = j"
  by (metis unat_of_nat32)

lemma unat_lt_2p32: "unat (x :: u32) < 2 ^ 32"
  using unsigned_less [of x] by simp

lemma unat_u16: "unat (w :: u16) < 65536" and unat_u8: "unat (v :: byte) < 256"
  using unsigned_less [of w] unsigned_less [of v] by simp_all

lemma unat_up:
  "unat (ucast (w :: u16) :: u32) = unat w" "unat (ucast (v :: byte) :: u32) = unat v"
  "unat (ucast (w :: u16) :: u64) = unat w" "unat (ucast (x :: u32) :: u64) = unat x"
  using unat_u16 [of w] unat_u8 [of v] unat_lt_2p32 [of x]
  by (simp_all add: unsigned_ucast_eq take_bit_nat_eq_self)

lemma unat_inj: "unat x = unat y \<Longrightarrow> x = y" for x y :: u32
  by (rule unsigned_word_eqI)

lemma unat_minus1: "unat (- 1 :: u32) = 2 ^ 32 - 1"
  by (simp add: unsigned_minus_1_eq_mask mask_eq_exp_minus_1)

lemma sint_nat: "unat w < 2 ^ 31 \<Longrightarrow> sint w = int (unat w)" for w :: u32
proof -
  assume "unat w < 2 ^ 31"
  then have "int (unat w) < int (2 ^ 31)" by (simp only: of_nat_less_iff)
  moreover have "- (2 ^ 31) \<le> uint w" by (rule order_trans [OF _ unsigned_greater_eq]) simp
  ultimately show ?thesis by (simp add: sint_uint signed_take_bit_int_eq_self)
qed

lemma sint_eq_iff: "sint (v :: byte) = sint w \<longleftrightarrow> v = w"
  using signed_word_eqI [of v w] by auto

lemma sint_eq_0: "sint (v :: byte) = 0 \<longleftrightarrow> v = 0"
  using sint_eq_iff [of v 0] by simp

lemma in_range_offset [range_simps]:
  "i < 2 ^ 32 \<Longrightarrow> in_range a n (a + of_nat i) \<longleftrightarrow> i < n"
  by (simp add: in_range_def unat_of_nat32)

lemma in_rangeE:
  assumes "in_range a n x"
  obtains i where "i < n" and "i < 2 ^ 32" and "x = a + of_nat i"
proof
  show "unat (x - a) < n" using assms by (simp add: in_range_def)
  show "unat (x - a) < 2 ^ 32" by (rule unat_lt_2p32)
  show "x = a + of_nat (unat (x - a))" by simp
qed

lemma in_range_mono: "in_range a n x \<Longrightarrow> n \<le> k \<Longrightarrow> in_range a k x"
  by (simp add: in_range_def)

lemma in_range_sub: "i + k \<le> n \<Longrightarrow> n \<le> 2 ^ 32 \<Longrightarrow> in_range (a + of_nat i) k x \<Longrightarrow> in_range a n x"
proof -
  assume ik: "i + k \<le> n" "n \<le> 2 ^ 32" and "in_range (a + of_nat i) k x"
  then obtain j where "j < k" "x = a + of_nat i + of_nat j" by (auto elim: in_rangeE)
  then show ?thesis using in_range_offset [of "i + j" a n] ik by (simp add: add.assoc)
qed

lemma ranges_disjoint_sym: "ranges_disjoint a n b k \<Longrightarrow> ranges_disjoint b k a n"
  by (auto simp: ranges_disjoint_def)

lemma ranges_disjointD:
  "ranges_disjoint a n b k \<Longrightarrow> i < k \<Longrightarrow> i < 2 ^ 32 \<Longrightarrow> \<not> in_range a n (b + of_nat i)"
  using in_range_offset [of i b k] by (auto simp: ranges_disjoint_def)

lemma ranges_disjoint_mono:
  "ranges_disjoint a n b k \<Longrightarrow> n' \<le> n \<Longrightarrow> k' \<le> k \<Longrightarrow> ranges_disjoint a n' b k'"
  unfolding ranges_disjoint_def by (meson in_range_mono)

text \<open>Two ranges that do not wrap around are disjoint when one ends before the other begins.\<close>

lemma in_range_nat:
  assumes "unat a + n \<le> 2 ^ 32"
  shows "in_range a n x \<longleftrightarrow> unat a \<le> unat x \<and> unat x < unat a + n"
proof -
  have "unat (x - a) = (if unat a \<le> unat x then unat x - unat a
      else unat x + 2 ^ 32 - unat a)"
    using unat_lt_2p32 [of x] unat_lt_2p32 [of a]
    by (auto simp: unat_sub_if' word_le_nat_alt)
  then show ?thesis
    using assms unat_lt_2p32 [of x] by (auto simp: in_range_def)
qed

lemma ranges_disjoint_nat:
  assumes "unat a + n \<le> 2 ^ 32" and "unat b + k \<le> 2 ^ 32"
    and "unat a + n \<le> unat b \<or> unat b + k \<le> unat a"
  shows "ranges_disjoint a n b k"
  using assms by (auto simp: ranges_disjoint_def in_range_nat)

lemma in_range_self [simp]: "0 < n \<Longrightarrow> in_range a n a"
  by (simp add: in_range_def)

lemma in_range_0 [simp]: "\<not> in_range a 0 x"
  by (simp add: in_range_def)

lemma unat_diff_Suc: "x \<noteq> a \<Longrightarrow> unat (x - a) = Suc (unat (x - (a + 1)))" for x a :: addr
proof -
  assume "x \<noteq> a"
  have "x - a = 1 + (x - (a + 1))" by simp
  moreover from \<open>x \<noteq> a\<close> this have "1 + (x - (a + 1)) \<noteq> 0" by (metis right_minus_eq)
  ultimately show ?thesis by (metis unatSuc)
qed

lemma in_range_Suc: "in_range a (Suc n) x \<longleftrightarrow> x = a \<or> in_range (a + 1) n x"
  by (cases "x = a") (simp_all add: in_range_def unat_diff_Suc)

lemma ranges_disjoint_tail:
  "ranges_disjoint a (Suc n) b (Suc k) \<Longrightarrow> ranges_disjoint (a + 1) n (b + 1) k"
  by (auto simp: ranges_disjoint_def in_range_Suc)

section \<open>Bytes of the memory\<close>

text \<open>The store of one byte, \<open>*a = v\<close> for an \<open>uint8_t*\<close>.\<close>

definition st8 :: "mem \<Rightarrow> addr \<Rightarrow> byte \<Rightarrow> mem" where
  "st8 m a v = m(a := v)"

lemma st8_same [simp]: "st8 m a v a = v"
  by (simp add: st8_def)

lemma st8_other [simp]: "x \<noteq> a \<Longrightarrow> st8 m a v x = m x"
  by (simp add: st8_def)

lemma st8_apply: "st8 m a v x = (if x = a then v else m x)"
  by (simp add: st8_def)

definition bytes_at :: "mem \<Rightarrow> addr \<Rightarrow> nat \<Rightarrow> byte list" where
  "bytes_at m a n = map (\<lambda>i. m (a + of_nat i)) [0..<n]"

text \<open>\<open>put_bytes m a bs\<close> is the memory with the bytes \<open>bs\<close> at \<open>a\<close>: the specification of a copy.\<close>

definition put_bytes :: "mem \<Rightarrow> addr \<Rightarrow> byte list \<Rightarrow> mem" where
  "put_bytes m a bs = (\<lambda>x. if in_range a (length bs) x then bs ! unat (x - a) else m x)"

lemma length_bytes_at [simp]: "length (bytes_at m a n) = n"
  by (simp add: bytes_at_def)

lemma nth_bytes_at [simp]: "i < n \<Longrightarrow> bytes_at m a n ! i = m (a + of_nat i)"
  by (simp add: bytes_at_def)

lemma bytes_at_0 [simp]: "bytes_at m a 0 = []"
  by (simp add: bytes_at_def)

lemma bytes_at_Suc: "bytes_at m a (Suc n) = m a # bytes_at m (a + 1) n"
  by (auto simp: bytes_at_def upt_conv_Cons map_Suc_upt [symmetric] algebra_simps
      simp del: upt_Suc)

lemma bytes_at_append: "bytes_at m a (i + j) = bytes_at m a i @ bytes_at m (a + of_nat i) j"
  by (induction i arbitrary: a) (auto simp: bytes_at_Suc algebra_simps)

lemma take_bytes_at: "i \<le> n \<Longrightarrow> take i (bytes_at m a n) = bytes_at m a i"
  by (simp add: bytes_at_def take_map)

lemma drop_bytes_at: "i \<le> n \<Longrightarrow> drop i (bytes_at m a n) = bytes_at m (a + of_nat i) (n - i)"
  using bytes_at_append [of m a i "n - i"] by simp

lemma bytes_at_cong:
  "(\<And>i. i < n \<Longrightarrow> m (a + of_nat i) = m' (a + of_nat i)) \<Longrightarrow> bytes_at m a n = bytes_at m' a n"
  by (simp add: bytes_at_def)

lemma bytes_at_upd [mem_simps]:
  "i < n \<Longrightarrow> n \<le> 2 ^ 32 \<Longrightarrow> bytes_at (st8 m (a + of_nat i) v) a n = (bytes_at m a n)[i := v]"
  by (auto simp: list_eq_iff_nth_eq nth_list_update of_nat_eq_iff32 st8_apply)

lemma bytes_at_upd0 [mem_simps]:
  "0 < n \<Longrightarrow> n \<le> 2 ^ 32 \<Longrightarrow> bytes_at (st8 m a v) a n = (bytes_at m a n)[0 := v]"
  using bytes_at_upd [of 0 n m a v] by simp

lemma bytes_at_upd_other [mem_simps]:
  "\<not> in_range a n x \<Longrightarrow> n \<le> 2 ^ 32 \<Longrightarrow> bytes_at (st8 m x v) a n = bytes_at m a n"
  by (rule bytes_at_cong, rule st8_other) (auto simp: in_range_offset)

lemma put_bytes_in [mem_simps]:
  "i < length bs \<Longrightarrow> i < 2 ^ 32 \<Longrightarrow> put_bytes m a bs (a + of_nat i) = bs ! i"
  by (simp add: put_bytes_def range_simps)

lemma put_bytes_out [mem_simps]: "\<not> in_range a (length bs) x \<Longrightarrow> put_bytes m a bs x = m x"
  by (simp add: put_bytes_def)

lemma put_bytes_Nil [simp]: "put_bytes m a [] = m"
  by (simp add: put_bytes_def in_range_def fun_eq_iff)

lemma bytes_at_st8_plus:
  "i < n \<Longrightarrow> n \<le> 2 ^ 32 \<Longrightarrow> x = a + of_nat i \<Longrightarrow>
    bytes_at (st8 m x v) a n = (bytes_at m a n)[i := v]"
  by (simp add: bytes_at_upd)

lemma bytes_at_put_bytes [mem_simps]:
  "length bs \<le> 2 ^ 32 \<Longrightarrow> bytes_at (put_bytes m a bs) a (length bs) = bs"
  by (rule nth_equalityI) (auto simp: put_bytes_in)

lemma bytes_at_put_bytes_other [mem_simps]:
  "ranges_disjoint a (length bs) b n \<Longrightarrow> n \<le> 2 ^ 32 \<Longrightarrow>
    bytes_at (put_bytes m a bs) b n = bytes_at m b n"
  by (rule bytes_at_cong) (auto intro!: put_bytes_out dest: ranges_disjointD)

lemma put_bytes_snoc:
  assumes "length bs < 2 ^ 32"
  shows "put_bytes m a (bs @ [b]) = st8 (put_bytes m a bs) (a + of_nat (length bs)) b"
proof
  fix x
  show "put_bytes m a (bs @ [b]) x = st8 (put_bytes m a bs) (a + of_nat (length bs)) b x"
  proof (cases "x = a + of_nat (length bs)")
    case True
    with assms show ?thesis by (simp add: put_bytes_def range_simps)
  next
    case False
    have "x = a + of_nat (unat (x - a))" by simp
    with False have "unat (x - a) \<noteq> length bs" by metis
    with False show ?thesis by (auto simp: put_bytes_def in_range_def nth_append)
  qed
qed

lemma put_bytes_Cons:
  assumes "Suc (length bs) \<le> 2 ^ 32"
  shows "put_bytes m a (b # bs) = put_bytes (st8 m a b) (a + 1) bs"
proof
  fix x
  show "put_bytes m a (b # bs) x = put_bytes (st8 m a b) (a + 1) bs x"
  proof (cases "x = a")
    case True
    moreover have "\<not> in_range (a + 1) (length bs) a"
      using assms by (simp add: in_range_def unat_minus1)
    ultimately show ?thesis by (simp add: put_bytes_def in_range_def)
  next
    case False
    then show ?thesis by (simp add: put_bytes_def in_range_def st8_apply unat_diff_Suc)
  qed
qed

lemma put_bytes_append:
  "length bs + length cs \<le> 2 ^ 32 \<Longrightarrow>
    put_bytes (put_bytes m a bs) (a + of_nat (length bs)) cs = put_bytes m a (bs @ cs)"
  by (induction bs arbitrary: m a) (simp_all add: put_bytes_Cons add.assoc [symmetric])

section \<open>Little-endian loads and stores\<close>

definition ld16 :: "mem \<Rightarrow> addr \<Rightarrow> u16" where
  "ld16 m a = push_bit 8 (ucast (m (a + 1))) OR ucast (m a)"

definition ld32 :: "mem \<Rightarrow> addr \<Rightarrow> u32" where
  "ld32 m a = ucast (m a) OR push_bit 8 (ucast (m (a + 1))) OR push_bit 16 (ucast (m (a + 2)))
     OR push_bit 24 (ucast (m (a + 3)))"

definition st16 :: "mem \<Rightarrow> addr \<Rightarrow> u16 \<Rightarrow> mem" where
  "st16 m a v = st8 (st8 m a (ucast v)) (a + 1) (ucast (drop_bit 8 v))"

definition st32 :: "mem \<Rightarrow> addr \<Rightarrow> u32 \<Rightarrow> mem" where
  "st32 m a v =
     st8 (st8 (st8 (st8 m a (ucast v)) (a + 1) (ucast (drop_bit 8 v)))
       (a + 2) (ucast (drop_bit 16 v))) (a + 3) (ucast (drop_bit 24 v))"

lemma addr_plus_neq [simp]:
  "(a :: addr) + 1 \<noteq> a" "a + 2 \<noteq> a" "a + 3 \<noteq> a" "a + 1 \<noteq> a + 2" "a + 1 \<noteq> a + 3" "a + 2 \<noteq> a + 3"
  by simp_all

lemma ld16_st16 [simp]: "ld16 (st16 m a v) a = v"
  by (rule bit_word_eqI)
    (auto simp: ld16_def st16_def bit_simps)

lemma ld32_st32 [simp]: "ld32 (st32 m a v) a = v"
proof (rule bit_word_eqI)
  fix n :: nat
  assume "n < LENGTH(32)"
  then consider "n < 8" | "8 \<le> n" "n < 16" | "16 \<le> n" "n < 24" | "24 \<le> n" "n < 32"
    by fastforce
  then show "bit (ld32 (st32 m a v) a) n = bit v n"
    by cases (auto simp: ld32_def st32_def bit_simps)
qed

lemma in_range_4: "in_range a 4 x \<longleftrightarrow> x = a \<or> x = a + 1 \<or> x = a + 2 \<or> x = a + 3"
proof
  assume "in_range a 4 x"
  then obtain i where "i < 4" "x = a + of_nat i" by (rule in_rangeE)
  then show "x = a \<or> x = a + 1 \<or> x = a + 2 \<or> x = a + 3"
    by (auto simp: numeral_eq_Suc less_Suc_eq)
next
  assume "x = a \<or> x = a + 1 \<or> x = a + 2 \<or> x = a + 3"
  then show "in_range a 4 x"
    using in_range_offset [of 0 a 4] in_range_offset [of 1 a 4] in_range_offset [of 2 a 4]
      in_range_offset [of 3 a 4] by auto
qed

lemma in_range_2: "in_range a 2 x \<longleftrightarrow> x = a \<or> x = a + 1"
proof
  assume "in_range a 2 x"
  then obtain i where "i < 2" "x = a + of_nat i" by (rule in_rangeE)
  then show "x = a \<or> x = a + 1" by (auto simp: numeral_eq_Suc less_Suc_eq)
next
  assume "x = a \<or> x = a + 1"
  then show "in_range a 2 x"
    using in_range_offset [of 0 a 2] in_range_offset [of 1 a 2] by auto
qed

lemma st32_out [mem_simps]: "\<not> in_range a 4 x \<Longrightarrow> st32 m a v x = m x"
  by (simp add: in_range_4 st32_def)

lemma st16_out [mem_simps]: "\<not> in_range a 2 x \<Longrightarrow> st16 m a v x = m x"
  by (simp add: in_range_2 st16_def)

lemma ld32_cong: "(\<And>x. in_range a 4 x \<Longrightarrow> m x = m' x) \<Longrightarrow> ld32 m a = ld32 m' a"
  by (simp add: ld32_def in_range_4)

lemma ld16_cong: "(\<And>x. in_range a 2 x \<Longrightarrow> m x = m' x) \<Longrightarrow> ld16 m a = ld16 m' a"
  by (simp add: ld16_def in_range_2)

lemma ld32_st32_other [mem_simps]:
  "ranges_disjoint a 4 b 4 \<Longrightarrow> ld32 (st32 m a v) b = ld32 m b"
  by (rule ld32_cong, rule st32_out) (auto simp: ranges_disjoint_def)

lemma bytes_at_st32_other [mem_simps]:
  "ranges_disjoint a 4 b n \<Longrightarrow> n \<le> 2 ^ 32 \<Longrightarrow> bytes_at (st32 m a v) b n = bytes_at m b n"
  by (rule bytes_at_cong) (auto intro!: st32_out dest: ranges_disjointD)

text \<open>An array of 32-bit words at \<open>a\<close>.\<close>

definition word_at :: "addr \<Rightarrow> nat \<Rightarrow> addr" where
  "word_at a i = a + 4 * of_nat i"

lemma word_at_in:
  assumes "in_range (word_at a i) 4 x" and "i < n" and "4 * n \<le> 2 ^ 32"
  shows "in_range a (4 * n) x" and "unat (x - a) div 4 = i"
proof -
  from assms(1) obtain k where k: "k < 4" "x = word_at a i + of_nat k" by (rule in_rangeE)
  have "x - a = of_nat (4 * i + k)" by (simp add: k(2) word_at_def)
  moreover have "4 * i + k < 2 ^ 32" using assms(2,3) k(1) by linarith
  ultimately have "unat (x - a) = 4 * i + k" by (simp only: unat_of_nat32)
  then show "in_range a (4 * n) x" "unat (x - a) div 4 = i"
    using assms(2) k(1) by (simp_all add: in_range_def)
qed

lemma word_at_disjoint:
  assumes "i < n" and "j < n" and "4 * n \<le> 2 ^ 32" and "i \<noteq> j"
  shows "ranges_disjoint (word_at a i) 4 (word_at a j) 4"
  unfolding ranges_disjoint_def
  by (metis assms(4) word_at_in(2) [OF _ assms(1,3)] word_at_in(2) [OF _ assms(2,3)])

lemma ld32_word_at:
  assumes "i < n" and "j < n" and "4 * n \<le> 2 ^ 32"
  shows "ld32 (st32 m (word_at a i) v) (word_at a j) = (if i = j then v else ld32 m (word_at a j))"
  using word_at_disjoint [OF assms] by (simp add: ld32_st32_other)

lemma st32_word_at_out:
  "\<not> in_range a (4 * n) x \<Longrightarrow> i < n \<Longrightarrow> 4 * n \<le> 2 ^ 32 \<Longrightarrow> st32 m (word_at a i) v x = m x"
  using word_at_in(1) by (blast intro: st32_out)

lemma ld32_word_at_cong:
  "(\<And>x. in_range a (4 * n) x \<Longrightarrow> m x = m' x) \<Longrightarrow> i < n \<Longrightarrow> 4 * n \<le> 2 ^ 32 \<Longrightarrow>
    ld32 m (word_at a i) = ld32 m' (word_at a i)"
  using word_at_in(1) by (blast intro: ld32_cong)

text \<open>A loop that stores \<open>f 0\<close>, \<open>f 1\<close>, ... into consecutive words.\<close>

lemma fill_words:
  assumes "k \<le> n" and "4 * n \<le> 2 ^ 32" and "j < n"
  shows "ld32 (fold (\<lambda>j m. st32 m (word_at a j) (f j)) [0..<k] m) (word_at a j)
    = (if j < k then f j else ld32 m (word_at a j))"
  using assms
proof (induction k)
  case (Suc k)
  then show ?case using ld32_word_at [of k n j] by (auto simp: less_Suc_eq)
qed simp

lemma fill_words_out:
  assumes "k \<le> n" and "4 * n \<le> 2 ^ 32" and "\<not> in_range a (4 * n) x"
  shows "fold (\<lambda>j m. st32 m (word_at a j) (f j)) [0..<k] m x = m x"
  using assms by (induction k) (auto simp: st32_word_at_out [of a n])

section \<open>C strings\<close>

text \<open>\<open>cstr m p s\<close>: the memory holds at \<open>p\<close> the bytes \<open>s\<close>, none of them zero, and a NUL after them.\<close>

definition cstr :: "mem \<Rightarrow> addr \<Rightarrow> byte list \<Rightarrow> bool" where
  "cstr m p s \<longleftrightarrow> length s < 2 ^ 32 \<and> 0 \<notin> set s \<and> bytes_at m p (Suc (length s)) = s @ [0]"

lemma cstr_Nil [simp]: "cstr m p [] \<longleftrightarrow> m p = 0"
  by (simp add: cstr_def bytes_at_Suc)

lemma cstr_Cons:
  "cstr m p (c # s) \<longleftrightarrow> Suc (length s) < 2 ^ 32 \<and> c \<noteq> 0 \<and> m p = c \<and> cstr m (p + 1) s"
  by (auto simp: cstr_def bytes_at_Suc)

lemma cstr_unique: "cstr m p s \<Longrightarrow> cstr m p t \<Longrightarrow> s = t"
  by (induction s arbitrary: p t; case_tac t) (auto simp: cstr_Cons)

lemma cstr_nth: "cstr m p s \<Longrightarrow> i < length s \<Longrightarrow> m (p + of_nat i) = s ! i \<and> s ! i \<noteq> 0"
proof (induction s arbitrary: p i)
  case (Cons c s)
  show ?case
  proof (cases i)
    case 0
    with Cons.prems show ?thesis by (simp add: cstr_Cons)
  next
    case (Suc j)
    with Cons.prems Cons.IH [of "p + 1" j] show ?thesis
      by (simp add: cstr_Cons add.assoc)
  qed
qed simp

lemma cstr_end: "cstr m p s \<Longrightarrow> m (p + of_nat (length s)) = 0"
proof (induction s arbitrary: p)
  case (Cons c s)
  from Cons.prems Cons.IH [of "p + 1"] show ?case by (simp add: cstr_Cons add.assoc)
qed simp

lemma cstr_st8: "cstr m p s \<Longrightarrow> \<not> in_range p (Suc (length s)) x \<Longrightarrow> cstr (st8 m x v) p s"
  by (simp add: cstr_def mem_simps)

lemma cstr_length: "cstr m p s \<Longrightarrow> Suc (length s) \<le> 2 ^ 32"
  by (simp add: cstr_def)

text \<open>The bytes of a string literal of the source.\<close>

definition lit :: "string \<Rightarrow> byte list" where
  "lit s = map of_char s"

text \<open>Little-endian numbers at an index of a list of bytes.\<close>

definition le16 :: "byte list \<Rightarrow> nat \<Rightarrow> u16" where
  "le16 b i = of_nat (unat (b ! i) + 256 * unat (b ! (i + 1)))"

definition le32 :: "byte list \<Rightarrow> nat \<Rightarrow> u32" where
  "le32 b i = of_nat (unat (b ! i) + 2 ^ 8 * unat (b ! (i + 1)) + 2 ^ 16 * unat (b ! (i + 2)) + 2 ^ 24 * unat (b ! (i + 3)))"

end
