(* ===== verification/Allocator.thy ===== *)
theory Allocator
  imports Prelude
begin

text \<open>
  The contract of a heap as its clients rely on it: what a request and a release do to the set of
  live objects (address and length in bytes), and that neither touches the contents of one.  A heap may be unable to release
  an object (\<open>can_release\<close>); the call then changes nothing.
  The page heap and the object heap of the kernel are both interpretations of it.
\<close>

text \<open>A client that makes several requests one after the other.\<close>

fun serve :: "(u32 \<Rightarrow> 's \<Rightarrow> addr \<times> 's) \<Rightarrow> u32 list \<Rightarrow> 's \<Rightarrow> addr list \<times> 's" where
  "serve alloc [] s = ([], s)"
| "serve alloc (sz # szs) s =
     (case alloc sz s of (a, s1) \<Rightarrow> case serve alloc szs s1 of (as, s2) \<Rightarrow> (a # as, s2))"

lemma serve_Cons [simp]:
  "fst (serve alloc (sz # szs) s) = fst (alloc sz s) # fst (serve alloc szs (snd (alloc sz s)))"
  "snd (serve alloc (sz # szs) s) = snd (serve alloc szs (snd (alloc sz s)))"
  by (simp_all split: prod.splits)

declare serve.simps(2) [simp del]

locale allocator =
  fixes alloc :: "u32 \<Rightarrow> 's \<Rightarrow> addr \<times> 's"
    and release :: "addr \<Rightarrow> 's \<Rightarrow> 's"
    and inv :: "'s \<Rightarrow> bool"
    and live :: "'s \<Rightarrow> (addr \<times> nat) set"
    and store :: "'s \<Rightarrow> mem"
    and can_release :: "'s \<Rightarrow> addr \<Rightarrow> bool"
  assumes live_pos: "inv s \<Longrightarrow> (b, k) \<in> live s \<Longrightarrow> 0 < k"
    and alloc_inv: "inv s \<Longrightarrow> alloc sz s = (a, s') \<Longrightarrow> inv s'"
    and alloc_null: "inv s \<Longrightarrow> alloc sz s = (0, s') \<Longrightarrow> live s' = live s"
    and alloc_new: "inv s \<Longrightarrow> alloc sz s = (a, s') \<Longrightarrow> a \<noteq> 0 \<Longrightarrow>
      \<exists>n \<ge> unat sz. 0 < n \<and> live s' = insert (a, n) (live s) \<and>
        (\<forall>(b, k) \<in> live s. ranges_disjoint a n b k)"
    and alloc_keeps: "inv s \<Longrightarrow> alloc sz s = (a, s') \<Longrightarrow> (b, k) \<in> live s \<Longrightarrow> in_range b k x \<Longrightarrow>
      store s' x = store s x"
    and release_inv: "inv s \<Longrightarrow> (a, n) \<in> live s \<Longrightarrow> can_release s a \<Longrightarrow> inv (release a s)"
    and release_live: "inv s \<Longrightarrow> (a, n) \<in> live s \<Longrightarrow> can_release s a \<Longrightarrow>
      live (release a s) = live s - {(a, n)}"
    and release_keeps: "inv s \<Longrightarrow> (a, n) \<in> live s \<Longrightarrow> can_release s a \<Longrightarrow> (b, k) \<in> live s \<Longrightarrow>
      in_range b k x \<Longrightarrow> store (release a s) x = store s x"
    and release_lost: "inv s \<Longrightarrow> (a, n) \<in> live s \<Longrightarrow> \<not> can_release s a \<Longrightarrow> release a s = s"
begin

lemma alloc_live_mono:
  assumes "inv s" and "alloc sz s = (a, s')"
  shows "live s \<subseteq> live s'"
  using alloc_null [OF assms(1)] alloc_new [OF assms] assms(2) by (cases "a = 0") auto

lemma alloc_fresh:
  assumes "inv s" and "alloc sz s = (a, s')" and "a \<noteq> 0"
  shows "(a, n) \<notin> live s"
proof
  assume l: "(a, n) \<in> live s"
  moreover obtain k where "0 < k" "\<forall>(b, m) \<in> live s. ranges_disjoint a k b m"
    using alloc_new [OF assms] by auto
  ultimately have "0 < k" "ranges_disjoint a k a n" by auto
  moreover have "0 < n" by (rule live_pos [OF assms(1) l])
  ultimately show False using in_range_self [of k a] in_range_self [of n a] unfolding ranges_disjoint_def by blast
qed

text \<open>Giving back what was just taken leaves the live objects as they were.\<close>

lemma release_alloc:
  assumes "inv s" and "alloc sz s = (a, s')" and "a \<noteq> 0" and "can_release s' a"
  shows "live (release a s') = live s" and "inv (release a s')"
proof -
  obtain n where n: "live s' = insert (a, n) (live s)" using alloc_new [OF assms(1-3)] by auto
  then have l: "(a, n) \<in> live s'" by simp
  have i: "inv s'" by (rule alloc_inv [OF assms(1,2)])
  show "live (release a s') = live s"
    using release_live [OF i l assms(4)] alloc_fresh [OF assms(1-3), of n] by (simp add: n)
  show "inv (release a s')" by (rule release_inv [OF i l assms(4)])
qed

lemma serve_inv: "inv s \<Longrightarrow> inv (snd (serve alloc szs s))"
  by (induction szs arbitrary: s) (use alloc_inv in \<open>auto simp: prod_eq_iff\<close>)

lemma serve_live: "inv s \<Longrightarrow> live s \<subseteq> live (snd (serve alloc szs s))"
proof (induction szs arbitrary: s)
  case (Cons sz szs)
  obtain a s1 where a: "alloc sz s = (a, s1)" by fastforce
  from alloc_live_mono [OF Cons.prems a] Cons.IH [OF alloc_inv [OF Cons.prems a]] a
  show ?case by auto
qed simp

lemma serve_keeps:
  "inv s \<Longrightarrow> (b, k) \<in> live s \<Longrightarrow> in_range b k x \<Longrightarrow> store (snd (serve alloc szs s)) x = store s x"
proof (induction szs arbitrary: s)
  case (Cons sz szs)
  obtain a s1 where a: "alloc sz s = (a, s1)" by fastforce
  have "store s1 x = store s x" by (rule alloc_keeps [OF Cons.prems(1) a Cons.prems(2,3)])
  moreover have "store (snd (serve alloc szs s1)) x = store s1 x"
    using alloc_live_mono [OF Cons.prems(1) a] Cons.prems
    by (intro Cons.IH [OF alloc_inv [OF Cons.prems(1) a]]) auto
  ultimately show ?case using a by auto
qed simp

lemma length_serve: "length (fst (serve alloc szs s)) = length szs"
  by (induction szs arbitrary: s) auto

lemma serve_apart_live:
  assumes "inv s" and "(b, k) \<in> live s" and "i < length szs" and "fst (serve alloc szs s) ! i \<noteq> 0"
  shows "ranges_disjoint (fst (serve alloc szs s) ! i) (unat (szs ! i)) b k"
  using assms
proof (induction szs arbitrary: s i)
  case (Cons sz szs)
  obtain a s1 where a: "alloc sz s = (a, s1)" by fastforce
  show ?case
  proof (cases i)
    case 0
    with Cons.prems(4) a have "a \<noteq> 0" by auto
    then obtain n where "unat sz \<le> n" "\<forall>(b, k) \<in> live s. ranges_disjoint a n b k"
      using alloc_new [OF Cons.prems(1) a] by auto
    with Cons.prems(2) have "ranges_disjoint a (unat sz) b k" by (auto intro: ranges_disjoint_mono)
    with 0 a show ?thesis by auto
  next
    case (Suc j)
    with Cons.prems a have "fst (serve alloc szs s1) ! j \<noteq> 0" "j < length szs" by auto
    then have "ranges_disjoint (fst (serve alloc szs s1) ! j) (unat (szs ! j)) b k"
      using alloc_live_mono [OF Cons.prems(1) a] Cons.prems(2)
      by (intro Cons.IH [OF alloc_inv [OF Cons.prems(1) a]]) auto
    with Suc a show ?thesis by auto
  qed
qed simp

text \<open>Objects handed out one after the other do not overlap.\<close>

lemma serve_disjoint:
  assumes "inv s" and "i < j" and "j < length szs"
    and "fst (serve alloc szs s) ! i \<noteq> 0" and "fst (serve alloc szs s) ! j \<noteq> 0"
  shows "ranges_disjoint (fst (serve alloc szs s) ! i) (unat (szs ! i))
    (fst (serve alloc szs s) ! j) (unat (szs ! j))"
  using assms
proof (induction szs arbitrary: s i j)
  case (Cons sz szs)
  obtain a s1 where a: "alloc sz s = (a, s1)" by fastforce
  obtain j' where j: "j = Suc j'" using Cons.prems(2) by (cases j) auto
  have inv1: "inv s1" by (rule alloc_inv [OF Cons.prems(1) a])
  have jz: "fst (serve alloc szs s1) ! j' \<noteq> 0" "j' < length szs" using Cons.prems(3,5) a by (simp_all add: j)
  show ?case
  proof (cases i)
    case 0
    with Cons.prems(4) a have "a \<noteq> 0" by simp
    then obtain n where n: "unat sz \<le> n" "live s1 = insert (a, n) (live s)"
      using alloc_new [OF Cons.prems(1) a] by auto
    have "ranges_disjoint (fst (serve alloc szs s1) ! j') (unat (szs ! j')) a n"
      by (rule serve_apart_live [OF inv1 _ jz(2,1)]) (simp add: n(2))
    then have "ranges_disjoint a (unat sz) (fst (serve alloc szs s1) ! j') (unat (szs ! j'))"
      using n(1) by (auto intro: ranges_disjoint_sym ranges_disjoint_mono)
    then show ?thesis using a by (simp add: j 0)
  next
    case (Suc i')
    with Cons.prems show ?thesis
      using Cons.IH [OF inv1, of i' j'] jz a by (simp add: j)
  qed
qed simp

end

end
