(* ===== verification/Step_Runs.thy ===== *)
theory Step_Runs
  imports Prelude
begin

text \<open>
  Runs of a step relation over a list of events, and the two ways to reason about them: invariants and forward simulation.
\<close>

inductive run :: "('s \<Rightarrow> 'e \<Rightarrow> 's \<Rightarrow> bool) \<Rightarrow> 's \<Rightarrow> 'e list \<Rightarrow> 's \<Rightarrow> bool" for step where
  stop: "run step s [] s"
| go: "step s e s' \<Longrightarrow> run step s' es s'' \<Longrightarrow> run step s (e # es) s''"

inductive_simps run_Nil [simp]: "run step s [] s'"
inductive_simps run_Cons [simp]: "run step s (e # es) s'"

lemma run_append: "run step s (es @ fs) s' \<longleftrightarrow> (\<exists>t. run step s es t \<and> run step t fs s')"
  by (induction es arbitrary: s) auto

text \<open>An invariant holds at the end, and what it implies of an event holds of all events.\<close>

lemma run_invariant:
  assumes "run step s es s'" and "I s" and "\<And>s e s'. step s e s' \<Longrightarrow> I s \<Longrightarrow> I s' \<and> P e"
  shows "I s' \<and> (\<forall>e \<in> set es. P e)"
  using assms(1,2)
proof (induction rule: run.induct)
  case (go s e s' es s'')
  then show ?case using assms(3) [OF go.hyps(1) go.prems] by simp
qed simp

text \<open>A relation that every step keeps carries over to runs.\<close>

lemma run_simulation:
  assumes "run step s es s'" and "R s a"
    and "\<And>s e s' a. step s e s' \<Longrightarrow> R s a \<Longrightarrow> \<exists>a'. astep a e a' \<and> R s' a'"
  shows "\<exists>a'. run astep a es a' \<and> R s' a'"
  using assms(1,2)
proof (induction arbitrary: a rule: run.induct)
  case (go s e s1 es s2)
  obtain a1 where a1: "astep a e a1" "R s1 a1" using assms(3) [OF go.hyps(1) go.prems] by blast
  then show ?case using go.IH [OF a1(2)] by auto
qed auto

end
