(* ===== verification/Object_Store.thy ===== *)
theory Object_Store
  imports Allocator Step_Runs
begin

text \<open>
  What a heap is to the code that uses it, as a state machine: a store of objects, each a list of bytes, in which objects
  appear, change under the stores of their owners, and disappear, or stay behind when a release does not find
  them (\<open>Lost\<close>).  Every interface of theory \<open>Allocator\<close> refines it, so that runs of requests, releases and stores can be understood without block tables.
\<close>

section \<open>The abstract store\<close>

datatype event = Request u32 addr | Release addr | Lost addr | Put addr nat byte

type_synonym objects = "addr \<Rightarrow> byte list option"

text \<open>
  A request is refused with the null pointer, or a new object that overlaps no other appears, with arbitrary contents;
  an owner gives an object back or changes a byte of it.  A release may also find nothing (\<open>Lost\<close>); the object then stays.
\<close>

inductive store_step :: "objects \<Rightarrow> event \<Rightarrow> objects \<Rightarrow> bool" where
  refused: "store_step m (Request sz 0) m"
| served: "a \<noteq> 0 \<Longrightarrow> m a = None \<Longrightarrow> unat sz \<le> length bs \<Longrightarrow> 0 < length bs \<Longrightarrow>
    (\<And>b cs. m b = Some cs \<Longrightarrow> ranges_disjoint a (length bs) b (length cs)) \<Longrightarrow> store_step m (Request sz a) (m(a := Some bs))"
| released: "m a = Some bs \<Longrightarrow> store_step m (Release a) (m(a := None))"
| lost: "m a = Some bs \<Longrightarrow> store_step m (Lost a) m"
| changed: "m a = Some bs \<Longrightarrow> i < length bs \<Longrightarrow> store_step m (Put a i v) (m(a := Some (bs[i := v])))"

inductive_cases store_requestE: "store_step m (Request sz a) m'"
inductive_cases store_releaseE: "store_step m (Release a) m'"
inductive_cases store_lostE: "store_step m (Lost a) m'"
inductive_cases store_putE: "store_step m (Put a i v) m'"

text \<open>Objects stay apart, and one that no event names keeps its bytes.\<close>

definition apart :: "objects \<Rightarrow> bool" where
  "apart m \<longleftrightarrow> (\<forall>a bs b cs. m a = Some bs \<longrightarrow> m b = Some cs \<longrightarrow> a \<noteq> b \<longrightarrow> ranges_disjoint a (length bs) b (length cs))"

fun names :: "event \<Rightarrow> addr \<Rightarrow> bool" where
  "names (Request sz a) b \<longleftrightarrow> False"
| "names (Release a) b \<longleftrightarrow> a = b"
| "names (Lost a) b \<longleftrightarrow> False"
| "names (Put a i v) b \<longleftrightarrow> a = b"

lemma apart_step: "store_step m e m' \<Longrightarrow> apart m \<Longrightarrow> apart m'"
  by (induction rule: store_step.induct) (auto simp: apart_def dest: ranges_disjoint_sym)

lemma apart_run: "run store_step m es m' \<Longrightarrow> apart m \<Longrightarrow> apart m'"
  using run_invariant [where I = apart and P = "\<lambda>_. True"] apart_step by blast

lemma kept_step: "store_step m e m' \<Longrightarrow> m b = Some cs \<Longrightarrow> \<not> names e b \<Longrightarrow> m' b = Some cs"
  by (induction rule: store_step.induct) auto

lemma kept_run: "run store_step m es m' \<Longrightarrow> m b = Some cs \<Longrightarrow> \<forall>e \<in> set es. \<not> names e b \<Longrightarrow> m' b = Some cs"
  by (induction rule: run.induct) (auto dest: kept_step)

section \<open>The clients of a heap\<close>

text \<open>
  The steps of the clients: they call one of the functions in \<open>A\<close>, or the release for an object that is live, and they store
  bytes in live objects only.  A release that the heap cannot carry out is the event \<open>Lost\<close>.
\<close>

inductive client_step ::
  "(u32 \<Rightarrow> 's \<Rightarrow> addr \<times> 's) set \<Rightarrow> (addr \<Rightarrow> 's \<Rightarrow> 's) \<Rightarrow> ('s \<Rightarrow> (addr \<times> nat) set) \<Rightarrow> (addr \<Rightarrow> byte \<Rightarrow> 's \<Rightarrow> 's) \<Rightarrow>
    ('s \<Rightarrow> addr \<Rightarrow> bool) \<Rightarrow> 's \<Rightarrow> event \<Rightarrow> 's \<Rightarrow> bool"
  for A release live put can_release where
  request: "alloc \<in> A \<Longrightarrow> alloc sz s = (a, s') \<Longrightarrow> client_step A release live put can_release s (Request sz a) s'"
| give_back: "(a, n) \<in> live s \<Longrightarrow> can_release s a \<Longrightarrow> client_step A release live put can_release s (Release a) (release a s)"
| fail: "(a, n) \<in> live s \<Longrightarrow> \<not> can_release s a \<Longrightarrow> client_step A release live put can_release s (Lost a) (release a s)"
| change: "(a, n) \<in> live s \<Longrightarrow> i < n \<Longrightarrow> client_step A release live put can_release s (Put a i v) (put (a + of_nat i) v s)"

text \<open>The objects of a state and their bytes.\<close>

definition holds :: "('s \<Rightarrow> (addr \<times> nat) set) \<Rightarrow> ('s \<Rightarrow> mem) \<Rightarrow> 's \<Rightarrow> objects \<Rightarrow> bool" where
  "holds live store s m \<longleftrightarrow> (\<forall>a bs. m a = Some bs \<longleftrightarrow> (\<exists>n. (a, n) \<in> live s \<and> bs = bytes_at (store s) a n))"

lemma holdsI:
  assumes "\<And>a n. (a, n) \<in> live s \<Longrightarrow> m a = Some (bytes_at (store s) a n)" and "\<And>a bs. m a = Some bs \<Longrightarrow> \<exists>n. (a, n) \<in> live s"
  shows "holds live store s m"
  unfolding holds_def using assms by (metis option.inject)

lemma holdsD:
  assumes "holds live store s m"
  shows "(a, n) \<in> live s \<Longrightarrow> m a = Some (bytes_at (store s) a n)" and "m a = Some bs \<Longrightarrow> \<exists>n. (a, n) \<in> live s \<and> bs = bytes_at (store s) a n"
  using assms by (auto simp: holds_def)

lemma holds_cong:
  "live s' = live s \<Longrightarrow> (\<And>b k. (b, k) \<in> live s \<Longrightarrow> bytes_at (store s') b k = bytes_at (store s) b k) \<Longrightarrow>
    holds live store s' m = holds live store s m"
  by (simp add: holds_def cong: conj_cong)

locale object_heap =
  fixes A :: "(u32 \<Rightarrow> 's \<Rightarrow> addr \<times> 's) set"
    and release :: "addr \<Rightarrow> 's \<Rightarrow> 's"
    and inv :: "'s \<Rightarrow> bool"
    and live :: "'s \<Rightarrow> (addr \<times> nat) set"
    and store :: "'s \<Rightarrow> mem"
    and can_release :: "'s \<Rightarrow> addr \<Rightarrow> bool"
    and put :: "addr \<Rightarrow> byte \<Rightarrow> 's \<Rightarrow> 's"
  assumes heaps: "A \<noteq> {}" "alloc \<in> A \<Longrightarrow> allocator alloc release inv live store can_release"
    and live_apart: "inv s \<Longrightarrow> (a, n) \<in> live s \<Longrightarrow> (b, k) \<in> live s \<Longrightarrow> (a, n) \<noteq> (b, k) \<Longrightarrow> ranges_disjoint a n b k"
    and live_size: "inv s \<Longrightarrow> (a, n) \<in> live s \<Longrightarrow> n \<le> 2 ^ 32"
    and put_in: "inv s \<Longrightarrow> (a, n) \<in> live s \<Longrightarrow> in_range a n x \<Longrightarrow>
      inv (put x v s) \<and> live (put x v s) = live s \<and> store (put x v s) = (store s)(x := v)"
begin

lemma live_pos: "inv s \<Longrightarrow> (a, n) \<in> live s \<Longrightarrow> 0 < n"
proof -
  assume a: "inv s" "(a, n) \<in> live s"
  obtain alloc where "alloc \<in> A" using heaps(1) by blast
  from allocator.live_pos [OF heaps(2) [OF this] a] show "0 < n" .
qed

lemma live_unique: "inv s \<Longrightarrow> (a, n) \<in> live s \<Longrightarrow> (a, k) \<in> live s \<Longrightarrow> n = k"
proof (rule ccontr)
  assume a: "inv s" "(a, n) \<in> live s" "(a, k) \<in> live s" "n \<noteq> k"
  then have "ranges_disjoint a n a k" using live_apart by blast
  moreover have "in_range a n a" "in_range a k a" using a live_pos by (blast intro: in_range_self)+
  ultimately show False by (auto simp: ranges_disjoint_def)
qed

lemma bytes_same: "(\<And>x. in_range a n x \<Longrightarrow> f x = g x) \<Longrightarrow> n \<le> 2 ^ 32 \<Longrightarrow> bytes_at f a n = bytes_at g a n"
  by (rule bytes_at_cong) (simp add: in_range_offset)

text \<open>Each step of the clients is a step of the store.\<close>

lemma request_refines:
  assumes al: "alloc \<in> A" and r: "alloc sz s = (a, s')" and s: "inv s" "holds live store s m"
  shows "\<exists>m'. store_step m (Request sz a) m' \<and> inv s' \<and> holds live store s' m'"
proof -
  note h = heaps(2) [OF al]
  have i: "inv s'" by (rule allocator.alloc_inv [OF h s(1) r])
  have keep: "bytes_at (store s') b k = bytes_at (store s) b k" if "(b, k) \<in> live s" for b k
    by (rule bytes_same) (use allocator.alloc_keeps [OF h s(1) r that] live_size [OF s(1) that] in auto)
  show ?thesis
  proof (cases "a = 0")
    case True
    then have "live s' = live s" using allocator.alloc_null [OF h s(1)] r by blast
    then have "holds live store s' m = holds live store s m" by (rule holds_cong) (rule keep)
    then have "holds live store s' m" using s(2) by simp
    then show ?thesis using i store_step.refused True by blast
  next
    case False
    obtain n where n: "unat sz \<le> n" "0 < n" "live s' = insert (a, n) (live s)" "\<forall>(b, k) \<in> live s. ranges_disjoint a n b k"
      using allocator.alloc_new [OF h s(1) r False] by (elim exE conjE)
    have new: "(a, k) \<notin> live s" for k by (rule allocator.alloc_fresh [OF h s(1) r False])
    let ?m = "m(a := Some (bytes_at (store s') a n))"
    have "m a = None" using s(2) new by (cases "m a") (auto dest: holdsD(2))
    moreover have "ranges_disjoint a n b (length cs)" if "m b = Some cs" for b cs
      using holdsD(2) [OF s(2) that] n(4) by auto
    ultimately have "store_step m (Request sz a) ?m" using False n(1,2) by (intro store_step.served) simp_all
    moreover have "holds live store s' ?m"
    proof (rule holdsI)
      show "?m b = Some (bytes_at (store s') b k)" if "(b, k) \<in> live s'" for b k
        using that new keep [of b k] holdsD(1) [OF s(2), of b k] by (cases "b = a") (auto simp: n(3))
      show "\<exists>k. (b, k) \<in> live s'" if "?m b = Some bs" for b bs
        using that holdsD(2) [OF s(2), of b bs] by (cases "b = a") (auto simp: n(3))
    qed
    ultimately show ?thesis using i by blast
  qed
qed

lemma release_refines:
  assumes l: "(a, n) \<in> live s" "can_release s a" and s: "inv s" "holds live store s m"
  shows "\<exists>m'. store_step m (Release a) m' \<and> inv (release a s) \<and> holds live store (release a s) m'"
proof -
  obtain alloc where al: "alloc \<in> A" using heaps(1) by blast
  note h = heaps(2) [OF al]
  have i: "inv (release a s)" by (rule allocator.release_inv [OF h s(1) l])
  have lv: "live (release a s) = live s - {(a, n)}" by (rule allocator.release_live [OF h s(1) l])
  have keep: "bytes_at (store (release a s)) b k = bytes_at (store s) b k" if "(b, k) \<in> live s" for b k
    by (rule bytes_same) (use allocator.release_keeps [OF h s(1) l that] live_size [OF s(1) that] in auto)
  have "m a = Some (bytes_at (store s) a n)" by (rule holdsD(1) [OF s(2) l(1)])
  moreover have "holds live store (release a s) (m(a := None))"
  proof (rule holdsI)
    show "(m(a := None)) b = Some (bytes_at (store (release a s)) b k)" if "(b, k) \<in> live (release a s)" for b k
      using that keep [of b k] holdsD(1) [OF s(2), of b k] live_unique [OF s(1) l(1), of k] by (cases "b = a") (auto simp: lv)
    show "\<exists>k. (b, k) \<in> live (release a s)" if "(m(a := None)) b = Some bs" for b bs
      using that holdsD(2) [OF s(2), of b bs] by (cases "b = a") (auto simp: lv)
  qed
  ultimately show ?thesis using i store_step.released by blast
qed

lemma lost_refines:
  assumes l: "(a, n) \<in> live s" "\<not> can_release s a" and s: "inv s" "holds live store s m"
  shows "\<exists>m'. store_step m (Lost a) m' \<and> inv (release a s) \<and> holds live store (release a s) m'"
proof -
  obtain alloc where al: "alloc \<in> A" using heaps(1) by blast
  have "release a s = s" by (rule allocator.release_lost [OF heaps(2) [OF al] s(1) l])
  moreover have "store_step m (Lost a) m" by (rule store_step.lost) (rule holdsD(1) [OF s(2) l(1)])
  ultimately show ?thesis using s by auto
qed

lemma put_refines:
  assumes l: "(a, n) \<in> live s" "i < n" and s: "inv s" "holds live store s m"
  shows "\<exists>m'. store_step m (Put a i v) m' \<and> inv (put (a + of_nat i) v s) \<and> holds live store (put (a + of_nat i) v s) m'"
proof -
  let ?x = "a + of_nat i :: addr"
  have n: "n \<le> 2 ^ 32" by (rule live_size [OF s(1) l(1)])
  have r: "in_range a n ?x" using l(2) n by (simp add: in_range_offset)
  note p = put_in [OF s(1) l(1) r, of v]
  have "bytes_at ((store s)(?x := v)) a n = (bytes_at (store s) a n)[i := v]"
  proof (rule nth_equalityI)
    fix j assume "j < length (bytes_at ((store s)(?x := v)) a n)"
    then have "j < n" by simp
    moreover have "a + of_nat j = ?x \<longleftrightarrow> j = i" 
      using \<open>j < n\<close> l(2) n unat_of_nat32 [of i] unat_of_nat32 [of j] by (metis add_left_cancel order_less_le_trans)
    ultimately show "bytes_at ((store s)(?x := v)) a n ! j = (bytes_at (store s) a n)[i := v] ! j" by (simp add: nth_list_update)
  qed simp
  note this_one = this
  have other: "bytes_at ((store s)(?x := v)) b k = bytes_at (store s) b k" if b: "(b, k) \<in> live s" "b \<noteq> a" for b k
  proof (rule bytes_same)
    have "ranges_disjoint a n b k" using live_apart [OF s(1) l(1) b(1)] b(2) by blast
    then show "in_range b k x \<Longrightarrow> ((store s)(?x := v)) x = store s x" for x using r by (auto simp: ranges_disjoint_def)
  qed (rule live_size [OF s(1) b(1)])
  have "m a = Some (bytes_at (store s) a n)" by (rule holdsD(1) [OF s(2) l(1)])
  then have "store_step m (Put a i v) (m(a := Some ((bytes_at (store s) a n)[i := v])))" using l(2) by (intro store_step.changed) simp_all
  moreover have "holds live store (put ?x v s) (m(a := Some ((bytes_at (store s) a n)[i := v])))"
  proof (rule holdsI)
    show "(m(a := Some ((bytes_at (store s) a n)[i := v]))) b = Some (bytes_at (store (put ?x v s)) b k)" if "(b, k) \<in> live (put ?x v s)" for b k
      using that p this_one other [of b k] holdsD(1) [OF s(2), of b k] live_unique [OF s(1) l(1), of k] by (cases "b = a") auto
    show "\<exists>k. (b, k) \<in> live (put ?x v s)" if "(m(a := Some ((bytes_at (store s) a n)[i := v]))) b = Some bs" for b bs
      using that p l(1) holdsD(2) [OF s(2), of b bs] by (cases "b = a") auto
  qed
  ultimately show ?thesis using p by blast
qed

lemma step_refines:
  "client_step A release live put can_release s e s' \<Longrightarrow> inv s \<and> holds live store s m \<Longrightarrow>
    \<exists>m'. store_step m e m' \<and> inv s' \<and> holds live store s' m'"
  by (induction rule: client_step.induct)
    (blast intro: request_refines, blast intro: release_refines, blast intro: lost_refines, blast intro: put_refines)

lemma runs_refine:
  assumes "run (client_step A release live put can_release) s es s'" and "inv s" and "holds live store s m"
  shows "\<exists>m'. run store_step m es m' \<and> inv s' \<and> holds live store s' m'"
  by (rule run_simulation [OF assms(1), where R = "\<lambda>s m. inv s \<and> holds live store s m"]) (use assms(2,3) step_refines in blast)+

text \<open>An object that is not named keeps its place and its bytes.\<close>

lemma runs_keep:
  assumes "run (client_step A release live put can_release) s es s'" and "inv s" and "(b, k) \<in> live s"
    and "\<forall>e \<in> set es. \<not> names e b"
  shows "(b, k) \<in> live s' \<and> bytes_at (store s') b k = bytes_at (store s) b k"
proof -
  define m where "m = (\<lambda>a. if \<exists>n. (a, n) \<in> live s then Some (bytes_at (store s) a (THE n. (a, n) \<in> live s)) else None)"
  have the: "(THE n. (a, n) \<in> live s) = n" if "(a, n) \<in> live s" for a n
    using that live_unique [OF assms(2) _ that] by (intro the_equality)
  have "holds live store s m" by (rule holdsI) (auto simp: m_def the split: if_splits)
  from runs_refine [OF assms(1,2) this] obtain m' where m': "run store_step m es m'" "holds live store s' m'" by blast
  have "m b = Some (bytes_at (store s) b k)" using assms(3) the by (auto simp: m_def)
  from kept_run [OF m'(1) this assms(4)] obtain n where "(b, n) \<in> live s'" "bytes_at (store s) b k = bytes_at (store s') b n"
    using holdsD(2) [OF m'(2)] by blast
  moreover from this have "k = n" by (metis length_bytes_at)
  ultimately show ?thesis by simp
qed

end

end
