(* ===== verification/Block_Table.thy ===== *)
theory Block_Table
  imports Prelude
begin

text \<open>
  The block table both allocators of the kernel keep (\<open>src/kernel/heap/heap.h\<close> for 4096-byte pages,
  \<open>src/kernel/heap/heap32.h\<close> for 32-byte blocks): one byte per block, 0 for a free block, 0x41 for
  an allocation of one block, and 0xc1, 0x81 ... 0x81, 0x01 for the first, middle and last block
  of a longer one.

  This theory is the specification the two implementations are measured against.  A table stands
  for the finite set of its \<^emph>\<open>runs\<close>, the pairs (first block, number of blocks) of the live
  allocations; marking a free run adds one element to that set, clearing a run removes it, and
  different runs never share a block.  The locale \<open>run_table\<close> states what an implementation on
  some state has to provide (first-fit search, marking, release); its lemmas are the allocator
  facts, proved once and obtained by interpretation for \<open>heap.c\<close> and for \<open>heap32.c\<close>.
\<close>

definition HEAP_TABLE_BLOCK_START :: byte where [const_defs]: "HEAP_TABLE_BLOCK_START = 0xc1"
definition HEAP_TABLE_BLOCK_END :: byte where [const_defs]: "HEAP_TABLE_BLOCK_END = 0x01"
definition HEAP_TABLE_BLOCK_MID :: byte where [const_defs]: "HEAP_TABLE_BLOCK_MID = 0x81"
definition HEAP_TABLE_BLOCK_SINGLE :: byte where [const_defs]: "HEAP_TABLE_BLOCK_SINGLE = 0x41"

section \<open>Runs\<close>

definition free_run :: "byte list \<Rightarrow> nat \<Rightarrow> nat \<Rightarrow> bool" where
  "free_run t i n \<longleftrightarrow> i + n \<le> length t \<and> (\<forall>j<n. t ! (i + j) = 0)"

definition run_cell :: "nat \<Rightarrow> nat \<Rightarrow> byte" where
  "run_cell n j = (if n = 1 then 0x41 else if j = 0 then 0xc1 else if Suc j = n then 0x01 else 0x81)"

definition is_run :: "byte list \<Rightarrow> nat \<Rightarrow> nat \<Rightarrow> bool" where
  "is_run t i n \<longleftrightarrow> 1 \<le> n \<and> i + n \<le> length t \<and> (\<forall>j<n. t ! (i + j) = run_cell n j)"

definition runs :: "byte list \<Rightarrow> (nat \<times> nat) set" where
  "runs t = {(i, n). is_run t i n}"

definition wf_table :: "byte list \<Rightarrow> bool" where
  "wf_table t \<longleftrightarrow>
     (\<forall>k<length t. t ! k \<noteq> 0 \<longrightarrow> (\<exists>i\<le>k. \<exists>n\<le>length t. is_run t i n \<and> k < i + n))"

definition overlay :: "byte list \<Rightarrow> nat \<Rightarrow> byte list \<Rightarrow> byte list" where
  "overlay t i xs = take i t @ xs @ drop (i + length xs) t"

definition mark_run :: "byte list \<Rightarrow> nat \<Rightarrow> nat \<Rightarrow> byte list" where
  "mark_run t i n = overlay t i (map (run_cell n) [0..<n])"

definition clear_run :: "byte list \<Rightarrow> nat \<Rightarrow> nat \<Rightarrow> byte list" where
  "clear_run t i n = overlay t i (replicate n 0)"

definition first_fit :: "byte list \<Rightarrow> nat \<Rightarrow> nat option" where
  "first_fit t n = List.find (\<lambda>i. free_run t i n) [0..<length t]"

lemma run_cell_nz [simp]: "run_cell n j \<noteq> 0"
  by (simp add: run_cell_def)

lemma run_cell_head: "j < n \<Longrightarrow> run_cell n j = 0x41 \<or> run_cell n j = 0xc1 \<longleftrightarrow> j = 0"
  by (auto simp: run_cell_def)

lemma is_runD:
  "is_run t i n \<Longrightarrow> 1 \<le> n"
  "is_run t i n \<Longrightarrow> i + n \<le> length t"
  "is_run t i n \<Longrightarrow> j < n \<Longrightarrow> t ! (i + j) = run_cell n j"
  by (auto simp: is_run_def)

lemma is_run_cell: "is_run t i n \<Longrightarrow> i \<le> k \<Longrightarrow> k < i + n \<Longrightarrow> t ! k = run_cell n (k - i)"
  using is_runD(3) [of t i n "k - i"] by simp

text \<open>A cell inside a run tells whether it is the run's head: two runs that meet are the same.\<close>

lemma runs_same_head:
  assumes "is_run t i n" and "is_run t j m" and "i \<le> j" and "j < i + n"
  shows "i = j"
proof -
  have "t ! j = run_cell n (j - i)" by (rule is_run_cell [OF assms(1,3,4)])
  moreover have "t ! j = run_cell m 0" using is_runD(1) [OF assms(2)] is_runD(3) [OF assms(2), of 0] by simp
  ultimately have "j - i = 0"
    using run_cell_head [of 0 m] run_cell_head [of "j - i" n] is_runD(1) [OF assms(2)] assms(3,4)
    by (auto simp: run_cell_def split: if_splits)
  with assms(3) show ?thesis by simp
qed

lemma run_cell_last: "1 \<le> n \<Longrightarrow> n < m \<Longrightarrow> run_cell n (n - 1) \<noteq> run_cell m (n - 1)"
  by (auto simp: run_cell_def)

lemma runs_unique_length:
  assumes "is_run t i n" and "is_run t i m"
  shows "n = m"
proof -
  have "\<not> n < m" if "is_run t i n" "is_run t i m" for n m
    using run_cell_last [of n m] is_runD(1) [OF that(1)] is_runD(3) [OF that(1), of "n - 1"]
      is_runD(3) [OF that(2), of "n - 1"] by auto
  from this [OF assms] this [OF assms(2,1)] show ?thesis by simp
qed

lemma runs_meet:
  assumes "is_run t i n" and "is_run t j m" and "i \<le> k" "k < i + n" "j \<le> k" "k < j + m"
  shows "i = j \<and> n = m"
proof -
  have "i = j"
  proof (cases "i \<le> j")
    case True
    then show ?thesis using assms by (intro runs_same_head [of t i n j m]) auto
  next
    case False
    then have "j = i" using assms by (intro runs_same_head [of t j m i n]) auto
    then show ?thesis by simp
  qed
  then show ?thesis using runs_unique_length assms(1,2) by blast
qed

lemma runs_disjoint:
  "is_run t i n \<Longrightarrow> is_run t j m \<Longrightarrow> (i, n) \<noteq> (j, m) \<Longrightarrow> i + n \<le> j \<or> j + m \<le> i"
proof (rule ccontr)
  assume r: "is_run t i n" "is_run t j m" and ne: "(i, n) \<noteq> (j, m)"
    and "\<not> (i + n \<le> j \<or> j + m \<le> i)"
  then have "max i j < i + n" "max i j < j + m"
    using is_runD(1) [OF r(1)] is_runD(1) [OF r(2)] by (auto simp: max_def)
  with runs_meet [OF r, of "max i j"] ne show False by simp
qed

lemma free_run_not_run: "free_run t i n \<Longrightarrow> is_run t j m \<Longrightarrow> i + n \<le> j \<or> j + m \<le> i \<or> n = 0"
proof (rule ccontr)
  assume f: "free_run t i n" and r: "is_run t j m" and "\<not> (i + n \<le> j \<or> j + m \<le> i \<or> n = 0)"
  then have k: "i \<le> max i j" "max i j < i + n" "j \<le> max i j" "max i j < j + m"
    using is_runD(1) [OF r] by auto
  then have "t ! max i j = 0" using f by (auto simp: free_run_def dest: spec [of _ "max i j - i"])
  moreover have "t ! max i j \<noteq> 0" using is_run_cell [OF r k(3,4)] by simp
  ultimately show False by simp
qed

section \<open>Marking and clearing\<close>

lemma length_overlay [simp]: "i + length xs \<le> length t \<Longrightarrow> length (overlay t i xs) = length t"
  by (simp add: overlay_def)

lemma nth_overlay:
  "i + length xs \<le> length t \<Longrightarrow> k < length t \<Longrightarrow>
    overlay t i xs ! k = (if i \<le> k \<and> k < i + length xs then xs ! (k - i) else t ! k)"
  by (auto simp: overlay_def nth_append)

lemma length_mark_run [simp]: "i + n \<le> length t \<Longrightarrow> length (mark_run t i n) = length t"
  by (simp add: mark_run_def)

lemma length_clear_run [simp]: "i + n \<le> length t \<Longrightarrow> length (clear_run t i n) = length t"
  by (simp add: clear_run_def)

lemma nth_mark_run:
  "i + n \<le> length t \<Longrightarrow> k < length t \<Longrightarrow>
    mark_run t i n ! k = (if i \<le> k \<and> k < i + n then run_cell n (k - i) else t ! k)"
  by (auto simp: mark_run_def nth_overlay)

lemma nth_clear_run:
  "i + n \<le> length t \<Longrightarrow> k < length t \<Longrightarrow>
    clear_run t i n ! k = (if i \<le> k \<and> k < i + n then 0 else t ! k)"
  by (auto simp: clear_run_def nth_overlay)

lemmas run_nths = nth_mark_run nth_clear_run

lemma is_run_cong:
  "(\<And>k. i \<le> k \<Longrightarrow> k < i + n \<Longrightarrow> t ! k = u ! k) \<Longrightarrow> length t = length u \<Longrightarrow>
    is_run t i n \<longleftrightarrow> is_run u i n"
  by (auto simp: is_run_def)

lemma is_run_mark: "1 \<le> n \<Longrightarrow> i + n \<le> length t \<Longrightarrow> is_run (mark_run t i n) i n"
  by (simp add: is_run_def nth_mark_run)

lemma is_run_mark_other:
  "i + n \<le> length t \<Longrightarrow> j + m \<le> i \<or> i + n \<le> j \<Longrightarrow> is_run (mark_run t i n) j m \<longleftrightarrow> is_run t j m"
proof (cases "j + m \<le> length t")
  case True
  then show "i + n \<le> length t \<Longrightarrow> j + m \<le> i \<or> i + n \<le> j \<Longrightarrow> ?thesis"
    by (intro is_run_cong) (auto simp: nth_mark_run)
next
  case False
  then show "i + n \<le> length t \<Longrightarrow> ?thesis" by (simp add: is_run_def)
qed

lemma is_run_clear_other:
  "i + n \<le> length t \<Longrightarrow> j + m \<le> i \<or> i + n \<le> j \<Longrightarrow> is_run (clear_run t i n) j m \<longleftrightarrow> is_run t j m"
proof (cases "j + m \<le> length t")
  case True
  then show "i + n \<le> length t \<Longrightarrow> j + m \<le> i \<or> i + n \<le> j \<Longrightarrow> ?thesis"
    by (intro is_run_cong) (auto simp: nth_clear_run)
next
  case False
  then show "i + n \<le> length t \<Longrightarrow> ?thesis" by (simp add: is_run_def)
qed

lemma free_run_clear: "i + n \<le> length t \<Longrightarrow> free_run (clear_run t i n) i n"
  by (simp add: free_run_def nth_clear_run)

theorem runs_mark_run:
  assumes "free_run t i n" and "1 \<le> n"
  shows "runs (mark_run t i n) = insert (i, n) (runs t)"
proof -
  have b: "i + n \<le> length t" using assms(1) by (simp add: free_run_def)
  have "is_run (mark_run t i n) j m \<longleftrightarrow> (j, m) = (i, n) \<or> is_run t j m" for j m
  proof (cases "j + m \<le> i \<or> i + n \<le> j")
    case True
    with is_run_mark_other [OF b True] is_runD(1) assms(2) show ?thesis by fastforce
  next
    case False
    then have "\<not> is_run t j m" using free_run_not_run [OF assms(1), of j m] assms(2) by auto
    moreover have "is_run (mark_run t i n) j m \<Longrightarrow> (j, m) = (i, n)"
      using runs_disjoint [OF is_run_mark [OF assms(2) b], of j m] False by blast
    ultimately show ?thesis using is_run_mark [OF assms(2) b] by blast
  qed
  then show ?thesis by (auto simp: runs_def)
qed

theorem runs_clear_run:
  assumes "is_run t i n"
  shows "runs (clear_run t i n) = runs t - {(i, n)}"
proof -
  note b = is_runD(2) [OF assms]
  have "is_run (clear_run t i n) j m \<longleftrightarrow> is_run t j m \<and> (j, m) \<noteq> (i, n)" for j m
  proof (cases "j + m \<le> i \<or> i + n \<le> j")
    case True
    with is_run_clear_other [OF b True] is_runD(1) [OF assms] is_runD(1) show ?thesis by fastforce
  next
    case False
    then have "\<not> is_run (clear_run t i n) j m"
      using free_run_not_run [OF free_run_clear [OF b], of j m] is_runD(1) [OF assms] by auto
    moreover have "is_run t j m \<Longrightarrow> (j, m) = (i, n)"
      using runs_disjoint [OF assms, of j m] False by blast
    ultimately show ?thesis by blast
  qed
  then show ?thesis by (auto simp: runs_def)
qed

lemma wf_tableD:
  assumes "wf_table t" and "k < length t" and "t ! k \<noteq> 0"
  obtains i n where "is_run t i n" and "i \<le> k" and "k < i + n"
  using assms by (auto simp: wf_table_def)

lemma wf_tableI:
  assumes "\<And>k. k < length t \<Longrightarrow> t ! k \<noteq> 0 \<Longrightarrow> \<exists>i n. is_run t i n \<and> i \<le> k \<and> k < i + n"
  shows "wf_table t"
  unfolding wf_table_def
proof (intro allI impI)
  fix k assume "k < length t" "t ! k \<noteq> 0"
  then obtain i n where "is_run t i n" "i \<le> k" "k < i + n" using assms by blast
  moreover from this have "n \<le> length t" using is_runD(2) [of t i n] by simp
  ultimately show "\<exists>i\<le>k. \<exists>n\<le>length t. is_run t i n \<and> k < i + n" by blast
qed

lemma wf_table_replicate: "wf_table (replicate n 0)"
  by (simp add: wf_table_def)

lemma wf_mark_run:
  assumes "wf_table t" and "free_run t i n" and "1 \<le> n"
  shows "wf_table (mark_run t i n)"
proof (rule wf_tableI)
  fix k
  assume k: "k < length (mark_run t i n)" "mark_run t i n ! k \<noteq> 0"
  have b: "i + n \<le> length t" using assms(2) by (simp add: free_run_def)
  show "\<exists>j m. is_run (mark_run t i n) j m \<and> j \<le> k \<and> k < j + m"
  proof (cases "i \<le> k \<and> k < i + n")
    case True
    then show ?thesis using is_run_mark [OF assms(3) b] by blast
  next
    case False
    with k b have "k < length t" "t ! k \<noteq> 0" by (auto simp: nth_mark_run)
    then obtain j m where "is_run t j m" "j \<le> k" "k < j + m" by (rule wf_tableD [OF assms(1)])
    moreover from this(1) have "is_run (mark_run t i n) j m"
      using runs_mark_run [OF assms(2,3)] by (auto simp: runs_def)
    ultimately show ?thesis by blast
  qed
qed

lemma wf_clear_run:
  assumes "wf_table t" and "is_run t i n"
  shows "wf_table (clear_run t i n)"
proof (rule wf_tableI)
  fix k
  assume k: "k < length (clear_run t i n)" "clear_run t i n ! k \<noteq> 0"
  note b = is_runD(2) [OF assms(2)]
  from k b have "k < length t" "t ! k \<noteq> 0" and out: "\<not> (i \<le> k \<and> k < i + n)"
    by (auto simp: nth_clear_run split: if_splits)
  then obtain j m where r: "is_run t j m" "j \<le> k" "k < j + m" by (metis wf_tableD [OF assms(1)])
  then have "(j, m) \<noteq> (i, n)" using out by auto
  then have "is_run (clear_run t i n) j m"
    using r(1) runs_clear_run [OF assms(2)] by (auto simp: runs_def)
  with r show "\<exists>j m. is_run (clear_run t i n) j m \<and> j \<le> k \<and> k < j + m" by blast
qed

lemma free_runD: "free_run t i n \<Longrightarrow> i \<le> k \<Longrightarrow> k < i + n \<Longrightarrow> t ! k = 0"
  by (auto simp: free_run_def dest: spec [of _ "k - i"])

lemma free_run_bound: "free_run t i n \<Longrightarrow> i + n \<le> length t"
  by (simp add: free_run_def)

theorem clear_mark_run:
  assumes "free_run t i n"
  shows "clear_run (mark_run t i n) i n = t"
  using free_run_bound [OF assms] free_runD [OF assms]
  by (intro nth_equalityI) (simp_all add: run_nths)

section \<open>First fit\<close>

lemma first_fit_Some:
  "first_fit t n = Some i \<longleftrightarrow> i < length t \<and> free_run t i n \<and> (\<forall>j<i. \<not> free_run t j n)"
  by (auto simp: first_fit_def find_Some_iff)

lemma first_fit_None: "1 \<le> n \<Longrightarrow> first_fit t n = None \<longleftrightarrow> (\<forall>i. \<not> free_run t i n)"
  by (auto simp: first_fit_def find_None_iff free_run_def)

lemma first_fit_free: "first_fit t n = Some i \<Longrightarrow> free_run t i n"
  by (simp add: first_fit_Some)

text \<open>One block is available exactly when a zero is left, and taking it uses up one zero.\<close>

lemma free_run_1: "free_run t i (Suc 0) \<longleftrightarrow> i < length t \<and> t ! i = 0"
  by (auto simp: free_run_def)

lemma first_fit_1: "first_fit t (Suc 0) = None \<longleftrightarrow> count_list t 0 = 0"
  by (auto simp: first_fit_None free_run_1 count_list_0_iff in_set_conv_nth)

lemma mark_run_1: "i < length t \<Longrightarrow> mark_run t i (Suc 0) = t[i := 0x41]"
  by (rule nth_equalityI) (auto simp: nth_mark_run run_cell_def nth_list_update)

lemma count_mark_run_1:
  assumes "free_run t i (Suc 0)"
  shows "Suc (count_list (mark_run t i (Suc 0)) 0) = count_list t 0"
proof -
  from assms have i: "i < length t" "t ! i = 0" by (simp_all add: free_run_1)
  have "t = take i t @ 0 # drop (Suc i) t" using id_take_nth_drop [OF i(1)] i(2) by simp
  then have "count_list t 0 = count_list (take i t @ 0 # drop (Suc i) t) 0" by simp
  with i show ?thesis by (simp add: mark_run_1 upd_conv_take_nth_drop)
qed

section \<open>The allocator interface\<close>

text \<open>
  What an implementation of the table provides: \<open>view\<close> reads the table off its state, \<open>find_run\<close>
  is its search, \<open>put_run\<close> marks the blocks of a new allocation and \<open>drop_run\<close> releases the
  allocation whose first block is given.
\<close>

locale run_table =
  fixes view :: "'s \<Rightarrow> byte list"
    and find_run :: "'s \<Rightarrow> nat \<Rightarrow> nat option"
    and put_run :: "'s \<Rightarrow> nat \<Rightarrow> nat \<Rightarrow> 's"
    and drop_run :: "'s \<Rightarrow> nat \<Rightarrow> 's"
  assumes find_run: "1 \<le> n \<Longrightarrow> find_run s n = first_fit (view s) n"
    and put_run: "1 \<le> n \<Longrightarrow> free_run (view s) i n \<Longrightarrow>
      view (put_run s i n) = mark_run (view s) i n"
    and drop_run: "is_run (view s) i n \<Longrightarrow> view (drop_run s i) = clear_run (view s) i n"
begin

lemma found_free: "1 \<le> n \<Longrightarrow> find_run s n = Some i \<Longrightarrow> free_run (view s) i n"
  by (simp add: find_run first_fit_free)

lemma found_first:
  "1 \<le> n \<Longrightarrow> find_run s n = Some i \<Longrightarrow> j < i \<Longrightarrow> \<not> free_run (view s) j n"
  by (simp add: find_run first_fit_Some)

lemma complete: "1 \<le> n \<Longrightarrow> find_run s n = None \<longleftrightarrow> (\<forall>i. \<not> free_run (view s) i n)"
  by (simp add: find_run first_fit_None)

lemma alloc_runs:
  assumes "1 \<le> n" and "find_run s n = Some i"
  shows "runs (view (put_run s i n)) = insert (i, n) (runs (view s))"
  using runs_mark_run [OF found_free [OF assms] assms(1)]
  by (simp add: put_run [OF assms(1) found_free [OF assms]])

lemma alloc_fresh:
  assumes "1 \<le> n" and "find_run s n = Some i" and "(j, m) \<in> runs (view s)"
  shows "i + n \<le> j \<or> j + m \<le> i"
  using free_run_not_run [OF found_free [OF assms(1,2)], of j m] assms by (auto simp: runs_def)

lemma alloc_wf:
  assumes "1 \<le> n" and "find_run s n = Some i" and "wf_table (view s)"
  shows "wf_table (view (put_run s i n))"
  using wf_mark_run [OF assms(3) found_free [OF assms(1,2)] assms(1)]
  by (simp add: put_run [OF assms(1) found_free [OF assms(1,2)]])

lemma alloc_length:
  assumes "1 \<le> n" and "find_run s n = Some i"
  shows "length (view (put_run s i n)) = length (view s)"
  using free_run_bound [OF found_free [OF assms]]
  by (simp add: put_run [OF assms(1) found_free [OF assms]])

lemma free_runs: "(i, n) \<in> runs (view s) \<Longrightarrow> runs (view (drop_run s i)) = runs (view s) - {(i, n)}"
  by (simp add: runs_def drop_run runs_clear_run [unfolded runs_def])

lemma free_wf: "(i, n) \<in> runs (view s) \<Longrightarrow> wf_table (view s) \<Longrightarrow> wf_table (view (drop_run s i))"
  by (simp add: runs_def drop_run wf_clear_run)

text \<open>Releasing what was just allocated restores the table.\<close>

lemma free_alloc:
  assumes "1 \<le> n" and "find_run s n = Some i"
  shows "view (drop_run (put_run s i n) i) = view s"
proof -
  note f = found_free [OF assms]
  have "is_run (view (put_run s i n)) i n"
    by (simp add: put_run [OF assms(1) f] is_run_mark [OF assms(1) free_run_bound [OF f]])
  then show ?thesis by (simp add: drop_run put_run [OF assms(1) f] clear_mark_run [OF f])
qed

end

end
