(* ===== verification/Console.thy ===== *)
theory Console
  imports Prelude
begin

text \<open>
  The text console of \<open>src/kernel/kernel.c\<close>: the VGA buffer \<open>vedio\<close>, the cursor, and the print
  routines every other component calls for its diagnostics.  The buffer is a device array of
  16-bit cells indexed by a natural number, so that a write past the 80 by 25 cells of the screen
  is a write to a cell with index 2000 or more.  A \<open>char *\<close> argument is the list of its bytes; a
  NUL byte ends it.

  \<open>console\<close> is the base record of the kernel state: the components that follow extend it with
  their own fields, and every operation is polymorphic in that extension.
\<close>

record console =
  vedio :: "nat \<Rightarrow> u16"
  cursor_x :: u16
  cursor_y :: u16

definition VGA_HEIGHT :: nat where [const_defs]: "VGA_HEIGHT = 25"
definition VGA_WIDTH :: nat where [const_defs]: "VGA_WIDTH = 80"

section \<open>Cells\<close>

definition text_mode_hex_gen :: "byte \<Rightarrow> byte \<Rightarrow> byte \<Rightarrow> bool \<Rightarrow> u16" where
  "text_mode_hex_gen letter fg bg blink =
     (let r0 = (if blink then 1 else 0) :: u16;
          r1 = push_bit 3 r0;
          bg' = bg AND 0x07;
          r2 = r1 OR ucast bg';
          r3 = push_bit 4 r2;
          fg' = fg AND 0x0f;
          r4 = r3 OR ucast fg';
          r5 = push_bit 8 r4
      in r5 OR scast letter)"

definition simp_text_hex_gen :: "byte \<Rightarrow> byte \<Rightarrow> u16" where
  "simp_text_hex_gen letter color = ucast (push_bit 8 (scast color :: u32) OR scast letter)"

section \<open>Scrolling and clearing\<close>

definition vput :: "(nat \<Rightarrow> u16) \<Rightarrow> nat \<Rightarrow> u16 \<Rightarrow> nat \<Rightarrow> u16" where
  "vput v k x = v(k := x)"

text \<open>The two loops of \<open>scroll1\<close>: one row of 79 cells is moved up; 79 cells are cleared.\<close>

definition scroll_row :: "nat \<Rightarrow> (nat \<Rightarrow> u16) \<Rightarrow> (nat \<Rightarrow> u16)" where
  "scroll_row i v = fold (\<lambda>j v. vput v (i * 80 + j) (v ((i + 1) * 80 + j))) [0..<79] v"

definition scroll_clear :: "(nat \<Rightarrow> u16) \<Rightarrow> (nat \<Rightarrow> u16)" where
  "scroll_clear v = fold (\<lambda>i v. vput v (24 * 79 + i) 0) [0..<79] v"

definition scroll1 :: "'z console_scheme \<Rightarrow> 'z console_scheme" where
  "scroll1 s = s\<lparr>vedio := scroll_clear (fold scroll_row [0..<24] (vedio s))\<rparr>"

definition clear_screen :: "'z console_scheme \<Rightarrow> 'z console_scheme" where
  "clear_screen s =
     (let limit = VGA_HEIGHT * VGA_WIDTH
      in s\<lparr>vedio := fold (\<lambda>i v. vput v i 0x0020) [0..<limit] (vedio s),
           cursor_x := 0, cursor_y := 0\<rparr>)"

section \<open>Printing\<close>

text \<open>The newline of \<open>print\<close>: the next line, or a scroll on the last one.\<close>

definition next_line :: "'z console_scheme \<Rightarrow> 'z console_scheme" where
  "next_line s =
     (let s1 = (if cursor_y s < 24 then s\<lparr>cursor_y := cursor_y s + 1\<rparr> else scroll1 s)
      in s1\<lparr>cursor_x := 0\<rparr>)"

definition print_char :: "byte \<Rightarrow> 'z console_scheme \<Rightarrow> 'z console_scheme" where
  "print_char c s =
     (if c = 10 then next_line s
      else if c = 9 then s\<lparr>cursor_x := cursor_x s + 5\<rparr>
      else
        let s1 = s\<lparr>vedio := vput (vedio s) (unat (cursor_y s) * VGA_WIDTH + unat (cursor_x s))
                     (simp_text_hex_gen c 15)\<rparr>;
            s2 = s1\<lparr>cursor_x := cursor_x s1 + 1\<rparr>
        in if cursor_x s2 > 79 then next_line s2 else s2)"

fun print :: "byte list \<Rightarrow> 'z console_scheme \<Rightarrow> 'z console_scheme" where
  "print [] s = s"
| "print (c # cs) s = (if c = 0 then s else print cs (print_char c s))"

definition hex_digit :: "u32 \<Rightarrow> byte" where
  "hex_digit i = lit ''0123456789abcdef'' ! unat i"

definition print_hex :: "byte \<Rightarrow> 'z console_scheme \<Rightarrow> 'z console_scheme" where
  "print_hex b s =
     print [hex_digit (drop_bit 4 (ucast b) AND 0xf), hex_digit (ucast b AND 0xf), 0] s"

definition print_16 :: "u16 \<Rightarrow> 'z console_scheme \<Rightarrow> 'z console_scheme" where
  "print_16 val s = print_hex (ucast (val AND 0xff)) (print_hex (ucast (drop_bit 8 val AND 0xff)) s)"

definition print_32 :: "u32 \<Rightarrow> 'z console_scheme \<Rightarrow> 'z console_scheme" where
  "print_32 val s =
     print_16 (ucast (val AND 0xffff)) (print_16 (ucast (drop_bit 16 val AND 0xffff)) s)"

definition print_64 :: "u64 \<Rightarrow> 'z console_scheme \<Rightarrow> 'z console_scheme" where
  "print_64 val s =
     print_32 (ucast (val AND 0xffffffff)) (print_32 (ucast (drop_bit 32 val AND 0xffffffff)) s)"

text \<open>The routines that write at a given place; the 16-bit index of \<open>print_string_x_y\<close> wraps.\<close>

fun print_string_loop :: "byte list \<Rightarrow> nat \<Rightarrow> (nat \<Rightarrow> u16) \<Rightarrow> (nat \<Rightarrow> u16)" where
  "print_string_loop [] i v = v"
| "print_string_loop (c # cs) i v =
     (if c = 0 then v else print_string_loop cs (Suc i) (vput v i (text_mode_hex_gen c 3 0 False)))"

definition print_string :: "byte list \<Rightarrow> 'z console_scheme \<Rightarrow> 'z console_scheme" where
  "print_string str s = s\<lparr>vedio := print_string_loop str 0 (vedio s)\<rparr>"

definition print_x_y :: "byte \<Rightarrow> byte \<Rightarrow> byte \<Rightarrow> byte \<Rightarrow> 'z console_scheme \<Rightarrow> 'z console_scheme" where
  "print_x_y letter x y color s =
     s\<lparr>vedio := vput (vedio s) (unat y * VGA_WIDTH + unat x) (simp_text_hex_gen letter color)\<rparr>"

fun print_string_x_y_loop :: "byte list \<Rightarrow> u16 \<Rightarrow> byte \<Rightarrow> (nat \<Rightarrow> u16) \<Rightarrow> (nat \<Rightarrow> u16)" where
  "print_string_x_y_loop [] index color v = v"
| "print_string_x_y_loop (c # cs) index color v =
     (if c = 0 then v
      else print_string_x_y_loop cs (index + 1) color
             (vput v (unat index) (simp_text_hex_gen c color)))"

definition print_string_x_y ::
  "byte list \<Rightarrow> byte \<Rightarrow> byte \<Rightarrow> byte \<Rightarrow> 'z console_scheme \<Rightarrow> 'z console_scheme" where
  "print_string_x_y str x y color s =
     (let index = of_nat (VGA_WIDTH * unat y + unat x)
      in s\<lparr>vedio := print_string_x_y_loop str index color (vedio s)\<rparr>)"

section \<open>The closed form of a scroll\<close>

lemma vput_apply: "vput v k x i = (if i = k then x else v i)"
  by (simp add: vput_def)

lemma fill_row:
  "fold (\<lambda>i v. vput v (b + i) x) [0..<n] v k = (if b \<le> k \<and> k < b + n then x else v k)"
  by (induction n) (auto simp: vput_apply)

lemma copy_row:
  "n \<le> 80 \<Longrightarrow> fold (\<lambda>j v. vput v (r * 80 + j) (v ((r + 1) * 80 + j))) [0..<n] v k =
    (if r * 80 \<le> k \<and> k < r * 80 + n then v (k + 80) else v k)"
  by (induction n arbitrary: k) (auto simp: vput_apply algebra_simps)

lemma row_iff:
  fixes k r w :: nat
  assumes "w \<le> 80"
  shows "r * 80 \<le> k \<and> k < r * 80 + w \<longleftrightarrow> k div 80 = r \<and> k mod 80 < w"
proof
  assume *: "r * 80 \<le> k \<and> k < r * 80 + w"
  then have "k div 80 = r" using assms by (intro div_nat_eqI) auto
  with * show "k div 80 = r \<and> k mod 80 < w" using div_mult_mod_eq [of k 80] by linarith
next
  assume "k div 80 = r \<and> k mod 80 < w"
  then show "r * 80 \<le> k \<and> k < r * 80 + w" using div_mult_mod_eq [of k 80] by linarith
qed

lemma scroll_row_eq:
  "scroll_row r v k = (if k div 80 = r \<and> k mod 80 < 79 then v (k + 80) else v k)"
  using copy_row [of 79 r v k] row_iff [of 79 r k] by (simp only: scroll_row_def)

lemma scroll_clear_eq: "scroll_clear v k = (if 1896 \<le> k \<and> k < 1975 then 0 else v k)"
  using fill_row [of "24 * 79" 0 79 v k] by (simp add: scroll_clear_def del: upt_rec_numeral)

lemma scroll_rows_eq:
  "fold scroll_row [0..<n] v k = (if k div 80 < n \<and> k mod 80 < 79 then v (k + 80) else v k)"
  by (induction n arbitrary: k) (auto simp: scroll_row_eq)

text \<open>
  After a scroll the columns 0 to 78 of rows 0 to 23 show the row below; column 79 keeps its
  contents; and the cells that are cleared are 1896 to 1974, the last 24 cells of row 23 and the
  first 55 of row 24, not row 24.
\<close>

lemma scroll1_vedio:
  "vedio (scroll1 s) k =
    (if 1896 \<le> k \<and> k < 1975 then 0
     else if k div 80 < 24 \<and> k mod 80 < 79 then vedio s (k + 80) else vedio s k)"
  by (simp add: scroll1_def scroll_clear_eq scroll_rows_eq del: upt_rec_numeral)

lemma scroll1_frame [simp]: "cursor_x (scroll1 s) = cursor_x s" "cursor_y (scroll1 s) = cursor_y s"
  by (simp_all add: scroll1_def)

text \<open>
  Printing changes the three console fields and nothing else; a component that extends the state
  derives from this that its own fields are left alone.
\<close>

lemma print_char_ext: "\<exists>v x y. print_char c s = s\<lparr>vedio := v, cursor_x := x, cursor_y := y\<rparr>"
proof -
  have nl: "\<exists>v x y. next_line s = s\<lparr>vedio := v, cursor_x := x, cursor_y := y\<rparr>" for s :: "'a console_scheme"
    by (rule exI [of _ "vedio (next_line s)"], rule exI [of _ "cursor_x (next_line s)"],
        rule exI [of _ "cursor_y (next_line s)"])
      (simp add: next_line_def Let_def scroll1_def)
  let ?s = "s\<lparr>vedio := vput (vedio s) (unat (cursor_y s) * VGA_WIDTH + unat (cursor_x s))
      (simp_text_hex_gen c 15), cursor_x := cursor_x s + 1\<rparr>"
  obtain v x y where "next_line ?s = ?s\<lparr>vedio := v, cursor_x := x, cursor_y := y\<rparr>"
    using nl by blast
  then have "\<exists>v x y. next_line ?s = s\<lparr>vedio := v, cursor_x := x, cursor_y := y\<rparr>"
    by (intro exI [of _ v] exI [of _ x] exI [of _ y]) simp
  moreover have "\<exists>v x y. ?s = s\<lparr>vedio := v, cursor_x := x, cursor_y := y\<rparr>"
    by (rule exI, rule exI, rule exI [of _ "cursor_y s"]) simp
  moreover have "\<exists>v x y. s\<lparr>cursor_x := cursor_x s + 5\<rparr> = s\<lparr>vedio := v, cursor_x := x, cursor_y := y\<rparr>"
    by (rule exI [of _ "vedio s"], rule exI, rule exI [of _ "cursor_y s"]) simp
  ultimately show ?thesis using nl [of s] by (simp add: print_char_def Let_def)
qed

lemma print_ext: "\<exists>v x y. print cs s = s\<lparr>vedio := v, cursor_x := x, cursor_y := y\<rparr>"
proof (induction cs arbitrary: s)
  case Nil
  show ?case
    by (rule exI [of _ "vedio s"], rule exI [of _ "cursor_x s"], rule exI [of _ "cursor_y s"]) simp
next
  case (Cons c cs)
  obtain v x y where c: "print_char c s = s\<lparr>vedio := v, cursor_x := x, cursor_y := y\<rparr>"
    using print_char_ext by blast
  obtain v' x' y' where
    "print cs (print_char c s) = (print_char c s)\<lparr>vedio := v', cursor_x := x', cursor_y := y'\<rparr>"
    using Cons.IH by blast
  then have "print cs (print_char c s) = s\<lparr>vedio := v', cursor_x := x', cursor_y := y'\<rparr>"
    by (simp add: c)
  moreover have "s = s\<lparr>vedio := vedio s, cursor_x := cursor_x s, cursor_y := cursor_y s\<rparr>" by simp
  ultimately show ?case by (metis print.simps(2))
qed

section \<open>Output stays on the screen\<close>

definition cursor_ok :: "'z console_scheme \<Rightarrow> bool" where
  "cursor_ok s \<longleftrightarrow> cursor_x s \<le> 79 \<and> cursor_y s \<le> 24"

lemma u16_inc_le: "x \<le> 79 \<Longrightarrow> x + 1 \<le> 79 \<or> x + 1 = (80 :: u16)"
  by unat_arith

lemma u16_lt_24: "(y :: u16) < 24 \<Longrightarrow> y + 1 \<le> 24"
  by unat_arith

lemma next_line_cursor: "cursor_y s \<le> 24 \<Longrightarrow> cursor_ok (next_line s)"
  by (auto simp: next_line_def Let_def cursor_ok_def u16_lt_24)

lemma next_line_vedio: "2000 \<le> k \<Longrightarrow> vedio (next_line s) k = vedio s k"
  using div_le_mono [of 2000 k 80] by (simp add: next_line_def Let_def scroll1_vedio)

lemma print_char_cursor: "cursor_ok s \<Longrightarrow> c \<noteq> 9 \<Longrightarrow> cursor_ok (print_char c s)"
  using u16_inc_le [of "cursor_x s"]
  by (auto simp: print_char_def Let_def cursor_ok_def next_line_cursor [unfolded cursor_ok_def])

lemma cursor_cell_bound:
  assumes "cursor_ok s"
  shows "unat (cursor_y s) * VGA_WIDTH + unat (cursor_x s) < 2000"
proof -
  from assms have "unat (cursor_x s) \<le> 79" and "unat (cursor_y s) \<le> 24"
    by (auto simp: cursor_ok_def word_le_nat_alt)
  then show ?thesis by (simp add: const_defs)
qed

lemma print_char_vedio:
  "cursor_ok s \<Longrightarrow> c \<noteq> 9 \<Longrightarrow> 2000 \<le> k \<Longrightarrow> vedio (print_char c s) k = vedio s k"
  using cursor_cell_bound [of s]
  by (auto simp: print_char_def Let_def next_line_vedio vput_apply)

lemma print_cursor: "cursor_ok s \<Longrightarrow> 9 \<notin> set cs \<Longrightarrow> cursor_ok (print cs s)"
  by (induction cs arbitrary: s) (auto simp: print_char_cursor)

lemma print_vedio:
  "cursor_ok s \<Longrightarrow> 9 \<notin> set cs \<Longrightarrow> 2000 \<le> k \<Longrightarrow> vedio (print cs s) k = vedio s k"
  by (induction cs arbitrary: s) (auto simp: print_char_cursor print_char_vedio)

section \<open>A line of text\<close>

lemma print_append: "0 \<notin> set xs \<Longrightarrow> print (xs @ ys) s = print ys (print xs s)"
  by (induction xs arbitrary: s) auto

text \<open>Characters that fit on the current line land in consecutive cells, with attribute 15.\<close>

definition plain :: "byte list \<Rightarrow> bool" where
  "plain cs \<longleftrightarrow> (\<forall>c \<in> set cs. c \<noteq> 0 \<and> c \<noteq> 9 \<and> c \<noteq> 10)"

lemma u16_step: "unat (x :: u16) + 1 < 80 \<Longrightarrow> unat (x + 1) = unat x + 1 \<and> \<not> 79 < x + 1"
  by (simp add: word_less_nat_alt unat_word_ariths)

lemma print_char_plain:
  assumes "c \<noteq> 0" "c \<noteq> 9" "c \<noteq> 10" and "unat (cursor_x s) + 1 < 80"
  shows "print_char c s = s\<lparr>vedio := vput (vedio s)
           (unat (cursor_y s) * VGA_WIDTH + unat (cursor_x s)) (simp_text_hex_gen c 15),
         cursor_x := cursor_x s + 1\<rparr>"
  using assms u16_step [of "cursor_x s"] by (simp add: print_char_def Let_def)

lemma print_plain:
  "plain cs \<Longrightarrow> unat (cursor_x s) + length cs < 80 \<Longrightarrow>
    print cs s = s\<lparr>vedio := (\<lambda>k. let b = unat (cursor_y s) * 80 + unat (cursor_x s)
        in if b \<le> k \<and> k < b + length cs then simp_text_hex_gen (cs ! (k - b)) 15 else vedio s k),
      cursor_x := cursor_x s + of_nat (length cs)\<rparr>"
proof (induction cs arbitrary: s)
  case Nil
  show ?case by (rule console.equality) (auto simp: Let_def fun_eq_iff)
next
  case (Cons c cs)
  have c: "c \<noteq> 0" "c \<noteq> 9" "c \<noteq> 10" and cs: "plain cs"
    using Cons.prems(1) by (auto simp: plain_def)
  have x: "unat (cursor_x s) + 1 < 80" "unat (cursor_x s + 1) = unat (cursor_x s) + 1"
    using Cons.prems(2) u16_step [of "cursor_x s"] by auto
  have nth: "(c # cs) ! (k - b) = (if k = b then c else cs ! (k - Suc b))" if "b \<le> k" for k b
    using that by (simp add: nth_Cons')
  show ?case
    using Cons.prems(2) c x Cons.IH [OF cs, of "print_char c s"]
    unfolding print.simps print_char_plain [OF c x(1)]
    by (simp add: Let_def const_defs vput_apply add.assoc)
      (auto simp: fun_eq_iff nth vput_apply const_defs intro!: console.equality)
qed

section \<open>Hexadecimal output\<close>

text \<open>The digits a value prints as, most significant first, and their reading back.\<close>

definition hex2 :: "byte \<Rightarrow> byte list" where
  "hex2 b = [hex_digit (drop_bit 4 (ucast b) AND 0xf), hex_digit (ucast b AND 0xf)]"

definition hex4 :: "u16 \<Rightarrow> byte list" where
  "hex4 v = hex2 (ucast (drop_bit 8 v AND 0xff)) @ hex2 (ucast (v AND 0xff))"

definition hex8 :: "u32 \<Rightarrow> byte list" where
  "hex8 v = hex4 (ucast (drop_bit 16 v AND 0xffff)) @ hex4 (ucast (v AND 0xffff))"

definition hex16 :: "u64 \<Rightarrow> byte list" where
  "hex16 v = hex8 (ucast (drop_bit 32 v AND 0xffffffff)) @ hex8 (ucast (v AND 0xffffffff))"

definition hex_val :: "byte \<Rightarrow> nat" where
  "hex_val c = (if c < 58 then unat c - 48 else unat c - 87)"

definition unhex :: "byte list \<Rightarrow> nat" where
  "unhex ds = foldl (\<lambda>a d. 16 * a + hex_val d) 0 ds"

lemma nibble_cases: "(x :: u32) AND 0xf \<in> of_nat ` set [0..<16]"
proof
  have "x AND 0xf = take_bit 4 x" by (simp add: take_bit_eq_mask mask_numeral)
  then have "unat (x AND 0xf) < 16"
    using take_bit_nat_less_exp [of 4 "unat x"] by (simp add: unsigned_take_bit_eq)
  then show "unat (x AND 0xf) \<in> set [0..<16]" by simp
  show "x AND 0xf = of_nat (unat (x AND 0xf))" by simp
qed

lemma digit_facts: "i \<in> of_nat ` set [0..<16] \<Longrightarrow>
    hex_val (hex_digit i) = unat i \<and> hex_digit i \<noteq> 0 \<and> hex_digit i \<noteq> 9 \<and> hex_digit i \<noteq> 10"
  by (simp add: upt_rec hex_val_def hex_digit_def lit_def) (elim disjE; simp)

lemma unhex_foldl: "foldl (\<lambda>a d. 16 * a + hex_val d) b ds = b * 16 ^ length ds + unhex ds"
proof (induction ds arbitrary: b)
  case (Cons d ds)
  show ?case
    using Cons.IH [of "16 * b + hex_val d"] Cons.IH [of "hex_val d"]
    by (simp add: unhex_def algebra_simps)
qed (simp add: unhex_def)

lemma unhex_append: "unhex (xs @ ys) = unhex xs * 16 ^ length ys + unhex ys"
  using unhex_foldl [of "unhex xs" ys] by (simp add: unhex_def)

lemma plain_append [simp]: "plain (xs @ ys) \<longleftrightarrow> plain xs \<and> plain ys"
  by (auto simp: plain_def)

lemma hex_lengths [simp]: "length (hex2 b) = 2" "length (hex4 v) = 4" "length (hex8 w) = 8"
  "length (hex16 x) = 16"
  by (simp_all add: hex2_def hex4_def hex8_def hex16_def)

lemma hex2_plain: "plain (hex2 b)"
  using digit_facts [OF nibble_cases] by (simp add: plain_def hex2_def)

lemma hex_plain: "plain (hex2 b)" "plain (hex4 v)" "plain (hex8 w)" "plain (hex16 x)"
  by (simp_all add: hex4_def hex8_def hex16_def hex2_plain)

lemma unhex_hex2: "unhex (hex2 b) = unat b"
proof -
  have m: "x AND 0xf = take_bit 4 x" for x :: u32
    by (simp add: take_bit_eq_mask mask_numeral)
  have b: "unat b < 256" using unsigned_less [of b] by simp
  then have "unat (drop_bit 4 (ucast b) AND 0xf :: u32) = unat b div 16 mod 16"
    by (simp add: m unsigned_take_bit_eq unsigned_drop_bit_eq take_bit_eq_mod drop_bit_eq_div
        unsigned_ucast_eq unat_div unat_mod)
  moreover have "unat (ucast b AND 0xf :: u32) = unat b mod 16"
    using b by (simp add: m unsigned_take_bit_eq take_bit_eq_mod unsigned_ucast_eq unat_mod)
  ultimately show ?thesis
    using digit_facts [OF nibble_cases] b
    by (simp add: unhex_def hex2_def)
qed

lemma print_hex_hex2: "print_hex b s = print (hex2 b) s"
  using print_append [of "hex2 b" "[0]" s] hex2_plain [of b]
  by (auto simp: print_hex_def hex2_def plain_def)

lemma print_plain_append: "plain xs \<Longrightarrow> print (xs @ ys) s = print ys (print xs s)"
  by (rule print_append) (auto simp: plain_def)

lemma print_16_hex4: "print_16 v s = print (hex4 v) s"
  by (simp add: print_16_def hex4_def print_hex_hex2 print_plain_append hex_plain)

lemma print_32_hex8: "print_32 v s = print (hex8 v) s"
  by (simp add: print_32_def hex8_def print_16_hex4 print_plain_append hex_plain)

lemma print_64_hex16: "print_64 v s = print (hex16 v) s"
  by (simp add: print_64_def hex16_def print_32_hex8 print_plain_append hex_plain)

lemma unhex_hex4: "unhex (hex4 v) = unat v"
proof -
  have m: "x AND 0xff = take_bit 8 x" for x :: u16
    by (simp add: take_bit_eq_mask mask_numeral)
  have "unat v < 65536" using unsigned_less [of v] by simp
  then show ?thesis
    by (simp add: hex4_def unhex_append unhex_hex2 m unsigned_ucast_eq unsigned_take_bit_eq
        unsigned_drop_bit_eq take_bit_eq_mod drop_bit_eq_div unat_div unat_mod)
qed

lemma unhex_hex8: "unhex (hex8 v) = unat v"
proof -
  have m: "x AND 0xffff = take_bit 16 x" for x :: u32
    by (simp add: take_bit_eq_mask mask_numeral)
  have "unat v < 4294967296" using unsigned_less [of v] by simp
  then show ?thesis
    by (simp add: hex8_def unhex_append unhex_hex4 m unsigned_ucast_eq unsigned_take_bit_eq
        unsigned_drop_bit_eq take_bit_eq_mod drop_bit_eq_div unat_div unat_mod)
qed

lemma unhex_hex16: "unhex (hex16 v) = unat v"
proof -
  have m: "x AND 0xffffffff = take_bit 32 x" for x :: u64
    by (simp add: take_bit_eq_mask mask_numeral)
  have "unat v < 18446744073709551616" using unsigned_less [of v] by simp
  then show ?thesis
    by (simp add: hex16_def unhex_append unhex_hex8 m unsigned_ucast_eq unsigned_take_bit_eq
        unsigned_drop_bit_eq take_bit_eq_mod drop_bit_eq_div unat_div unat_mod)
qed

section \<open>Properties\<close>

text \<open>C33: text without tabs never leaves the screen: from a cursor inside the 80 by 25 cells it ends with a cursor
  inside them, and no word behind the 2000 cells is written, however often the screen scrolls.\<close>

theorem print_stays_on_screen:
  assumes "cursor_ok s" and "9 \<notin> set cs"
  shows "cursor_ok (print cs s) \<and> (\<forall>k\<ge>2000. vedio (print cs s) k = vedio s k)"
  using print_cursor [OF assms] print_vedio [OF assms] by blast

definition blank_screen :: console where
  "blank_screen = \<lparr>vedio = (\<lambda>_. 0), cursor_x = 75, cursor_y = 24\<rparr>"

lemma print_stays_on_screen_witness: "vedio (print (lit ''GENESIS-32'') blank_screen) 2000 = 0"
  using print_stays_on_screen [of blank_screen "lit ''GENESIS-32''"]
  by (simp add: cursor_ok_def blank_screen_def lit_def)

text \<open>C34: what \<open>print_32\<close> and \<open>print_64\<close> show on a line with room is the value: the digits in the cells behind the
  cursor, read back as a hexadecimal number, give it.\<close>

definition shown_text :: "'z console_scheme \<Rightarrow> nat \<Rightarrow> nat \<Rightarrow> byte list" where
  "shown_text s b n = map (\<lambda>i. ucast (vedio s (b + i))) [0..<n]"

lemma cell_letter: "ucast (simp_text_hex_gen c col) = c"
  by (rule bit_word_eqI) (auto simp: simp_text_hex_gen_def bit_simps)

lemma shown_text_print:
  assumes "plain cs" and "unat (cursor_x s) + length cs < 80"
  shows "shown_text (print cs s) (unat (cursor_y s) * 80 + unat (cursor_x s)) (length cs) = cs"
  by (rule nth_equalityI) (simp_all add: shown_text_def print_plain [OF assms] cell_letter)

theorem print_hex_reads_back:
  assumes "unat (cursor_x s) + 16 < 80" and "b = unat (cursor_y s) * 80 + unat (cursor_x s)"
  shows "unhex (shown_text (print_32 v s) b 8) = unat v \<and> unhex (shown_text (print_64 w s) b 16) = unat w"
  using shown_text_print [OF hex_plain(3) [of v], of s] shown_text_print [OF hex_plain(4) [of w], of s] assms
  by (simp add: print_32_hex8 print_64_hex16 unhex_hex8 unhex_hex16)

lemma print_hex_reads_back_witness:
  "unhex (shown_text (print_32 0xcafe (blank_screen\<lparr>cursor_x := 3\<rparr>)) 1923 8) = 0xcafe"
  using print_hex_reads_back [of "blank_screen\<lparr>cursor_x := 3\<rparr>" 1923 "0xcafe" 0] by (simp add: blank_screen_def)

end
