(* ===== verification/Essentials.thy ===== *)
theory Essentials
  imports Prelude
begin

text \<open>
  The memory routines of \<open>src/kernel/essentials/essentials.c\<close> over the flat memory.  A counted
  loop \<open>for(size_t i=0;i<n;i++)\<close> is a \<open>fold\<close> over \<open>[0..<n]\<close>; a loop that can leave early is a
  recursive function.  The lemmas give each routine its closed form: \<open>memset\<close> and \<open>memcpy\<close> are
  single stores of a byte list, the word-wise \<open>memset_fast\<close> and the dispatcher \<open>gen_memset\<close> are
  equal to \<open>memset\<close>, and \<open>memcmp\<close> orders byte blocks lexicographically.
\<close>

section \<open>get\_str\_len\<close>

function get_str_len_loop :: "mem \<Rightarrow> addr \<Rightarrow> nat \<Rightarrow> nat" where
  "get_str_len_loop m src i =
     (if m (src + of_nat i) \<noteq> 0 \<and> i < 99999 then get_str_len_loop m src (Suc i) else i)"
  by pat_completeness auto
termination
  by (relation "measure (\<lambda>(m, src, i). 99999 - i)") auto

declare get_str_len_loop.simps [simp del]

definition get_str_len :: "mem \<Rightarrow> addr \<Rightarrow> u32" where
  "get_str_len m src = of_nat (get_str_len_loop m src 0)"

section \<open>memset\<close>

definition memset :: "mem \<Rightarrow> addr \<Rightarrow> u32 \<Rightarrow> u32 \<Rightarrow> mem" where
  "memset m s c n = fold (\<lambda>i m. st8 m (s + of_nat i) (ucast c)) [0..<unat n] m"

text \<open>
  The local \<open>uint32_t val\<close> of \<open>memset_fast\<close> is four bytes of its own: a private memory whose
  bytes \<open>0..3\<close> the call \<open>memset(&val,c,4)\<close> fills.
\<close>

definition memset_fast :: "mem \<Rightarrow> addr \<Rightarrow> u32 \<Rightarrow> u32 \<Rightarrow> mem" where
  "memset_fast m s c n =
     (let n1 = n div 4;
          val = ld32 (memset (\<lambda>_. 0) 0 c 4) 0;
          m1 = fold (\<lambda>i m. st32 m (s + 4 * of_nat i) val) [0..<unat n1] m;
          ptr = s + 4 * n1
      in memset m1 ptr c (n mod 4))"

definition gen_memset :: "mem \<Rightarrow> addr \<Rightarrow> u32 \<Rightarrow> u32 \<Rightarrow> mem" where
  "gen_memset m s c n = (if s mod 4 = 0 then memset_fast m s c n else memset m s c n)"

section \<open>memcmp and memcpy\<close>

fun memcmp_loop :: "mem \<Rightarrow> addr \<Rightarrow> addr \<Rightarrow> nat \<Rightarrow> int" where
  "memcmp_loop m p1 p2 0 = 0"
| "memcmp_loop m p1 p2 (Suc n) =
     (if m p1 \<noteq> m p2 then uint (m p1) - uint (m p2) else memcmp_loop m (p1 + 1) (p2 + 1) n)"

definition memcmp :: "mem \<Rightarrow> addr \<Rightarrow> addr \<Rightarrow> u32 \<Rightarrow> int" where
  "memcmp m s1 s2 n = memcmp_loop m s1 s2 (unat n)"

definition memcpy :: "mem \<Rightarrow> addr \<Rightarrow> addr \<Rightarrow> u32 \<Rightarrow> mem" where
  "memcpy m dest src n =
     fold (\<lambda>i m. st8 m (dest + of_nat i) (m (src + of_nat i))) [0..<unat n] m"

section \<open>Lemmas: get\_str\_len\<close>

lemma get_str_len_loop_bound: "i \<le> 99999 \<Longrightarrow> get_str_len_loop m src i \<le> 99999"
  by (induction m src i rule: get_str_len_loop.induct)
    (simp add: get_str_len_loop.simps [of m src i for m src i])

lemma get_str_len_loop_cstr:
  assumes "cstr m p s" and "length s \<le> 99999" and "i \<le> length s"
  shows "get_str_len_loop m p i = length s"
  using assms(3)
proof (induction "length s - i" arbitrary: i)
  case 0
  with assms have "i = length s" by simp
  with assms show ?case by (simp add: get_str_len_loop.simps [of m p "length s"] cstr_end)
next
  case (Suc k)
  then have "i < length s" by simp
  moreover from this have "m (p + of_nat i) \<noteq> 0" using cstr_nth [OF assms(1)] by simp
  ultimately show ?case
    using Suc assms(2) by (simp add: get_str_len_loop.simps [of m p i])
qed

section \<open>Lemmas: memset\<close>

lemma memset_fold:
  "n \<le> 2 ^ 32 \<Longrightarrow> fold (\<lambda>i m. st8 m (s + of_nat i) v) [0..<n] m = put_bytes m s (replicate n v)"
proof (induction n)
  case (Suc n)
  then show ?case
    using put_bytes_snoc [of "replicate n v" m s v] by (simp add: replicate_append_same)
qed simp

lemma memset_eq: "memset m s c n = put_bytes m s (replicate (unat n) (ucast c))"
  unfolding memset_def by (rule memset_fold) (use unat_lt_2p32 [of n] in simp)

lemma memset_in: "in_range s (unat n) x \<Longrightarrow> memset m s c n x = ucast c"
  by (simp add: memset_eq put_bytes_def) (simp add: in_range_def)

lemma memset_out [mem_simps]: "\<not> in_range s (unat n) x \<Longrightarrow> memset m s c n x = m x"
  by (simp add: memset_eq mem_simps)

lemma st32_as_put_bytes:
  "ucast v = b \<Longrightarrow> ucast (drop_bit 8 v) = b \<Longrightarrow> ucast (drop_bit 16 v) = b \<Longrightarrow>
    ucast (drop_bit 24 v) = b \<Longrightarrow> st32 m a v = fold (\<lambda>i m. st8 m (a + of_nat i) b) [0..<4] m"
  by (simp add: st32_def numeral_eq_Suc)

lemma rep4_bytes:
  fixes c :: u32
  defines "v \<equiv> ld32 (memset (\<lambda>_. 0) 0 c 4) 0"
  shows "ucast v = (ucast c :: byte)" and "ucast (drop_bit 8 v) = (ucast c :: byte)"
    and "ucast (drop_bit 16 v) = (ucast c :: byte)" and "ucast (drop_bit 24 v) = (ucast c :: byte)"
proof -
  have "memset (\<lambda>_. 0) 0 c 4 i = ucast c" if "in_range 0 4 i" for i
    using that by (simp add: memset_in)
  then have v: "v = ld32 (\<lambda>_. ucast c) 0"
    unfolding v_def by (intro ld32_cong)
  show "ucast v = (ucast c :: byte)" and "ucast (drop_bit 8 v) = (ucast c :: byte)"
    and "ucast (drop_bit 16 v) = (ucast c :: byte)" and "ucast (drop_bit 24 v) = (ucast c :: byte)"
    unfolding v by (rule bit_word_eqI, auto simp: ld32_def bit_simps)+
qed

lemma fold_shift_upt: "fold f [k..<k + n] x = fold (\<lambda>i. f (k + i)) [0..<n] x"
  by (induction n) simp_all

lemma memset_words:
  assumes "4 * n \<le> 2 ^ 32"
  shows "fold (\<lambda>i m. st32 m (s + 4 * of_nat i) (ld32 (memset (\<lambda>_. 0) 0 c 4) 0)) [0..<n] m
    = fold (\<lambda>i m. st8 m (s + of_nat i) (ucast c)) [0..<4 * n] m"
  using assms
proof (induction n)
  case (Suc n)
  have *: "[0..<4 * Suc n] = [0..<4 * n] @ [4 * n..<4 * n + 4]"
    using upt_add_eq_append [of 0 "4 * n" 4] by (simp add: algebra_simps)
  show ?case
    unfolding * fold_append comp_def fold_shift_upt using Suc
    by (simp add: st32_as_put_bytes [OF rep4_bytes] algebra_simps)
qed simp

text \<open>The word-wise routine and the dispatcher write the same bytes as \<open>memset\<close>, for every
  address, fill value and length, multiple of four or not.\<close>

lemma memset_fast_eq_memset: "memset_fast m s c n = memset m s c n"
proof -
  let ?k = "unat n div 4"
  have k: "unat (n div 4) = ?k" "unat (n mod 4) = unat n mod 4"
    by (simp_all add: unat_div unat_mod)
  have b: "4 * ?k \<le> 2 ^ 32" using unat_lt_2p32 [of n] by simp
  have ptr: "4 * (n div 4) = of_nat (4 * ?k)"
    by (rule word_unat_eq_iff [THEN iffD2])
      (use unat_lt_2p32 [of n] in \<open>simp add: unat_mult_lem [THEN iffD1] unat_div unat_of_nat32\<close>)
  have split: "[0..<unat n] = [0..<4 * ?k] @ [4 * ?k..<4 * ?k + unat n mod 4]"
    using upt_add_eq_append [of 0 "4 * ?k" "unat n mod 4"] by simp
  show ?thesis
    unfolding memset_fast_def Let_def k memset_words [OF b] memset_def [of m] split
    by (simp only: fold_append comp_def fold_shift_upt memset_def k ptr of_nat_add add.assoc)
qed

lemma gen_memset_eq_memset: "gen_memset m s c n = memset m s c n"
  by (simp add: gen_memset_def memset_fast_eq_memset)

section \<open>Lemmas: memcmp and memcpy\<close>

lemma memcmp_loop_eq_0: "memcmp_loop m p q n = 0 \<longleftrightarrow> bytes_at m p n = bytes_at m q n"
  by (induction m p q n rule: memcmp_loop.induct)
    (auto simp: bytes_at_Suc word_uint_eq_iff)

lemma memcmp_loop_neg:
  "memcmp_loop m p q n < 0 \<longleftrightarrow> ord_class.lexordp (bytes_at m p n) (bytes_at m q n)"
  by (induction m p q n rule: memcmp_loop.induct)
    (auto simp: bytes_at_Suc word_less_def word_uint_eq_iff)

text \<open>
  The byte \<open>s + n\<close> is not among the \<open>n\<close> bytes already copied to \<open>d\<close> when \<open>d\<close> does not lie
  strictly inside the source block.
\<close>

lemma memcpy_source_intact:
  assumes "n < unat (d - s)"
  shows "\<not> in_range d n (s + of_nat n)"
proof
  assume "in_range d n (s + of_nat n)"
  then obtain j where j: "j < n" and eq: "s + of_nat n = d + of_nat j"
    by (rule in_rangeE) simp
  have "n < 2 ^ 32" using assms unat_lt_2p32 [of "d - s"] by linarith
  from eq j have "d - s = of_nat (n - j)"
    by (simp add: of_nat_diff algebra_simps)
  with \<open>n < 2 ^ 32\<close> have "unat (d - s) = n - j" by (simp add: unat_of_nat32)
  with assms show False by simp
qed

lemma memcpy_fold:
  assumes "n \<le> 2 ^ 32" and "d = s \<or> n \<le> unat (d - s)"
  shows "fold (\<lambda>i m. st8 m (d + of_nat i) (m (s + of_nat i))) [0..<n] m
    = put_bytes m d (bytes_at m s n)"
  using assms
proof (induction n)
  case (Suc n)
  have n: "n < 2 ^ 32" using Suc.prems by simp
  have "put_bytes m d (bytes_at m s n) (s + of_nat n) = m (s + of_nat n)"
  proof (cases "d = s")
    case True
    with n show ?thesis by (simp add: put_bytes_def range_simps)
  next
    case False
    with Suc.prems show ?thesis
      using memcpy_source_intact [of n d s] by (simp add: put_bytes_out)
  qed
  moreover have "bytes_at m s (Suc n) = bytes_at m s n @ [m (s + of_nat n)]"
    using bytes_at_append [of m s n 1] by (simp add: bytes_at_Suc)
  ultimately show ?case
    using Suc n put_bytes_snoc [of "bytes_at m s n" m d "m (s + of_nat n)"] by auto
qed simp

lemma memcpy_eq:
  "d = s \<or> unat n \<le> unat (d - s) \<Longrightarrow> memcpy m d s n = put_bytes m d (bytes_at m s (unat n))"
  unfolding memcpy_def by (rule memcpy_fold) (use unat_lt_2p32 [of n] in simp_all)

lemma memcpy_out [mem_simps]: "\<not> in_range d (unat n) x \<Longrightarrow> memcpy m d s n x = m x"
proof -
  have "\<not> in_range d k x \<Longrightarrow> k \<le> 2 ^ 32 \<Longrightarrow>
      fold (\<lambda>i m. st8 m (d + of_nat i) (m (s + of_nat i))) [0..<k] m x = m x" for k
  proof (induction k)
    case (Suc k)
    then have "\<not> in_range d k x" and "x \<noteq> d + of_nat k"
      by (auto dest: in_range_mono [where k = "Suc k"] simp: range_simps)
    with Suc show ?case by simp
  qed simp
  then show "\<not> in_range d (unat n) x \<Longrightarrow> memcpy m d s n x = m x"
    using unat_lt_2p32 [of n] by (simp add: memcpy_def)
qed

text \<open>The forward copy is not a \<open>memmove\<close>: one byte past the source it smears the first byte.\<close>

lemma memcpy_smear_fold:
  "n < 2 ^ 32 \<Longrightarrow> fold (\<lambda>i m. st8 m (s + 1 + of_nat i) (m (s + of_nat i))) [0..<n] m
    = put_bytes m (s + 1) (replicate n (m s))"
proof (induction n)
  case (Suc n)
  have n: "n < 2 ^ 32" using Suc.prems by simp
  have "put_bytes m (s + 1) (replicate n (m s)) (s + of_nat n) = m s"
  proof (cases n)
    case (Suc k)
    then have eq: "s + of_nat n = (s + 1) + of_nat k" by simp
    have "put_bytes m (s + 1) (replicate n (m s)) ((s + 1) + of_nat k) = replicate n (m s) ! k"
      by (rule put_bytes_in) (use Suc n in simp_all)
    also have "\<dots> = m s" using Suc by (simp del: replicate_Suc)
    finally show ?thesis by (simp only: eq)
  qed simp
  then show ?case
    using Suc n put_bytes_snoc [of "replicate n (m s)" m "s + 1" "m s"]
    by (simp add: replicate_append_same)
qed simp

section \<open>Properties\<close>

text \<open>C35: the three fill routines are one: the word-wise \<open>memset_fast\<close> and the dispatcher \<open>gen_memset\<close> write what the
  byte loop writes, \<open>n\<close> times the low byte of the fill value and nothing else, for every address, value and
  length, multiple of four or not.\<close>

theorem memset_routines_agree:
  "memset m s c n = put_bytes m s (replicate (unat n) (ucast c)) \<and> memset_fast m s c n = memset m s c n \<and>
    gen_memset m s c n = memset m s c n"
  using memset_eq memset_fast_eq_memset gen_memset_eq_memset by blast

end
