(* ===== verification/Kernel_Heap.thy ===== *)
theory Kernel_Heap
  imports Allocator Block_Table Console Essentials
begin

text \<open>
  The page allocator of \<open>src/kernel/heap/heap.c\<close> and the kernel heap of \<open>src/kernel/heap/kheap.c\<close>.
  \<open>machine\<close> extends the console with the flat memory; \<open>kheap_state\<close> adds the two global structs of
  \<open>kheap.c\<close>.  A pointer into the block table is modelled by the index of its entry, so that
  \<open>ptr < max\<close> is a comparison of indices; loads and stores through it are byte accesses at
  \<open>entries + index\<close>, inside the table or not.
\<close>

record machine = console +
  mem :: mem

definition GEN32_INVARG :: int where [const_defs]: "GEN32_INVARG = 2"
definition KHEAP_SIZE_BYTES :: u32 where [const_defs]: "KHEAP_SIZE_BYTES = 0x6400000"
definition KHEAP_START :: addr where [const_defs]: "KHEAP_START = 0x1000000"
definition KHEAP_TABLE :: addr where [const_defs]: "KHEAP_TABLE = 0x7e00"
definition KHEAP_BLOCK_SIZE :: u32 where [const_defs]: "KHEAP_BLOCK_SIZE = 4096"

record heap_table =
  entries :: addr
  total :: u32

record heap =
  table :: "heap_table option"
  start_addr :: addr
  end_addr :: addr

section \<open>heap.c\<close>

text \<open>\<open>heap_val->table\<close> as a struct: through the null pointer, the bytes at address 0.\<close>

definition table_of :: "heap \<Rightarrow> mem \<Rightarrow> heap_table" where
  "table_of h m = (case table h of Some t \<Rightarrow> t | None \<Rightarrow> \<lparr>entries = ld32 m 0, total = ld32 m 4\<rparr>)"

definition heap_validate_alignment :: "addr \<Rightarrow> bool" where
  "heap_validate_alignment e \<longleftrightarrow> sint e smod 4096 = 0"

definition heap_entry_count :: "heap \<Rightarrow> heap_table \<Rightarrow> bool" where
  "heap_entry_count h t \<longleftrightarrow>
     (word_of_int (sint (end_addr h - start_addr h) sdiv 4096) :: u32) = total t"

definition heap_create ::
  "heap \<Rightarrow> addr \<Rightarrow> addr \<Rightarrow> heap_table \<Rightarrow> 'z machine_scheme \<Rightarrow> int \<times> heap \<times> 'z machine_scheme" where
  "heap_create h ptr end' ht s =
     (if \<not> heap_validate_alignment end' \<or> \<not> heap_validate_alignment ptr
      then (- GEN32_INVARG, h, s)
      else
        let h1 = h\<lparr>table := None, start_addr := ptr, end_addr := end'\<rparr>
        in if \<not> heap_entry_count h1 ht then (- GEN32_INVARG, h1, s)
           else
             let h2 = h1\<lparr>table := Some ht\<rparr>;
                 s1 = s\<lparr>mem := memset (mem s) (entries ht) 0 (total ht * 1)\<rparr>;
                 s2 = print (lit ''heap create successfull.'') s1
             in (0, h2, s2))"

text \<open>
  The search of \<open>heap_get_start_block\<close> over the table of \<open>n\<close> entries at \<open>e\<close>: \<open>scan_more\<close> is the
  inner \<open>while\<close>, which returns the final \<open>count\<close> and \<open>i\<close>, and \<open>scan\<close> the outer \<open>for\<close>.
\<close>

function scan_more :: "mem \<Rightarrow> addr \<Rightarrow> nat \<Rightarrow> nat \<Rightarrow> nat \<Rightarrow> nat \<Rightarrow> nat \<times> nat" where
  "scan_more m e n bc count i =
     (if count < bc \<and> i < n \<and> m (e + of_nat i) = 0 then scan_more m e n bc (Suc count) (Suc i)
      else (count, i))"
  by pat_completeness auto
termination
  by (relation "measure (\<lambda>(m, e, n, bc, count, i). n - i)") auto

declare scan_more.simps [simp del]

lemma scan_more_ge: "i \<le> snd (scan_more m e n bc count i)"
proof (induction m e n bc count i rule: scan_more.induct)
  case (1 m e n bc count i)
  then show ?case by (subst scan_more.simps) auto
qed

lemma scan_more_gt: "i < Suc (snd (scan_more m e n bc c (Suc i)))"
  using scan_more_ge [of "Suc i" m e n bc c] by linarith

function scan :: "mem \<Rightarrow> addr \<Rightarrow> nat \<Rightarrow> nat \<Rightarrow> nat \<Rightarrow> nat option" where
  "scan m e n bc i =
     (if i < n
      then if m (e + of_nat i) = 0
           then if fst (scan_more m e n bc 1 (Suc i)) = bc then Some i
                else scan m e n bc (Suc (snd (scan_more m e n bc 1 (Suc i))))
           else scan m e n bc (Suc i)
      else None)"
  by pat_completeness auto
termination
  by (relation "measure (\<lambda>(m, e, n, bc, i). n - i)")
    (simp_all add: diff_less_mono2 scan_more_gt)

declare scan.simps [simp del]

definition heap_get_start_block ::
  "heap \<Rightarrow> u32 \<Rightarrow> 'z machine_scheme \<Rightarrow> nat option \<times> 'z machine_scheme" where
  "heap_get_start_block h block_count s =
     (let t = table_of h (mem s)
      in case scan (mem s) (entries t) (unat (total t)) (unat block_count) 0 of
           Some i \<Rightarrow> (Some i, s)
         | None \<Rightarrow> (None, print (lit ''heap_get_start_block null'') s))"

text \<open>The stores of \<open>heap_malloc\<close> for \<open>bc\<close> blocks from entry \<open>i\<close> on.\<close>

definition heap_mark :: "mem \<Rightarrow> addr \<Rightarrow> nat \<Rightarrow> nat \<Rightarrow> mem" where
  "heap_mark m e i bc =
     (if bc = 1 then st8 m (e + of_nat i) HEAP_TABLE_BLOCK_SINGLE
      else
        let m1 = st8 m (e + of_nat i) HEAP_TABLE_BLOCK_START;
            m2 = fold (\<lambda>k m. st8 m (e + of_nat k) HEAP_TABLE_BLOCK_MID) [i + 1..<i + bc - 1] m1
        in st8 m2 (e + of_nat (i + bc) - 1) HEAP_TABLE_BLOCK_END)"

definition heap_malloc :: "heap \<Rightarrow> u32 \<Rightarrow> 'z machine_scheme \<Rightarrow> addr \<times> 'z machine_scheme" where
  "heap_malloc h sz s =
     (let block_count = drop_bit 12 (sz + KHEAP_BLOCK_SIZE - 1)
      in case heap_get_start_block h block_count s of
           (None, s1) \<Rightarrow> (0, s1)
         | (Some i, s1) \<Rightarrow>
             let e = entries (table_of h (mem s1))
             in if e + of_nat i = 0 then (0, s1)
                else (start_addr h + of_nat i * KHEAP_BLOCK_SIZE, s1\<lparr>mem := heap_mark (mem s1) e i (unat block_count)\<rparr>))"

function heap_free_loop :: "mem \<Rightarrow> addr \<Rightarrow> nat \<Rightarrow> nat \<Rightarrow> mem \<times> nat" where
  "heap_free_loop m e n i =
     (if m (e + of_nat i) \<noteq> HEAP_TABLE_BLOCK_END \<and> i < n
      then heap_free_loop (st8 m (e + of_nat i) 0) e n (Suc i)
      else (m, i))"
  by pat_completeness auto
termination
  by (relation "measure (\<lambda>(m, e, n, i). n - i)") auto

declare heap_free_loop.simps [simp del]

definition heap_free_at :: "mem \<Rightarrow> addr \<Rightarrow> nat \<Rightarrow> nat \<Rightarrow> mem" where
  "heap_free_at m e n i =
     (if m (e + of_nat i) = HEAP_TABLE_BLOCK_SINGLE then st8 m (e + of_nat i) 0
      else if m (e + of_nat i) = HEAP_TABLE_BLOCK_START then
        (case heap_free_loop m e n i of
          (m1, k) \<Rightarrow> if k < n then st8 m1 (e + of_nat k) 0 else m1)
      else m)"

definition heap_free :: "heap \<Rightarrow> addr \<Rightarrow> 'z machine_scheme \<Rightarrow> 'z machine_scheme" where
  "heap_free h abs_addr s =
     (let i = (abs_addr - start_addr h) div KHEAP_BLOCK_SIZE;
          t = table_of h (mem s)
      in s\<lparr>mem := heap_free_at (mem s) (entries t) (unat (total t)) (unat i)\<rparr>)"

section \<open>kheap.c\<close>

record kheap_state = machine +
  kernel_heap :: heap
  kernel_heap_table :: heap_table

definition kheap_init :: "'z kheap_state_scheme \<Rightarrow> 'z kheap_state_scheme" where
  "kheap_init s =
     (let kt = \<lparr>entries = KHEAP_TABLE, total = KHEAP_SIZE_BYTES div KHEAP_BLOCK_SIZE\<rparr>;
          s1 = s\<lparr>kernel_heap_table := kt\<rparr>;
          end' = KHEAP_START + KHEAP_SIZE_BYTES
      in case heap_create (kernel_heap s1) KHEAP_START end' kt s1 of
           (r, h, s2) \<Rightarrow>
             let s3 = s2\<lparr>kernel_heap := h\<rparr>
             in if r < 0 then print (lit (''failed to create heap.'' @ [CHR 10])) s3 else s3)"

definition kmalloc :: "u32 \<Rightarrow> 'z kheap_state_scheme \<Rightarrow> addr \<times> 'z kheap_state_scheme" where
  "kmalloc sz s = heap_malloc (kernel_heap s) sz s"

definition kzalloc :: "u32 \<Rightarrow> 'z kheap_state_scheme \<Rightarrow> addr \<times> 'z kheap_state_scheme" where
  "kzalloc sz s =
     (case kmalloc sz s of
       (ptr, s1) \<Rightarrow>
         if ptr \<noteq> 0 then (ptr, s1\<lparr>mem := memset (mem s1) ptr 0 sz\<rparr>) else (ptr, s1))"

definition kfree :: "addr \<Rightarrow> 'z kheap_state_scheme \<Rightarrow> 'z kheap_state_scheme" where
  "kfree ptr s = heap_free (kernel_heap s) ptr s"

section \<open>The search is first fit\<close>

lemma scan_more_spec:
  assumes "count \<le> bc" and "i \<le> n" and "scan_more m e n bc count i = (c, k)"
  shows "c \<le> bc \<and> i \<le> k \<and> k \<le> n \<and> c + i = count + k \<and> (\<forall>j. i \<le> j \<and> j < k \<longrightarrow> m (e + of_nat j) = 0)
    \<and> (c = bc \<or> k = n \<or> m (e + of_nat k) \<noteq> 0)"
  using assms
proof (induction m e n bc count i rule: scan_more.induct)
  case (1 m e n bc count i)
  show ?case
  proof (cases "count < bc \<and> i < n \<and> m (e + of_nat i) = 0")
    case True
    then have "scan_more m e n bc (Suc count) (Suc i) = (c, k)"
      using "1.prems"(3) by (simp add: scan_more.simps [of m e n bc count i])
    from "1.IH" [OF True _ _ this] True show ?thesis
      by (auto simp: Suc_le_eq) (metis le_neq_implies_less)+
  next
    case False
    then have "c = count \<and> k = i"
      using "1.prems"(3) by (auto simp: scan_more.simps [of m e n bc count i])
    with False "1.prems"(1,2) show ?thesis by auto
  qed
qed

lemma free_run_bytes_at:
  "free_run (bytes_at m e n) i bc \<longleftrightarrow> i + bc \<le> n \<and> (\<forall>j. i \<le> j \<and> j < i + bc \<longrightarrow> m (e + of_nat j) = 0)"
  (is "?l \<longleftrightarrow> ?r")
proof
  assume ?l
  then show ?r using free_runD [of "bytes_at m e n" i bc] by (auto simp: free_run_def)
next
  assume r: ?r
  then have "m (e + of_nat (i + j)) = 0" if "j < bc" for j
    using that by (simp del: of_nat_add)
  with r show ?l by (simp add: free_run_def)
qed

lemma scan_spec:
  assumes "1 \<le> bc"
  shows "case scan m e n bc i of
      Some k \<Rightarrow> i \<le> k \<and> free_run (bytes_at m e n) k bc
        \<and> (\<forall>j. i \<le> j \<and> j < k \<longrightarrow> \<not> free_run (bytes_at m e n) j bc)
    | None \<Rightarrow> \<forall>j\<ge>i. \<not> free_run (bytes_at m e n) j bc"
  using assms
proof (induction m e n bc i rule: scan.induct)
  case (1 m e n bc i)
  let ?free = "\<lambda>j. free_run (bytes_at m e n) j bc"
  note bc = "1.prems"
  show ?case
  proof (cases "i < n")
    case False
    then have "\<forall>j\<ge>i. \<not> ?free j" using bc by (auto simp: free_run_def)
    with False show ?thesis by (simp add: scan.simps [of m e n bc i])
  next
    case i: True
    show ?thesis
    proof (cases "m (e + of_nat i) = 0")
      case False
      then have "\<not> ?free i" using bc by (auto simp: free_run_bytes_at)
      moreover have "scan m e n bc i = scan m e n bc (Suc i)"
        using i False by (simp add: scan.simps [of m e n bc i])
      ultimately show ?thesis
        using "1.IH"(2) [OF i False bc]
        by (auto split: option.splits simp: Suc_le_eq) (metis le_neq_implies_less)+
    next
      case z: True
      obtain c k where ck: "scan_more m e n bc 1 (Suc i) = (c, k)" by fastforce
      note spec = scan_more_spec [OF bc _ ck]
      show ?thesis
      proof (cases "c = bc")
        case True
        have "?free i"
          using spec i z True bc by (auto simp: free_run_bytes_at Suc_le_eq)
            (metis add.commute le_neq_implies_less)
        then show ?thesis using i z ck True by (auto simp: scan.simps [of m e n bc i])
      next
        case False
        have none: "\<not> ?free j" if "i \<le> j" "j \<le> k" for j
        proof
          assume "?free j"
          then have "j + bc \<le> n" and zero: "\<forall>x. j \<le> x \<and> x < j + bc \<longrightarrow> m (e + of_nat x) = 0"
            by (auto simp: free_run_bytes_at)
          moreover have "k < j + bc" using spec i that False by auto
          ultimately show False using spec i False that by auto
        qed
        have "scan m e n bc i = scan m e n bc (Suc k)"
          using i z ck False by (simp add: scan.simps [of m e n bc i])
        moreover have "i \<le> k" using spec i by auto
        ultimately show ?thesis
          using "1.IH"(1) [OF i z _ bc] none ck False
          by (auto split: option.splits simp: Suc_le_eq) (metis not_less)+
      qed
    qed
  qed
qed

lemma scan_first_fit: "1 \<le> bc \<Longrightarrow> scan m e n bc 0 = first_fit (bytes_at m e n) bc"
proof (cases "scan m e n bc 0")
  case None
  then show "1 \<le> bc \<Longrightarrow> ?thesis"
    using scan_spec [where m = m and e = e and n = n and bc = bc and i = 0] first_fit_None [of bc "bytes_at m e n"] by simp
next
  case (Some k)
  then show "1 \<le> bc \<Longrightarrow> ?thesis"
    using scan_spec [where m = m and e = e and n = n and bc = bc and i = 0] first_fit_Some [of "bytes_at m e n" bc k]
      free_run_bound [of "bytes_at m e n" k bc]
    by auto
qed

section \<open>The stores mark and clear runs\<close>

lemma st8_fold:
  "b \<le> 2 ^ 32 \<Longrightarrow> k < 2 ^ 32 \<Longrightarrow>
    fold (\<lambda>j m. st8 m (e + of_nat j) v) [a..<b] m (e + of_nat k)
      = (if a \<le> k \<and> k < b then v else m (e + of_nat k))"
proof (induction b)
  case (Suc b)
  then show ?case by (cases "a \<le> b") (auto simp: st8_apply of_nat_eq_iff32)
qed simp

lemma st8_fold_out:
  "(\<And>j. a \<le> j \<Longrightarrow> j < b \<Longrightarrow> x \<noteq> e + of_nat j) \<Longrightarrow>
    fold (\<lambda>j m. st8 m (e + of_nat j) v) [a..<b] m x = m x"
proof (induction b)
  case (Suc b)
  then show ?case by (cases "a \<le> b") (auto simp: st8_apply)
qed simp

lemma heap_mark_cell:
  assumes "1 \<le> bc" and "i + bc \<le> 2 ^ 32" and "k < 2 ^ 32"
  shows "heap_mark m e i bc (e + of_nat k)
    = (if i \<le> k \<and> k < i + bc then run_cell bc (k - i) else m (e + of_nat k))"
proof -
  have last: "e + of_nat (i + bc) - 1 = e + of_nat (i + bc - 1)"
    using assms(1) by (simp add: of_nat_diff)
  show ?thesis
    using assms unfolding heap_mark_def Let_def last
    by (auto simp: st8_apply st8_fold of_nat_eq_iff32 run_cell_def const_defs
        simp del: of_nat_add of_nat_diff of_nat_Suc)
qed

lemma heap_mark_out:
  assumes "1 \<le> bc" and "\<And>j. i \<le> j \<Longrightarrow> j < i + bc \<Longrightarrow> x \<noteq> e + of_nat j"
  shows "heap_mark m e i bc x = m x"
proof -
  have last: "e + of_nat (i + bc) - 1 = e + of_nat (i + bc - 1)"
    using assms(1) by (simp add: of_nat_diff)
  show ?thesis
    using assms unfolding heap_mark_def Let_def last
    by (simp add: st8_apply st8_fold_out del: of_nat_add of_nat_diff)
qed

lemma heap_mark_view:
  assumes "1 \<le> bc" and "free_run (bytes_at m e n) i bc" and "n \<le> 2 ^ 32"
  shows "bytes_at (heap_mark m e i bc) e n = mark_run (bytes_at m e n) i bc"
proof (rule nth_equalityI)
  have b: "i + bc \<le> n" using free_run_bound [OF assms(2)] by simp
  then show "length (bytes_at (heap_mark m e i bc) e n) = length (mark_run (bytes_at m e n) i bc)"
    by simp
  fix k assume "k < length (bytes_at (heap_mark m e i bc) e n)"
  with b assms show "bytes_at (heap_mark m e i bc) e n ! k = mark_run (bytes_at m e n) i bc ! k"
    by (simp add: heap_mark_cell nth_mark_run)
qed

text \<open>From a cell inside a run the release loop clears up to the run's last cell and stops there.\<close>

lemma heap_free_loop_run:
  assumes "i \<le> l" and "l < n" and "n \<le> 2 ^ 32"
    and "m (e + of_nat l) = HEAP_TABLE_BLOCK_END"
    and "\<And>k. i \<le> k \<Longrightarrow> k < l \<Longrightarrow> m (e + of_nat k) \<noteq> HEAP_TABLE_BLOCK_END"
  shows "heap_free_loop m e n i
    = (fold (\<lambda>j m. st8 m (e + of_nat j) 0) [i..<l] m, l)"
  using assms
proof (induction "l - i" arbitrary: i m)
  case 0
  then show ?case by (simp add: heap_free_loop.simps [of m e n i])
next
  case (Suc d)
  let ?m = "st8 m (e + of_nat i) 0"
  have i: "i < l" using Suc by simp
  have keep: "?m (e + of_nat k) = m (e + of_nat k)" if "i < k" "k \<le> l" for k
    using that Suc.prems by (simp add: st8_apply of_nat_eq_iff32)
  have "heap_free_loop ?m e n (Suc i)
      = (fold (\<lambda>j m. st8 m (e + of_nat j) 0) [Suc i..<l] ?m, l)"
    using Suc.prems i keep by (intro Suc.hyps(1)) (use Suc.hyps(2) in auto)
  then show ?case
    using i Suc.prems by (simp add: heap_free_loop.simps [of m e n i] upt_conv_Cons)
qed

lemma is_run_bytes_at:
  "is_run (bytes_at m e n) i bc \<Longrightarrow> i \<le> k \<Longrightarrow> k < i + bc \<Longrightarrow> m (e + of_nat k) = run_cell bc (k - i)"
  using is_run_cell [of "bytes_at m e n" i bc k] is_runD(2) [of "bytes_at m e n" i bc] by simp

lemma heap_free_at_run:
  assumes "is_run (bytes_at m e n) i bc" and "n \<le> 2 ^ 32"
  shows "heap_free_at m e n i = fold (\<lambda>j m. st8 m (e + of_nat j) 0) [i..<i + bc] m"
proof -
  have bc: "1 \<le> bc" and b: "i + bc \<le> n" using is_runD(1,2) [OF assms(1)] by auto
  note cell = is_run_bytes_at [OF assms(1)]
  show ?thesis
  proof (cases "bc = 1")
    case True
    then show ?thesis
      using cell [of i] by (simp add: heap_free_at_def run_cell_def const_defs)
  next
    case False
    then have "heap_free_loop m e n i
        = (fold (\<lambda>j m. st8 m (e + of_nat j) 0) [i..<i + bc - 1] m, i + bc - 1)"
      using bc b False assms(2)
      by (intro heap_free_loop_run) (auto simp: cell run_cell_def const_defs simp del: of_nat_diff)
    moreover have "m (e + of_nat i) = HEAP_TABLE_BLOCK_START"
      using cell [of i] False bc by (simp add: run_cell_def const_defs)
    moreover have "i + bc - 1 < n" using b bc by simp
    ultimately have "heap_free_at m e n i
        = st8 (fold (\<lambda>j m. st8 m (e + of_nat j) 0) [i..<i + bc - 1] m) (e + of_nat (i + bc - 1)) 0"
      by (simp add: heap_free_at_def const_defs del: of_nat_diff)
    moreover obtain b' where "bc = Suc b'" using bc by (cases bc) auto
    ultimately show ?thesis by simp
  qed
qed

lemma heap_free_view:
  assumes "is_run (bytes_at m e n) i bc" and "n \<le> 2 ^ 32"
  shows "bytes_at (heap_free_at m e n i) e n = clear_run (bytes_at m e n) i bc"
proof (rule nth_equalityI)
  have b: "i + bc \<le> n" using is_runD(2) [OF assms(1)] by simp
  then show "length (bytes_at (heap_free_at m e n i) e n) = length (clear_run (bytes_at m e n) i bc)"
    by simp
  fix k assume "k < length (bytes_at (heap_free_at m e n i) e n)"
  with b assms(2)
  show "bytes_at (heap_free_at m e n i) e n ! k = clear_run (bytes_at m e n) i bc ! k"
    by (simp add: heap_free_at_run [OF assms] st8_fold nth_clear_run)
qed

text \<open>The implementation provides the allocator interface, for any table of at most 2^32 entries.\<close>

interpretation page: run_table
  "\<lambda>m. bytes_at m e (unat (n :: u32))" "\<lambda>m bc. scan m e (unat n) bc 0"
  "\<lambda>m i bc. heap_mark m e i bc" "\<lambda>m i. heap_free_at m e (unat n) i"
  for e :: addr and n :: u32
proof
  have n: "unat n \<le> 2 ^ 32" using unat_lt_2p32 [of n] by simp
  show "scan m e (unat n) bc 0 = first_fit (bytes_at m e (unat n)) bc" if "1 \<le> bc" for m bc
    using that by (rule scan_first_fit)
  show "bytes_at (heap_mark m e i bc) e (unat n) = mark_run (bytes_at m e (unat n)) i bc"
    if "1 \<le> bc" "free_run (bytes_at m e (unat n)) i bc" for m i bc
    using that n by (rule heap_mark_view)
  show "bytes_at (heap_free_at m e (unat n) i) e (unat n) = clear_run (bytes_at m e (unat n)) i bc"
    if "is_run (bytes_at m e (unat n)) i bc" for m i bc
    using that n by (rule heap_free_view)
qed

section \<open>The kernel heap\<close>

text \<open>
  The state \<open>kheap_init\<close> sets up and every later operation keeps: 25600 pages of 4096 bytes from
  0x1000000 on, the block table at 0x7e00, and a table made of runs.
\<close>

definition kheap_pages :: nat where "kheap_pages = 25600"

definition kheap_tbl :: "'z kheap_state_scheme \<Rightarrow> byte list" where
  "kheap_tbl s = bytes_at (mem s) KHEAP_TABLE kheap_pages"

definition kheap_runs :: "'z kheap_state_scheme \<Rightarrow> (nat \<times> nat) set" where
  "kheap_runs s = runs (kheap_tbl s)"

definition page_addr :: "nat \<Rightarrow> addr" where
  "page_addr i = KHEAP_START + of_nat i * KHEAP_BLOCK_SIZE"

definition kheap_ready :: "'z kheap_state_scheme \<Rightarrow> bool" where
  "kheap_ready s \<longleftrightarrow> kernel_heap s =
     \<lparr>table = Some \<lparr>entries = KHEAP_TABLE, total = 25600\<rparr>, start_addr = KHEAP_START,
      end_addr = KHEAP_START + KHEAP_SIZE_BYTES\<rparr>"

definition kheap_inv :: "'z kheap_state_scheme \<Rightarrow> bool" where
  "kheap_inv s \<longleftrightarrow> kheap_ready s \<and> wf_table (kheap_tbl s)"

text \<open>The number of pages a request takes; the sum wraps around for the last 4095 sizes.\<close>

definition pages_for :: "u32 \<Rightarrow> nat" where
  "pages_for sz = unat (drop_bit 12 (sz + KHEAP_BLOCK_SIZE - 1))"

lemma pages_for_nat: "unat sz \<le> 2 ^ 32 - 4096 \<Longrightarrow> pages_for sz = (unat sz + 4095) div 4096"
  by (simp add: pages_for_def const_defs drop_bit_eq_div unat_div unat_word_ariths)

lemma page_addr_unat: "i < kheap_pages \<Longrightarrow> unat (page_addr i) = 0x1000000 + i * 4096"
proof -
  assume "i < kheap_pages"
  then have "page_addr i = of_nat (0x1000000 + i * 4096)" and "0x1000000 + i * 4096 < (2::nat) ^ 32"
    by (simp_all add: page_addr_def const_defs kheap_pages_def)
  then show ?thesis by (simp only: unat_of_nat32)
qed

lemma page_addr_index: "i < kheap_pages \<Longrightarrow> unat ((page_addr i - KHEAP_START) div KHEAP_BLOCK_SIZE) = i"
proof -
  assume i: "i < kheap_pages"
  have "page_addr i - KHEAP_START = of_nat (i * 4096)"
    by (simp add: page_addr_def const_defs)
  moreover have "unat (of_nat (i * 4096) :: u32) = i * 4096"
    using i by (intro unat_of_nat32) (simp add: kheap_pages_def)
  ultimately show ?thesis by (simp only: unat_div) (simp add: const_defs)
qed

lemma page_addr_nz: "i < kheap_pages \<Longrightarrow> page_addr i \<noteq> 0"
  using page_addr_unat [of i] by auto

lemma page_addr_inj: "i < kheap_pages \<Longrightarrow> j < kheap_pages \<Longrightarrow> page_addr i = page_addr j \<longleftrightarrow> i = j"
  by (metis add_left_cancel mult_cancel2 page_addr_unat zero_neq_numeral)

text \<open>Pages are aligned, apart from each other, and apart from the block table.\<close>

lemma page_addr_mod: "i < kheap_pages \<Longrightarrow> page_addr i mod 4096 = 0"
proof -
  assume "i < kheap_pages"
  then have "unat (page_addr i mod 4096) = 0" by (simp add: unat_mod page_addr_unat)
  then show ?thesis by (simp only: unat_eq_zero)
qed

lemma page_range_bound: "i + n \<le> kheap_pages \<Longrightarrow> 1 \<le> n \<Longrightarrow> k \<le> n * 4096 \<Longrightarrow> unat (page_addr i) + k \<le> 2 ^ 32"
  by (simp add: page_addr_unat kheap_pages_def)

lemma pages_disjoint:
  assumes "i + n \<le> j \<or> j + m \<le> i" and "i + n \<le> kheap_pages" "j + m \<le> kheap_pages"
    and "1 \<le> n" "1 \<le> m"
  shows "ranges_disjoint (page_addr i) (n * 4096) (page_addr j) (m * 4096)"
  using assms by (intro ranges_disjoint_nat) (auto simp: page_addr_unat kheap_pages_def)

lemma table_page_disjoint:
  "i + n \<le> kheap_pages \<Longrightarrow> 1 \<le> n \<Longrightarrow> k \<le> n * 4096 \<Longrightarrow>
    ranges_disjoint (page_addr i) k KHEAP_TABLE kheap_pages"
  by (intro ranges_disjoint_nat) (auto simp: page_addr_unat kheap_pages_def const_defs)

lemma kheap_tbl_length [simp]: "length (kheap_tbl s) = kheap_pages"
  by (simp add: kheap_tbl_def)

lemma kheap_runs_bound: "(i, n) \<in> kheap_runs s \<Longrightarrow> 1 \<le> n \<and> i + n \<le> kheap_pages"
  using is_runD(1,2) [of "kheap_tbl s" i n] by (simp add: kheap_runs_def runs_def)

lemma kheap_runs_disjoint:
  "(i, n) \<in> kheap_runs s \<Longrightarrow> (j, m) \<in> kheap_runs s \<Longrightarrow> (i, n) \<noteq> (j, m) \<Longrightarrow> i + n \<le> j \<or> j + m \<le> i"
  by (simp add: kheap_runs_def runs_def runs_disjoint)

section \<open>Initialisation\<close>

lemma print_mem [simp]: "mem (print cs s) = mem s"
  using print_ext [of cs s] by auto

lemma print_kernel_heap [simp]: "kernel_heap (print cs s) = kernel_heap s"
  using print_ext [of cs s] by auto

lemma smod_eq_0_iff: "k smod l = 0 \<longleftrightarrow> l dvd k" for k l :: int
  by (auto simp: signed_modulo_int_def sgn_if dvd_eq_mod_eq_0 [of "\<bar>l\<bar>" "\<bar>k\<bar>", symmetric])

lemma heap_validate_iff: "heap_validate_alignment a \<longleftrightarrow> a mod 4096 = 0"
proof -
  have "take_bit 12 (uint a) = take_bit 12 (sint a)" by (simp add: uint_sint)
  then have "sint a smod 4096 = 0 \<longleftrightarrow> uint a mod 4096 = 0"
    by (simp add: smod_eq_0_iff take_bit_eq_mod dvd_eq_mod_eq_0)
  also have "\<dots> \<longleftrightarrow> uint (a mod 4096) = 0" by (simp add: uint_mod)
  finally show ?thesis by (simp add: heap_validate_alignment_def unsigned_eq_0_iff)
qed

lemma kheap_init_ready: "kheap_ready (kheap_init s)"
  by (simp add: kheap_init_def heap_create_def Let_def heap_validate_alignment_def heap_entry_count_def
      const_defs kheap_ready_def)

lemma kheap_init_mem: "mem (kheap_init s) = put_bytes (mem s) KHEAP_TABLE (replicate kheap_pages 0)"
  by (simp add: kheap_init_def heap_create_def Let_def heap_validate_alignment_def heap_entry_count_def
      const_defs kheap_pages_def memset_eq)

lemma kheap_init_tbl: "kheap_tbl (kheap_init s) = replicate kheap_pages 0"
  using bytes_at_put_bytes [of "replicate kheap_pages 0" "mem s" KHEAP_TABLE]
  by (simp add: kheap_tbl_def kheap_init_mem kheap_pages_def del: replicate.simps)

lemma kheap_init_inv: "kheap_inv (kheap_init s) \<and> kheap_runs (kheap_init s) = {}"
proof -
  have "\<not> is_run (replicate n 0) i k" for n i k
  proof
    assume r: "is_run (replicate n 0) i k"
    then have "replicate n 0 ! i = run_cell k 0" "i < n"
      using is_runD(1,2) [OF r] is_runD(3) [OF r, of 0] by auto
    then show False using run_cell_nz [of k 0] by simp
  qed
  then have "runs (replicate n 0) = {}" for n by (simp add: runs_def)
  then show ?thesis
    by (simp add: kheap_inv_def kheap_init_ready kheap_init_tbl wf_table_replicate kheap_runs_def)
qed

section \<open>Allocation and release\<close>

definition kheap_find :: "'z kheap_state_scheme \<Rightarrow> nat \<Rightarrow> nat option" where
  "kheap_find s n = (if n = 0 then None else first_fit (kheap_tbl s) n)"

lemma scan_0: "scan m e n 0 i = None"
proof (induction "n - i" arbitrary: i rule: less_induct)
  case less
  show ?case
  proof (cases "i < n")
    case True
    then have "scan m e n 0 (Suc i) = None" "scan m e n 0 (Suc (Suc i)) = None"
      by (auto intro!: less)
    then show ?thesis
      using True by (simp add: scan.simps [of m e n 0 i] scan_more.simps [of m e n 0 1 "Suc i"]
          scan_more.simps [of m e n 0 "Suc 0" "Suc i"])
  next
    case False
    then show ?thesis by (simp add: scan.simps [of m e n 0 i])
  qed
qed

lemma kheap_scan: "scan (mem s) KHEAP_TABLE kheap_pages n 0 = kheap_find s n"
  by (simp add: kheap_find_def scan_0 scan_first_fit kheap_tbl_def)

lemma kheap_findD:
  assumes "kheap_find s n = Some i"
  shows "1 \<le> n" and "free_run (kheap_tbl s) i n" and "i + n \<le> kheap_pages" and "i < kheap_pages"
proof -
  show "1 \<le> n" using assms by (auto simp: kheap_find_def split: if_splits)
  then show f: "free_run (kheap_tbl s) i n"
    using assms by (auto simp: kheap_find_def first_fit_free split: if_splits)
  then show "i + n \<le> kheap_pages" using free_run_bound by fastforce
  with \<open>1 \<le> n\<close> show "i < kheap_pages" by simp
qed

lemma entry_nz:
  assumes "i < kheap_pages"
  shows "KHEAP_TABLE + of_nat i \<noteq> 0"
proof -
  have "unat (of_nat i :: u32) = i" using assms by (intro unat_of_nat32) (simp add: kheap_pages_def)
  then have "unat (KHEAP_TABLE + of_nat i) = 0x7e00 + i"
    using assms by (subst unat_add_lem [THEN iffD1]) (simp_all add: const_defs kheap_pages_def)
  then show ?thesis by (metis add_is_0 unat_0 zero_neq_numeral)
qed

lemma kmalloc_eq:
  assumes "kheap_ready s"
  shows "kmalloc sz s = (case kheap_find s (pages_for sz) of
      None \<Rightarrow> (0, print (lit ''heap_get_start_block null'') s)
    | Some i \<Rightarrow> (page_addr i, s\<lparr>mem := heap_mark (mem s) KHEAP_TABLE i (pages_for sz)\<rparr>))"
  using assms kheap_scan [of s "pages_for sz"] entry_nz [OF kheap_findD(4) [of s "pages_for sz"]]
  by (auto simp: kmalloc_def heap_malloc_def heap_get_start_block_def Let_def kheap_ready_def
      table_of_def page_addr_def pages_for_def kheap_pages_def split: option.splits)

lemma kfree_eq:
  assumes "kheap_ready s" and "i < kheap_pages"
  shows "kfree (page_addr i) s = s\<lparr>mem := heap_free_at (mem s) KHEAP_TABLE kheap_pages i\<rparr>"
  using assms page_addr_index [OF assms(2)]
  by (simp add: kfree_def heap_free_def Let_def kheap_ready_def table_of_def kheap_pages_def)

lemma kmalloc_NullD:
  assumes "kheap_ready s" and "kmalloc sz s = (0, s')"
  shows "kheap_find s (pages_for sz) = None"
  using assms kheap_findD(4) [of s "pages_for sz"] page_addr_nz
  by (auto simp: kmalloc_eq split: option.splits)

lemma kmalloc_SomeD:
  assumes "kheap_ready s" and "kmalloc sz s = (a, s')" and "a \<noteq> 0"
  obtains i where "kheap_find s (pages_for sz) = Some i" and "a = page_addr i"
    and "s' = s\<lparr>mem := heap_mark (mem s) KHEAP_TABLE i (pages_for sz)\<rparr>"
  using assms by (auto simp: kmalloc_eq split: option.splits)

lemma kheap_pages_2p32: "kheap_pages \<le> 2 ^ 32"
  by (simp add: kheap_pages_def)

lemma heap_mark_frame:
  assumes "1 \<le> n" and "i + n \<le> kheap_pages" and "\<not> in_range KHEAP_TABLE kheap_pages x"
  shows "heap_mark m KHEAP_TABLE i n x = m x"
proof (rule heap_mark_out [OF assms(1)])
  fix j assume "i \<le> j" "j < i + n"
  then have "j < kheap_pages" using assms(2) by simp
  then show "x \<noteq> KHEAP_TABLE + of_nat j"
    using assms(3) by (auto simp: in_range_offset kheap_pages_def)
qed

lemma heap_free_frame:
  assumes "is_run (bytes_at m KHEAP_TABLE kheap_pages) i n"
    and "\<not> in_range KHEAP_TABLE kheap_pages x"
  shows "heap_free_at m KHEAP_TABLE kheap_pages i x = m x"
proof -
  have b: "i + n \<le> kheap_pages" using is_runD(2) [OF assms(1)] by simp
  show ?thesis
    unfolding heap_free_at_run [OF assms(1) kheap_pages_2p32]
  proof (rule st8_fold_out)
    fix j assume "i \<le> j" "j < i + n"
    then have "j < kheap_pages" using b by simp
    then show "x \<noteq> KHEAP_TABLE + of_nat j"
      using assms(2) by (auto simp: in_range_offset kheap_pages_def)
  qed
qed

lemma kheap_inv_frame:
  assumes "kheap_inv s" and "kernel_heap s' = kernel_heap s" and "kheap_tbl s' = kheap_tbl s"
  shows "kheap_inv s'" and "kheap_runs s' = kheap_runs s"
  using assms by (simp_all add: kheap_inv_def kheap_ready_def kheap_runs_def)

lemma kheap_find_runs:
  assumes "kheap_inv s" and "kheap_find s n = Some i"
    and "s' = s\<lparr>mem := heap_mark (mem s) KHEAP_TABLE i n\<rparr>"
  shows "kheap_inv s'" and "kheap_runs s' = insert (i, n) (kheap_runs s)"
    and "(j, k) \<in> kheap_runs s \<Longrightarrow> i + n \<le> j \<or> j + k \<le> i"
proof -
  note f = kheap_findD [OF assms(2)]
  have found: "scan (mem s) KHEAP_TABLE (unat (25600 :: u32)) n 0 = Some i"
    using assms(2) kheap_scan [of s n] by (simp add: kheap_pages_def)
  show "kheap_runs s' = insert (i, n) (kheap_runs s)"
    using page.alloc_runs [OF f(1) found]
    by (simp add: assms(3) kheap_runs_def kheap_tbl_def kheap_pages_def)
  show "kheap_inv s'"
    using assms(1) page.alloc_wf [OF f(1) found]
    by (simp add: kheap_inv_def kheap_ready_def assms(3) kheap_tbl_def kheap_pages_def)
  show "(j, k) \<in> kheap_runs s \<Longrightarrow> i + n \<le> j \<or> j + k \<le> i"
    using page.alloc_fresh [OF f(1) found, of j k]
    by (simp add: kheap_runs_def kheap_tbl_def kheap_pages_def)
qed

lemma kfree_runs:
  assumes "kheap_inv s" and "(i, n) \<in> kheap_runs s"
  shows "kheap_inv (kfree (page_addr i) s)"
    and "kheap_runs (kfree (page_addr i) s) = kheap_runs s - {(i, n)}"
    and "\<not> in_range KHEAP_TABLE kheap_pages x \<Longrightarrow> mem (kfree (page_addr i) s) x = mem s x"
proof -
  from assms(2) have r: "is_run (kheap_tbl s) i n" and i: "i < kheap_pages"
    using kheap_runs_bound [OF assms(2)] by (auto simp: kheap_runs_def runs_def)
  have ready: "kheap_ready s" using assms(1) by (simp add: kheap_inv_def)
  note eq = kfree_eq [OF ready i]
  have view: "kheap_tbl (kfree (page_addr i) s) = clear_run (kheap_tbl s) i n"
    using heap_free_view [of "mem s" KHEAP_TABLE kheap_pages i n] r kheap_pages_2p32
    by (simp add: eq kheap_tbl_def)
  then show "kheap_runs (kfree (page_addr i) s) = kheap_runs s - {(i, n)}"
    by (simp add: kheap_runs_def runs_clear_run [OF r])
  show "kheap_inv (kfree (page_addr i) s)"
    using assms(1) wf_clear_run [OF _ r] view by (simp add: kheap_inv_def kheap_ready_def eq)
  show "\<not> in_range KHEAP_TABLE kheap_pages x \<Longrightarrow> mem (kfree (page_addr i) s) x = mem s x"
    using heap_free_frame r by (simp add: eq kheap_tbl_def)
qed

text \<open>\<open>kfree\<close> undoes \<open>kmalloc\<close>: the whole memory is as it was.\<close>

lemma kfree_kmalloc:
  assumes "kheap_inv s" and "kmalloc sz s = (a, s')" and "a \<noteq> 0"
  shows "mem (kfree a s') = mem s"
proof -
  have ready: "kheap_ready s" using assms(1) by (simp add: kheap_inv_def)
  obtain i where i: "kheap_find s (pages_for sz) = Some i" "a = page_addr i"
      "s' = s\<lparr>mem := heap_mark (mem s) KHEAP_TABLE i (pages_for sz)\<rparr>"
    by (rule kmalloc_SomeD [OF ready assms(2,3)])
  note f = kheap_findD [OF i(1)]
  note alloc = kheap_find_runs [OF assms(1) i(1,3)]
  have r: "is_run (kheap_tbl s') i (pages_for sz)"
    using alloc(2) by (auto simp: kheap_runs_def runs_def)
  have ready': "kheap_ready s'" using alloc(1) by (simp add: kheap_inv_def)
  have free: "mem (kfree a s') = heap_free_at (mem s') KHEAP_TABLE kheap_pages i"
    using kfree_eq [OF ready' f(4)] by (simp add: i(2))
  show ?thesis
  proof
    fix x
    show "mem (kfree a s') x = mem s x"
    proof (cases "in_range KHEAP_TABLE kheap_pages x")
      case True
      then obtain k where k: "k < kheap_pages" "k < 2 ^ 32" "x = KHEAP_TABLE + of_nat k"
        by (rule in_rangeE)
      have "bytes_at (mem (kfree a s')) KHEAP_TABLE kheap_pages = clear_run (kheap_tbl s') i (pages_for sz)"
        unfolding free using r kheap_pages_2p32 by (simp add: kheap_tbl_def heap_free_view)
      also have "\<dots> = kheap_tbl s"
        using f(1,2) kheap_pages_2p32
        by (simp add: i(3) kheap_tbl_def heap_mark_view clear_mark_run)
      finally have "bytes_at (mem (kfree a s')) KHEAP_TABLE kheap_pages ! k = kheap_tbl s ! k" by simp
      with k show ?thesis by (simp add: kheap_tbl_def)
    next
      case False
      have "mem (kfree a s') x = mem s' x"
        unfolding free using r False by (intro heap_free_frame) (simp_all add: kheap_tbl_def)
      also have "\<dots> = mem s x" using heap_mark_frame [OF f(1,3) False] by (simp add: i(3))
      finally show ?thesis .
    qed
  qed
qed

section \<open>Zeroed pages\<close>

lemma pages_for_bound:
  assumes "1 \<le> pages_for sz"
  shows "unat sz \<le> pages_for sz * 4096"
proof (cases "unat sz \<le> 2 ^ 32 - 4096")
  case True
  then show ?thesis by (simp add: pages_for_nat)
next
  case False
  then have "unat (sz + KHEAP_BLOCK_SIZE - 1) < 4096"
    using unat_lt_2p32 [of sz] by (simp add: const_defs unat_word_ariths mod_if) linarith
  then have "pages_for sz = 0"
    by (simp add: pages_for_def drop_bit_eq_div unat_div)
  with assms show ?thesis by simp
qed

text \<open>What a successful \<open>kmalloc\<close> or \<open>kzalloc\<close> of \<open>sz\<close> bytes did to the state.\<close>

definition new_run :: "u32 \<Rightarrow> 'z kheap_state_scheme \<Rightarrow> nat \<Rightarrow> 'z kheap_state_scheme \<Rightarrow> bool" where
  "new_run sz s i s' \<longleftrightarrow>
     1 \<le> pages_for sz \<and> i + pages_for sz \<le> kheap_pages \<and> kheap_inv s' \<and>
     kheap_runs s' = insert (i, pages_for sz) (kheap_runs s) \<and>
     (\<forall>(j, k) \<in> kheap_runs s. i + pages_for sz \<le> j \<or> j + k \<le> i) \<and>
     s' = s\<lparr>mem := mem s'\<rparr>"

lemma kmalloc_new_run:
  assumes "kheap_inv s" and "kmalloc sz s = (a, s')" and "a \<noteq> 0"
  obtains i where "a = page_addr i" and "new_run sz s i s'"
    and "\<And>x. \<not> in_range KHEAP_TABLE kheap_pages x \<Longrightarrow> mem s' x = mem s x"
    and "kheap_find s (pages_for sz) = Some i"
proof -
  have ready: "kheap_ready s" using assms(1) by (simp add: kheap_inv_def)
  obtain i where i: "kheap_find s (pages_for sz) = Some i" "a = page_addr i"
      "s' = s\<lparr>mem := heap_mark (mem s) KHEAP_TABLE i (pages_for sz)\<rparr>"
    by (rule kmalloc_SomeD [OF ready assms(2,3)])
  note f = kheap_findD [OF i(1)]
  have "new_run sz s i s'"
    using f kheap_find_runs [OF assms(1) i(1,3)] i(3) by (auto simp: new_run_def)
  moreover have "mem s' x = mem s x" if "\<not> in_range KHEAP_TABLE kheap_pages x" for x
    using heap_mark_frame [OF f(1,3) that] by (simp add: i(3))
  ultimately show thesis using that i by blast
qed

lemma kzalloc_new_run:
  assumes "kheap_inv s" and "kzalloc sz s = (a, s')" and "a \<noteq> 0"
  obtains i where "a = page_addr i" and "new_run sz s i s'"
    and "\<And>x. in_range a (unat sz) x \<Longrightarrow> mem s' x = 0"
    and "\<And>x. \<not> in_range KHEAP_TABLE kheap_pages x \<Longrightarrow> \<not> in_range a (unat sz) x \<Longrightarrow> mem s' x = mem s x"
    and "kheap_find s (pages_for sz) = Some i"
proof -
  obtain s1 where k: "kmalloc sz s = (a, s1)" and s': "s' = s1\<lparr>mem := memset (mem s1) a 0 sz\<rparr>"
    using assms(2,3) by (auto simp: kzalloc_def split: prod.splits if_splits)
  obtain i where i: "a = page_addr i" "new_run sz s i s1"
    and out: "\<And>x. \<not> in_range KHEAP_TABLE kheap_pages x \<Longrightarrow> mem s1 x = mem s x"
    and find: "kheap_find s (pages_for sz) = Some i"
    by (rule kmalloc_new_run [OF assms(1) k assms(3)]) blast
  have b: "1 \<le> pages_for sz" "i + pages_for sz \<le> kheap_pages"
    using i(2) by (auto simp: new_run_def)
  have "ranges_disjoint a (unat sz) KHEAP_TABLE kheap_pages"
    unfolding i(1) by (rule table_page_disjoint [OF b(2,1) pages_for_bound [OF b(1)]])
  then have tbl: "kheap_tbl s' = kheap_tbl s1"
    using kheap_pages_2p32 by (simp add: kheap_tbl_def s' memset_eq bytes_at_put_bytes_other)
  have inv: "kheap_inv s'" "kheap_runs s' = kheap_runs s1"
    using kheap_inv_frame [OF _ _ tbl] i(2) by (auto simp: new_run_def s')
  have "s1 = s\<lparr>mem := mem s1\<rparr>" using i(2) by (simp add: new_run_def)
  then have "s' = s\<lparr>mem := mem s'\<rparr>" by (metis (no_types) machine.update_convs machine.surjective s' machine.unfold_congs)
  then have "new_run sz s i s'"
    using i(2) inv by (simp add: new_run_def)
  moreover have "mem s' x = 0" if "in_range a (unat sz) x" for x
    using that by (simp add: s' memset_in)
  moreover have "mem s' x = mem s x"
    if "\<not> in_range KHEAP_TABLE kheap_pages x" "\<not> in_range a (unat sz) x" for x
    using that out by (simp add: s' memset_out)
  ultimately show thesis using that i(1) find by blast
qed

lemma kzalloc_NullD:
  assumes "kheap_ready s" and "kzalloc sz s = (0, s')"
  shows "kheap_find s (pages_for sz) = None" and "s' = print (lit ''heap_get_start_block null'') s"
proof -
  have k: "kmalloc sz s = (0, s')"
    using assms(2) by (auto simp: kzalloc_def split: prod.splits if_splits)
  show "kheap_find s (pages_for sz) = None" by (rule kmalloc_NullD [OF assms(1) k])
  then show "s' = print (lit ''heap_get_start_block null'') s"
    using k by (simp add: kmalloc_eq [OF assms(1)])
qed

text \<open>A request for one page is served as long as a page is free, and takes one.\<close>

definition free_pages :: "'z kheap_state_scheme \<Rightarrow> nat" where
  "free_pages s = count_list (kheap_tbl s) 0"

lemma kheap_find_1: "kheap_find s 1 = None \<longleftrightarrow> free_pages s = 0"
  by (simp add: kheap_find_def first_fit_1 free_pages_def)

lemma kheap_print:
  "kheap_tbl (print cs s) = kheap_tbl s" "kheap_inv (print cs s) = kheap_inv s"
  "kheap_runs (print cs s) = kheap_runs s" "free_pages (print cs s) = free_pages s"
  by (simp_all add: kheap_tbl_def kheap_inv_def kheap_ready_def kheap_runs_def free_pages_def)

section \<open>The heap after start-up\<close>

text \<open>The zeroed image the kernel starts from, and the search in an empty table.\<close>

definition zero_image :: kheap_state where
  "zero_image = \<lparr>vedio = (\<lambda>_. 0), cursor_x = 0, cursor_y = 0, mem = (\<lambda>_. 0),
     kernel_heap = \<lparr>table = None, start_addr = 0, end_addr = 0\<rparr>,
     kernel_heap_table = \<lparr>entries = 0, total = 0\<rparr>\<rparr>"

lemma first_fit_replicate: "1 \<le> n \<Longrightarrow> n \<le> k \<Longrightarrow> first_fit (replicate k 0) n = Some 0"
  by (simp add: first_fit_Some free_run_def)

lemma kheap_find_init: "1 \<le> n \<Longrightarrow> n \<le> 25600 \<Longrightarrow> kheap_find (kheap_init s) n = Some 0"
  by (simp add: kheap_find_def kheap_init_tbl first_fit_replicate kheap_pages_def)

lemma kmalloc_init:
  assumes "1 \<le> pages_for sz" and "pages_for sz \<le> 25600"
  shows "kmalloc sz (kheap_init s) = (page_addr 0,
    (kheap_init s)\<lparr>mem := heap_mark (mem (kheap_init s)) KHEAP_TABLE 0 (pages_for sz)\<rparr>)"
  using assms by (simp add: kmalloc_eq [OF kheap_init_ready] kheap_find_init)

text \<open>A cell that is no head of a run is left alone by a release.\<close>

lemma not_head:
  assumes "wf_table t" and "i < length t" and "\<forall>n. \<not> is_run t i n"
  shows "t ! i \<noteq> 0x41 \<and> t ! i \<noteq> 0xc1"
proof (cases "t ! i = 0")
  case False
  then obtain j n where r: "is_run t j n" "j \<le> i" "i < j + n" by (rule wf_tableD [OF assms(1,2)])
  with assms(3) have "j \<noteq> i" by blast
  with r have "t ! i = run_cell n (i - j)" "0 < i - j" "i - j < n" using is_run_cell [OF r] by auto
  then show ?thesis using run_cell_head [of "i - j" n] by simp
qed simp

section \<open>The contract of the page heap\<close>

definition kheap_live :: "'z kheap_state_scheme \<Rightarrow> (addr \<times> nat) set" where
  "kheap_live s = (\<lambda>(i, n). (page_addr i, n * 4096)) ` kheap_runs s"

lemma kheap_liveE:
  assumes "(a, k) \<in> kheap_live s"
  obtains i n where "(i, n) \<in> kheap_runs s" and "a = page_addr i" and "k = n * 4096"
    and "1 \<le> n" and "i + n \<le> kheap_pages"
proof -
  from assms obtain i n where "(i, n) \<in> kheap_runs s" "a = page_addr i" "k = n * 4096"
    by (auto simp: kheap_live_def)
  with kheap_runs_bound [OF this(1)] that show thesis by blast
qed

lemma kheap_live_pos: "(b, k) \<in> kheap_live s \<Longrightarrow> 0 < k"
  by (erule kheap_liveE) simp

lemma kheap_live_table:
  "(b, k) \<in> kheap_live s \<Longrightarrow> in_range b k x \<Longrightarrow> \<not> in_range KHEAP_TABLE kheap_pages x"
proof (erule kheap_liveE)
  fix i n assume "b = page_addr i" "k = n * 4096" "1 \<le> n" "i + n \<le> kheap_pages"
  then show "in_range b k x \<Longrightarrow> \<not> in_range KHEAP_TABLE kheap_pages x"
    using table_page_disjoint [of i n k] by (auto simp: ranges_disjoint_def)
qed

lemma new_run_live:
  assumes "new_run sz s i s'"
  shows "\<exists>n \<ge> unat sz. 0 < n \<and> kheap_live s' = insert (page_addr i, n) (kheap_live s) \<and>
    (\<forall>(b, k) \<in> kheap_live s. ranges_disjoint (page_addr i) n b k)"
proof (intro exI conjI)
  have n: "1 \<le> pages_for sz" "i + pages_for sz \<le> kheap_pages"
    using assms by (simp_all add: new_run_def)
  show "unat sz \<le> pages_for sz * 4096" by (rule pages_for_bound [OF n(1)])
  show "0 < pages_for sz * 4096" using n(1) by simp
  show "kheap_live s' = insert (page_addr i, pages_for sz * 4096) (kheap_live s)"
    using assms by (simp add: new_run_def kheap_live_def)
  have "ranges_disjoint (page_addr i) (pages_for sz * 4096) b k" if bk: "(b, k) \<in> kheap_live s" for b k
  proof -
    obtain j m where j: "(j, m) \<in> kheap_runs s" "b = page_addr j" "k = m * 4096" "1 \<le> m" "j + m \<le> kheap_pages"
      by (rule kheap_liveE [OF bk])
    have "i + pages_for sz \<le> j \<or> j + m \<le> i" using assms j(1) by (auto simp: new_run_def)
    then show ?thesis unfolding j(2,3) using n j(4,5) by (intro pages_disjoint)
  qed
  then show "\<forall>(b, k) \<in> kheap_live s. ranges_disjoint (page_addr i) (pages_for sz * 4096) b k" by blast
qed

lemma kfree_live:
  assumes "kheap_inv s" and "(a, k) \<in> kheap_live s"
  shows "kheap_inv (kfree a s)" and "kheap_live (kfree a s) = kheap_live s - {(a, k)}"
    and "(b, l) \<in> kheap_live s \<Longrightarrow> in_range b l x \<Longrightarrow> mem (kfree a s) x = mem s x"
proof -
  obtain i n where i: "(i, n) \<in> kheap_runs s" "a = page_addr i" "k = n * 4096" "1 \<le> n" "i + n \<le> kheap_pages"
    by (rule kheap_liveE [OF assms(2)])
  note free = kfree_runs [OF assms(1) i(1), folded i(2)]
  show "kheap_inv (kfree a s)" by (rule free(1))
  have "inj_on (\<lambda>(i, n). (page_addr i, n * 4096)) (kheap_runs s)"
  proof (rule inj_onI)
    fix x y assume xy: "x \<in> kheap_runs s" "y \<in> kheap_runs s"
      and e: "(\<lambda>(i, n). (page_addr i, n * 4096)) x = (\<lambda>(i, n). (page_addr i, n * 4096)) y"
    obtain i n j m where p: "x = (i, n)" "y = (j, m)" by (cases x; cases y) blast
    have "i < kheap_pages" "j < kheap_pages"
      using kheap_runs_bound [of i n s] kheap_runs_bound [of j m s] xy by (simp_all add: p)
    with e page_addr_inj [of i j] show "x = y" by (simp add: p)
  qed
  then show "kheap_live (kfree a s) = kheap_live s - {(a, k)}"
    using i(1) unfolding kheap_live_def free(2) by (subst inj_on_image_set_diff) (auto simp: i)
  show "(b, l) \<in> kheap_live s \<Longrightarrow> in_range b l x \<Longrightarrow> mem (kfree a s) x = mem s x"
    using free(3) kheap_live_table by blast
qed

lemma kheap_print_live [simp]: "kheap_live (print cs s) = kheap_live s"
  by (simp add: kheap_live_def kheap_print)

lemma kmalloc_Null_state: "kheap_inv s \<Longrightarrow> kmalloc sz s = (0, s') \<Longrightarrow>
    s' = print (lit ''heap_get_start_block null'') s"
  using kmalloc_NullD [of s sz s'] by (simp add: kheap_inv_def kmalloc_eq)

lemma kmalloc_contract:
  assumes "kheap_inv s" and "kmalloc sz s = (a, s')"
  shows "kheap_inv s'" and "a = 0 \<Longrightarrow> kheap_live s' = kheap_live s"
    and "a \<noteq> 0 \<Longrightarrow> \<exists>n \<ge> unat sz. 0 < n \<and> kheap_live s' = insert (a, n) (kheap_live s) \<and>
      (\<forall>(b, k) \<in> kheap_live s. ranges_disjoint a n b k)"
    and "(b, k) \<in> kheap_live s \<Longrightarrow> in_range b k x \<Longrightarrow> mem s' x = mem s x"
proof -
  have run: "\<exists>i. a = page_addr i \<and> new_run sz s i s' \<and>
      (\<forall>x. \<not> in_range KHEAP_TABLE kheap_pages x \<longrightarrow> mem s' x = mem s x)" if "a \<noteq> 0"
    by (rule kmalloc_new_run [OF assms that]) blast
  have null: "s' = print (lit ''heap_get_start_block null'') s" if "a = 0"
    using kmalloc_Null_state assms that by blast
  show "kheap_inv s'" using run null assms(1) by (cases "a = 0") (auto simp: new_run_def kheap_print)
  show "a = 0 \<Longrightarrow> kheap_live s' = kheap_live s" using null by simp
  show "a \<noteq> 0 \<Longrightarrow> \<exists>n \<ge> unat sz. 0 < n \<and> kheap_live s' = insert (a, n) (kheap_live s) \<and>
      (\<forall>(b, k) \<in> kheap_live s. ranges_disjoint a n b k)"
    using run new_run_live by blast
  show "(b, k) \<in> kheap_live s \<Longrightarrow> in_range b k x \<Longrightarrow> mem s' x = mem s x"
    using run null kheap_live_table [of b k s x] by (cases "a = 0") auto
qed

lemma kzalloc_contract:
  assumes "kheap_inv s" and "kzalloc sz s = (a, s')"
  shows "kheap_inv s'" and "a = 0 \<Longrightarrow> kheap_live s' = kheap_live s"
    and "a \<noteq> 0 \<Longrightarrow> \<exists>n \<ge> unat sz. 0 < n \<and> kheap_live s' = insert (a, n) (kheap_live s) \<and>
      (\<forall>(b, k) \<in> kheap_live s. ranges_disjoint a n b k)"
    and "(b, k) \<in> kheap_live s \<Longrightarrow> in_range b k x \<Longrightarrow> mem s' x = mem s x"
proof -
  have run: "\<exists>i. a = page_addr i \<and> new_run sz s i s' \<and>
      (\<forall>x. \<not> in_range KHEAP_TABLE kheap_pages x \<longrightarrow> \<not> in_range a (unat sz) x \<longrightarrow> mem s' x = mem s x)"
    if "a \<noteq> 0"
    by (rule kzalloc_new_run [OF assms that]) blast
  have null: "s' = print (lit ''heap_get_start_block null'') s" if "a = 0"
    using kzalloc_NullD(2) [of s sz s'] assms that by (simp add: kheap_inv_def)
  show "kheap_inv s'" using run null assms(1) by (cases "a = 0") (auto simp: new_run_def kheap_print)
  show "a = 0 \<Longrightarrow> kheap_live s' = kheap_live s" using null by simp
  show new: "a \<noteq> 0 \<Longrightarrow> \<exists>n \<ge> unat sz. 0 < n \<and> kheap_live s' = insert (a, n) (kheap_live s) \<and>
      (\<forall>(b, k) \<in> kheap_live s. ranges_disjoint a n b k)"
    using run new_run_live by blast
  show "mem s' x = mem s x" if l: "(b, k) \<in> kheap_live s" "in_range b k x"
  proof (cases "a = 0")
    case False
    then obtain n where "unat sz \<le> n" "ranges_disjoint a n b k" using new l(1) by blast
    then have "\<not> in_range a (unat sz) x" using l(2) by (auto simp: ranges_disjoint_def in_range_def)
    then show ?thesis using run [OF False] kheap_live_table [OF l] by blast
  qed (simp add: null)
qed

interpretation kheap: allocator kmalloc kfree kheap_inv kheap_live mem "\<lambda>_ _. True"
  by unfold_locales
    ((rule kheap_live_pos kmalloc_contract kfree_live; (assumption | rule refl)) | simp)+

interpretation kzheap: allocator kzalloc kfree kheap_inv kheap_live mem "\<lambda>_ _. True"
  by unfold_locales
    ((rule kheap_live_pos kzalloc_contract kfree_live; (assumption | rule refl)) | simp)+

section \<open>Properties\<close>

text \<open>C1: A successful \<open>kmalloc\<close> returns a page-aligned address of \<open>pages_for sz\<close> consecutive
  pages, enough for the request, that overlap no live allocation and not the block table; the live
  allocations are the old ones and the new one, the table stays well formed, and no byte outside
  the table changes.\<close>

theorem kmalloc_sound:
  assumes "kheap_inv s" and "kmalloc sz s = (a, s')" and "a \<noteq> 0"
  shows "\<exists>i. a = page_addr i \<and> a mod 4096 = 0 \<and> unat sz \<le> pages_for sz * 4096 \<and>
    kheap_inv s' \<and> kheap_runs s' = insert (i, pages_for sz) (kheap_runs s) \<and>
    (\<forall>(j, n) \<in> kheap_runs s. ranges_disjoint a (pages_for sz * 4096) (page_addr j) (n * 4096)) \<and>
    ranges_disjoint a (pages_for sz * 4096) KHEAP_TABLE kheap_pages \<and>
    (\<forall>x. \<not> in_range KHEAP_TABLE kheap_pages x \<longrightarrow> mem s' x = mem s x)"
proof -
  obtain i where i: "a = page_addr i" "new_run sz s i s'"
    and out: "\<And>x. \<not> in_range KHEAP_TABLE kheap_pages x \<Longrightarrow> mem s' x = mem s x"
    by (rule kmalloc_new_run [OF assms]) blast
  then have n: "1 \<le> pages_for sz" and b: "i + pages_for sz \<le> kheap_pages" and ib: "i < kheap_pages"
    and fresh: "\<And>j n. (j, n) \<in> kheap_runs s \<Longrightarrow> i + pages_for sz \<le> j \<or> j + n \<le> i"
    by (auto simp: new_run_def)
  have "ranges_disjoint a (pages_for sz * 4096) (page_addr j) (n * 4096)" if "(j, n) \<in> kheap_runs s" for j n
    unfolding i(1) using fresh [OF that] b n kheap_runs_bound [OF that] by (intro pages_disjoint) auto
  then show ?thesis
    using i out n b page_addr_mod [OF ib] pages_for_bound [OF n] table_page_disjoint [OF b n, of "pages_for sz * 4096"]
    by (intro exI [of _ i]) (auto simp: new_run_def)
qed

lemma kmalloc_sound_witness:
  "\<exists>i. page_addr 0 = page_addr i \<and>
    kheap_runs (snd (kmalloc 5000 (kheap_init zero_image))) = insert (i, pages_for 5000) {}"
proof -
  have p: "pages_for 5000 = 2" by (simp add: pages_for_nat)
  have k: "kmalloc 5000 (kheap_init zero_image) = (page_addr 0, snd (kmalloc 5000 (kheap_init zero_image)))"
    by (simp add: kmalloc_init p)
  have "kheap_inv (kheap_init zero_image)" "kheap_runs (kheap_init zero_image) = {}"
    using kheap_init_inv by blast+
  moreover have "page_addr 0 \<noteq> 0" by (rule page_addr_nz) (simp add: kheap_pages_def)
  ultimately show ?thesis using kmalloc_sound [OF _ k] by auto
qed

text \<open>C2: \<open>kmalloc\<close> fails only when it has to: it returns the null pointer exactly when the request
  takes no page (size 0 or one that wraps around) or no run of that many free pages exists, and a
  failed call only writes to the console.\<close>

theorem kmalloc_complete:
  assumes "kheap_inv s"
  shows "(fst (kmalloc sz s) = 0 \<longleftrightarrow>
      pages_for sz = 0 \<or> (\<forall>i. \<not> free_run (kheap_tbl s) i (pages_for sz))) \<and>
    (fst (kmalloc sz s) = 0 \<longrightarrow> snd (kmalloc sz s) = print (lit ''heap_get_start_block null'') s)"
proof -
  have ready: "kheap_ready s" using assms by (simp add: kheap_inv_def)
  have "fst (kmalloc sz s) = 0 \<longleftrightarrow> kheap_find s (pages_for sz) = None"
    using kheap_findD(4) page_addr_nz
    by (auto simp: kmalloc_eq [OF ready] split: option.splits)
  then show ?thesis
    by (auto simp: kmalloc_eq [OF ready] kheap_find_def first_fit_None split: option.splits)
qed

lemma kmalloc_complete_witness: "fst (kmalloc 0 (kheap_init zero_image)) = 0"
  using kmalloc_complete [of "kheap_init zero_image" 0] by (simp add: pages_for_nat kheap_init_inv)

text \<open>C3: \<open>kfree\<close> of a live allocation removes exactly that allocation and changes only the
  table; of the page of no live allocation (a double free, the middle of an allocation) it changes
  nothing.\<close>

theorem kfree_correct:
  assumes "kheap_inv s" and "i < kheap_pages"
  shows "((i, n) \<in> kheap_runs s \<longrightarrow>
      kheap_inv (kfree (page_addr i) s) \<and> kheap_runs (kfree (page_addr i) s) = kheap_runs s - {(i, n)} \<and>
      (\<forall>x. \<not> in_range KHEAP_TABLE kheap_pages x \<longrightarrow> mem (kfree (page_addr i) s) x = mem s x)) \<and>
    ((\<forall>k. (i, k) \<notin> kheap_runs s) \<longrightarrow> kfree (page_addr i) s = s)"
proof (intro conjI impI)
  assume "\<forall>k. (i, k) \<notin> kheap_runs s"
  then have "kheap_tbl s ! i \<noteq> 0x41 \<and> kheap_tbl s ! i \<noteq> 0xc1"
    using assms by (intro not_head) (auto simp: kheap_inv_def kheap_runs_def runs_def)
  then show "kfree (page_addr i) s = s"
    using kfree_eq [of s i] assms
    by (simp add: kheap_inv_def heap_free_at_def kheap_tbl_def const_defs)
qed (use kfree_runs [OF assms(1)] in auto)

lemma kfree_correct_witness: "kfree (page_addr 7) (kheap_init zero_image) = kheap_init zero_image"
  using kfree_correct [of "kheap_init zero_image" 7] by (simp add: kheap_pages_def kheap_init_inv)

text \<open>Page allocations made one after the other never overlap, whatever was allocated before,
  and none of the requests changes a byte of an older allocation.\<close>

theorem kmalloc_sequence_disjoint:
  assumes "kheap_inv s" and "i < j" and "j < length szs"
    and "fst (serve kmalloc szs s) ! i \<noteq> 0" and "fst (serve kmalloc szs s) ! j \<noteq> 0"
  shows "ranges_disjoint (fst (serve kmalloc szs s) ! i) (unat (szs ! i))
      (fst (serve kmalloc szs s) ! j) (unat (szs ! j)) \<and>
    (\<forall>(b, k) \<in> kheap_live s. \<forall>x. in_range b k x \<longrightarrow> mem (snd (serve kmalloc szs s)) x = mem s x)"
  using kheap.serve_disjoint [OF assms] kheap.serve_keeps [OF assms(1)] by blast

lemma kmalloc_sequence_disjoint_witness:
  "ranges_disjoint (fst (serve kmalloc [1, 5000] (kheap_init zero_image)) ! 0) 1
    (fst (serve kmalloc [1, 5000] (kheap_init zero_image)) ! 1) 5000"
proof -
  let ?s = "kheap_init zero_image"
  let ?s1 = "snd (kmalloc 1 ?s)"
  have p: "pages_for 1 = 1" "pages_for 5000 = 2" by (simp_all add: pages_for_nat)
  have k1: "kmalloc 1 ?s = (page_addr 0, ?s1)" using kmalloc_init [of 1 zero_image] by (simp add: p)
  have nz: "page_addr 0 \<noteq> 0" by (rule page_addr_nz) (simp add: kheap_pages_def)
  obtain i where i: "page_addr 0 = page_addr i" "new_run 1 ?s i ?s1" "kheap_find ?s 1 = Some i"
    by (rule kmalloc_new_run [OF _ k1 nz]) (simp_all add: kheap_init_inv p)
  have "i = 0" using i(3) kheap_find_init [of 1 zero_image] by simp
  then have inv1: "kheap_inv ?s1" and tbl: "kheap_runs ?s1 = {(0, 1)}"
    using i(2) by (auto simp: new_run_def kheap_init_inv p)
  have "free_run (kheap_tbl ?s1) 1 2"
  proof -
    have "kheap_tbl ?s1 ! k = 0" if "1 \<le> k" "k < kheap_pages" for k
    proof (rule ccontr)
      assume "kheap_tbl ?s1 ! k \<noteq> 0"
      with inv1 that obtain j n where r: "is_run (kheap_tbl ?s1) j n" "j \<le> k" "k < j + n"
        using wf_tableD [of "kheap_tbl ?s1" k] by (auto simp: kheap_inv_def)
      then have "(j, n) \<in> kheap_runs ?s1" by (simp add: kheap_runs_def runs_def)
      with r that show False by (simp add: tbl)
    qed
    then show ?thesis by (simp add: free_run_def kheap_pages_def)
  qed
  then have "fst (kmalloc 5000 ?s1) \<noteq> 0"
    using kmalloc_eq [of ?s1 5000] inv1 first_fit_None [of 2 "kheap_tbl ?s1"] kheap_findD(4) [of ?s1 2] page_addr_nz
    by (auto simp: kheap_inv_def p kheap_find_def split: option.splits)
  moreover have "fst (kmalloc 1 ?s) \<noteq> 0" using k1 nz by (metis fst_conv)
  ultimately show ?thesis
    using kmalloc_sequence_disjoint [of ?s 0 1 "[1, 5000]"] by (simp add: kheap_init_inv)
qed

end
