(* ===== verification/Heap32.thy ===== *)
theory Heap32
  imports Kernel_Heap
begin

text \<open>
  The block allocator of \<open>src/kernel/heap/heap32.c\<close>: a 4096-byte page whose first 124 bytes are a
  block table, followed by four guard bytes 0xab and 124 blocks of 32 bytes.  An \<open>int\<close> that counts
  blocks down is an integer; an index into the page is a natural number.
\<close>

definition DATA_OFFSET_BYTES :: int where [const_defs]: "DATA_OFFSET_BYTES = 128"
definition SIZE_OF_BLOCK_BYTE :: int where [const_defs]: "SIZE_OF_BLOCK_BYTE = 32"
definition TOTAL_BYTES_AVAIL :: u32 where [const_defs]: "TOTAL_BYTES_AVAIL = 3968"

definition table_guard_set :: "mem \<Rightarrow> addr \<Rightarrow> mem" where
  "table_guard_set m page =
     st8 (st8 (st8 (st8 m (page + 124) 0xab) (page + 125) 0xab) (page + 126) 0xab) (page + 127) 0xab"

section \<open>get\_index\<close>

text \<open>The inner loop returns the final \<open>target\<close> and \<open>i\<close>; the outer loop returns the index or -1.\<close>

function get_index_more :: "mem \<Rightarrow> addr \<Rightarrow> int \<Rightarrow> nat \<Rightarrow> int \<times> nat" where
  "get_index_more m page target i =
     (if target \<noteq> 0 \<and> i < 124 \<and> m (page + of_nat i) = 0
      then get_index_more m page (target - 1) (Suc i) else (target, i))"
  by pat_completeness auto
termination
  by (relation "measure (\<lambda>(m, page, target, i). 124 - i)") auto

declare get_index_more.simps [simp del]

lemma get_index_more_ge: "i \<le> snd (get_index_more m page target i)"
proof (induction m page target i rule: get_index_more.induct)
  case (1 m page target i)
  then show ?case by (subst get_index_more.simps) auto
qed

lemma get_index_more_gt: "i < Suc (snd (get_index_more m page target (Suc i)))"
  using get_index_more_ge [of "Suc i" m page target] by linarith

lemma get_index_more_less:
  "i < 124 \<Longrightarrow> 123 - snd (get_index_more m page target (Suc i)) < 124 - i"
  using get_index_more_ge [of "Suc i" m page target] by linarith

function get_index_from :: "mem \<Rightarrow> addr \<Rightarrow> int \<Rightarrow> nat \<Rightarrow> int" where
  "get_index_from m page no_blocks i =
     (if i < 124
      then if m (page + of_nat i) = 0
           then if fst (get_index_more m page (no_blocks - 1) (Suc i)) = 0 then int i
                else get_index_from m page no_blocks
                       (Suc (snd (get_index_more m page (no_blocks - 1) (Suc i))))
           else get_index_from m page no_blocks (Suc i)
      else - 1)"
  by pat_completeness auto
termination
  by (relation "measure (\<lambda>(m, page, no, i). 124 - i)")
    (simp_all add: get_index_more_less)

declare get_index_from.simps [simp del]

definition get_index :: "mem \<Rightarrow> addr \<Rightarrow> u32 \<Rightarrow> int" where
  "get_index m page no_blocks = get_index_from m page (sint no_blocks) 0"

section \<open>set\_table\_val\<close>

text \<open>The loop over the middle blocks: whether it ran to its end, the final \<open>i\<close>, and the memory.\<close>

function set_mid :: "mem \<Rightarrow> addr \<Rightarrow> nat \<Rightarrow> nat \<Rightarrow> bool \<times> nat \<times> mem" where
  "set_mid m index_addr lim i =
     (if i < lim
      then if m (index_addr + of_nat i) \<noteq> 0 then (False, i, m)
           else set_mid (st8 m (index_addr + of_nat i) 0x81) index_addr lim (Suc i)
      else (True, i, m))"
  by pat_completeness auto
termination
  by (relation "measure (\<lambda>(m, a, lim, i). lim - i)") auto

declare set_mid.simps [simp del]

definition set_table_val :: "mem \<Rightarrow> addr \<Rightarrow> nat \<Rightarrow> u32 \<Rightarrow> int \<times> mem" where
  "set_table_val m page index no_blocks =
     (let index_addr = page + of_nat index
      in if no_blocks = 1 then
           if m index_addr \<noteq> 0 then (GEN32_INVARG, m) else (0, st8 m index_addr 0x41)
         else if m index_addr \<noteq> 0 then (GEN32_INVARG, m)
         else
           case set_mid (st8 m index_addr 0xc1) index_addr (unat (no_blocks - 1)) 1 of
             (False, _, m1) \<Rightarrow> (GEN32_INVARG, m1)
           | (True, i, m1) \<Rightarrow>
               if m1 (index_addr + of_nat i) \<noteq> 0 then (GEN32_INVARG, m1)
               else (0, st8 m1 (index_addr + of_nat i) 0x01))"

section \<open>malloc\_32 and heap32\_free\<close>

definition malloc_32 :: "addr \<Rightarrow> u32 \<Rightarrow> 'z machine_scheme \<Rightarrow> addr \<times> 'z machine_scheme" where
  "malloc_32 page sz s =
     (let no_blocks = drop_bit 5 (sz + 31);
          index = get_index (mem s) page no_blocks
      in if index < 0
         then (0, print (lit (''heap32:could not get a block of that size'' @ [CHR 10])) s)
         else
           case set_table_val (mem s) page (nat index) no_blocks of
             (r, m1) \<Rightarrow>
               let s1 = s\<lparr>mem := m1\<rparr>
               in if r < 0 then (0, print (lit ''heap32.c:function failure'') s1)
                  else (page + word_of_int (DATA_OFFSET_BYTES + index * SIZE_OF_BLOCK_BYTE), s1))"

text \<open>The loop over the body 0x81: \<open>k\<close> is \<open>index_addr - page_addr\<close>; \<open>False\<close> is ``corrupted mid''.\<close>

function heap32_free_loop :: "mem \<Rightarrow> addr \<Rightarrow> nat \<Rightarrow> bool \<times> nat \<times> mem" where
  "heap32_free_loop m page k =
     (if m (page + of_nat k) \<noteq> 0x01 \<and> int k < DATA_OFFSET_BYTES
      then if m (page + of_nat k) \<noteq> 0x81 then (False, k, m)
           else heap32_free_loop (st8 m (page + of_nat k) 0) page (Suc k)
      else (True, k, m))"
  by pat_completeness auto
termination
  by (relation "measure (\<lambda>(m, page, k). 128 - k)") (auto simp: const_defs)

declare heap32_free_loop.simps [simp del]

definition heap32_free :: "addr \<Rightarrow> addr \<Rightarrow> 'z machine_scheme \<Rightarrow> bool \<times> 'z machine_scheme" where
  "heap32_free page block s =
     (let diff = sint (block - page)
      in if diff < DATA_OFFSET_BYTES
         then (False, print (lit ''heap32.c:heap32_free:invalid arg'') s)
         else
           let index = diff - DATA_OFFSET_BYTES
           in if index smod 32 \<noteq> 0
              then (False, print (lit (''not byte aligned , appears to have sent a random address''
                      @ [CHR 10])) s)
              else
                let k = nat (index sdiv 32);
                    v = mem s (page + of_nat k)
                in if v = 0xab then (False, print (lit (''hit table end.'' @ [CHR 10])) s)
                   else if v = 0x00 then (False, print (lit (''double free'' @ [CHR 10])) s)
                   else if v = 0x01 \<or> v = 0x81 then (False, print (lit (''incorrect'' @ [CHR 10])) s)
                   else if v = 0x41 then (True, s\<lparr>mem := st8 (mem s) (page + of_nat k) 0\<rparr>)
                   else if v \<noteq> 0xc1 then (False, print (lit (''corrupted head'' @ [CHR 10])) s)
                   else
                     case heap32_free_loop (st8 (mem s) (page + of_nat k) 0) page (Suc k) of
                       (False, _, m1) \<Rightarrow>
                         (False, print (lit (''corrupted mid'' @ [CHR 10])) (s\<lparr>mem := m1\<rparr>))
                     | (True, k', m1) \<Rightarrow> (True, s\<lparr>mem := st8 m1 (page + of_nat k') 0\<rparr>))"

section \<open>The search and the stores against the block table\<close>

text \<open>
  \<open>get_index\<close> is the search of \<open>heap.c\<close> written with a counter that runs down: it is first fit too.
\<close>

lemma get_index_more_scan_more:
  "count \<le> bc \<Longrightarrow> get_index_more m page (int bc - int count) i =
     (int bc - int (fst (scan_more m page 124 bc count i)), snd (scan_more m page 124 bc count i))"
proof (induction "124 - i" arbitrary: i count)
  case 0
  then show ?case by (simp add: scan_more.simps [of m page 124 bc count i] get_index_more.simps [of m page _ i])
next
  case (Suc d)
  show ?case
  proof (cases "count < bc \<and> i < 124 \<and> m (page + of_nat i) = 0")
    case True
    then show ?thesis
      using Suc(1) [of "Suc i" "Suc count"] Suc(2)
      by (simp add: scan_more.simps [of m page 124 bc count i] get_index_more.simps [of m page _ i] algebra_simps)
  next
    case False
    then show ?thesis
      using Suc.prems
      by (auto simp: scan_more.simps [of m page 124 bc count i] get_index_more.simps [of m page _ i])
  qed
qed

lemma get_index_from_scan:
  assumes "1 \<le> bc"
  shows "get_index_from m page (int bc) i = (case scan m page 124 bc i of Some k \<Rightarrow> int k | None \<Rightarrow> - 1)"
proof (induction "124 - i" arbitrary: i rule: less_induct)
  case less
  have more: "get_index_more m page (int bc - 1) (Suc i) =
     (int bc - int (fst (scan_more m page 124 bc 1 (Suc i))), snd (scan_more m page 124 bc 1 (Suc i)))"
    using get_index_more_scan_more [of 1 bc m page "Suc i"] assms by simp
  show ?case
  proof (cases "i < 124")
    case False
    then show ?thesis by (simp add: scan.simps [of m page 124 bc i] get_index_from.simps [of m page _ i])
  next
    case True
    let ?k = "Suc (snd (scan_more m page 124 bc 1 (Suc i)))"
    have IH: "get_index_from m page (int bc) (Suc i) = (case scan m page 124 bc (Suc i) of Some k \<Rightarrow> int k | None \<Rightarrow> - 1)"
      "get_index_from m page (int bc) ?k = (case scan m page 124 bc ?k of Some k \<Rightarrow> int k | None \<Rightarrow> - 1)"
      using True scan_more_ge [of "Suc i" m page 124 bc 1] by (auto intro!: less)
    show ?thesis
      using True IH more by (simp add: scan.simps [of m page 124 bc i] get_index_from.simps [of m page _ i])
  qed
qed

abbreviation slab_tbl :: "addr \<Rightarrow> mem \<Rightarrow> byte list" where
  "slab_tbl page m \<equiv> bytes_at m page 124"

lemma get_index_more_neg: "target < 0 \<Longrightarrow> fst (get_index_more m page target i) < 0"
proof (induction m page target i rule: get_index_more.induct)
  case (1 m page target i)
  then show ?case by (subst get_index_more.simps) auto
qed

lemma get_index_from_0: "get_index_from m page 0 i = - 1"
proof (induction "124 - i" arbitrary: i rule: less_induct)
  case less
  show ?case
  proof (cases "i < 124")
    case True
    then have "get_index_from m page 0 (Suc i) = - 1"
      "get_index_from m page 0 (Suc (snd (get_index_more m page (- 1) (Suc i)))) = - 1"
      using get_index_more_ge [of "Suc i" m page "- 1"] by (auto intro!: less)
    then show ?thesis
      using get_index_more_neg [of "- 1" m page "Suc i"] True
      by (simp add: get_index_from.simps [of m page 0 i])
  qed (simp add: get_index_from.simps [of m page 0 i])
qed

text \<open>The block count of a request, \<open>(size + 31) >> 5\<close>; the sum wraps around for the last 31 sizes.\<close>

definition blocks_for :: "u32 \<Rightarrow> nat" where
  "blocks_for sz = unat (drop_bit 5 (sz + 31))"

lemma blocks_for_bound: "blocks_for sz < 2 ^ 27"
  using unat_lt_2p32 [of "sz + 31"] by (simp add: blocks_for_def drop_bit_eq_div unat_div)

lemma blocks_for_nat: "unat sz \<le> 2 ^ 32 - 32 \<Longrightarrow> blocks_for sz = (unat sz + 31) div 32"
  by (simp add: blocks_for_def drop_bit_eq_div unat_div unat_word_ariths)

lemma blocks_for_covers:
  assumes "1 \<le> blocks_for sz"
  shows "unat sz \<le> blocks_for sz * 32"
proof (cases "unat sz \<le> 2 ^ 32 - 32")
  case True
  then show ?thesis by (simp add: blocks_for_nat)
next
  case False
  then have "unat (sz + 31) < 32"
    using unat_lt_2p32 [of sz] by (simp add: unat_word_ariths mod_if) linarith
  then have "blocks_for sz = 0" by (simp add: blocks_for_def drop_bit_eq_div unat_div)
  with assms show ?thesis by simp
qed

definition slab_find :: "mem \<Rightarrow> addr \<Rightarrow> nat \<Rightarrow> nat option" where
  "slab_find m page n = (if n = 0 then None else first_fit (bytes_at m page 124) n)"

lemma get_index_first_fit:
  "get_index m page (drop_bit 5 (sz + 31)) =
     (case slab_find m page (blocks_for sz) of Some k \<Rightarrow> int k | None \<Rightarrow> - 1)"
proof -
  have "sint (drop_bit 5 (sz + 31)) = int (blocks_for sz)"
    using blocks_for_bound [of sz] by (simp add: blocks_for_def sint_nat)
  moreover have "1 \<le> blocks_for sz \<or> blocks_for sz = 0" by linarith
  ultimately show ?thesis
    using get_index_from_scan [of "blocks_for sz" m page 0] scan_first_fit [of "blocks_for sz" m page 124]
    by (auto simp: get_index_def slab_find_def get_index_from_0)
qed

lemma set_mid_free:
  assumes "i \<le> lim" and "lim \<le> 2 ^ 32" and "\<And>k. i \<le> k \<Longrightarrow> k < lim \<Longrightarrow> m (a + of_nat k) = 0"
  shows "set_mid m a lim i = (True, lim, fold (\<lambda>k m. st8 m (a + of_nat k) 0x81) [i..<lim] m)"
  using assms
proof (induction "lim - i" arbitrary: i m)
  case 0
  then have "i = lim" by simp
  then show ?case by (simp add: set_mid.simps [of m a lim lim])
next
  case (Suc d)
  let ?m = "st8 m (a + of_nat i) 0x81"
  have "?m (a + of_nat k) = 0" if "Suc i \<le> k" "k < lim" for k
    using that Suc.prems by (simp add: st8_apply of_nat_eq_iff32)
  then have "set_mid ?m a lim (Suc i)
      = (True, lim, fold (\<lambda>k m. st8 m (a + of_nat k) 0x81) [Suc i..<lim] ?m)"
    using Suc.prems Suc.hyps(2) by (intro Suc.hyps(1)) auto
  then show ?case
    using Suc.prems Suc.hyps(2) by (auto simp: set_mid.simps [of m a lim i] upt_conv_Cons)
qed

lemma heap_mark_shift: "heap_mark m e i bc = heap_mark m (e + of_nat i) 0 bc"
proof -
  have upt: "[i + 1..<i + bc - 1] = map (\<lambda>k. i + k) [1..<bc - 1]"
    by (rule nth_equalityI) auto
  have f: "fold (\<lambda>k m. st8 m (e + of_nat k) v) [i + 1..<i + bc - 1] m1
      = fold (\<lambda>k m. st8 m (e + of_nat i + of_nat k) v) [1..<bc - 1] m1" for v m1
    unfolding upt by (simp add: fold_map comp_def add.assoc)
  show ?thesis
    unfolding heap_mark_def Let_def f by (simp add: add.assoc)
qed

lemma set_table_val_free:
  assumes "free_run (bytes_at m page 124) i n" and "1 \<le> n" and "unat nb = n"
  shows "set_table_val m page i nb = (0, heap_mark m page i n)"
proof -
  have b: "i + n \<le> 124" using free_run_bound [OF assms(1)] by simp
  let ?a = "page + of_nat i"
  have z: "m (?a + of_nat k) = 0" if "k < n" for k
    using assms(1) that by (auto simp: free_run_bytes_at add.assoc simp flip: of_nat_add)
  have z0: "m ?a = 0" using z [of 0] assms(2) by simp
  have nb1: "nb = 1 \<longleftrightarrow> n = 1" using assms(3) by (metis unat_1 unsigned_word_eqI)
  show ?thesis
  proof (cases "n = 1")
    case True
    then show ?thesis
      using z0 nb1 by (simp add: set_table_val_def heap_mark_def const_defs)
  next
    case False
    then have n: "2 \<le> n" using assms(2) by simp
    have lim: "unat (nb - 1) = n - 1"
      using assms(3) n by (simp add: unat_sub word_le_nat_alt)
    let ?m = "st8 m ?a 0xc1"
    let ?m' = "fold (\<lambda>k m. st8 m (?a + of_nat k) 0x81) [1..<n - 1] ?m"
    have keep: "?m (?a + of_nat k) = 0" if "1 \<le> k" "k < n" for k
    proof -
      have "(of_nat k :: u32) \<noteq> 0" using of_nat_eq_iff32 [of k 0] that b by simp
      then show ?thesis using z [OF that(2)] by (simp add: st8_apply)
    qed
    have "set_mid ?m ?a (n - 1) 1 = (True, n - 1, ?m')"
      using n b keep by (intro set_mid_free) auto
    moreover have "?m' (?a + of_nat (n - 1)) = 0"
      using st8_fold [of "n - 1" "n - 1" ?a "0x81" 1 ?m] keep [of "n - 1"] n b by simp
    ultimately have "set_table_val m page i nb = (0, st8 ?m' (?a + of_nat (n - 1)) 0x01)"
      using z0 nb1 False lim by (simp add: set_table_val_def Let_def)
    moreover have e: "?a + of_nat (0 + n) - 1 = ?a + of_nat (n - 1)"
      using n by (simp add: of_nat_diff)
    have "heap_mark m ?a 0 n = st8 ?m' (?a + of_nat (n - 1)) 0x01"
      unfolding heap_mark_def Let_def e using False by (simp add: const_defs)
    ultimately show ?thesis by (simp add: heap_mark_shift [of m page i n])
  qed
qed

lemma heap32_free_loop_run:
  assumes "i \<le> l" and "l < 124" and "m (page + of_nat l) = 0x01"
    and "\<And>k. i \<le> k \<Longrightarrow> k < l \<Longrightarrow> m (page + of_nat k) = 0x81"
  shows "heap32_free_loop m page i = (True, l, fold (\<lambda>j m. st8 m (page + of_nat j) 0) [i..<l] m)"
  using assms
proof (induction "l - i" arbitrary: i m)
  case 0
  then have "i = l" by simp
  with 0 show ?case by (simp add: heap32_free_loop.simps [of m page l])
next
  case (Suc d)
  let ?m = "st8 m (page + of_nat i) 0"
  have i: "i < l" using Suc by simp
  have keep: "?m (page + of_nat k) = m (page + of_nat k)" if "i < k" "k \<le> l" for k
    using that Suc.prems by (simp add: st8_apply of_nat_eq_iff32)
  have "heap32_free_loop ?m page (Suc i)
      = (True, l, fold (\<lambda>j m. st8 m (page + of_nat j) 0) [Suc i..<l] ?m)"
    using Suc.prems i keep by (intro Suc.hyps(1)) (use Suc.hyps(2) in auto)
  then show ?case
    using i Suc.prems by (simp add: heap32_free_loop.simps [of m page i] upt_conv_Cons const_defs)
qed

text \<open>The address of block \<open>i\<close> of a page.\<close>

definition block_addr :: "addr \<Rightarrow> nat \<Rightarrow> addr" where
  "block_addr page i = page + 128 + of_nat i * 32"

lemma block_addr_diff: "i < 124 \<Longrightarrow> sint (block_addr page i - page) = 128 + int i * 32"
proof -
  assume i: "i < 124"
  have d: "block_addr page i - page = of_nat (128 + i * 32)" by (simp add: block_addr_def)
  have u: "unat (of_nat (128 + i * 32) :: u32) = 128 + i * 32" using i by (intro unat_of_nat32) simp
  then have "sint (of_nat (128 + i * 32) :: u32) = int (128 + i * 32)"
    using i by (subst sint_nat) simp_all
  then show ?thesis unfolding d by simp
qed

lemma malloc_32_eq:
  "malloc_32 page sz s = (case slab_find (mem s) page (blocks_for sz) of
      None \<Rightarrow> (0, print (lit (''heap32:could not get a block of that size'' @ [CHR 10])) s)
    | Some i \<Rightarrow> (block_addr page i, s\<lparr>mem := heap_mark (mem s) page i (blocks_for sz)\<rparr>))"
proof (cases "slab_find (mem s) page (blocks_for sz)")
  case None
  then show ?thesis by (simp add: malloc_32_def get_index_first_fit Let_def)
next
  case (Some i)
  then have "1 \<le> blocks_for sz" "free_run (bytes_at (mem s) page 124) i (blocks_for sz)"
    by (auto simp: slab_find_def first_fit_free split: if_splits)
  then have "set_table_val (mem s) page i (drop_bit 5 (sz + 31)) = (0, heap_mark (mem s) page i (blocks_for sz))"
    by (intro set_table_val_free) (simp_all add: blocks_for_def)
  then show ?thesis
    using Some by (simp add: malloc_32_def get_index_first_fit Let_def block_addr_def const_defs)
qed

lemma heap32_free_run:
  assumes "is_run (bytes_at (mem s) page 124) i n"
  shows "heap32_free page (block_addr page i) s =
    (True, s\<lparr>mem := fold (\<lambda>j m. st8 m (page + of_nat j) 0) [i..<i + n] (mem s)\<rparr>)"
proof -
  have n: "1 \<le> n" and b: "i + n \<le> 124" using is_runD(1,2) [OF assms] by auto
  note cell = is_run_bytes_at [OF assms]
  have d: "sint (block_addr page i - page) = 128 + int i * 32" using n b by (intro block_addr_diff) simp
  have k: "nat (int i * 32 sdiv 32) = i" by (cases "i = 0") (simp_all add: signed_divide_int_def sgn_mult)
  have sm: "int i * 32 smod 32 = 0" by (simp add: smod_eq_0_iff)
  show ?thesis
  proof (cases "n = 1")
    case True
    then show ?thesis
      using cell [of i] by (simp add: heap32_free_def Let_def d k sm run_cell_def const_defs)
  next
    case False
    let ?m = "st8 (mem s) (page + of_nat i) 0"
    have keep: "?m (page + of_nat k) = run_cell n (k - i)" if "i < k" "k < i + n" for k
      using that b cell [of k] by (simp add: st8_apply of_nat_eq_iff32)
    have "heap32_free_loop ?m page (Suc i)
        = (True, i + n - 1, fold (\<lambda>j m. st8 m (page + of_nat j) 0) [Suc i..<i + n - 1] ?m)"
      using n b False by (intro heap32_free_loop_run) (auto simp: keep run_cell_def simp del: of_nat_diff)
    moreover have "mem s (page + of_nat i) = 0xc1"
      using cell [of i] False n by (simp add: run_cell_def)
    moreover have "[i..<i + n] = i # [Suc i..<i + n - 1] @ [i + n - 1]"
      using n False upt_Suc_append [of "Suc i" "i + n - 1"] by (simp add: upt_conv_Cons)
    ultimately show ?thesis
      by (simp add: heap32_free_def Let_def d k sm const_defs del: of_nat_diff)
  qed
qed

text \<open>The page provides the allocator interface.\<close>

lemma slab_free_view:
  assumes "is_run (bytes_at (mem s) page 124) i n"
  shows "bytes_at (mem (snd (heap32_free page (block_addr page i) s))) page 124
    = clear_run (bytes_at (mem s) page 124) i n"
  using assms heap_free_view [of "mem s" page 124 i n] heap_free_at_run [of "mem s" page 124 i n]
  by (simp add: heap32_free_run)

interpretation slab: run_table
  "\<lambda>s :: 'z machine_scheme. bytes_at (mem s) page 124" "\<lambda>s n. slab_find (mem s) page n"
  "\<lambda>s i n. s\<lparr>mem := heap_mark (mem s) page i n\<rparr>"
  "\<lambda>s i. snd (heap32_free page (block_addr page i) s)"
  for page :: addr
  by unfold_locales (simp_all add: slab_find_def heap_mark_view slab_free_view)

section \<open>What a page promises\<close>

definition slab_runs :: "mem \<Rightarrow> addr \<Rightarrow> (nat \<times> nat) set" where
  "slab_runs m page = runs (bytes_at m page 124)"

lemma slab_findD:
  assumes "slab_find m page n = Some i"
  shows "1 \<le> n" and "free_run (bytes_at m page 124) i n" and "i + n \<le> 124"
proof -
  show "1 \<le> n" using assms by (auto simp: slab_find_def split: if_splits)
  then show "free_run (bytes_at m page 124) i n"
    using assms by (auto simp: slab_find_def first_fit_free split: if_splits)
  from free_run_bound [OF this] show "i + n \<le> 124" by simp
qed

lemma block_addr_offset: "i < 124 \<Longrightarrow> unat (block_addr page i - page) = 128 + i * 32"
proof -
  assume i: "i < 124"
  have "block_addr page i - page = of_nat (128 + i * 32)" by (simp add: block_addr_def)
  moreover have "128 + i * 32 < 2 ^ 32" using i by simp
  ultimately show ?thesis by (simp only: unat_of_nat32)
qed

lemma block_addr_inj: "i < 124 \<Longrightarrow> j < 124 \<Longrightarrow> block_addr page i = block_addr page j \<longleftrightarrow> i = j"
  by (metis add_left_cancel block_addr_offset mult_cancel2 zero_neq_numeral)

text \<open>Blocks \<open>i\<close> to \<open>i + n - 1\<close> lie behind the table and the guard bytes, inside the page.\<close>

lemma in_block:
  assumes "i + n \<le> 124" and "in_range (block_addr page i) (n * 32) x"
  shows "128 + i * 32 \<le> unat (x - page)" and "unat (x - page) < 128 + (i + n) * 32"
proof -
  from assms(2) obtain k where k: "k < n * 32" "x = block_addr page i + of_nat k" by (rule in_rangeE)
  have "x - page = of_nat (128 + i * 32 + k)" by (simp add: k(2) block_addr_def)
  moreover have "128 + i * 32 + k < 2 ^ 32" using assms(1) k(1) by simp
  ultimately have "unat (x - page) = 128 + i * 32 + k" by (simp only: unat_of_nat32)
  then show "128 + i * 32 \<le> unat (x - page)" "unat (x - page) < 128 + (i + n) * 32"
    using k(1) by (simp_all add: algebra_simps)
qed

lemma blocks_disjoint:
  assumes "i + n \<le> j \<or> j + m \<le> i" and "i + n \<le> 124" "j + m \<le> 124"
  shows "ranges_disjoint (block_addr page i) (n * 32) (block_addr page j) (m * 32)"
  unfolding ranges_disjoint_def
  using in_block [OF assms(2)] in_block [OF assms(3)] assms(1) by fastforce

lemma block_in_page:
  assumes "i + n \<le> 124" and "in_range (block_addr page i) (n * 32) x"
  shows "in_range page 4096 x" and "\<not> in_range page 128 x"
  using in_block [OF assms] assms(1) by (auto simp: in_range_def)

lemma malloc_32_SomeD:
  assumes "malloc_32 page sz s = (a, s')" and "a \<noteq> 0"
  obtains i where "slab_find (mem s) page (blocks_for sz) = Some i" and "a = block_addr page i"
    and "s' = s\<lparr>mem := heap_mark (mem s) page i (blocks_for sz)\<rparr>"
  using assms by (auto simp: malloc_32_eq split: option.splits)

lemma malloc_32_out:
  assumes "malloc_32 page sz s = (a, s')" and "\<not> in_range page 124 x"
  shows "mem s' x = mem s x"
proof (cases "slab_find (mem s) page (blocks_for sz)")
  case None
  with assms show ?thesis by (auto simp: malloc_32_eq)
next
  case (Some i)
  note f = slab_findD [OF Some]
  have "heap_mark (mem s) page i (blocks_for sz) x = mem s x"
  proof (rule heap_mark_out [OF f(1)])
    fix j assume "i \<le> j" "j < i + blocks_for sz"
    then have "j < 124" using f(3) by simp
    then show "x \<noteq> page + of_nat j" using assms(2) by (auto simp: in_range_offset)
  qed
  with assms(1) Some show ?thesis by (auto simp: malloc_32_eq)
qed

text \<open>Releasing a block that was just taken restores the memory, byte for byte.\<close>

lemma heap32_free_malloc_32:
  assumes "malloc_32 page sz s = (a, s')" and "a \<noteq> 0"
  shows "fst (heap32_free page a s')" and "mem (snd (heap32_free page a s')) = mem s"
proof -
  obtain i where i: "slab_find (mem s) page (blocks_for sz) = Some i" "a = block_addr page i"
      "s' = s\<lparr>mem := heap_mark (mem s) page i (blocks_for sz)\<rparr>"
    by (rule malloc_32_SomeD [OF assms])
  note f = slab_findD [OF i(1)]
  let ?n = "blocks_for sz"
  have r: "is_run (bytes_at (mem s') page 124) i ?n"
    using f by (simp add: i(3) heap_mark_view is_run_mark)
  note free = heap32_free_run [OF r, folded i(2)]
  show "fst (heap32_free page a s')" by (simp add: free)
  show "mem (snd (heap32_free page a s')) = mem s"
  proof
    fix x
    show "mem (snd (heap32_free page a s')) x = mem s x"
    proof (cases "in_range page 124 x")
      case True
      then obtain k where k: "k < 124" "k < 2 ^ 32" "x = page + of_nat k" by (rule in_rangeE)
      have "bytes_at (mem (snd (heap32_free page a s'))) page 124 = bytes_at (mem s) page 124"
        using slab_free_view [OF r, folded i(2)] f by (simp add: i(3) heap_mark_view clear_mark_run)
      then have "bytes_at (mem (snd (heap32_free page a s'))) page 124 ! k = bytes_at (mem s) page 124 ! k"
        by simp
      with k show ?thesis by simp
    next
      case False
      have "mem (snd (heap32_free page a s')) x = mem s' x"
      proof -
        have "x \<noteq> page + of_nat j" if "i \<le> j" "j < i + ?n" for j
          using that f(3) False by (auto simp: in_range_offset)
        then show ?thesis by (simp add: free st8_fold_out)
      qed
      also have "\<dots> = mem s x" by (rule malloc_32_out [OF assms(1) False])
      finally show ?thesis .
    qed
  qed
qed

end
