(* ===== verification/Heap_Cream.thy ===== *)
theory Heap_Cream
  imports Heap32
begin

text \<open>
  The object heap of \<open>src/kernel/heap/heap_cream.c\<close>: \<open>mothermary\<close> points to an array of up to 124
  page addresses; every page is a block allocator of theory \<open>Heap32\<close>.  Requests go to the first page
  that can serve them, a new page comes from \<open>kzalloc\<close>, and a page whose last block is released goes
  back to \<open>kfree\<close>.  A release scans the slots from the front and stops at the first empty one: \<open>reached s a\<close> says that it gets
  to the page of \<open>a\<close>.
\<close>

record cream_state = kheap_state +
  mothermary :: addr

definition MAX_4KB_HEAP :: nat where [const_defs]: "MAX_4KB_HEAP = 124"

text \<open>\<open>mothermary[i]\<close> and a store to it.\<close>

definition slot :: "'z cream_state_scheme \<Rightarrow> nat \<Rightarrow> addr" where
  "slot s i = ld32 (mem s) (word_at (mothermary s) i)"

definition set_slot :: "nat \<Rightarrow> addr \<Rightarrow> 'z cream_state_scheme \<Rightarrow> 'z cream_state_scheme" where
  "set_slot i v s = s\<lparr>mem := st32 (mem s) (word_at (mothermary s) i) v\<rparr>"

definition help_me_mary_mother_of_god :: "'z cream_state_scheme \<Rightarrow> 'z cream_state_scheme" where
  "help_me_mary_mother_of_god s = (case kzalloc 1 s of (p, s1) \<Rightarrow> s1\<lparr>mothermary := p\<rparr>)"

definition heap_cream_init :: "addr \<Rightarrow> 'z cream_state_scheme \<Rightarrow> 'z cream_state_scheme" where
  "heap_cream_init mm s =
     s\<lparr>mem := fold (\<lambda>i m. st32 m (word_at mm i) 0) [0..<MAX_4KB_HEAP] (mem s)\<rparr>"

text \<open>The loop over the pages: the pointer, the final \<open>i\<close> and the state.\<close>

function cream_try ::
  "u32 \<Rightarrow> nat \<Rightarrow> 'z cream_state_scheme \<Rightarrow> addr \<times> nat \<times> 'z cream_state_scheme" where
  "cream_try sz i s =
     (if i < MAX_4KB_HEAP \<and> slot s i \<noteq> 0 then
        (case malloc_32 (slot s i) sz s of
          (r, s1) \<Rightarrow> if r \<noteq> 0 then (r, i, s1) else cream_try sz (Suc i) s1)
      else (0, i, s))"
  by pat_completeness auto
termination
  by (relation "measure (\<lambda>(sz, i, s). MAX_4KB_HEAP - i)") auto

declare cream_try.simps [simp del]

definition heap_cream_malloc ::
  "u32 \<Rightarrow> 'z cream_state_scheme \<Rightarrow> addr \<times> 'z cream_state_scheme" where
  "heap_cream_malloc sz s =
     (if TOTAL_BYTES_AVAIL < sz
      then (0, print (lit (''use kzalloc for blocks greater than 3968'' @ [CHR 10])) s)
      else
        case cream_try sz 0 s of (r, i, s1) \<Rightarrow>
          if r \<noteq> 0 then (r, s1)
          else if i = MAX_4KB_HEAP then (0, print (lit ''reached max page limit'') s1)
          else
            case kzalloc 1 s1 of (p, s2) \<Rightarrow>
              let s3 = set_slot i p s2
              in if slot s3 i = 0 then (0, print (lit ''kzalloc for new page failed'') s3)
                 else
                   let s4 = s3\<lparr>mem := table_guard_set (mem s3) (slot s3 i)\<rparr>
                   in malloc_32 (slot s4 i) sz s4)"

definition heap_cream_kill :: "nat \<Rightarrow> 'z cream_state_scheme \<Rightarrow> 'z cream_state_scheme" where
  "heap_cream_kill i s = set_slot i 0 (kfree (slot s i) s)"

definition heap_cream_single_chk_kill :: "nat \<Rightarrow> 'z cream_state_scheme \<Rightarrow> 'z cream_state_scheme" where
  "heap_cream_single_chk_kill i s =
     (if list_all (\<lambda>j. mem s (slot s i + of_nat j) = 0) [0..<124] then heap_cream_kill i s else s)"

function cream_free_scan :: "addr \<Rightarrow> nat \<Rightarrow> 'z cream_state_scheme \<Rightarrow> bool \<times> 'z cream_state_scheme" where
  "cream_free_scan ptr i s =
     (if i < MAX_4KB_HEAP \<and> slot s i \<noteq> 0 then
        (if slot s i \<le> ptr \<and> ptr - slot s i < 4096 then
           (case heap32_free (slot s i) ptr s of
             (True, s1) \<Rightarrow> (True, heap_cream_single_chk_kill i s1)
           | (False, s1) \<Rightarrow> cream_free_scan ptr (Suc i) s1)
         else cream_free_scan ptr (Suc i) s)
      else (False, s))"
  by pat_completeness auto
termination
  by (relation "measure (\<lambda>(ptr, i, s). MAX_4KB_HEAP - i)") auto

declare cream_free_scan.simps [simp del]

definition heap_cream_free :: "addr \<Rightarrow> 'z cream_state_scheme \<Rightarrow> bool \<times> 'z cream_state_scheme" where
  "heap_cream_free ptr s =
     (if ptr = 0 then (False, print (lit (''trying to free null.'' @ [CHR 10])) s)
      else cream_free_scan ptr 0 s)"

function heap_cream_destroy_from ::
  "addr \<Rightarrow> nat \<Rightarrow> 'z cream_state_scheme \<Rightarrow> 'z cream_state_scheme" where
  "heap_cream_destroy_from mm i s =
     (if i < MAX_4KB_HEAP \<and> ld32 (mem s) (word_at mm i) \<noteq> 0 then
        (let s1 = kfree (ld32 (mem s) (word_at mm i)) s
         in heap_cream_destroy_from mm (Suc i) (s1\<lparr>mem := st32 (mem s1) (word_at mm i) 0\<rparr>))
      else s)"
  by pat_completeness auto
termination
  by (relation "measure (\<lambda>(mm, i, s). MAX_4KB_HEAP - i)") auto

declare heap_cream_destroy_from.simps [simp del]

definition heap_cream_destroy :: "addr \<Rightarrow> 'z cream_state_scheme \<Rightarrow> 'z cream_state_scheme" where
  "heap_cream_destroy mm s = heap_cream_destroy_from mm 0 s"

section \<open>The invariant\<close>

text \<open>
  \<open>page_free s q\<close>: no allocation of the kernel heap covers page \<open>q\<close>.  \<open>clean s\<close>: the table bytes
  of every free page are zero.  \<open>kzalloc(1)\<close> clears one byte only, so a page taken by
  \<open>heap_cream_malloc\<close> has an empty block table because the free page had one.
\<close>

definition page_free :: "'z kheap_state_scheme \<Rightarrow> nat \<Rightarrow> bool" where
  "page_free s q \<longleftrightarrow> q < kheap_pages \<and> (\<forall>(i, n) \<in> kheap_runs s. q < i \<or> i + n \<le> q)"

definition empty_table :: "mem \<Rightarrow> addr \<Rightarrow> bool" where
  "empty_table m page \<longleftrightarrow> bytes_at m page 124 = replicate 124 0"

definition clean :: "'z kheap_state_scheme \<Rightarrow> bool" where
  "clean s \<longleftrightarrow> (\<forall>q. page_free s q \<longrightarrow> empty_table (mem s) (page_addr q))"

text \<open>
  \<open>cream_ok s m0 ps\<close>: \<open>mothermary\<close> is page \<open>m0\<close> and its slot \<open>j\<close> holds page \<open>ps j\<close>; all of them are
  single-page allocations of the kernel heap, different ones, with well-formed block tables.
\<close>

definition slots_are :: "'z cream_state_scheme \<Rightarrow> (nat \<Rightarrow> nat option) \<Rightarrow> bool" where
  "slots_are s ps \<longleftrightarrow>
     (\<forall>j<124. slot s j = (case ps j of None \<Rightarrow> 0 | Some p \<Rightarrow> page_addr p)) \<and> dom ps \<subseteq> {..<124} \<and>
     inj_on ps (dom ps)"

definition cream_base :: "'z cream_state_scheme \<Rightarrow> nat \<Rightarrow> nat set \<Rightarrow> bool" where
  "cream_base s m0 P \<longleftrightarrow>
     kheap_inv s \<and> clean s \<and> mothermary s = page_addr m0 \<and> (m0, 1) \<in> kheap_runs s \<and>
     (\<forall>p \<in> P. p \<noteq> m0 \<and> (p, 1) \<in> kheap_runs s \<and> wf_table (bytes_at (mem s) (page_addr p) 124))"

definition cream_ok :: "'z cream_state_scheme \<Rightarrow> nat \<Rightarrow> (nat \<Rightarrow> nat option) \<Rightarrow> bool" where
  "cream_ok s m0 ps \<longleftrightarrow> cream_base s m0 (ran ps) \<and> slots_are s ps"

definition cream_inv :: "'z cream_state_scheme \<Rightarrow> bool" where
  "cream_inv s \<longleftrightarrow> (\<exists>m0 ps. cream_ok s m0 ps)"

text \<open>The live objects: address and number of 32-byte blocks.\<close>

definition cream_live :: "'z cream_state_scheme \<Rightarrow> (addr \<times> nat) set" where
  "cream_live s = {(block_addr (slot s j) i, n) | j i n.
     j < 124 \<and> slot s j \<noteq> 0 \<and> (i, n) \<in> slab_runs (mem s) (slot s j)}"

definition live_blocks :: "mem \<Rightarrow> nat set \<Rightarrow> (addr \<times> nat) set" where
  "live_blocks m P = {(block_addr (page_addr p) i, n) | p i n.
     p \<in> P \<and> (i, n) \<in> slab_runs m (page_addr p)}"

lemma run_page:
  assumes "(p, 1) \<in> kheap_runs s"
  shows "p < kheap_pages" and "page_addr p \<noteq> 0"
  using kheap_runs_bound [OF assms] page_addr_nz [of p] by auto

lemma pages_apart:
  assumes "p < kheap_pages" and "q < kheap_pages" and "p \<noteq> q" and "a \<le> 4096" and "b \<le> 4096"
  shows "ranges_disjoint (page_addr p) a (page_addr q) b"
proof -
  have "ranges_disjoint (page_addr p) (1 * 4096) (page_addr q) (1 * 4096)"
    using assms by (intro pages_disjoint) auto
  then show ?thesis by (rule ranges_disjoint_mono) (use assms(4,5) in simp_all)
qed

lemma table_apart:
  "p < kheap_pages \<Longrightarrow> a \<le> 4096 \<Longrightarrow> ranges_disjoint (page_addr p) a KHEAP_TABLE kheap_pages"
  using table_page_disjoint [of p 1 a] by simp

lemma not_page_free: "(p, 1) \<in> kheap_runs s \<Longrightarrow> \<not> page_free s p"
  by (auto simp: page_free_def)

lemma bytes_at_frame:
  "(\<And>x. in_range a n x \<Longrightarrow> m' x = m x) \<Longrightarrow> n \<le> 2 ^ 32 \<Longrightarrow> bytes_at m' a n = bytes_at m a n"
  by (rule bytes_at_cong) (simp add: in_range_offset)

text \<open>
  A change of the memory that leaves the kernel heap's table, the slots and the free pages alone keeps
  the invariant, as long as the tables of the pages stay well formed.
\<close>

lemma slot_frame:
  assumes "\<And>x. in_range (mothermary s) 496 x \<Longrightarrow> mem s' x = mem s x" and "mothermary s' = mothermary s"
    and "j < 124"
  shows "slot s' j = slot s j"
  unfolding slot_def assms(2) by (rule ld32_word_at_cong [of _ 124]) (use assms in auto)

lemma kheap_tbl_frame:
  assumes "\<And>x. in_range KHEAP_TABLE kheap_pages x \<Longrightarrow> mem s' x = mem s x"
  shows "kheap_tbl s' = kheap_tbl s"
  unfolding kheap_tbl_def by (rule bytes_at_frame) (use assms kheap_pages_2p32 in auto)

lemma tables_frame:
  assumes "p < kheap_pages" and "q < kheap_pages" and "q \<noteq> p"
    and "\<And>x. \<not> in_range (page_addr p) 4096 x \<Longrightarrow> m' x = m x"
  shows "bytes_at m' (page_addr q) 124 = bytes_at m (page_addr q) 124"
  using assms pages_apart [of p q 4096 124]
  by (intro bytes_at_frame) (auto simp: ranges_disjoint_def)

lemma cream_base_update:
  assumes base: "cream_base s m0 P" and p: "(p, 1) \<in> kheap_runs s"
    and out: "\<And>x. \<not> in_range (page_addr p) 4096 x \<Longrightarrow> mem s' x = mem s x"
    and same: "mothermary s' = mothermary s" "kernel_heap s' = kernel_heap s"
    and wf: "p \<in> P \<Longrightarrow> wf_table (bytes_at (mem s') (page_addr p) 124)"
  shows "cream_base s' m0 P" and "kheap_runs s' = kheap_runs s"
proof -
  have inv: "kheap_inv s" "clean s" using base by (auto simp: cream_base_def)
  note pb = run_page(1) [OF p]
  have tbl: "kheap_tbl s' = kheap_tbl s"
    by (rule kheap_tbl_frame) (use out table_apart [OF pb(1), of 4096] in \<open>auto simp: ranges_disjoint_def\<close>)
  note kinv = kheap_inv_frame [OF inv(1) same(2) tbl]
  from kinv(2) show "kheap_runs s' = kheap_runs s" .
  have "empty_table (mem s') (page_addr q)" if "page_free s' q" for q
  proof -
    have f: "page_free s q" using that kinv(2) by (simp add: page_free_def)
    then have "q \<noteq> p" "q < kheap_pages" using not_page_free [OF p] by (auto simp: page_free_def)
    then have "bytes_at (mem s') (page_addr q) 124 = bytes_at (mem s) (page_addr q) 124"
      by (intro tables_frame [OF pb]) (use out in auto)
    then show ?thesis using inv(2) f by (simp add: clean_def empty_table_def)
  qed
  moreover have "wf_table (bytes_at (mem s') (page_addr q) 124)" if "q \<in> P" for q
  proof (cases "q = p")
    case False
    have "q < kheap_pages" "wf_table (bytes_at (mem s) (page_addr q) 124)"
      using base that run_page(1) by (auto simp: cream_base_def)
    moreover have "bytes_at (mem s') (page_addr q) 124 = bytes_at (mem s) (page_addr q) 124"
      by (rule tables_frame [OF pb]) (use False out calculation in auto)
    ultimately show ?thesis by simp
  qed (use wf that in auto)
  ultimately show "cream_base s' m0 P"
    using base kinv same(1) by (auto simp: cream_base_def clean_def)
qed

text \<open>A change inside one of the object pages.\<close>

lemma cream_ok_page_update:
  assumes ok: "cream_ok s m0 ps" and p: "p \<in> ran ps"
    and out: "\<And>x. \<not> in_range (page_addr p) 4096 x \<Longrightarrow> mem s' x = mem s x"
    and same: "mothermary s' = mothermary s" "kernel_heap s' = kernel_heap s"
    and wf: "wf_table (bytes_at (mem s') (page_addr p) 124)"
  shows "cream_ok s' m0 ps"
proof -
  have run: "(p, 1) \<in> kheap_runs s" "p \<noteq> m0" "(m0, 1) \<in> kheap_runs s" "mothermary s = page_addr m0"
    and base: "cream_base s m0 (ran ps)"
    using ok p by (auto simp: cream_ok_def cream_base_def)
  note pb = run_page(1) [OF run(1)] run_page(1) [OF run(3)]
  have "slot s' j = slot s j" if "j < 124" for j
    using that same(1) out pages_apart [OF pb run(2), of 4096 496]
    by (intro slot_frame) (auto simp: run(4) ranges_disjoint_def)
  then show ?thesis
    using ok cream_base_update(1) [OF base run(1) out same wf] by (auto simp: cream_ok_def slots_are_def)
qed

text \<open>A store to a slot.\<close>

lemma cream_ok_set_slot:
  assumes base: "cream_base s m0 (ran (ps(k := v)))" and slots: "slots_are s ps" and k: "k < 124"
    and new: "\<And>p. v = Some p \<Longrightarrow> p \<notin> ran (ps(k := None))"
  shows "cream_ok (set_slot k (case v of None \<Rightarrow> 0 | Some p \<Rightarrow> page_addr p) s) m0 (ps(k := v))"
    (is "cream_ok ?s m0 ?ps")
proof -
  have m0: "(m0, 1) \<in> kheap_runs s" "mothermary s = page_addr m0" and nP: "m0 \<notin> ran ?ps"
    using base by (auto simp: cream_base_def)
  have "mem ?s x = mem s x" if "\<not> in_range (page_addr m0) 4096 x" for x
  proof -
    have "\<not> in_range (page_addr m0) (4 * 124) x" using that in_range_mono [of _ "4 * 124" x 4096] by auto
    then show ?thesis
      using k st32_word_at_out [of "page_addr m0" 124 x k] by (simp add: set_slot_def m0(2))
  qed
  then have "cream_base ?s m0 (ran ?ps)"
    by (intro cream_base_update(1) [OF base m0(1)]) (use nP in \<open>auto simp: set_slot_def\<close>)
  moreover have "slot ?s j = (if j = k then (case v of None \<Rightarrow> 0 | Some p \<Rightarrow> page_addr p) else slot s j)"
    if "j < 124" for j
    using ld32_word_at [of k 124 j] k that by (auto simp: slot_def set_slot_def)
  moreover have "inj_on ?ps (dom ?ps)"
  proof (rule inj_onI)
    fix a b assume ab: "a \<in> dom ?ps" "b \<in> dom ?ps" "?ps a = ?ps b"
    show "a = b"
    proof (cases "a = k \<or> b = k")
      case True
      with ab new show ?thesis by (auto simp: ran_def split: if_splits)
    next
      case False
      with ab have "a \<in> dom ps" "b \<in> dom ps" "ps a = ps b" by (auto split: if_splits)
      with slots show ?thesis by (auto simp: slots_are_def dest: inj_onD)
    qed
  qed
  ultimately show ?thesis
    using slots k by (auto simp: cream_ok_def slots_are_def)
qed

lemma cream_live_eq:
  assumes "cream_ok s m0 ps"
  shows "cream_live s = live_blocks (mem s) (ran ps)"
proof -
  have slot: "\<And>j. j < 124 \<Longrightarrow> slot s j = (case ps j of None \<Rightarrow> 0 | Some p \<Rightarrow> page_addr p)"
    and dom: "dom ps \<subseteq> {..<124}"
    using assms by (auto simp: cream_ok_def slots_are_def)
  have nz: "page_addr p \<noteq> 0" if "ps j = Some p" for j p
    using assms that run_page(2) by (auto simp: cream_ok_def cream_base_def ran_def)
  have "(\<exists>j<124. slot s j \<noteq> 0 \<and> slot s j = a) \<longleftrightarrow> (\<exists>p \<in> ran ps. a = page_addr p)" for a
  proof
    assume "\<exists>j<124. slot s j \<noteq> 0 \<and> slot s j = a"
    then show "\<exists>p \<in> ran ps. a = page_addr p" using slot by (auto simp: ran_def split: option.splits) blast
  next
    assume "\<exists>p \<in> ran ps. a = page_addr p"
    then obtain j p where "ps j = Some p" "a = page_addr p" by (auto simp: ran_def)
    moreover from this(1) dom have "j < 124" by auto
    ultimately have "slot s j = a" "a \<noteq> 0" using slot [of j] nz [of j p] by simp_all
    with \<open>j < 124\<close> show "\<exists>j<124. slot s j \<noteq> 0 \<and> slot s j = a" by blast
  qed
  moreover have "cream_live s = {(block_addr a i, n) | a i n.
      (\<exists>j<124. slot s j \<noteq> 0 \<and> slot s j = a) \<and> (i, n) \<in> slab_runs (mem s) a}"
    unfolding cream_live_def by blast
  moreover have "live_blocks (mem s) (ran ps) = {(block_addr a i, n) | a i n.
      (\<exists>p \<in> ran ps. a = page_addr p) \<and> (i, n) \<in> slab_runs (mem s) a}"
    unfolding live_blocks_def by blast
  ultimately show ?thesis by simp
qed

section \<open>Taking a block from a page\<close>

lemma slab_runs_range:
  assumes "(i, n) \<in> slab_runs m page"
  shows "1 \<le> n" and "i + n \<le> 124"
  using is_runD(1,2) [of "bytes_at m page 124" i n] assms by (auto simp: slab_runs_def runs_def)

lemma slab_runs_head: "(i, n) \<in> slab_runs m page \<Longrightarrow> i < 124"
  using slab_runs_range [of i n m page] by linarith

lemma block_in_cream_page:
  assumes "p < kheap_pages" and "q < kheap_pages" and "p \<noteq> q" and "i + n \<le> 124" and "j + k \<le> 124"
  shows "ranges_disjoint (block_addr (page_addr p) i) (n * 32) (block_addr (page_addr q) j) (k * 32)"
  using pages_apart [OF assms(1,2,3), of 4096 4096]
    block_in_page(1) [OF assms(4), of "page_addr p"] block_in_page(1) [OF assms(5), of "page_addr q"]
  unfolding ranges_disjoint_def by blast

lemma live_blocks_frame:
  assumes "\<And>q. q \<in> P \<Longrightarrow> q \<noteq> p \<Longrightarrow> bytes_at m' (page_addr q) 124 = bytes_at m (page_addr q) 124"
  shows "live_blocks m' (P - {p}) = live_blocks m (P - {p})"
proof -
  have "slab_runs m' (page_addr q) = slab_runs m (page_addr q)" if "q \<in> P - {p}" for q
    using assms that by (simp add: slab_runs_def)
  then show ?thesis unfolding live_blocks_def by blast
qed

lemma live_blocks_Un: "live_blocks m (P \<union> Q) = live_blocks m P \<union> live_blocks m Q"
  unfolding live_blocks_def by blast

lemma live_blocks_single:
  "live_blocks m {p} = (\<lambda>(i, n). (block_addr (page_addr p) i, n)) ` slab_runs m (page_addr p)"
  unfolding live_blocks_def by auto

lemma live_blocks_split: "p \<in> P \<Longrightarrow> live_blocks m P = live_blocks m (P - {p}) \<union> live_blocks m {p}"
  using live_blocks_Un [of m "P - {p}" "{p}"] by (simp add: insert_absorb)

text \<open>What a successful request did: the new object is apart from every old one.\<close>

definition new_object ::
  "u32 \<Rightarrow> 'z cream_state_scheme \<Rightarrow> addr \<Rightarrow> 'z cream_state_scheme \<Rightarrow> bool" where
  "new_object sz s a s' \<longleftrightarrow>
     1 \<le> blocks_for sz \<and> blocks_for sz \<le> 124 \<and>
     cream_live s' = insert (a, blocks_for sz) (cream_live s) \<and>
     (\<forall>(b, n) \<in> cream_live s. ranges_disjoint a (blocks_for sz * 32) b (n * 32))"

lemma malloc_32_cream:
  assumes ok: "cream_ok s m0 ps" and p: "p \<in> ran ps"
    and m: "malloc_32 (page_addr p) sz s = (a, s')" and a: "a \<noteq> 0"
  shows "cream_ok s' m0 ps" and "new_object sz s a s'"
    and "\<And>x. \<not> in_range (page_addr p) 124 x \<Longrightarrow> mem s' x = mem s x"
    and "in_range (page_addr p) 4096 a"
proof -
  let ?page = "page_addr p" and ?n = "blocks_for sz"
  obtain i where i: "slab_find (mem s) ?page ?n = Some i" "a = block_addr ?page i"
      "s' = s\<lparr>mem := heap_mark (mem s) ?page i ?n\<rparr>"
    by (rule malloc_32_SomeD [OF m a])
  note f = slab_findD [OF i(1)]
  have base: "cream_base s m0 (ran ps)" using ok by (simp add: cream_ok_def)
  then have run: "(p, 1) \<in> kheap_runs s" and wf: "wf_table (bytes_at (mem s) ?page 124)"
    using p by (auto simp: cream_base_def)
  have bound: "q < kheap_pages" if "q \<in> ran ps" for q
    using base that run_page(1) by (auto simp: cream_base_def)
  show out: "mem s' x = mem s x" if "\<not> in_range ?page 124 x" for x
    by (rule malloc_32_out [OF m that])
  then have out': "mem s' x = mem s x" if "\<not> in_range ?page 4096 x" for x
    using that in_range_mono [of ?page 124 x 4096] by auto
  have wf': "wf_table (bytes_at (mem s') ?page 124)"
    using slab.alloc_wf [OF f(1) i(1) wf] by (simp add: i(3))
  show ok': "cream_ok s' m0 ps"
    by (rule cream_ok_page_update [OF ok p out']) (use wf' in \<open>simp_all add: i(3)\<close>)
  have runs': "slab_runs (mem s') ?page = insert (i, ?n) (slab_runs (mem s) ?page)"
    using slab.alloc_runs [OF f(1) i(1)] by (simp add: i(3) slab_runs_def)
  have tables: "bytes_at (mem s') (page_addr q) 124 = bytes_at (mem s) (page_addr q) 124"
    if "q \<in> ran ps" "q \<noteq> p" for q
    by (rule tables_frame [OF bound [OF p] bound [OF that(1)] that(2)]) (use out' in auto)
  have live: "cream_live s' = insert (a, ?n) (cream_live s)"
    using live_blocks_frame [OF tables]
    by (simp add: cream_live_eq [OF ok] cream_live_eq [OF ok'] live_blocks_split [OF p]
        live_blocks_single runs' i(2))
  have "ranges_disjoint a (?n * 32) b (n * 32)" if "(b, n) \<in> cream_live s" for b n
  proof -
    from that obtain q j where q: "q \<in> ran ps" "b = block_addr (page_addr q) j" "(j, n) \<in> slab_runs (mem s) (page_addr q)"
      by (auto simp: cream_live_eq [OF ok] live_blocks_def)
    note jn = slab_runs_range [OF q(3)]
    show ?thesis
    proof (cases "q = p")
      case True
      then show ?thesis
        using slab.alloc_fresh [OF f(1) i(1), of j n] q(3) f(3) jn
        unfolding i(2) q(2) True by (intro blocks_disjoint) (auto simp: slab_runs_def)
    next
      case False
      then show ?thesis
        unfolding i(2) q(2) using bound p q(1) f(3) jn by (intro block_in_cream_page) auto
    qed
  qed
  then show "new_object sz s a s'" using live f by (auto simp: new_object_def)
  show "in_range ?page 4096 a"
    using block_in_page(1) [of i ?n ?page a] f unfolding i(2) by simp
qed

section \<open>heap\_cream\_malloc\<close>

lemma print_mothermary [simp]: "mothermary (print cs s) = mothermary s"
  using print_ext [of cs s] by auto

text \<open>Two states that differ in the console only.\<close>

definition same_heap :: "'z cream_state_scheme \<Rightarrow> 'z cream_state_scheme \<Rightarrow> bool" where
  "same_heap s s' \<longleftrightarrow>
     mem s' = mem s \<and> kernel_heap s' = kernel_heap s \<and> mothermary s' = mothermary s"

lemma same_heap_refl [simp]: "same_heap s s"
  by (simp add: same_heap_def)

lemma same_heap_print [simp]: "same_heap s (print cs s') \<longleftrightarrow> same_heap s s'"
  by (simp add: same_heap_def)

lemma same_heapD:
  assumes "same_heap s s'"
  shows "slot s' j = slot s j" and "cream_live s' = cream_live s" and "kheap_inv s' = kheap_inv s"
    and "kheap_runs s' = kheap_runs s" and "cream_ok s' m0 ps = cream_ok s m0 ps" and "mem s' = mem s"
    and "kheap_find s' n = kheap_find s n"
proof -
  have [simp]: "mem s' = mem s" "kernel_heap s' = kernel_heap s" "mothermary s' = mothermary s"
    using assms by (simp_all add: same_heap_def)
  show [simp]: "slot s' j = slot s j" for j by (simp add: slot_def)
  have [simp]: "kheap_tbl s' = kheap_tbl s" by (simp add: kheap_tbl_def)
  show [simp]: "kheap_runs s' = kheap_runs s" by (simp add: kheap_runs_def)
  show [simp]: "kheap_inv s' = kheap_inv s" by (simp add: kheap_inv_def kheap_ready_def)
  show "cream_live s' = cream_live s" by (simp add: cream_live_def)
  show "kheap_find s' n = kheap_find s n" by (simp add: kheap_find_def)
  show "mem s' = mem s" by simp
  show "cream_ok s' m0 ps = cream_ok s m0 ps"
    by (simp add: cream_ok_def cream_base_def slots_are_def clean_def page_free_def)
qed

lemma malloc_32_Null:
  assumes "malloc_32 page sz s = (0, s')" and "page = page_addr p" and "p < kheap_pages"
  shows "same_heap s s'" and "slab_find (mem s) page (blocks_for sz) = None"
proof -
  have "block_addr page i \<noteq> 0" if "i < 124" for i
  proof -
    have "in_range page 4096 (block_addr page i)"
      using that block_in_page(1) [of i 1 page "block_addr page i"] by simp
    then show ?thesis
      using assms(2,3) page_addr_unat [OF assms(3)] in_range_nat [of page 4096 0]
      by (auto simp: kheap_pages_def)
  qed
  then show "slab_find (mem s) page (blocks_for sz) = None"
    using assms(1) slab_findD [of "mem s" page "blocks_for sz"] by (fastforce simp: malloc_32_eq split: option.splits)
  with assms(1) show "same_heap s s'" by (auto simp: malloc_32_eq)
qed

lemma cream_slot:
  assumes "cream_ok s m0 ps" and "i < 124" and "slot s i \<noteq> 0"
  obtains p where "ps i = Some p" and "slot s i = page_addr p" and "p \<in> ran ps" and "p < kheap_pages"
proof -
  obtain p where p: "ps i = Some p" "slot s i = page_addr p"
    using assms by (auto simp: cream_ok_def slots_are_def split: option.splits)
  then have "p \<in> ran ps" by (auto simp: ran_def)
  moreover from this have "p < kheap_pages"
    using assms(1) run_page(1) by (auto simp: cream_ok_def cream_base_def)
  ultimately show thesis using that p by blast
qed

lemma slot_None:
  assumes "cream_ok s m0 ps" and "i < 124" and "slot s i = 0"
  shows "ps i = None"
proof (rule ccontr)
  assume "ps i \<noteq> None"
  then obtain p where p: "ps i = Some p" by auto
  then have "slot s i = page_addr p" "(p, 1) \<in> kheap_runs s"
    using assms by (auto simp: cream_ok_def cream_base_def slots_are_def ran_def)
  with assms(3) show False using run_page(2) by metis
qed

text \<open>
  The search through the pages: it stops at the first page that serves the request, or at the first
  empty slot with the heap as it was.
\<close>

lemma cream_try_spec:
  assumes "cream_ok s m0 ps" and "cream_try sz i s = (a, k, s')" and "i \<le> 124"
  shows "if a = 0 then same_heap s s' \<and> k \<le> 124 \<and> (k < 124 \<longrightarrow> slot s k = 0) \<and>
           (\<forall>j. i \<le> j \<and> j < k \<longrightarrow> slot s j \<noteq> 0 \<and> slab_find (mem s) (slot s j) (blocks_for sz) = None)
         else \<exists>j p s1. i \<le> j \<and> ps j = Some p \<and> same_heap s s1 \<and> malloc_32 (page_addr p) sz s1 = (a, s') \<and>
           (\<forall>l. i \<le> l \<and> l < j \<longrightarrow> slot s l \<noteq> 0 \<and> slab_find (mem s) (slot s l) (blocks_for sz) = None)"
  using assms
proof (induction "124 - i" arbitrary: i s)
  case 0
  then have "i = 124" by simp
  with 0 show ?case by (auto simp: cream_try.simps [of sz 124 s] const_defs)
next
  case (Suc d)
  then have i: "i < 124" by simp
  show ?case
  proof (cases "slot s i = 0")
    case True
    with Suc.prems show ?thesis by (auto simp: cream_try.simps [of sz i s] const_defs)
  next
    case False
    obtain p where p: "slot s i = page_addr p" "ps i = Some p" "p < kheap_pages"
      by (rule cream_slot [OF Suc.prems(1) i False])
    obtain r s1 where m: "malloc_32 (page_addr p) sz s = (r, s1)" by fastforce
    show ?thesis
    proof (cases "r = 0")
      case r: True
      note null = malloc_32_Null [OF m [unfolded r] refl p(3)]
      have "cream_try sz (Suc i) s1 = (a, k, s')"
        using Suc.prems(2) i False m r p(1) by (simp add: cream_try.simps [of sz i s] const_defs)
      then have IH: "if a = 0 then same_heap s1 s' \<and> k \<le> 124 \<and> (k < 124 \<longrightarrow> slot s1 k = 0) \<and>
           (\<forall>j. Suc i \<le> j \<and> j < k \<longrightarrow> slot s1 j \<noteq> 0 \<and> slab_find (mem s1) (slot s1 j) (blocks_for sz) = None)
         else \<exists>j p s2. Suc i \<le> j \<and> ps j = Some p \<and> same_heap s1 s2 \<and> malloc_32 (page_addr p) sz s2 = (a, s') \<and>
           (\<forall>l. Suc i \<le> l \<and> l < j \<longrightarrow> slot s1 l \<noteq> 0 \<and> slab_find (mem s1) (slot s1 l) (blocks_for sz) = None)"
        using Suc.hyps(2) i Suc.prems(1) null(1)
        by (intro Suc.hyps(1)) (auto simp: same_heapD(5))
      have tr: "same_heap s1 t \<longleftrightarrow> same_heap s t" for t using null(1) by (simp add: same_heap_def)
      note IH' = IH [unfolded tr same_heapD(1) [OF null(1)] same_heapD(6) [OF null(1)]]
      show ?thesis
      proof (cases "a = 0")
        case True
        have "slot s j \<noteq> 0 \<and> slab_find (mem s) (slot s j) (blocks_for sz) = None"
          if "i \<le> j" "j < k" for j
          using IH' True null(2) p(1) \<open>slot s i \<noteq> 0\<close> that by (cases "j = i") auto
        then show ?thesis using IH' True by auto
      next
        case False
        then obtain j q s2 where j: "Suc i \<le> j" "ps j = Some q" "same_heap s s2" "malloc_32 (page_addr q) sz s2 = (a, s')"
          and before: "\<forall>l. Suc i \<le> l \<and> l < j \<longrightarrow> slot s l \<noteq> 0 \<and> slab_find (mem s) (slot s l) (blocks_for sz) = None"
          using IH' by auto
        have "slot s l \<noteq> 0 \<and> slab_find (mem s) (slot s l) (blocks_for sz) = None" if "i \<le> l" "l < j" for l
          using before null(2) p(1) \<open>slot s i \<noteq> 0\<close> that by (cases "l = i") auto
        moreover have "i \<le> j" using j(1) by simp
        ultimately show ?thesis using False j(2-4) by auto
      qed
    next
      case False
      then have e: "a = r" "s' = s1"
        using Suc.prems(2) i \<open>slot s i \<noteq> 0\<close> m p(1) by (simp_all add: cream_try.simps [of sz i s] const_defs)
      then have "a \<noteq> 0" using False by simp
      moreover have "i \<le> i \<and> ps i = Some p \<and> same_heap s s \<and> malloc_32 (page_addr p) sz s = (a, s') \<and>
          (\<forall>l. i \<le> l \<and> l < i \<longrightarrow> slot s l \<noteq> 0 \<and> slab_find (mem s) (slot s l) (blocks_for sz) = None)"
        using p(2) m e by auto
      ultimately show ?thesis by (auto simp only: if_False)
    qed
  qed
qed

lemma table_guard_set_other:
  assumes "unat (x - page) < 124 \<or> 128 \<le> unat (x - page)"
  shows "table_guard_set m page x = m x"
proof -
  have "x \<noteq> page + of_nat k" if "124 \<le> k" "k < 128" for k
    using assms that unat_of_nat32 [of k] by auto
  from this [of 124] this [of 125] this [of 126] this [of 127]
  show ?thesis by (simp add: table_guard_set_def)
qed

lemma table_guard_set_table: "bytes_at (table_guard_set m page) page 124 = bytes_at m page 124"
  by (rule bytes_at_frame) (auto simp: in_range_def intro: table_guard_set_other)

lemma slab_runs_empty: "empty_table m page \<Longrightarrow> slab_runs m page = {}"
proof -
  assume e: "empty_table m page"
  have False if "is_run (replicate 124 0) i n" for i n
  proof -
    have "replicate 124 0 ! i = run_cell n 0" "i < 124"
      using is_runD(1,2) [OF that] is_runD(3) [OF that, of 0] by auto
    then show False using run_cell_nz [of n 0] by simp
  qed
  with e show ?thesis by (auto simp: slab_runs_def runs_def empty_table_def)
qed

lemma empty_table_wf: "empty_table m page \<Longrightarrow> wf_table (bytes_at m page 124)"
  by (simp add: empty_table_def wf_table_replicate)

lemma empty_table_nth: "empty_table m page \<longleftrightarrow> (\<forall>k<124. m (page + of_nat k) = 0)"
  by (simp add: empty_table_def list_eq_iff_nth_eq)

text \<open>Entering a fresh page: the invariant is kept and no object appears.\<close>

lemma kzalloc_1_base:
  assumes base: "cream_base s m0 P" and z: "kzalloc 1 s = (p, s')" and p: "p \<noteq> 0"
  obtains q where "p = page_addr q" and "q < kheap_pages" and "q \<notin> P" and "q \<noteq> m0"
    and "cream_base s' m0 (insert q P)" and "empty_table (mem s') p"
    and "\<And>x. \<not> in_range KHEAP_TABLE kheap_pages x \<Longrightarrow> x \<noteq> p \<Longrightarrow> mem s' x = mem s x"
    and "mothermary s' = mothermary s" and "kernel_heap s' = kernel_heap s"
proof -
  have p1: "pages_for 1 = 1" by (simp add: pages_for_nat)
  have inv: "kheap_inv s" "clean s" and m0: "(m0, 1) \<in> kheap_runs s"
    and P: "\<And>r. r \<in> P \<Longrightarrow> (r, 1) \<in> kheap_runs s"
    using base by (auto simp: cream_base_def)
  obtain q where q: "p = page_addr q" "new_run 1 s q s'"
    and zero: "\<And>x. in_range p (unat (1 :: u32)) x \<Longrightarrow> mem s' x = 0"
    and keep: "\<And>x. \<not> in_range KHEAP_TABLE kheap_pages x \<Longrightarrow> \<not> in_range p (unat (1 :: u32)) x \<Longrightarrow> mem s' x = mem s x"
    by (rule kzalloc_new_run [OF inv(1) z p]) blast
  have out: "mem s' x = mem s x" if "\<not> in_range KHEAP_TABLE kheap_pages x" "x \<noteq> p" for x
    using keep [OF that(1)] that(2) by (simp add: in_range_Suc)
  have run: "q + 1 \<le> kheap_pages" "kheap_inv s'" "kheap_runs s' = insert (q, 1) (kheap_runs s)"
    and fresh: "\<And>j n. (j, n) \<in> kheap_runs s \<Longrightarrow> q + 1 \<le> j \<or> j + n \<le> q" and s': "s' = s\<lparr>mem := mem s'\<rparr>"
    using q(2) by (auto simp: new_run_def p1)
  have qb: "q < kheap_pages" using run(1) by simp
  have same: "mothermary s' = mothermary s" "kernel_heap s' = kernel_heap s"
    using arg_cong [OF s', of mothermary] arg_cong [OF s', of kernel_heap] by simp_all
  have "page_free s q" using qb fresh by (fastforce simp: page_free_def)
  then have e: "empty_table (mem s) p" using inv(2) by (simp add: clean_def q(1))
  have tab: "\<not> in_range KHEAP_TABLE kheap_pages x" if "in_range (page_addr r) 4096 x" "r < kheap_pages" for r x
    using that table_apart [of r 4096] by (auto simp: ranges_disjoint_def)
  have e': "empty_table (mem s') p" unfolding empty_table_nth
  proof (intro allI impI)
    fix k :: nat assume k: "k < 124"
    have "in_range p 4096 (p + of_nat k)" using k by (simp add: in_range_offset)
    then have "\<not> in_range KHEAP_TABLE kheap_pages (p + of_nat k)" using tab qb by (simp add: q(1))
    then show "mem s' (p + of_nat k) = 0"
      using e k out zero [of p] by (cases "p + of_nat k = p") (auto simp: empty_table_nth)
  qed
  have other: "bytes_at (mem s') (page_addr r) 124 = bytes_at (mem s) (page_addr r) 124"
    if "r \<noteq> q" "r < kheap_pages" for r
  proof (rule bytes_at_frame)
    fix x assume x: "in_range (page_addr r) 124 x"
    then have "in_range (page_addr r) 4096 x" using in_range_mono by fastforce
    moreover have "x \<noteq> p"
      using pages_apart [OF that(2) qb that(1), of 124 1] x by (auto simp: ranges_disjoint_def q(1))
    ultimately show "mem s' x = mem s x" using out tab that(2) by blast
  qed simp
  have "clean s'" unfolding clean_def
  proof (intro allI impI)
    fix r assume "page_free s' r"
    then have r: "page_free s r" "r \<noteq> q" "r < kheap_pages" by (auto simp: page_free_def run(3))
    then show "empty_table (mem s') (page_addr r)"
      using inv(2) other [OF r(2,3)] by (simp add: clean_def empty_table_def)
  qed
  moreover have ne: "q \<noteq> r" if "(r, 1) \<in> kheap_runs s" for r
    using fresh [OF that] by auto
  moreover have "wf_table (bytes_at (mem s') (page_addr r) 124)" if "r \<in> insert q P" for r
  proof (cases "r = q")
    case True
    then show ?thesis using empty_table_wf [OF e'] by (simp add: q(1))
  next
    case False
    with that have rP: "r \<in> P" by simp
    then show ?thesis
      using base other [OF False run_page(1) [OF P [OF rP]]] by (auto simp: cream_base_def)
  qed
  ultimately have "cream_base s' m0 (insert q P)"
    using base run(2,3) same(1) m0 by (auto simp: cream_base_def)
  then show thesis
    using that [OF q(1) qb _ _ _ e' out same] ne m0 P by blast
qed

text \<open>The bytes of the object pages behind table and guard.\<close>

definition obj_byte :: "nat set \<Rightarrow> addr \<Rightarrow> bool" where
  "obj_byte P x \<longleftrightarrow> (\<exists>p \<in> P. in_range (page_addr p) 4096 x \<and> \<not> in_range (page_addr p) 128 x)"

lemma obj_byte_live:
  assumes "cream_ok s m0 ps" and "(b, n) \<in> cream_live s" and "in_range b (n * 32) x"
  shows "obj_byte (ran ps) x"
proof -
  from assms(1,2) obtain p i where p: "p \<in> ran ps" "b = block_addr (page_addr p) i"
      "(i, n) \<in> slab_runs (mem s) (page_addr p)"
    by (auto simp: cream_live_eq live_blocks_def)
  have "in_range (page_addr p) 4096 x \<and> \<not> in_range (page_addr p) 128 x"
    using block_in_page [OF slab_runs_range(2) [OF p(3)], of "page_addr p" x] assms(3) by (simp add: p(2))
  with p(1) show ?thesis by (auto simp: obj_byte_def)
qed

lemma obj_byte_apart:
  assumes "cream_base s m0 P" and "obj_byte P x"
  shows "\<not> in_range KHEAP_TABLE kheap_pages x" and "\<not> in_range (page_addr m0) 4096 x"
    and "q < kheap_pages \<Longrightarrow> q \<notin> P \<Longrightarrow> \<not> in_range (page_addr q) 4096 x"
    and "q \<in> P \<Longrightarrow> \<not> in_range (page_addr q) 128 x"
proof -
  from assms obtain p where p: "p \<in> P" "in_range (page_addr p) 4096 x" "\<not> in_range (page_addr p) 128 x"
    "(p, 1) \<in> kheap_runs s" "p \<noteq> m0" "(m0, 1) \<in> kheap_runs s"
    by (auto simp: obj_byte_def cream_base_def)
  note pb = run_page(1) [OF p(4)]
  show "\<not> in_range KHEAP_TABLE kheap_pages x"
    using table_apart [OF pb, of 4096] p(2) by (auto simp: ranges_disjoint_def)
  show out: "\<not> in_range (page_addr q) 4096 x" if "q < kheap_pages" "q \<notin> P" for q
  proof -
    have "p \<noteq> q" using p(1) that(2) by auto
    then show ?thesis
      using pages_apart [OF pb that(1), of 4096 4096] p(2) by (auto simp: ranges_disjoint_def)
  qed
  have "m0 \<notin> P" using assms(1) by (auto simp: cream_base_def)
  then show "\<not> in_range (page_addr m0) 4096 x" using out run_page(1) [OF p(6)] by blast
  show "\<not> in_range (page_addr q) 128 x" if "q \<in> P"
  proof (cases "q = p")
    case False
    have "q < kheap_pages" using assms(1) that run_page(1) by (auto simp: cream_base_def)
    then show ?thesis
      using pages_apart [OF pb _ False [symmetric], of 4096 128] p(2) by (auto simp: ranges_disjoint_def)
  qed (use p(3) in simp)
qed

lemma set_slot_out:
  assumes "k < 124" and "\<not> in_range (mothermary s) 4096 x"
  shows "mem (set_slot k v s) x = mem s x"
proof -
  have "\<not> in_range (mothermary s) (4 * 124) x"
    using assms(2) in_range_mono [of _ "4 * 124" x 4096] by auto
  then show ?thesis using assms(1) st32_word_at_out [of "mothermary s" 124 x k] by (simp add: set_slot_def)
qed

lemma slot_set_slot: "k < 124 \<Longrightarrow> slot (set_slot k v s) k = v"
  by (simp add: slot_def set_slot_def)

text \<open>A fresh page in slot \<open>k\<close>: the invariant is kept and no object appears.\<close>

lemma cream_new_page:
  assumes ok: "cream_ok s m0 ps" and k: "k < 124" "slot s k = 0"
    and z: "kzalloc 1 s = (p, s2)" and p: "p \<noteq> 0"
    and s4: "s4 = (set_slot k p s2)\<lparr>mem := table_guard_set (mem (set_slot k p s2)) p\<rparr>"
  obtains q where "p = page_addr q" and "cream_ok s4 m0 (ps(k \<mapsto> q))" and "cream_live s4 = cream_live s"
    and "slot s4 k = p" and "empty_table (mem s4) p" and "q < kheap_pages"
    and "\<And>x. obj_byte (ran ps) x \<Longrightarrow> mem s4 x = mem s x"
    and "\<And>r. r \<in> ran ps \<Longrightarrow> bytes_at (mem s4) (page_addr r) 124 = bytes_at (mem s) (page_addr r) 124"
proof -
  have base: "cream_base s m0 (ran ps)" and slots: "slots_are s ps" using ok by (auto simp: cream_ok_def)
  obtain q where q: "p = page_addr q" "q < kheap_pages" "q \<notin> ran ps" "q \<noteq> m0"
    and base2: "cream_base s2 m0 (insert q (ran ps))" and e2: "empty_table (mem s2) p"
    and out2: "\<And>x. \<not> in_range KHEAP_TABLE kheap_pages x \<Longrightarrow> x \<noteq> p \<Longrightarrow> mem s2 x = mem s x"
    and same2: "mothermary s2 = mothermary s" "kernel_heap s2 = kernel_heap s"
    by (rule kzalloc_1_base [OF base z p]) blast
  have none: "ps k = None" by (rule slot_None [OF ok k])
  have mm: "mothermary s = page_addr m0" "m0 < kheap_pages" using base run_page(1) by (auto simp: cream_base_def)
  have ran: "ran (ps(k \<mapsto> q)) = insert q (ran ps)" "ran (ps(k := None)) = ran ps"
    using none fun_upd_triv [of ps k] by (simp_all add: ran_map_upd)
  have "slot s2 j = slot s j" if "j < 124" for j
  proof (rule slot_frame [OF _ same2(1) that])
    fix x assume "in_range (mothermary s) 496 x"
    then have "\<not> in_range KHEAP_TABLE kheap_pages x" "\<not> in_range p 1 x"
      using table_apart [OF mm(2), of 496] pages_apart [OF mm(2) q(2) q(4) [symmetric], of 496 1]
      by (auto simp: mm(1) ranges_disjoint_def q(1))
    moreover from this(2) have "x \<noteq> p" by auto
    ultimately show "mem s2 x = mem s x" using out2 by blast
  qed
  then have slots2: "slots_are s2 ps" using slots by (simp add: slots_are_def)
  let ?s3 = "set_slot k p s2"
  have ok3: "cream_ok ?s3 m0 (ps(k \<mapsto> q))"
    using cream_ok_set_slot [of s2 m0 ps k "Some q"] base2 slots2 k(1) q(3) by (simp add: ran q(1))
  have mm2: "mothermary s2 = page_addr m0" using same2(1) mm(1) by simp
  have apart: "in_range (page_addr q) 124 x \<Longrightarrow> \<not> in_range (page_addr m0) 4096 x" for x
    using pages_apart [OF q(2) mm(2) q(4), of 124 4096] by (auto simp: ranges_disjoint_def)
  have "bytes_at (mem ?s3) p 124 = bytes_at (mem s2) p 124"
    by (rule bytes_at_frame) (use apart k(1) in \<open>auto simp: q(1) mm2 intro!: set_slot_out\<close>)
  then have e4: "empty_table (mem s4) p"
    using e2 by (simp add: s4 empty_table_def table_guard_set_table)
  have ok4: "cream_ok s4 m0 (ps(k \<mapsto> q))"
    by (rule cream_ok_page_update [OF ok3, of q])
      (use e4 in \<open>auto simp: ran s4 in_range_def q(1) empty_table_wf intro!: table_guard_set_other\<close>)
  have frame: "mem s4 x = mem s x"
    if nt: "\<not> in_range KHEAP_TABLE kheap_pages x" and nm: "\<not> in_range (page_addr m0) 4096 x" and nq: "\<not> in_range p 4096 x" for x
  proof -
    have "x \<noteq> p" using nq by auto
    then have "mem s2 x = mem s x" using out2 nt by blast
    moreover have "mem ?s3 x = mem s2 x" using nm by (intro set_slot_out [OF k(1)]) (simp add: mm2)
    moreover have "mem s4 x = mem ?s3 x"
      unfolding s4 using nq by (auto simp: in_range_def intro!: table_guard_set_other)
    ultimately show ?thesis by simp
  qed
  have obj: "mem s4 x = mem s x" if "obj_byte (ran ps) x" for x
    using obj_byte_apart(1-3) [OF base that] q(2,3) by (intro frame) (auto simp: q(1))
  have tables: "bytes_at (mem s4) (page_addr r) 124 = bytes_at (mem s) (page_addr r) 124" if "r \<in> ran ps" for r
  proof (rule bytes_at_frame)
    have r: "r < kheap_pages" "r \<noteq> q" "r \<noteq> m0"
      using base that q(3) run_page(1) by (auto simp: cream_base_def)
    show "mem s4 x = mem s x" if "in_range (page_addr r) 124 x" for x
      using that table_apart [OF r(1), of 124] pages_apart [OF r(1) mm(2) r(3), of 124 4096]
        pages_apart [OF r(1) q(2) r(2), of 124 4096] by (intro frame) (auto simp: ranges_disjoint_def q(1))
  qed simp
  have "live_blocks (mem s4) (insert q (ran ps)) = live_blocks (mem s4) (ran ps)"
    using live_blocks_Un [of "mem s4" "{q}" "ran ps"] slab_runs_empty [OF e4]
    by (simp add: live_blocks_single q(1))
  also have "\<dots> = live_blocks (mem s) (ran ps)"
    using live_blocks_frame [of "ran ps" q "mem s4" "mem s"] tables q(3) by simp
  finally have "cream_live s4 = cream_live s"
    by (simp add: cream_live_eq [OF ok] cream_live_eq [OF ok4] ran)
  moreover have "slot s4 k = p"
  proof -
    have "slot s4 k = slot ?s3 k"
      by (rule slot_frame)
        (use k(1) pages_apart [OF mm(2) q(2) q(4) [symmetric], of 496 4096]
          in \<open>auto simp: s4 set_slot_def mm2 ranges_disjoint_def q(1) in_range_def intro!: table_guard_set_other\<close>)
    then show ?thesis using slot_set_slot [OF k(1)] by simp
  qed
  ultimately show thesis using that q(1,2) ok4 e4 obj tables by blast
qed

lemma malloc_32_fresh:
  assumes "empty_table (mem s) page" and "1 \<le> blocks_for sz" and "blocks_for sz \<le> 124"
  shows "fst (malloc_32 page sz s) = block_addr page 0"
proof -
  have "slab_find (mem s) page (blocks_for sz) = Some 0"
    using assms by (simp add: slab_find_def empty_table_def first_fit_replicate)
  then show ?thesis by (simp add: malloc_32_eq)
qed

text \<open>
  Where the new object is: \<open>placed_at n s a s' j i\<close>, in the page of slot \<open>j\<close> at block \<open>i\<close>.  No page before it has \<open>n\<close> blocks in
  a row, the page of slot \<open>j\<close> is a new one with nothing else in it or has the first such place at \<open>i\<close>, and the other
  slots and tables stay.
\<close>

definition placed_at ::
  "nat \<Rightarrow> 'z cream_state_scheme \<Rightarrow> addr \<Rightarrow> 'z cream_state_scheme \<Rightarrow> nat \<Rightarrow> nat \<Rightarrow> bool" where
  "placed_at n s a s' j i \<longleftrightarrow> j < 124 \<and> i < 124 \<and> a = block_addr (slot s' j) i \<and> (\<forall>l\<le>j. slot s' l \<noteq> 0) \<and>
     (\<forall>l<j. slot s l \<noteq> 0 \<and> slab_find (mem s) (slot s l) n = None) \<and>
     (if slot s j = 0 then i = 0 \<and> slab_runs (mem s') (slot s' j) = {(0, n)}
      else slot s' j = slot s j \<and> slab_find (mem s) (slot s j) n = Some i \<and>
        slab_runs (mem s') (slot s' j) = insert (i, n) (slab_runs (mem s) (slot s j))) \<and>
     (\<forall>l<124. l \<noteq> j \<longrightarrow> slot s' l = slot s l \<and> (slot s l \<noteq> 0 \<longrightarrow> slab_runs (mem s') (slot s l) = slab_runs (mem s) (slot s l)))"

lemma base_page:
  assumes "cream_base s m0 P" and "p \<in> P"
  shows "p < kheap_pages" and "page_addr p \<noteq> 0" and "wf_table (bytes_at (mem s) (page_addr p) 124)"
proof -
  from assms have "(p, 1) \<in> kheap_runs s" and w: "wf_table (bytes_at (mem s) (page_addr p) 124)"
    by (auto simp: cream_base_def)
  from run_page [OF this(1)] w show "p < kheap_pages" "page_addr p \<noteq> 0"
    "wf_table (bytes_at (mem s) (page_addr p) 124)" by simp_all
qed

lemma ok_page:
  assumes "cream_ok s m0 ps" and "ps j = Some p"
  shows "p \<in> ran ps" and "p < kheap_pages" and "page_addr p \<noteq> 0" and "j < 124"
    and "slot s j = page_addr p"
proof -
  show r: "p \<in> ran ps" using assms(2) by (auto simp: ran_def)
  show "p < kheap_pages" "page_addr p \<noteq> 0" using base_page [OF _ r] assms(1) by (auto simp: cream_ok_def)
  show "j < 124" "slot s j = page_addr p" using assms by (auto simp: cream_ok_def slots_are_def)
qed

lemma malloc_32_place:
  assumes "malloc_32 page sz s = (a, s')" and "a \<noteq> 0"
  obtains i where "slab_find (mem s) page (blocks_for sz) = Some i" and "a = block_addr page i" and "i < 124"
    and "slab_runs (mem s') page = insert (i, blocks_for sz) (slab_runs (mem s) page)"
proof -
  obtain i where i: "slab_find (mem s) page (blocks_for sz) = Some i" "a = block_addr page i"
      "s' = s\<lparr>mem := heap_mark (mem s) page i (blocks_for sz)\<rparr>"
    by (rule malloc_32_SomeD [OF assms])
  note f = slab_findD [OF i(1)]
  have "i < 124" using f(1,3) by linarith
  moreover have "slab_runs (mem s') page = insert (i, blocks_for sz) (slab_runs (mem s) page)"
    using slab.alloc_runs [OF f(1) i(1)] by (simp add: i(3) slab_runs_def)
  ultimately show thesis by (rule that [OF i(1,2)])
qed

lemma slots_same: "cream_ok s m0 ps \<Longrightarrow> cream_ok s' m0 ps' \<Longrightarrow> j < 124 \<Longrightarrow> ps' j = ps j \<Longrightarrow> slot s' j = slot s j"
  by (simp add: cream_ok_def slots_are_def)

lemma slots_apart: "cream_ok s m0 ps \<Longrightarrow> ps j = Some p \<Longrightarrow> ps l = Some q \<Longrightarrow> j \<noteq> l \<Longrightarrow> p \<noteq> q"
  by (auto simp: cream_ok_def slots_are_def inj_on_def dom_def)

lemma placed_old:
  assumes ok: "cream_ok s m0 ps" and p: "ps j = Some p" and m: "malloc_32 (page_addr p) sz s = (a, s')" and a: "a \<noteq> 0"
    and before: "\<forall>l<j. slot s l \<noteq> 0 \<and> slab_find (mem s) (slot s l) (blocks_for sz) = None"
  shows "\<exists>i. placed_at (blocks_for sz) s a s' j i"
proof -
  note sp = ok_page [OF ok p]
  have ok': "cream_ok s' m0 ps" by (rule malloc_32_cream(1) [OF ok _ m a]) (use sp in blast)
  note same = slots_same [OF ok ok' _ refl]
  obtain i where i: "slab_find (mem s) (page_addr p) (blocks_for sz) = Some i" "a = block_addr (page_addr p) i" "i < 124"
    "slab_runs (mem s') (page_addr p) = insert (i, blocks_for sz) (slab_runs (mem s) (page_addr p))"
    by (rule malloc_32_place [OF m a])
  have other: "slab_runs (mem s') (slot s l) = slab_runs (mem s) (slot s l)" if l: "l < 124" "l \<noteq> j" "slot s l \<noteq> 0" for l
  proof -
    obtain q where q: "ps l = Some q" "slot s l = page_addr q" "q < kheap_pages" by (rule cream_slot [OF ok l(1,3)])
    have out: "mem s' x = mem s x" if "\<not> in_range (page_addr p) 4096 x" for x
      using malloc_32_out [OF m] in_range_mono [of "page_addr p" 124 x 4096] that by auto
    have "bytes_at (mem s') (page_addr q) 124 = bytes_at (mem s) (page_addr q) 124"
      by (rule tables_frame [OF _ q(3) _ out]) (use slots_apart [OF ok q(1) p l(2)] sp in auto)
    then show ?thesis by (simp add: q(2) slab_runs_def)
  qed
  have "slot s' l \<noteq> 0" if "l \<le> j" for l
    using before same [of l] sp that by (cases "l = j") auto
  then show ?thesis using i sp same before other by (intro exI [of _ i]) (auto simp: placed_at_def)
qed

lemma placed_new:
  assumes ok: "cream_ok s m0 ps" and k: "k < 124" "slot s k = 0"
    and ok4: "cream_ok s4 m0 (ps(k \<mapsto> q))" and e: "empty_table (mem s4) (page_addr q)"
    and tables: "\<And>r. r \<in> ran ps \<Longrightarrow> bytes_at (mem s4) (page_addr r) 124 = bytes_at (mem s) (page_addr r) 124"
    and m: "malloc_32 (page_addr q) sz s4 = (a, s')" and a: "a \<noteq> 0"
    and before: "\<forall>l<k. slot s l \<noteq> 0 \<and> slab_find (mem s) (slot s l) (blocks_for sz) = None"
  shows "placed_at (blocks_for sz) s a s' k 0"
proof -
  have qk: "(ps(k \<mapsto> q)) k = Some q" by simp
  note sp = ok_page [OF ok4 qk]
  have ok': "cream_ok s' m0 (ps(k \<mapsto> q))" by (rule malloc_32_cream(1) [OF ok4 _ m a]) (use sp in blast)
  have same: "slot s' l = slot s l" if "l < 124" "l \<noteq> k" for l using slots_same [OF ok ok' that(1)] that(2) by simp
  have k': "slot s' k = page_addr q" using ok_page [OF ok' qk] by simp
  obtain i where i: "slab_find (mem s4) (page_addr q) (blocks_for sz) = Some i" "a = block_addr (page_addr q) i" "i < 124"
    "slab_runs (mem s') (page_addr q) = insert (i, blocks_for sz) (slab_runs (mem s4) (page_addr q))"
    by (rule malloc_32_place [OF m a])
  note f = slab_findD [OF i(1)]
  have "i = 0" using i(1) f(1,3) e by (simp add: slab_find_def empty_table_def first_fit_replicate)
  note i = i [unfolded this slab_runs_empty [OF e]]
  have other: "slab_runs (mem s') (slot s l) = slab_runs (mem s) (slot s l)" if l: "l < 124" "l \<noteq> k" "slot s l \<noteq> 0" for l
  proof -
    obtain r where r: "ps l = Some r" "slot s l = page_addr r" "r < kheap_pages" "r \<in> ran ps" by (rule cream_slot [OF ok l(1,3)])
    have out: "mem s' x = mem s4 x" if "\<not> in_range (page_addr q) 4096 x" for x
      using malloc_32_out [OF m] in_range_mono [of "page_addr q" 124 x 4096] that by auto
    have "(ps(k \<mapsto> q)) l = Some r" using r(1) l(2) by simp
    note ne = slots_apart [OF ok4 this qk l(2)]
    have "bytes_at (mem s') (page_addr r) 124 = bytes_at (mem s4) (page_addr r) 124"
      by (rule tables_frame [OF _ r(3) ne out]) (use sp in auto)
    then show ?thesis by (simp add: r(2) slab_runs_def tables [OF r(4)])
  qed
  have "slot s' l \<noteq> 0" if "l \<le> k" for l using before same [of l] sp k' k(1) that by (cases "l = k") auto
  then show ?thesis using i k k' same before other by (auto simp: placed_at_def)
qed

text \<open>A request enters at most one page, into the first empty slot.\<close>

definition grown :: "'z cream_state_scheme \<Rightarrow> nat \<Rightarrow> (nat \<Rightarrow> nat option) \<Rightarrow> 'z cream_state_scheme \<Rightarrow> bool" where
  "grown s m0 ps s' \<longleftrightarrow> cream_ok s' m0 ps \<or>
     (\<exists>k<124. \<exists>q. cream_ok s' m0 (ps(k \<mapsto> q)) \<and> slot s k = 0 \<and> (\<forall>l<k. slot s l \<noteq> 0))"

lemma grown_inv: "grown s m0 ps s' \<Longrightarrow> cream_inv s'"
  by (auto simp: grown_def cream_inv_def)

text \<open>What a request promises that returns \<open>a\<close>.\<close>

definition served :: "u32 \<Rightarrow> 'z cream_state_scheme \<Rightarrow> nat \<Rightarrow> (nat \<Rightarrow> nat option) \<Rightarrow> addr \<Rightarrow> 'z cream_state_scheme \<Rightarrow> bool" where
  "served sz s m0 ps a s' \<longleftrightarrow> grown s m0 ps s' \<and> (a \<noteq> 0 \<longrightarrow> new_object sz s a s' \<and> (\<exists>j i. placed_at (blocks_for sz) s a s' j i)) \<and>
     (a = 0 \<longrightarrow> cream_live s' = cream_live s) \<and>
     (\<forall>x. obj_byte (ran ps) x \<longrightarrow> mem s' x = mem s x)"

lemma served_same: "cream_ok s m0 ps \<Longrightarrow> same_heap s s' \<Longrightarrow> served sz s m0 ps 0 s'"
  using same_heapD(2,5,6) [of s s'] by (auto simp: served_def grown_def)

text \<open>No page is left: 0 is stored in the empty slot.\<close>

lemma served_no_page:
  assumes ok: "cream_ok s m0 ps" and sh: "same_heap s s1" and k: "k < 124" "slot s k = 0"
    and z: "kzalloc 1 s1 = (0, s2)" and s': "same_heap (set_slot k 0 s2) s'"
  shows "served sz s m0 ps 0 s'"
proof -
  have base: "cream_base s m0 (ran ps)" using ok by (simp add: cream_ok_def)
  note ok1 = ok [folded same_heapD(5) [OF sh]]
  let ?s3 = "set_slot k 0 s2"
  have s2: "s2 = print (lit ''heap_get_start_block null'') s1"
    using kzalloc_NullD(2) [of s1 1 s2] z ok1 by (auto simp: cream_ok_def cream_base_def kheap_inv_def)
  have sh2: "same_heap s s2" using sh by (simp add: s2)
  note ok2 = ok [folded same_heapD(5) [OF sh2]]
  have upd: "ps(k := None) = ps" using slot_None [OF ok k] by auto
  have ok3: "cream_ok ?s3 m0 ps"
    using cream_ok_set_slot [of s2 m0 ps k None] ok2 k(1) by (simp add: upd cream_ok_def)
  have mm2: "mothermary s2 = page_addr m0" "m0 < kheap_pages"
    using ok2 run_page(1) by (auto simp: cream_ok_def cream_base_def)
  have keep: "mem ?s3 x = mem s x" if "\<not> in_range (page_addr m0) 4096 x" for x
    using set_slot_out [OF k(1), of s2 x] that same_heapD(6) [OF sh2] by (simp add: mm2)
  have "live_blocks (mem ?s3) (ran ps - {m0}) = live_blocks (mem s) (ran ps - {m0})"
  proof (rule live_blocks_frame)
    fix q assume "q \<in> ran ps" "q \<noteq> m0"
    then have "q < kheap_pages" using base run_page(1) by (auto simp: cream_base_def)
    then show "bytes_at (mem ?s3) (page_addr q) 124 = bytes_at (mem s) (page_addr q) 124"
      using \<open>q \<noteq> m0\<close> keep by (rule tables_frame [OF mm2(2)])
  qed
  moreover have "ran ps - {m0} = ran ps" using base by (auto simp: cream_base_def)
  ultimately have live: "cream_live ?s3 = cream_live s"
    by (simp add: cream_live_eq [OF ok] cream_live_eq [OF ok3])
  show ?thesis
    using live ok3 keep obj_byte_apart(2) [OF base] same_heapD(2,5,6) [OF s'] by (auto simp: served_def grown_def)
qed

text \<open>A new page is entered, and the request goes to it.\<close>

lemma served_new_page:
  assumes ok: "cream_ok s m0 ps" and sh: "same_heap s s1" and k: "k < 124" "slot s k = 0"
    and full: "\<forall>l<k. slot s l \<noteq> 0 \<and> slab_find (mem s) (slot s l) (blocks_for sz) = None"
    and z: "kzalloc 1 s1 = (p, s2)" "p \<noteq> 0" and s4: "s4 = (set_slot k p s2)\<lparr>mem := table_guard_set (mem (set_slot k p s2)) p\<rparr>"
    and mal: "slot s4 k = p \<Longrightarrow> malloc_32 p sz s4 = (a, s')"
  shows "served sz s m0 ps a s'"
proof -
  have k1: "slot s1 k = 0" using k(2) same_heapD(1) [OF sh] k(1) by simp
  obtain q where q: "p = page_addr q" and ok4: "cream_ok s4 m0 (ps(k \<mapsto> q))"
    and live4: "cream_live s4 = cream_live s1" and slot4: "slot s4 k = p"
    and e4: "empty_table (mem s4) p" and qb: "q < kheap_pages" and obj: "\<And>x. obj_byte (ran ps) x \<Longrightarrow> mem s4 x = mem s1 x"
    and tables: "\<And>r. r \<in> ran ps \<Longrightarrow> bytes_at (mem s4) (page_addr r) 124 = bytes_at (mem s1) (page_addr r) 124"
    by (rule cream_new_page [OF ok [folded same_heapD(5) [OF sh]] k(1) k1 z s4]) blast
  have mal: "malloc_32 (page_addr q) sz s4 = (a, s')" using mal [OF slot4] by (simp add: q)
  have g: "grown s m0 ps t" if "cream_ok t m0 (ps(k \<mapsto> q))" for t
    using that k full by (auto simp: grown_def)
  have qr: "q \<in> ran (ps(k \<mapsto> q))" by (auto simp: ran_def)
  have live: "cream_live s4 = cream_live s" using live4 same_heapD(2) [OF sh] by simp
  have "\<not> in_range (page_addr q) 124 x" if "obj_byte (ran ps) x" for x
  proof -
    have "obj_byte (ran (ps(k \<mapsto> q))) x"
      using that slot_None [OF ok k] by (simp add: obj_byte_def ran_map_upd)
    then have "\<not> in_range (page_addr q) 128 x"
      using obj_byte_apart(4) [of s4 m0] ok4 qr by (auto simp: cream_ok_def)
    then show ?thesis using in_range_mono [of _ 124 x 128] by auto
  qed
  then have obj': "mem s' x = mem s x" if "obj_byte (ran ps) x" for x
    using that obj [OF that] malloc_32_out [OF mal] same_heapD(6) [OF sh] by simp
  show ?thesis
  proof (cases "a = 0")
    case True
    note sh' = malloc_32_Null(1) [OF mal [unfolded True] refl qb]
    show ?thesis using obj' True live g [of s'] ok4 same_heapD(2,5) [OF sh'] by (auto simp: served_def)
  next
    case False
    have "placed_at (blocks_for sz) s a s' k 0"
      by (rule placed_new [OF ok k ok4 e4 [unfolded q] _ mal False full]) (use tables same_heapD(6) [OF sh] in simp)
    then show ?thesis
      using obj' live False g [of s'] malloc_32_cream(1,2) [OF ok4 qr mal] by (auto simp: served_def new_object_def)
  qed
qed

lemma heap_cream_malloc_served:
  assumes ok: "cream_ok s m0 ps" and m: "heap_cream_malloc sz s = (a, s')"
  shows "served sz s m0 ps a s'"
proof -
  have base: "cream_base s m0 (ran ps)" using ok by (simp add: cream_ok_def)
  obtain r k s1 where t: "cream_try sz 0 s = (r, k, s1)" by (metis prod_cases3)
  note tried = cream_try_spec [OF ok t, simplified]
  consider "TOTAL_BYTES_AVAIL < sz" | "\<not> TOTAL_BYTES_AVAIL < sz" "r \<noteq> 0"
    | "\<not> TOTAL_BYTES_AVAIL < sz" "r = 0" "k = 124" | "\<not> TOTAL_BYTES_AVAIL < sz" "r = 0" "k < 124"
    using tried by (cases "r = 0") force+
  then show ?thesis
  proof cases
    case 1
    then show ?thesis using m served_same [OF ok, of s'] by (auto simp: heap_cream_malloc_def)
  next
    case 2
    then have e: "a = r" "s' = s1" using m t by (auto simp: heap_cream_malloc_def)
    from tried 2 obtain j p s0 where p: "same_heap s s0" "ps j = Some p" "malloc_32 (page_addr p) sz s0 = (a, s')"
      and before: "\<forall>l<j. slot s l \<noteq> 0 \<and> slab_find (mem s) (slot s l) (blocks_for sz) = None"
      by (auto simp: e)
    note ok0 = ok [folded same_heapD(5) [OF p(1)]]
    have pr: "p \<in> ran ps" using p(2) by (auto simp: ran_def)
    note res = malloc_32_cream [OF ok0 pr p(3)]
    have "\<exists>i. placed_at (blocks_for sz) s0 a s' j i"
      by (rule placed_old [OF ok0 p(2,3)]) (use 2 e before same_heapD(1,6) [OF p(1)] in auto)
    moreover have "slot s0 = slot s" using same_heapD(1) [OF p(1)] by blast
    ultimately have place: "\<exists>j i. placed_at (blocks_for sz) s a s' j i"
      unfolding placed_at_def using same_heapD(6) [OF p(1)] by (simp only:) blast
    have "mem s' x = mem s x" if "obj_byte (ran ps) x" for x
    proof -
      have "\<not> in_range (page_addr p) 124 x"
        using obj_byte_apart(4) [OF base that pr] in_range_mono [of _ 124 x 128] by auto
      then show ?thesis using res(3) 2 e same_heapD(6) [OF p(1)] by simp
    qed
    then show ?thesis
      using res(1,2) 2 place e same_heapD(2) [OF p(1)] by (simp add: served_def grown_def new_object_def)
  next
    case 3
    then show ?thesis using m t tried served_same [OF ok, of s'] by (auto simp: heap_cream_malloc_def const_defs)
  next
    case 4
    then have sh: "same_heap s s1" and k: "slot s k = 0"
      and full: "\<forall>l<k. slot s l \<noteq> 0 \<and> slab_find (mem s) (slot s l) (blocks_for sz) = None"
      using tried by auto
    obtain p s2 where z: "kzalloc 1 s1 = (p, s2)" by fastforce
    have slot3: "slot (set_slot k p s2) k = p" using slot_set_slot 4 by blast
    show ?thesis
    proof (cases "p = 0")
      case True
      then have "a = 0" "same_heap (set_slot k 0 s2) s'"
        using m t 4 z slot3 by (auto simp: heap_cream_malloc_def const_defs Let_def)
      then show ?thesis using served_no_page [OF ok sh 4(3) k z [unfolded True], of s'] by simp
    next
      case False
      show ?thesis
        by (rule served_new_page [OF ok sh 4(3) k full z False refl])
          (use m t 4 z False slot3 in \<open>auto simp: heap_cream_malloc_def const_defs Let_def\<close>)
    qed
  qed
qed

lemma heap_cream_malloc_spec:
  assumes ok: "cream_ok s m0 ps" and m: "heap_cream_malloc sz s = (a, s')"
  shows "grown s m0 ps s'" and "a \<noteq> 0 \<Longrightarrow> new_object sz s a s'" and "a = 0 \<Longrightarrow> cream_live s' = cream_live s"
    and "\<And>x. obj_byte (ran ps) x \<Longrightarrow> mem s' x = mem s x"
    and "a \<noteq> 0 \<Longrightarrow> \<exists>j i. placed_at (blocks_for sz) s a s' j i"
  using heap_cream_malloc_served [OF assms] by (auto simp: served_def)

section \<open>heap\_cream\_free\<close>

lemma ran_upd_None: "inj_on ps (dom ps) \<Longrightarrow> ps j = Some p \<Longrightarrow> ran (ps(j := None)) = ran ps - {p}"
  by (auto simp: ran_def dom_def inj_on_def) (metis option.inject)

lemma kfree_mem_only: "kheap_ready s \<Longrightarrow> i < kheap_pages \<Longrightarrow>
    mothermary (kfree (page_addr i) s) = mothermary s \<and> kernel_heap (kfree (page_addr i) s) = kernel_heap s"
  by (simp add: kfree_eq)

text \<open>Giving an empty page back keeps the invariant and the objects.\<close>

lemma heap_cream_kill_spec:
  assumes ok: "cream_ok s m0 ps" and p: "ps j = Some p" and e: "empty_table (mem s) (page_addr p)"
  shows "cream_ok (heap_cream_kill j s) m0 (ps(j := None))" and "cream_live (heap_cream_kill j s) = cream_live s"
    and "\<And>x. obj_byte (ran ps) x \<Longrightarrow> mem (heap_cream_kill j s) x = mem s x"
proof -
  have base: "cream_base s m0 (ran ps)" and slots: "slots_are s ps" using ok by (auto simp: cream_ok_def)
  have j: "j < 124" using p slots by (auto simp: slots_are_def)
  have slot: "slot s j = page_addr p" using p slots j by (auto simp: slots_are_def)
  have run: "(p, 1) \<in> kheap_runs s" "p \<noteq> m0" "(m0, 1) \<in> kheap_runs s" "kheap_inv s" "mothermary s = page_addr m0"
    using base p by (auto simp: cream_base_def ran_def)
  note pb = run_page(1) [OF run(1)] and mb = run_page(1) [OF run(3)]
  have ready: "kheap_ready s" using run(4) by (simp add: kheap_inv_def)
  let ?s1 = "kfree (page_addr p) s"
  note fr = kfree_runs [OF run(4,1)]
  note same = kfree_mem_only [OF ready pb]
  have ran: "ran (ps(j := None)) = ran ps - {p}"
    using slots p by (intro ran_upd_None) (auto simp: slots_are_def)
  have tables: "bytes_at (mem ?s1) (page_addr q) 124 = bytes_at (mem s) (page_addr q) 124" if "q < kheap_pages" for q
    by (rule bytes_at_frame) (use fr(3) table_apart [OF that, of 124] in \<open>auto simp: ranges_disjoint_def\<close>)
  have "empty_table (mem ?s1) (page_addr q)" if "page_free ?s1 q" for q
  proof -
    have q: "q < kheap_pages" "page_free s q \<or> q = p" using that by (fastforce simp: page_free_def fr(2))+
    then show ?thesis using e base tables [OF q(1)] by (auto simp: cream_base_def clean_def empty_table_def)
  qed
  then have base1: "cream_base ?s1 m0 (ran (ps(j := None)))"
    using base fr(1,2) same run(2) tables base_page(1,3) [OF base]
    by (auto simp: cream_base_def clean_def ran)
  have "slot ?s1 k = slot s k" if "k < 124" for k
    using that same fr(3) table_apart [OF mb, of 496]
    by (intro slot_frame) (auto simp: run(5) ranges_disjoint_def)
  then have "slots_are ?s1 ps" using slots by (simp add: slots_are_def)
  then show ok': "cream_ok (heap_cream_kill j s) m0 (ps(j := None))"
    using cream_ok_set_slot [of ?s1 m0 ps j None] base1 j by (simp add: heap_cream_kill_def slot)
  have keep: "mem (heap_cream_kill j s) x = mem s x"
    if "\<not> in_range KHEAP_TABLE kheap_pages x" "\<not> in_range (page_addr m0) 4096 x" for x
    using that fr(3) set_slot_out [OF j, of ?s1 x 0] same by (simp add: heap_cream_kill_def slot run(5))
  then show "mem (heap_cream_kill j s) x = mem s x" if "obj_byte (ran ps) x" for x
    using obj_byte_apart(1,2) [OF base that] by blast
  have "bytes_at (mem (heap_cream_kill j s)) (page_addr q) 124 = bytes_at (mem s) (page_addr q) 124" if "q \<in> ran ps" for q
  proof (rule bytes_at_frame)
    have q: "q < kheap_pages" "q \<noteq> m0" using base that run_page(1) by (auto simp: cream_base_def)
    fix x assume "in_range (page_addr q) 124 x"
    then show "mem (heap_cream_kill j s) x = mem s x"
      using keep table_apart [OF q(1), of 124] pages_apart [OF q(1) mb q(2), of 124 4096]
      by (auto simp: ranges_disjoint_def)
  qed simp
  then have "live_blocks (mem (heap_cream_kill j s)) (ran ps - {p}) = live_blocks (mem s) (ran ps - {p})"
    by (intro live_blocks_frame) auto
  moreover have "live_blocks (mem s) (ran ps) = live_blocks (mem s) (ran ps - {p})"
    using live_blocks_split [OF ok_page(1) [OF ok p]] slab_runs_empty [OF e] by (simp add: live_blocks_single)
  ultimately show "cream_live (heap_cream_kill j s) = cream_live s"
    by (simp add: cream_live_eq [OF ok] cream_live_eq [OF ok'] ran)
qed

lemma heap_cream_single_chk_kill_spec:
  assumes ok: "cream_ok s m0 ps" and p: "ps j = Some p"
  shows "cream_inv (heap_cream_single_chk_kill j s)"
    and "cream_live (heap_cream_single_chk_kill j s) = cream_live s"
    and "\<And>x. obj_byte (ran ps) x \<Longrightarrow> mem (heap_cream_single_chk_kill j s) x = mem s x"
proof -
  have "j < 124" "slot s j = page_addr p" using ok p by (auto simp: cream_ok_def slots_are_def)
  then have "list_all (\<lambda>k. mem s (slot s j + of_nat k) = 0) [0..<124] \<longleftrightarrow> empty_table (mem s) (page_addr p)"
    by (simp add: empty_table_nth list_all_iff Ball_def del: upt_rec_numeral)
  then show "cream_inv (heap_cream_single_chk_kill j s)"
    "cream_live (heap_cream_single_chk_kill j s) = cream_live s"
    "\<And>x. obj_byte (ran ps) x \<Longrightarrow> mem (heap_cream_single_chk_kill j s) x = mem s x"
    using heap_cream_kill_spec [OF ok p] ok
    by (auto simp: heap_cream_single_chk_kill_def cream_inv_def simp del: upt_rec_numeral)
qed

text \<open>Releasing a block of a page.\<close>

lemma heap32_free_cream:
  assumes ok: "cream_ok s m0 ps" and p: "p \<in> ran ps" and r: "(i, n) \<in> slab_runs (mem s) (page_addr p)"
    and f: "heap32_free (page_addr p) (block_addr (page_addr p) i) s = (b, s')"
  shows "b" and "cream_ok s' m0 ps" and "cream_live s' = cream_live s - {(block_addr (page_addr p) i, n)}"
    and "\<And>x. obj_byte (ran ps) x \<Longrightarrow> mem s' x = mem s x"
    and "slab_runs (mem s') (page_addr p) = slab_runs (mem s) (page_addr p) - {(i, n)}"
proof -
  let ?page = "page_addr p"
  have run: "is_run (bytes_at (mem s) ?page 124) i n" using r by (simp add: slab_runs_def runs_def)
  note range = slab_runs_range [OF r]
  have s': "b" "s' = s\<lparr>mem := fold (\<lambda>j m. st8 m (?page + of_nat j) 0) [i..<i + n] (mem s)\<rparr>"
    using f by (simp_all add: heap32_free_run [OF run])
  show b by (rule s')
  have base: "cream_base s m0 (ran ps)" using ok by (simp add: cream_ok_def)
  have wf: "wf_table (bytes_at (mem s) ?page 124)" using base p by (auto simp: cream_base_def)
  have bound: "q < kheap_pages" if "q \<in> ran ps" for q
    using base that run_page(1) by (auto simp: cream_base_def)
  have out: "mem s' x = mem s x" if "\<not> in_range ?page 124 x" for x
  proof -
    have "x \<noteq> ?page + of_nat j" if "i \<le> j" "j < i + n" for j
      using that range \<open>\<not> in_range ?page 124 x\<close> by (auto simp: in_range_offset)
    then show ?thesis by (simp add: s'(2) st8_fold_out)
  qed
  then have out': "mem s' x = mem s x" if "\<not> in_range ?page 4096 x" for x
    using that in_range_mono [of ?page 124 x 4096] by auto
  have runs: "(i, n) \<in> runs (bytes_at (mem s) ?page 124)" using r by (simp add: slab_runs_def)
  have wf': "wf_table (bytes_at (mem s') ?page 124)"
    using slab.free_wf [OF runs wf] f by simp
  show ok': "cream_ok s' m0 ps"
    by (rule cream_ok_page_update [OF ok p out']) (use wf' in \<open>simp_all add: s'(2)\<close>)
  show runs': "slab_runs (mem s') ?page = slab_runs (mem s) ?page - {(i, n)}"
    using slab.free_runs [OF runs] f by (simp add: slab_runs_def)
  have live': "live_blocks (mem s') (ran ps - {p}) = live_blocks (mem s) (ran ps - {p})"
    by (rule live_blocks_frame, rule tables_frame [OF bound [OF p] bound]) (use out' in auto)
  have "(block_addr ?page i, n) \<notin> live_blocks (mem s) (ran ps - {p})"
  proof
    assume "(block_addr ?page i, n) \<in> live_blocks (mem s) (ran ps - {p})"
    then obtain q j where q: "q \<in> ran ps" "q \<noteq> p" "block_addr ?page i = block_addr (page_addr q) j"
        "(j, n) \<in> slab_runs (mem s) (page_addr q)"
      by (auto simp: live_blocks_def)
    have "ranges_disjoint (block_addr ?page i) (n * 32) (block_addr (page_addr q) j) (n * 32)"
      using bound p q slab_runs_range(2) [OF q(4)] range by (intro block_in_cream_page) auto
    moreover have "in_range (block_addr (page_addr q) j) (n * 32) (block_addr (page_addr q) j)"
      using range(1) by simp
    ultimately show False unfolding ranges_disjoint_def q(3) by blast
  qed
  moreover have "inj_on (\<lambda>(i, n). (block_addr ?page i, n)) (slab_runs (mem s) ?page)"
  proof (rule inj_onI)
    fix x y assume "x \<in> slab_runs (mem s) ?page" "y \<in> slab_runs (mem s) ?page"
      and e: "(\<lambda>(i, n). (block_addr ?page i, n)) x = (\<lambda>(i, n). (block_addr ?page i, n)) y"
    with e show "x = y" using block_addr_inj slab_runs_head by (cases x; cases y) auto
  qed
  then have "live_blocks (mem s') {p} = live_blocks (mem s) {p} - {(block_addr ?page i, n)}"
    unfolding live_blocks_single runs' using r by (subst inj_on_image_set_diff) auto
  ultimately show "cream_live s' = cream_live s - {(block_addr ?page i, n)}"
    unfolding cream_live_eq [OF ok] cream_live_eq [OF ok'] live_blocks_split [OF p] live' by blast
  show "mem s' x = mem s x" if "obj_byte (ran ps) x" for x
    using obj_byte_apart(4) [OF base that p] in_range_mono [of _ 124 x 128] out by auto
qed

text \<open>
  The scan reaches slot \<open>j\<close> when no slot before it is empty: no other page contains the pointer.
\<close>

lemma cream_free_scan_spec:
  assumes ok: "cream_ok s m0 ps" and j: "ps j = Some p" and r: "(i, n) \<in> slab_runs (mem s) (page_addr p)"
    and full: "\<And>l. l < j \<Longrightarrow> slot s l \<noteq> 0" and l: "l \<le> j"
  shows "cream_free_scan (block_addr (page_addr p) i) l s =
    (True, heap_cream_single_chk_kill j (snd (heap32_free (page_addr p) (block_addr (page_addr p) i) s)))"
  using l
proof (induction "j - l" arbitrary: l)
  case 0
  note slot = ok_page(4,5) [OF ok j] and p = ok_page(1,3,2) [OF ok j]
  have in_page: "in_range (page_addr p) 4096 (block_addr (page_addr p) i)"
    using block_in_page(1) [OF slab_runs_range(2) [OF r]] slab_runs_range(1) [OF r] by simp
  then have "page_addr p \<le> block_addr (page_addr p) i \<and> block_addr (page_addr p) i - page_addr p < 4096"
    using in_range_nat [of "page_addr p" 4096] page_range_bound [of p 1 4096] p(3)
    by (simp add: in_range_def word_less_nat_alt word_le_nat_alt)
  moreover obtain s1 where "heap32_free (page_addr p) (block_addr (page_addr p) i) s = (True, s1)"
    using heap32_free_cream(1) [OF ok p(1) r] by (metis surj_pair)
  moreover have "l = j" using 0 by simp
  ultimately show ?case
    using slot p(2) by (simp add: cream_free_scan.simps [of _ j s] const_defs)
next
  case (Suc d)
  then have l: "l < j" by simp
  have jb: "j < 124" and slot: "slot s j = page_addr p" using ok j by (auto simp: cream_ok_def slots_are_def)
  obtain q where q: "ps l = Some q" "slot s l = page_addr q" "q < kheap_pages"
    by (rule cream_slot [OF ok _ full [OF l]]) (use l jb in auto)
  have "inj_on ps (dom ps)" using ok by (simp add: cream_ok_def slots_are_def)
  then have "q \<noteq> p" using inj_onD [of ps "dom ps" l j] q(1) j l by auto
  moreover note pb = ok_page(2) [OF ok j]
  moreover have "in_range (page_addr p) 4096 (block_addr (page_addr p) i)"
    using block_in_page(1) [OF slab_runs_range(2) [OF r]] slab_runs_range(1) [OF r] by simp
  ultimately have "\<not> in_range (page_addr q) 4096 (block_addr (page_addr p) i)"
    using pages_apart [OF q(3) pb, of 4096 4096] by (auto simp: ranges_disjoint_def)
  then have "\<not> block_addr (page_addr p) i - page_addr q < 4096"
    by (simp add: in_range_def word_less_nat_alt)
  moreover have "cream_free_scan (block_addr (page_addr p) i) (Suc l) s =
    (True, heap_cream_single_chk_kill j (snd (heap32_free (page_addr p) (block_addr (page_addr p) i) s)))"
    using Suc l by (intro Suc.hyps(1)) auto
  ultimately show ?case
    using full [OF l] q(2) l jb by (simp add: cream_free_scan.simps [of _ l s] const_defs)
qed

lemma heap_cream_free_spec:
  assumes ok: "cream_ok s m0 ps" and j: "ps j = Some p" and r: "(i, n) \<in> slab_runs (mem s) (page_addr p)"
    and full: "\<And>l. l < j \<Longrightarrow> slot s l \<noteq> 0"
    and f: "heap_cream_free (block_addr (page_addr p) i) s = (b, s')"
  shows "b" and "cream_inv s'" and "cream_live s' = cream_live s - {(block_addr (page_addr p) i, n)}"
    and "\<And>x. obj_byte (ran ps) x \<Longrightarrow> mem s' x = mem s x"
proof -
  let ?a = "block_addr (page_addr p) i"
  note p = ok_page [OF ok j]
  have "in_range (page_addr p) 4096 ?a"
    using block_in_page(1) [OF slab_runs_range(2) [OF r]] slab_runs_range(1) [OF r] by simp
  then have "?a \<noteq> 0"
    using in_range_nat [of "page_addr p" 4096 0] page_addr_unat [OF p(2)] p(2) by (auto simp: kheap_pages_def)
  obtain b1 s1 where h: "heap32_free (page_addr p) ?a s = (b1, s1)" by fastforce
  note res = heap32_free_cream [OF ok p(1) r h]
  have e: "b" "s' = heap_cream_single_chk_kill j s1"
    using cream_free_scan_spec [OF ok j r full, of 0] f \<open>?a \<noteq> 0\<close> h by (simp_all add: heap_cream_free_def)
  note kill = heap_cream_single_chk_kill_spec [OF res(2) j]
  show b by (rule e)
  show "cream_inv s'" using kill(1) by (simp add: e)
  show "cream_live s' = cream_live s - {(?a, n)}" using kill(2) res(3) by (simp add: e)
  show "mem s' x = mem s x" if "obj_byte (ran ps) x" for x using kill(3) res(4) that by (simp add: e)
qed

text \<open>An object sits in the page of a slot.\<close>

lemma cream_liveE:
  assumes "cream_ok s m0 ps" and "(a, n) \<in> cream_live s"
  obtains j p i where "ps j = Some p" and "a = block_addr (page_addr p) i"
    and "(i, n) \<in> slab_runs (mem s) (page_addr p)"
  using assms(2) by (auto simp: cream_live_eq [OF assms(1)] live_blocks_def ran_def)

text \<open>What a release does to the slots: only the one of the page may be emptied, when nothing else is in the page.\<close>

lemma heap_cream_free_slots:
  assumes ok: "cream_ok s m0 ps" and j: "ps j = Some p" and r: "(i, n) \<in> slab_runs (mem s) (page_addr p)"
    and full: "\<And>l. l < j \<Longrightarrow> slot s l \<noteq> 0"
    and f: "heap_cream_free (block_addr (page_addr p) i) s = (b, s')"
  shows "l < 124 \<Longrightarrow> l \<noteq> j \<Longrightarrow> slot s' l = slot s l"
    and "(i', n') \<in> slab_runs (mem s) (page_addr p) \<Longrightarrow> (i', n') \<noteq> (i, n) \<Longrightarrow> slot s' j = slot s j"
proof -
  let ?a = "block_addr (page_addr p) i"
  note p = ok_page [OF ok j]
  obtain b1 s1 where h: "heap32_free (page_addr p) ?a s = (b1, s1)" by fastforce
  note res = heap32_free_cream [OF ok p(1) r h]
  have "?a \<noteq> 0"
    using block_in_page(1) [OF slab_runs_range(2) [OF r], of "page_addr p" ?a] slab_runs_range(1) [OF r]
      in_range_nat [of "page_addr p" 4096 0] page_addr_unat [OF p(2)] p(2) by (auto simp: kheap_pages_def)
  then have e: "s' = heap_cream_single_chk_kill j s1"
    using cream_free_scan_spec [OF ok j r full, of 0] f h by (simp add: heap_cream_free_def)
  have kill: "s' = s1 \<or> s' = heap_cream_kill j s1 \<and> empty_table (mem s1) (page_addr p)"
    using ok_page(5) [OF res(2) j]
    by (simp add: e heap_cream_single_chk_kill_def empty_table_nth list_all_iff Ball_def del: upt_rec_numeral)
  note same = slots_same [OF ok res(2) _ refl]
  show "slot s' l = slot s l" if l: "l < 124" "l \<noteq> j"
    using kill same [OF l(1)] l slots_same [OF res(2) heap_cream_kill_spec(1) [OF res(2) j] l(1)] by auto
  show "slot s' j = slot s j" if "(i', n') \<in> slab_runs (mem s) (page_addr p)" "(i', n') \<noteq> (i, n)"
    using kill same [OF p(4)] slab_runs_empty [of "mem s1" "page_addr p"] res(5) that by auto
qed

text \<open>
  An object can be released when its page is found: the pages are searched in the order of the slots, up to the first
  empty one.
\<close>

definition reached :: "'z cream_state_scheme \<Rightarrow> addr \<Rightarrow> bool" where
  "reached s a \<longleftrightarrow> (\<exists>j<124. (\<forall>l\<le>j. slot s l \<noteq> 0) \<and> a - slot s j < 4096)"

lemma reachedI: "j < 124 \<Longrightarrow> \<forall>l\<le>j. slot s l \<noteq> 0 \<Longrightarrow> in_range (slot s j) 4096 a \<Longrightarrow> reached s a"
  unfolding reached_def by (intro exI [of _ j]) (simp add: in_range_def word_less_nat_alt)

lemma reached_live:
  assumes ok: "cream_ok s m0 ps" and j: "ps j = Some p" and r: "(i, n) \<in> slab_runs (mem s) (page_addr p)"
  shows "reached s (block_addr (page_addr p) i) \<longleftrightarrow> (\<forall>l<j. slot s l \<noteq> 0)"
proof
  note p = ok_page [OF ok j]
  have a: "in_range (page_addr p) 4096 (block_addr (page_addr p) i)"
    using block_in_page(1) [OF slab_runs_range(2) [OF r]] slab_runs_range(1) [OF r] by simp
  show "reached s (block_addr (page_addr p) i)" if "\<forall>l<j. slot s l \<noteq> 0"
  proof (rule reachedI [OF p(4)])
    show "\<forall>l\<le>j. slot s l \<noteq> 0" using that p(3,5) by (auto simp: order_le_less)
  qed (use a p(5) in simp)
  show "\<forall>l<j. slot s l \<noteq> 0" if r: "reached s (block_addr (page_addr p) i)"
  proof -
    obtain k where k: "k < 124" "\<forall>l\<le>k. slot s l \<noteq> 0" "block_addr (page_addr p) i - slot s k < 4096"
      using r unfolding reached_def by blast
    obtain q where q: "ps k = Some q" "slot s k = page_addr q" "q < kheap_pages"
      by (rule cream_slot [OF ok k(1)]) (use k(2) in auto)
    have "in_range (page_addr q) 4096 (block_addr (page_addr p) i)"
      using k(3) by (simp add: q(2) in_range_def word_less_nat_alt)
    then have "q = p" using pages_apart [OF q(3) p(2), of 4096 4096] a by (auto simp: ranges_disjoint_def)
    then have "k = j" using slots_apart [OF ok q(1) j] by blast
    then show ?thesis using k(2) by simp
  qed
qed

text \<open>The pages an object can be found in are searched in order; a hole before its page hides it.\<close>

lemma cream_free_scan_hole:
  assumes ok: "cream_ok s m0 ps" and j: "ps j = Some p" and r: "(i, n) \<in> slab_runs (mem s) (page_addr p)"
    and h: "h < j" "slot s h = 0" "\<And>l. l < h \<Longrightarrow> slot s l \<noteq> 0" and l: "l \<le> h"
  shows "cream_free_scan (block_addr (page_addr p) i) l s = (False, s)"
  using l
proof (induction "h - l" arbitrary: l)
  case 0
  then have "l = h" by simp
  then show ?case using h(2) by (simp add: cream_free_scan.simps [of _ h s])
next
  case (Suc d)
  then have l: "l < h" by simp
  have jb: "j < 124" using ok_page(4) [OF ok j] .
  obtain q where q: "ps l = Some q" "slot s l = page_addr q" "q < kheap_pages"
    by (rule cream_slot [OF ok _ h(3) [OF l]]) (use l h(1) jb in auto)
  have "inj_on ps (dom ps)" using ok by (simp add: cream_ok_def slots_are_def)
  then have "q \<noteq> p" using inj_onD [of ps "dom ps" l j] q(1) j l h(1) by auto
  moreover note pb = ok_page(2) [OF ok j]
  moreover have "in_range (page_addr p) 4096 (block_addr (page_addr p) i)"
    using block_in_page(1) [OF slab_runs_range(2) [OF r]] slab_runs_range(1) [OF r] by simp
  ultimately have "\<not> in_range (page_addr q) 4096 (block_addr (page_addr p) i)"
    using pages_apart [OF q(3) pb, of 4096 4096] by (auto simp: ranges_disjoint_def)
  then have "\<not> block_addr (page_addr p) i - page_addr q < 4096"
    by (simp add: in_range_def word_less_nat_alt)
  moreover have "cream_free_scan (block_addr (page_addr p) i) (Suc l) s = (False, s)"
    using Suc l by (intro Suc.hyps(1)) auto
  ultimately show ?case
    using q(2) l h(1) jb h(3) [OF l] by (simp add: cream_free_scan.simps [of _ l s] const_defs)
qed

lemma heap_cream_free_lost:
  assumes "cream_inv s" and "(a, n) \<in> cream_live s" and "\<not> reached s a"
  shows "heap_cream_free a s = (False, s)"
proof -
  from assms(1) obtain m0 ps where ok: "cream_ok s m0 ps" by (auto simp: cream_inv_def)
  obtain j p i where j: "ps j = Some p" "a = block_addr (page_addr p) i" "(i, n) \<in> slab_runs (mem s) (page_addr p)"
    by (rule cream_liveE [OF ok assms(2)])
  have "\<exists>l. l < j \<and> slot s l = 0" using assms(3) reached_live [OF ok j(1,3)] by (simp add: j(2))
  then obtain h where h: "h < j" "slot s h = 0" "\<And>l. l < h \<Longrightarrow> slot s l \<noteq> 0"
    using exists_least_iff [of "\<lambda>l. l < j \<and> slot s l = 0"] by (metis less_trans)
  have "a \<noteq> 0"
    using block_in_page(1) [OF slab_runs_range(2) [OF j(3)], of "page_addr p" a] slab_runs_range(1) [OF j(3)]
      in_range_nat [of "page_addr p" 4096 0] page_addr_unat ok_page(2) [OF ok j(1)] by (auto simp: kheap_pages_def j(2))
  then show ?thesis using cream_free_scan_hole [OF ok j(1,3) h, of 0] by (simp add: heap_cream_free_def j(2))
qed

section \<open>Start-up\<close>

lemma help_me_mary_mother_of_god_ok:
  assumes inv: "kheap_inv s" and clean: "clean s"
    and zero: "\<And>q x. page_free s q \<Longrightarrow> in_range (page_addr q) 496 x \<Longrightarrow> mem s x = 0"
    and k: "kheap_find s 1 = Some q" and s': "s' = help_me_mary_mother_of_god s"
  shows "cream_ok s' q Map.empty"
proof -
  obtain p s1 where z: "kzalloc 1 s = (p, s1)" by fastforce
  have p1: "pages_for 1 = 1" by (simp add: pages_for_nat)
  have p: "p \<noteq> 0"
    using kzalloc_NullD(1) [of s 1 s1] z k inv p1 by (auto simp: kheap_inv_def)
  obtain i where i: "p = page_addr i" "new_run 1 s i s1"
    and one: "\<And>x. in_range p (unat (1 :: u32)) x \<Longrightarrow> mem s1 x = 0"
    and out: "\<And>x. \<not> in_range KHEAP_TABLE kheap_pages x \<Longrightarrow> \<not> in_range p (unat (1 :: u32)) x \<Longrightarrow> mem s1 x = mem s x"
    and iq: "kheap_find s (pages_for 1) = Some i"
    by (rule kzalloc_new_run [OF inv z p]) blast
  have "i = q" using iq k by (simp add: p1)
  note i = i [unfolded this]
  have run: "q + 1 \<le> kheap_pages" "kheap_inv s1" "kheap_runs s1 = insert (q, 1) (kheap_runs s)"
    and fresh: "\<And>j n. (j, n) \<in> kheap_runs s \<Longrightarrow> q + 1 \<le> j \<or> j + n \<le> q"
    using i(2) by (auto simp: new_run_def p1)
  have e: "s' = s1\<lparr>mothermary := p\<rparr>" using z s' by (simp add: help_me_mary_mother_of_god_def)
  have qf: "page_free s q" using run(1) fresh by (fastforce simp: page_free_def)
  have inv': "kheap_inv s'" "kheap_runs s' = kheap_runs s1"
    using kheap_inv_frame [OF run(2), of s'] by (simp_all add: e kheap_tbl_def)
  have same: "mem s' x = mem s x" if "in_range (page_addr r) 4096 x" "r < kheap_pages" "x \<noteq> p" for r x
    using out [of x] that table_apart [OF that(2), of 4096] by (auto simp: e ranges_disjoint_def in_range_Suc)
  have "empty_table (mem s') (page_addr r)" if "page_free s' r" for r
  proof -
    have r: "page_free s r" "r \<noteq> q" "r < kheap_pages" using that by (auto simp: page_free_def inv' run(3))
    have "bytes_at (mem s') (page_addr r) 124 = bytes_at (mem s) (page_addr r) 124"
    proof (rule bytes_at_frame)
      fix x assume x: "in_range (page_addr r) 124 x"
      have "x \<noteq> p"
        using pages_apart [OF r(3) _ r(2), of 124 1] run(1) x by (auto simp: i(1) ranges_disjoint_def)
      then show "mem s' x = mem s x" using same [OF _ r(3)] in_range_mono [OF x] by simp
    qed simp
    then show ?thesis using clean r(1) by (simp add: clean_def empty_table_def)
  qed
  moreover have "slot s' j = 0" if j: "j < 124" for j
  proof -
    have "mem s' x = 0" if "in_range p (4 * 124) x" for x
    proof (cases "x = p")
      case True
      then show ?thesis using one [of p] by (simp add: e)
    next
      case False
      have "in_range (page_addr q) 4096 x" using in_range_mono [OF that] by (simp add: i(1))
      then have "mem s' x = mem s x" using same [of q x] run(1) False by simp
      then show ?thesis using zero [OF qf, of x] that by (simp add: i(1))
    qed
    then have "ld32 (mem s') (word_at p j) = ld32 (\<lambda>_. 0) (word_at p j)"
      using j by (intro ld32_word_at_cong [of p 124]) auto
    then show ?thesis by (simp add: slot_def e ld32_def)
  qed
  ultimately show ?thesis
    using inv' run(3) i(1)
    by (auto simp: cream_ok_def cream_base_def clean_def slots_are_def e)
qed

section \<open>The contract of the object heap\<close>

definition cream_objects :: "'z cream_state_scheme \<Rightarrow> (addr \<times> nat) set" where
  "cream_objects s = (\<lambda>(a, n). (a, n * 32)) ` cream_live s"

lemma cream_objectsE:
  assumes "(a, k) \<in> cream_objects s"
  obtains n where "(a, n) \<in> cream_live s" and "k = n * 32"
  using assms by (auto simp: cream_objects_def)

lemma cream_objects_pos:
  assumes "(b, k) \<in> cream_objects s"
  shows "0 < k"
proof -
  obtain n where n: "(b, n) \<in> cream_live s" "k = n * 32" by (rule cream_objectsE [OF assms])
  then have "1 \<le> n" using slab_runs_range(1) by (auto simp: cream_live_def)
  then show ?thesis by (simp add: n(2))
qed

lemma heap_cream_malloc_contract:
  assumes "cream_inv s" and "heap_cream_malloc sz s = (a, s')"
  shows "cream_inv s'" and "a = 0 \<Longrightarrow> cream_objects s' = cream_objects s"
    and "a \<noteq> 0 \<Longrightarrow> \<exists>n \<ge> unat sz. 0 < n \<and> cream_objects s' = insert (a, n) (cream_objects s) \<and>
      (\<forall>(b, k) \<in> cream_objects s. ranges_disjoint a n b k)"
    and "(b, k) \<in> cream_objects s \<Longrightarrow> in_range b k x \<Longrightarrow> mem s' x = mem s x"
proof -
  from assms(1) obtain m0 ps where ok: "cream_ok s m0 ps" by (auto simp: cream_inv_def)
  note spec = heap_cream_malloc_spec [OF ok assms(2)]
  show "cream_inv s'" by (rule grown_inv [OF spec(1)])
  show "a = 0 \<Longrightarrow> cream_objects s' = cream_objects s" using spec(3) by (simp add: cream_objects_def)
  show "\<exists>n \<ge> unat sz. 0 < n \<and> cream_objects s' = insert (a, n) (cream_objects s) \<and>
      (\<forall>(b, k) \<in> cream_objects s. ranges_disjoint a n b k)" if "a \<noteq> 0"
  proof (intro exI [of _ "blocks_for sz * 32"] conjI)
    note new = spec(2) [OF that, unfolded new_object_def]
    show "unat sz \<le> blocks_for sz * 32" using new by (intro blocks_for_covers) simp
    show "0 < blocks_for sz * 32" using new by simp
    show "cream_objects s' = insert (a, blocks_for sz * 32) (cream_objects s)"
      using new by (simp add: cream_objects_def)
    show "\<forall>(b, k) \<in> cream_objects s. ranges_disjoint a (blocks_for sz * 32) b k"
      using new by (auto simp: cream_objects_def)
  qed
  show "(b, k) \<in> cream_objects s \<Longrightarrow> in_range b k x \<Longrightarrow> mem s' x = mem s x"
    using spec(4) obj_byte_live [OF ok] by (auto elim!: cream_objectsE)
qed

lemma heap_cream_free_contract:
  assumes "cream_inv s" and "(a, k) \<in> cream_objects s" and "reached s a"
  shows "cream_inv (snd (heap_cream_free a s))"
    and "cream_objects (snd (heap_cream_free a s)) = cream_objects s - {(a, k)}"
    and "(b, l) \<in> cream_objects s \<Longrightarrow> in_range b l x \<Longrightarrow> mem (snd (heap_cream_free a s)) x = mem s x"
    and "fst (heap_cream_free a s)"
proof -
  from assms(1) obtain m0 ps where ok: "cream_ok s m0 ps" by (auto simp: cream_inv_def)
  obtain n where n: "(a, n) \<in> cream_live s" "k = n * 32" by (rule cream_objectsE [OF assms(2)])
  obtain j p i where j: "ps j = Some p" "a = block_addr (page_addr p) i" "(i, n) \<in> slab_runs (mem s) (page_addr p)"
    by (rule cream_liveE [OF ok n(1)])
  have full: "slot s l \<noteq> 0" if "l < j" for l
    using assms(3) reached_live [OF ok j(1,3)] that by (simp add: j(2))
  obtain b1 s1 where f: "heap_cream_free a s = (b1, s1)" by fastforce
  note spec = heap_cream_free_spec [OF ok j(1,3) full f [unfolded j(2)], folded j(2)]
  show "cream_inv (snd (heap_cream_free a s))" using spec(2) f by simp
  show "fst (heap_cream_free a s)" using spec(1) f by simp
  have "inj_on (\<lambda>(a, n). (a, n * 32)) (cream_live s)" by (auto simp: inj_on_def)
  then show "cream_objects (snd (heap_cream_free a s)) = cream_objects s - {(a, k)}"
    using n f spec(3) unfolding cream_objects_def by (simp add: inj_on_image_set_diff)
  show "(b, l) \<in> cream_objects s \<Longrightarrow> in_range b l x \<Longrightarrow> mem (snd (heap_cream_free a s)) x = mem s x"
    using spec(4) obj_byte_live [OF ok] f by (auto elim!: cream_objectsE)
qed

lemma heap_cream_free_same: "cream_inv s \<Longrightarrow> (a, k) \<in> cream_objects s \<Longrightarrow> \<not> reached s a \<Longrightarrow> snd (heap_cream_free a s) = s"
  by (auto elim!: cream_objectsE simp: heap_cream_free_lost)

interpretation cream: allocator heap_cream_malloc "\<lambda>a s. snd (heap_cream_free a s)" cream_inv
    cream_objects mem reached
  by unfold_locales
    (rule cream_objects_pos heap_cream_malloc_contract heap_cream_free_contract heap_cream_free_same; (assumption | rule refl))+

section \<open>When a request is served\<close>

lemma blocks_for_small: "sz \<noteq> 0 \<Longrightarrow> sz \<le> TOTAL_BYTES_AVAIL \<Longrightarrow> 1 \<le> blocks_for sz \<and> blocks_for sz \<le> 124"
proof -
  assume a: "sz \<noteq> 0" "sz \<le> TOTAL_BYTES_AVAIL"
  from a(2) have "unat sz \<le> 3968" by (simp add: const_defs word_le_nat_alt)
  moreover from a(1) have "1 \<le> unat sz" by (simp add: unat_gt_0 Suc_le_eq)
  ultimately have "32 div 32 \<le> (unat sz + 31) div 32" "(unat sz + 31) div 32 \<le> 3999 div 32"
    by (intro div_le_mono, simp)+
  with \<open>unat sz \<le> 3968\<close> show ?thesis by (simp add: blocks_for_nat)
qed

lemma block_addr_nz: "p < kheap_pages \<Longrightarrow> i < 124 \<Longrightarrow> block_addr (page_addr p) i \<noteq> 0"
  using block_in_page(1) [of i 1 "page_addr p" "block_addr (page_addr p) i"]
    in_range_nat [of "page_addr p" 4096 0] page_addr_unat [of p]
  by (auto simp: kheap_pages_def)

lemma heap_cream_malloc_succeeds:
  assumes ok: "cream_ok s m0 ps" and sz: "sz \<noteq> 0" "sz \<le> TOTAL_BYTES_AVAIL"
    and j: "j < 124" "slot s j = 0" and page: "kheap_find s 1 \<noteq> None"
  shows "fst (heap_cream_malloc sz s) \<noteq> 0"
proof -
  obtain r k s1 where t: "cream_try sz 0 s = (r, k, s1)" by (metis prod_cases3)
  note tried = cream_try_spec [OF ok t, simplified]
  show ?thesis
  proof (cases "r = 0")
    case False
    then show ?thesis using sz(2) t by (simp add: heap_cream_malloc_def)
  next
    case True
    then have sh: "same_heap s s1" and k: "k \<le> 124" "k < 124 \<Longrightarrow> slot s k = 0"
      and full: "\<And>l. l < k \<Longrightarrow> slot s l \<noteq> 0" using tried by auto
    have kb: "k < 124" using full j k(1) by (metis le_neq_implies_less)
    note ok1 = ok [folded same_heapD(5) [OF sh]]
    obtain p s2 where z: "kzalloc 1 s1 = (p, s2)" by fastforce
    have p1: "pages_for 1 = 1" by (simp add: pages_for_nat)
    have p: "p \<noteq> 0"
    proof
      assume "p = 0"
      then have "kheap_find s1 1 = None"
        using kzalloc_NullD(1) [of s1 1 s2] z ok1 p1 by (auto simp: cream_ok_def cream_base_def kheap_inv_def)
      then show False using page same_heapD(7) [OF sh] by simp
    qed
    let ?s3 = "set_slot k p s2"
    let ?s4 = "?s3\<lparr>mem := table_guard_set (mem ?s3) p\<rparr>"
    have k1: "slot s1 k = 0" using k(2) [OF kb] same_heapD(1) [OF sh] by simp
    obtain q where q: "p = page_addr q" "slot ?s4 k = p" "empty_table (mem ?s4) p" "q < kheap_pages"
      by (rule cream_new_page [OF ok1 kb k1 z p refl]) blast
    have "\<not> TOTAL_BYTES_AVAIL < sz" using sz(2) by simp
    then have "heap_cream_malloc sz s = malloc_32 p sz ?s4"
      using t True kb z p slot_set_slot [OF kb, of p s2] q(2)
      by (simp add: heap_cream_malloc_def MAX_4KB_HEAP_def Let_def)
    then show ?thesis
      using malloc_32_fresh [OF q(3)] blocks_for_small [OF sz] block_addr_nz [OF q(4), of 0]
      by (simp add: q(1))
  qed
qed

text \<open>A size-0 request is served by no page: it takes a fresh page for nothing.\<close>

lemma malloc_32_0: "malloc_32 page 0 s =
    (0, print (lit (''heap32:could not get a block of that size'' @ [CHR 10])) s)"
  by (simp add: malloc_32_eq slab_find_def blocks_for_nat)

text \<open>The empty slots, and where a new object is.\<close>

lemma slot_empty: "cream_ok s m0 ps \<Longrightarrow> j < 124 \<Longrightarrow> slot s j = 0 \<longleftrightarrow> ps j = None"
  using ok_page(3,5) [of s m0 ps j] by (cases "ps j") (auto simp: cream_ok_def slots_are_def)

lemma placed_reached:
  assumes "placed_at n s a s' j i"
  shows "reached s' a"
proof -
  have j: "j < 124" "\<forall>l\<le>j. slot s' l \<noteq> 0" "a = block_addr (slot s' j) i" "i < 124"
    using assms by (auto simp: placed_at_def)
  then have "in_range (slot s' j) 4096 a" using block_in_page(1) [of i 1 "slot s' j" a] by simp
  then show ?thesis by (rule reachedI [OF j(1,2)])
qed

lemma heap_cream_malloc_reached:
  "cream_inv s \<Longrightarrow> heap_cream_malloc sz s = (a, s') \<Longrightarrow> a \<noteq> 0 \<Longrightarrow> reached s' a"
  using heap_cream_malloc_spec(5) placed_reached by (fastforce simp: cream_inv_def)

lemma cream_free_behind_hole: "slot s 0 = 0 \<Longrightarrow> ptr \<noteq> 0 \<Longrightarrow> heap_cream_free ptr s = (False, s)"
  by (simp add: heap_cream_free_def cream_free_scan.simps [of ptr 0 s])

section \<open>The heap after start-up\<close>

definition zero_cream :: cream_state where
  "zero_cream = \<lparr>vedio = (\<lambda>_. 0), cursor_x = 0, cursor_y = 0, mem = (\<lambda>_. 0),
     kernel_heap = \<lparr>table = None, start_addr = 0, end_addr = 0\<rparr>,
     kernel_heap_table = \<lparr>entries = 0, total = 0\<rparr>, mothermary = 0\<rparr>"

definition booted_cream :: cream_state where
  "booted_cream = help_me_mary_mother_of_god (kheap_init zero_cream)"

lemma boot_ok:
  assumes zero: "mem t = (\<lambda>_. 0)" and s: "s = help_me_mary_mother_of_god (kheap_init t)"
  shows "cream_ok s 0 Map.empty" and "kheap_runs s = {(0, 1)}"
proof -
  let ?s = "kheap_init t"
  have "mem ?s x = 0" for x
    using kheap_init_mem [of t] by (auto simp: put_bytes_def zero in_range_def)
  then show "cream_ok s 0 Map.empty"
    using kheap_find_init [of 1 t]
    by (intro help_me_mary_mother_of_god_ok [of ?s]) (auto simp: kheap_init_inv clean_def empty_table_nth s)
  obtain p s1 where z: "kzalloc 1 ?s = (p, s1)" by fastforce
  have p1: "pages_for 1 = 1" by (simp add: pages_for_nat)
  have p: "p \<noteq> 0"
    using kzalloc_NullD(1) [of ?s 1 s1] z kheap_find_init [of 1 t] by (auto simp: p1 kheap_init_ready)
  obtain i where i: "new_run 1 ?s i s1" "kheap_find ?s (pages_for 1) = Some i"
    by (rule kzalloc_new_run [OF _ z p]) (simp_all add: kheap_init_inv)
  then have "i = 0" using kheap_find_init [of 1 t] by (simp add: p1)
  then have "kheap_runs s1 = {(0, 1)}" using i(1) by (simp add: new_run_def p1 kheap_init_inv)
  then show "kheap_runs s = {(0, 1)}"
    using z by (simp add: s help_me_mary_mother_of_god_def kheap_runs_def kheap_tbl_def)
qed

lemma booted_cream_ok: "cream_ok booted_cream 0 Map.empty" and booted_cream_runs: "kheap_runs booted_cream = {(0, 1)}"
  by (rule boot_ok [OF _ booted_cream_def]; simp add: zero_cream_def)+

lemma booted_cream_inv: "cream_inv booted_cream"
  using booted_cream_ok by (auto simp: cream_inv_def)

lemma kheap_find_some:
  assumes "kheap_inv s" and "page_free s q"
  shows "kheap_find s 1 \<noteq> None"
proof
  assume "kheap_find s 1 = None"
  then have "\<not> free_run (kheap_tbl s) q (Suc 0)" by (auto simp: kheap_find_def first_fit_None)
  then have "kheap_tbl s ! q \<noteq> 0" "q < kheap_pages" using assms(2) by (auto simp: free_run_1 page_free_def)
  then obtain i n where "is_run (kheap_tbl s) i n" "i \<le> q" "q < i + n"
    using assms(1) wf_tableD [of "kheap_tbl s" q] by (auto simp: kheap_inv_def)
  then show False using assms(2) by (fastforce simp: page_free_def kheap_runs_def runs_def)
qed

lemma booted_cream_slot: "j < 124 \<Longrightarrow> slot booted_cream j = 0"
  using booted_cream_ok by (simp add: cream_ok_def slots_are_def)

lemma booted_cream_serves: "sz \<noteq> 0 \<Longrightarrow> sz \<le> TOTAL_BYTES_AVAIL \<Longrightarrow> fst (heap_cream_malloc sz booted_cream) \<noteq> 0"
proof -
  have "page_free booted_cream 1" by (simp add: page_free_def booted_cream_runs kheap_pages_def)
  then have "kheap_find booted_cream 1 \<noteq> None"
    using booted_cream_ok by (intro kheap_find_some) (auto simp: cream_ok_def cream_base_def)
  moreover assume "sz \<noteq> 0" "sz \<le> TOTAL_BYTES_AVAIL"
  ultimately show "fst (heap_cream_malloc sz booted_cream) \<noteq> 0"
    using heap_cream_malloc_succeeds [OF booted_cream_ok, of sz 0] booted_cream_slot [of 0] by simp
qed

section \<open>Properties\<close>

text \<open>C4: A successful request hands out an object that is large enough and overlaps no live object,
  adds exactly it to the live objects, changes no byte of a live object and keeps the invariant; a
  failed one leaves the live objects as they were.\<close>

theorem cream_malloc_sound:
  assumes "cream_inv s" and "heap_cream_malloc sz s = (a, s')"
  shows "cream_inv s' \<and> (a = 0 \<longrightarrow> cream_objects s' = cream_objects s) \<and>
    (a \<noteq> 0 \<longrightarrow> (\<exists>n \<ge> unat sz. cream_objects s' = insert (a, n) (cream_objects s) \<and>
      (\<forall>(b, k) \<in> cream_objects s. ranges_disjoint a n b k))) \<and>
    (\<forall>(b, k) \<in> cream_objects s. \<forall>x. in_range b k x \<longrightarrow> mem s' x = mem s x)"
  using heap_cream_malloc_contract [OF assms] by blast

lemma cream_malloc_sound_witness:
  "\<exists>n \<ge> 100. cream_objects (snd (heap_cream_malloc 100 booted_cream)) =
    insert (fst (heap_cream_malloc 100 booted_cream), n) (cream_objects booted_cream)"
proof -
  have "fst (heap_cream_malloc 100 booted_cream) \<noteq> 0" by (rule booted_cream_serves) (simp_all add: const_defs)
  then show ?thesis using cream_malloc_sound [OF booted_cream_inv prod.collapse [symmetric], of 100] by auto
qed

text \<open>C6: A request of 1 to 3968 bytes is served whenever a slot of \<open>mothermary\<close> is empty and the
  kernel heap has a free page.\<close>

theorem cream_malloc_available:
  assumes "cream_inv s" and "sz \<noteq> 0" and "sz \<le> TOTAL_BYTES_AVAIL"
    and "j < 124" and "slot s j = 0" and "page_free s q"
  shows "fst (heap_cream_malloc sz s) \<noteq> 0"
proof -
  from assms(1) obtain m0 ps where ok: "cream_ok s m0 ps" by (auto simp: cream_inv_def)
  then have "kheap_find s 1 \<noteq> None"
    using assms(6) by (intro kheap_find_some) (auto simp: cream_ok_def cream_base_def)
  then show ?thesis by (rule heap_cream_malloc_succeeds [OF ok assms(2-5)])
qed

lemma cream_malloc_available_witness: "fst (heap_cream_malloc 3968 booted_cream) \<noteq> 0"
proof -
  have "page_free booted_cream 1" by (simp add: page_free_def booted_cream_runs kheap_pages_def)
  then show ?thesis
    using cream_malloc_available [OF booted_cream_inv, of 3968 0 1] booted_cream_slot [of 0]
    by (simp add: const_defs)
qed

text \<open>C5: \<open>heap_cream_free\<close> of a live object reports success exactly when the scan of the pages reaches the object's page, which
  it does when no slot before that page is empty.  Then exactly this object disappears, no byte of another one changes and
  the invariant is kept.  Otherwise the call changes nothing and the object stays live.\<close>

theorem cream_free_sound:
  assumes "cream_inv s" and "(a, k) \<in> cream_objects s"
  shows "(fst (heap_cream_free a s) \<longleftrightarrow> reached s a) \<and>
    (reached s a \<longrightarrow> cream_inv (snd (heap_cream_free a s)) \<and> cream_objects (snd (heap_cream_free a s)) = cream_objects s - {(a, k)} \<and>
      (\<forall>(b, l) \<in> cream_objects s. \<forall>x. in_range b l x \<longrightarrow> mem (snd (heap_cream_free a s)) x = mem s x)) \<and>
    (\<not> reached s a \<longrightarrow> snd (heap_cream_free a s) = s)"
proof (cases "reached s a")
  case True
  then show ?thesis using heap_cream_free_contract [OF assms True] by blast
next
  case False
  obtain n where "(a, n) \<in> cream_live s" by (rule cream_objectsE [OF assms(2)])
  then show ?thesis using heap_cream_free_lost [OF assms(1) _ False] False by simp
qed

lemma cream_free_sound_witness:
  "fst (heap_cream_free (fst (heap_cream_malloc 64 booted_cream)) (snd (heap_cream_malloc 64 booted_cream)))"
proof -
  let ?a = "fst (heap_cream_malloc 64 booted_cream)" and ?s = "snd (heap_cream_malloc 64 booted_cream)"
  have a: "?a \<noteq> 0" by (rule booted_cream_serves) (simp_all add: const_defs)
  then obtain n where "(?a, n) \<in> cream_objects ?s" and inv: "cream_inv ?s"
    using heap_cream_malloc_contract(1,3) [OF booted_cream_inv prod.collapse [symmetric], of 64] by auto
  then show ?thesis
    using cream_free_sound [OF inv] heap_cream_malloc_reached [OF booted_cream_inv prod.collapse [symmetric] a] by blast
qed

text \<open>Objects handed out one after the other never overlap.\<close>

theorem cream_sequence_disjoint:
  assumes "cream_inv s" and "i < j" and "j < length szs"
  shows "fst (serve heap_cream_malloc szs s) ! i = 0 \<or> fst (serve heap_cream_malloc szs s) ! j = 0 \<or>
    ranges_disjoint (fst (serve heap_cream_malloc szs s) ! i) (unat (szs ! i))
      (fst (serve heap_cream_malloc szs s) ! j) (unat (szs ! j))"
  using cream.serve_disjoint [OF assms] by blast

lemma cream_sequence_disjoint_witness:
  "fst (serve heap_cream_malloc [10, 3968] booted_cream) ! 1 = 0 \<or>
    ranges_disjoint (fst (serve heap_cream_malloc [10, 3968] booted_cream) ! 0) 10
      (fst (serve heap_cream_malloc [10, 3968] booted_cream) ! 1) 3968"
proof -
  have "fst (heap_cream_malloc 10 booted_cream) \<noteq> 0" by (rule booted_cream_serves) (simp_all add: const_defs)
  then show ?thesis
    using cream_sequence_disjoint [OF booted_cream_inv, of 0 1 "[10, 3968]"] by simp
qed

end
