(* ===== verification/Cream_Room.thy ===== *)
theory Cream_Room
  imports Heap_Cream
begin

text \<open>
  The object heap seen by its clients in the file systems: what a client may rely on when it fills an
  object, how many more requests are sure to be served (\<open>room\<close>), and a release that is harmless
  whatever the slots look like.
\<close>

section \<open>Stores into live objects\<close>

lemma cream_ok_store:
  assumes ok: "cream_ok s m0 ps" and out: "\<And>x. \<not> obj_byte (ran ps) x \<Longrightarrow> mem s' x = mem s x"
    and same: "mothermary s' = mothermary s" "kernel_heap s' = kernel_heap s"
  shows "cream_ok s' m0 ps" and "cream_live s' = cream_live s" and "kheap_runs s' = kheap_runs s"
    and "j < 124 \<Longrightarrow> slot s' j = slot s j" and "p \<in> ran ps \<Longrightarrow> slab_runs (mem s') (page_addr p) = slab_runs (mem s) (page_addr p)"
proof -
  have base: "cream_base s m0 (ran ps)" and slots: "slots_are s ps" using ok by (auto simp: cream_ok_def)
  note apart = obj_byte_apart [OF base]
  have b: "kheap_inv s" "clean s" "mothermary s = page_addr m0" "(m0, 1) \<in> kheap_runs s"
    using base by (simp_all add: cream_base_def)
  have P: "p < kheap_pages" "wf_table (bytes_at (mem s) (page_addr p) 124)" "(p, 1) \<in> kheap_runs s" if "p \<in> ran ps" for p
    using base that run_page(1) by (auto simp: cream_base_def)
  have "kheap_tbl s' = kheap_tbl s" by (rule kheap_tbl_frame) (use out apart(1) in blast)
  note inv = kheap_inv_frame [OF b(1) same(2) this]
  show runs: "kheap_runs s' = kheap_runs s" by (rule inv)
  have tbl: "bytes_at (mem s') (page_addr p) 124 = bytes_at (mem s) (page_addr p) 124" if "p \<in> ran ps" for p
    by (rule bytes_at_frame) (use out apart(4) [OF _ that] in_range_mono in \<open>fastforce\<close>, simp)
  then show "slab_runs (mem s') (page_addr p) = slab_runs (mem s) (page_addr p)" if "p \<in> ran ps" for p
    using that by (simp add: slab_runs_def)
  have "empty_table (mem s') (page_addr q)" if "page_free s' q" for q
  proof -
    have q: "page_free s q" "q < kheap_pages" using that by (auto simp: page_free_def runs)
    have "q \<notin> ran ps" using q(1) P(3) not_page_free by blast
    then have "\<And>x. in_range (page_addr q) 124 x \<Longrightarrow> \<not> obj_byte (ran ps) x"
      using apart(3) [OF _ q(2)] in_range_mono [of "page_addr q" 124 _ 4096] by fastforce
    then have "bytes_at (mem s') (page_addr q) 124 = bytes_at (mem s) (page_addr q) 124"
      using out by (intro bytes_at_frame) auto
    then show ?thesis using b(2) q(1) by (simp add: clean_def empty_table_def)
  qed
  then have base': "cream_base s' m0 (ran ps)"
    using base inv tbl by (simp add: cream_base_def clean_def same)
  show slot: "slot s' j = slot s j" if "j < 124" for j
  proof (rule slot_frame [OF _ same(1) that])
    fix x assume "in_range (mothermary s) 496 x"
    then have "in_range (page_addr m0) 4096 x" using in_range_mono by (auto simp: b(3))
    then show "mem s' x = mem s x" using out apart(2) by blast
  qed
  then show ok': "cream_ok s' m0 ps" using base' slots by (simp add: cream_ok_def slots_are_def)
  have "live_blocks (mem s') (ran ps) = live_blocks (mem s) (ran ps)"
    using tbl by (simp add: live_blocks_def slab_runs_def cong: conj_cong)
  then show "cream_live s' = cream_live s" by (simp add: cream_live_eq [OF ok] cream_live_eq [OF ok'])
qed

section \<open>What a request and a release take from the pages\<close>

lemma kheap_runs_frame:
  "(\<And>x. in_range KHEAP_TABLE kheap_pages x \<Longrightarrow> mem s' x = mem s x) \<Longrightarrow> kheap_runs s' = kheap_runs s"
  using kheap_tbl_frame [of s' s] by (simp add: kheap_runs_def)

lemma page_apart_table: "p < kheap_pages \<Longrightarrow> k \<le> 4096 \<Longrightarrow> in_range KHEAP_TABLE kheap_pages x \<Longrightarrow> \<not> in_range (page_addr p) k x"
  using table_apart [of p k] by (auto simp: ranges_disjoint_def)

lemma malloc_32_runs:
  "malloc_32 (page_addr p) sz s = (a, s') \<Longrightarrow> p < kheap_pages \<Longrightarrow> kheap_runs s' = kheap_runs s"
  using malloc_32_out [of "page_addr p" sz s a s'] page_apart_table [of p 124] by (intro kheap_runs_frame) simp

lemma set_slot_runs: "k < 124 \<Longrightarrow> mothermary s = page_addr m0 \<Longrightarrow> m0 < kheap_pages \<Longrightarrow>
    kheap_runs (set_slot k v s) = kheap_runs s"
  by (rule kheap_runs_frame) (use set_slot_out [of k s] page_apart_table [of m0 4096] in auto)

lemma heap_cream_malloc_runs:
  assumes ok: "cream_ok s m0 ps" and m: "heap_cream_malloc sz s = (a, s')"
  shows "kheap_runs s' = kheap_runs s \<or> (\<exists>q. kheap_runs s' = insert (q, 1) (kheap_runs s))"
proof -
  have base: "cream_base s m0 (ran ps)" using ok by (simp add: cream_ok_def)
  obtain r k s1 where t: "cream_try sz 0 s = (r, k, s1)" by (metis prod_cases3)
  note tried = cream_try_spec [OF ok t, simplified]
  consider "TOTAL_BYTES_AVAIL < sz" | "\<not> TOTAL_BYTES_AVAIL < sz" "r \<noteq> 0"
    | "\<not> TOTAL_BYTES_AVAIL < sz" "r = 0" "k = 124" | "\<not> TOTAL_BYTES_AVAIL < sz" "r = 0" "k < 124"
    using tried by (cases "r = 0") force+
  then show ?thesis
  proof cases
    case 1
    then have "s' = print (lit (''use kzalloc for blocks greater than 3968'' @ [CHR 10])) s"
      using m by (auto simp: heap_cream_malloc_def)
    then show ?thesis by (simp add: kheap_print)
  next
    case 2
    then have e: "a = r" "s' = s1" using m t by (auto simp: heap_cream_malloc_def)
    from tried 2 obtain j p s0 where p: "same_heap s s0" "ps j = Some p" "malloc_32 (page_addr p) sz s0 = (a, s')"
      by (auto simp: e)
    have pr: "p \<in> ran ps" using p(2) by (auto simp: ran_def)
    have "kheap_runs s' = kheap_runs s0" by (rule malloc_32_runs [OF p(3) base_page(1) [OF base pr]])
    then show ?thesis using same_heapD(4) [OF p(1)] by simp
  next
    case 3
    then have "s' = print (lit ''reached max page limit'') s1" "same_heap s s1"
      using m t tried by (auto simp: heap_cream_malloc_def const_defs)
    then show ?thesis using same_heapD(4) [of s s1] by (simp add: kheap_print)
  next
    case 4
    then have sh: "same_heap s s1" using tried by auto
    note ok1 = ok [folded same_heapD(5) [OF sh]]
    have inv1: "kheap_inv s1" and m0: "mothermary s1 = page_addr m0" "m0 < kheap_pages"
      using ok1 run_page(1) by (auto simp: cream_ok_def cream_base_def)
    have runs1: "kheap_runs s1 = kheap_runs s" by (rule same_heapD(4) [OF sh])
    obtain p s2 where z: "kzalloc 1 s1 = (p, s2)" by fastforce
    let ?s3 = "set_slot k p s2"
    have slot3: "slot ?s3 k = p" using slot_set_slot 4 by blast
    show ?thesis
    proof (cases "p = 0")
      case True
      have s2: "s2 = print (lit ''heap_get_start_block null'') s1"
        using kzalloc_NullD(2) [of s1 1 s2] z True inv1 by (simp add: kheap_inv_def)
      have "s' = print (lit ''kzalloc for new page failed'') ?s3"
        using m t 4 z True slot3 by (auto simp: heap_cream_malloc_def const_defs Let_def)
      moreover have "kheap_runs ?s3 = kheap_runs s2"
        using set_slot_runs [OF 4(3), of s2 m0 p] m0 print_ext [of _ s1] by (auto simp: s2)
      ultimately show ?thesis using runs1 by (simp add: kheap_print s2)
    next
      case False
      obtain q where q: "p = page_addr q" "new_run 1 s1 q s2" by (rule kzalloc_new_run [OF inv1 z False]) blast
      have p1: "pages_for 1 = 1" by (simp add: pages_for_nat)
      have run: "q < kheap_pages" "kheap_runs s2 = insert (q, 1) (kheap_runs s)" "s2 = s1\<lparr>mem := mem s2\<rparr>"
        using q(2) by (simp_all add: new_run_def p1 runs1)
      have mm2: "mothermary s2 = page_addr m0" by (subst run(3)) (simp add: m0)
      let ?s4 = "?s3\<lparr>mem := table_guard_set (mem ?s3) p\<rparr>"
      have mm4: "mothermary ?s4 = mothermary s2" by (simp add: set_slot_def)
      have "\<not> in_range p 4096 x \<Longrightarrow> table_guard_set m p x = m x" for m x
        by (rule table_guard_set_other) (simp add: in_range_def not_less)
      then have r4: "kheap_runs ?s4 = kheap_runs ?s3"
        using page_apart_table [OF run(1), of 4096] by (intro kheap_runs_frame) (simp add: q(1))
      have r3: "kheap_runs ?s3 = kheap_runs s2" by (rule set_slot_runs [OF 4(3) mm2 m0(2)])
      have "malloc_32 (slot ?s4 k) sz ?s4 = (a, s')"
        using m t 4 z False slot3 by (auto simp: heap_cream_malloc_def const_defs Let_def)
      moreover have "slot ?s4 k = p"
      proof -
        have "slot ?s4 k = p"
          by (rule cream_new_page [OF ok1 4(3) _ z False refl]) (use tried 4 same_heapD(1) [OF sh] in auto)
        then show ?thesis .
      qed
      ultimately have "kheap_runs s' = kheap_runs ?s4" using malloc_32_runs [OF _ run(1)] by (simp add: q(1))
      then have "kheap_runs s' = insert (q, 1) (kheap_runs s)" using r3 r4 run(2) by simp
      then show ?thesis by blast
    qed
  qed
qed

section \<open>Room for requests\<close>

definition empty_slots :: "'z cream_state_scheme \<Rightarrow> nat set" where
  "empty_slots s = {j. j < 124 \<and> slot s j = 0}"

definition free_set :: "'z kheap_state_scheme \<Rightarrow> nat set" where
  "free_set s = {q. page_free s q}"

text \<open>\<open>room s k\<close>: \<open>k\<close> requests in a row are sure to be served, whatever their sizes up to 3968.\<close>

definition room :: "'z cream_state_scheme \<Rightarrow> nat \<Rightarrow> bool" where
  "room s k \<longleftrightarrow> k \<le> card (empty_slots s) \<and> k \<le> card (free_set s)"

lemma finite_empty_slots [simp]: "finite (empty_slots s)"
  by (simp add: empty_slots_def)

lemma finite_free_set [simp]: "finite (free_set s)"
  by (rule finite_subset [of _ "{..<kheap_pages}"]) (auto simp: free_set_def page_free_def)

lemma room_mono:
  "room s k \<Longrightarrow> empty_slots s \<subseteq> empty_slots s' \<Longrightarrow> free_set s \<subseteq> free_set s' \<Longrightarrow> room s' k"
  using card_mono [of "empty_slots s'" "empty_slots s"] card_mono [of "free_set s'" "free_set s"]
  by (simp add: room_def)

lemma room_less: "room s k \<Longrightarrow> l \<le> k \<Longrightarrow> room s l"
  by (simp add: room_def)

lemma card_insert_room: "finite A \<Longrightarrow> Suc k \<le> card B \<Longrightarrow> B \<subseteq> insert x A \<Longrightarrow> k \<le> card A"
  using card_mono [of "insert x A" B] by (simp add: card_insert_if split: if_splits)

lemma room_malloc:
  assumes inv: "cream_inv s" and room: "room s (Suc k)" and sz: "sz \<noteq> 0" "sz \<le> TOTAL_BYTES_AVAIL"
    and m: "heap_cream_malloc sz s = (a, s')"
  shows "a \<noteq> 0" and "room s' k"
proof -
  from inv obtain m0 ps where ok: "cream_ok s m0 ps" by (auto simp: cream_inv_def)
  have "empty_slots s \<noteq> {}" "free_set s \<noteq> {}" using room by (auto simp: room_def)
  then obtain j q where j: "j < 124" "slot s j = 0" and q: "page_free s q"
    by (auto simp: empty_slots_def free_set_def)
  have "kheap_find s 1 \<noteq> None" using ok q by (intro kheap_find_some) (auto simp: cream_ok_def cream_base_def)
  from heap_cream_malloc_succeeds [OF ok sz j this] m show "a \<noteq> 0" by simp
  have "\<exists>k. empty_slots s \<subseteq> insert k (empty_slots s')"
  proof -
    have "grown s m0 ps s'" by (rule heap_cream_malloc_spec(1) [OF ok m])
    then consider "cream_ok s' m0 ps" | k q where "k < 124" "cream_ok s' m0 (ps(k \<mapsto> q))" by (auto simp: grown_def)
    then show ?thesis
    proof cases
      case 1
      then show ?thesis using slot_empty [OF ok] slot_empty [OF 1] by (auto simp: empty_slots_def)
    next
      case (2 k q)
      then show ?thesis using slot_empty [OF ok] slot_empty [OF 2(2)] by (intro exI [of _ k]) (auto simp: empty_slots_def)
    qed
  qed
  then obtain l where l: "empty_slots s \<subseteq> insert l (empty_slots s')" by blast
  obtain r where "kheap_runs s' \<subseteq> insert (r, 1) (kheap_runs s)"
    using heap_cream_malloc_runs [OF ok m] by blast
  then have "page_free s t \<Longrightarrow> t = r \<or> page_free s' t" for t unfolding page_free_def by fastforce
  then have "free_set s \<subseteq> insert r (free_set s')" by (auto simp: free_set_def)
  with l room show "room s' k"
    using card_insert_room [of "empty_slots s'" k "empty_slots s" l] card_insert_room [of "free_set s'" k "free_set s" r]
    by (simp add: room_def)
qed

lemma heap_cream_kill_room:
  assumes ok: "cream_ok s m0 ps" and p: "ps j = Some p" and e: "empty_table (mem s) (page_addr p)"
  shows "free_set s \<subseteq> free_set (heap_cream_kill j s)"
proof -
  have base: "cream_base s m0 (ran ps)" using ok by (simp add: cream_ok_def)
  have run: "(p, 1) \<in> kheap_runs s" "kheap_inv s" "mothermary s = page_addr m0" "m0 < kheap_pages"
    using base p run_page(1) by (auto simp: cream_base_def ran_def)
  note pb = run_page(1) [OF run(1)]
  have ready: "kheap_ready s" using run(2) by (simp add: kheap_inv_def)
  have mm: "mothermary (kfree (page_addr p) s) = page_addr m0" by (simp add: kfree_eq [OF ready pb] run(3))
  have "kheap_runs (heap_cream_kill j s) = kheap_runs (kfree (page_addr p) s)"
    using set_slot_runs [OF ok_page(4) [OF ok p] mm run(4)] by (simp add: heap_cream_kill_def ok_page(5) [OF ok p])
  also have "\<dots> = kheap_runs s - {(p, 1)}" by (rule kfree_runs(2) [OF run(2,1)])
  finally show ?thesis by (auto simp: free_set_def page_free_def)
qed

lemma release_any:
  assumes ok: "cream_ok s m0 ps" and live: "(a, n) \<in> cream_live s" and f: "heap_cream_free a s = (b, s')"
  shows "cream_inv s'" and "cream_live s - {(a, n)} \<subseteq> cream_live s'" and "cream_live s' \<subseteq> cream_live s"
    and "\<And>x. obj_byte (ran ps) x \<Longrightarrow> mem s' x = mem s x"
    and "empty_slots s \<subseteq> empty_slots s'" and "free_set s \<subseteq> free_set s'"
proof -
  let ?goal = "cream_inv s' \<and> cream_live s - {(a, n)} \<subseteq> cream_live s' \<and> cream_live s' \<subseteq> cream_live s \<and>
    (\<forall>x. obj_byte (ran ps) x \<longrightarrow> mem s' x = mem s x) \<and> empty_slots s \<subseteq> empty_slots s' \<and> free_set s \<subseteq> free_set s'"
  obtain j p i where j: "ps j = Some p" "a = block_addr (page_addr p) i" "(i, n) \<in> slab_runs (mem s) (page_addr p)"
    by (rule cream_liveE [OF ok live])
  have base: "cream_base s m0 (ran ps)" using ok by (simp add: cream_ok_def)
  have pr: "p \<in> ran ps" "p < kheap_pages" using ok_page [OF ok j(1)] by simp_all
  have ib: "i < 124" by (rule slab_runs_head [OF j(3)])
  have a: "a \<noteq> 0" using block_addr_nz [OF pr(2) ib] by (simp add: j(2))
  have ?goal
  proof (cases "\<forall>l<j. slot s l \<noteq> 0")
    case True
    then have full: "\<And>l. l < j \<Longrightarrow> slot s l \<noteq> 0" by blast
    note spec = heap_cream_free_spec [OF ok j(1,3) full f [unfolded j(2)], folded j(2)]
    obtain b1 s1 where h: "heap32_free (page_addr p) a s = (b1, s1)" by fastforce
    note res = heap32_free_cream [OF ok pr(1) j(3) h [unfolded j(2)]]
    have s': "s' = heap_cream_single_chk_kill j s1"
      using cream_free_scan_spec [OF ok j(1,3) full, of 0] f a h by (simp add: heap_cream_free_def j(2))
    have run: "is_run (bytes_at (mem s) (page_addr p) 124) i n" using j(3) by (simp add: slab_runs_def runs_def)
    have s1: "s1 = s\<lparr>mem := fold (\<lambda>j m. st8 m (page_addr p + of_nat j) 0) [i..<i + n] (mem s)\<rparr>"
      using h by (simp add: j(2) heap32_free_run [OF run])
    have "mem s1 x = mem s x" if "in_range KHEAP_TABLE kheap_pages x" for x
    proof -
      have "\<not> in_range (page_addr p) 124 x" by (rule page_apart_table [OF pr(2) _ that]) simp
      then have "x \<noteq> page_addr p + of_nat k" if "i \<le> k" "k < i + n" for k
        using that slab_runs_range(2) [OF j(3)] by (auto simp: in_range_offset)
      then show ?thesis by (simp add: s1 st8_fold_out)
    qed
    then have "kheap_runs s1 = kheap_runs s" by (rule kheap_runs_frame)
    then have free1: "free_set s1 = free_set s" by (simp add: free_set_def page_free_def)
    have slot1: "empty_slots s1 = empty_slots s"
      using slot_empty [OF ok] slot_empty [OF res(2)] by (auto simp: empty_slots_def)
    have "empty_slots s1 \<subseteq> empty_slots s' \<and> free_set s1 \<subseteq> free_set s'"
    proof (cases "s' = s1")
      case False
      then have k: "s' = heap_cream_kill j s1" "list_all (\<lambda>k. mem s1 (slot s1 j + of_nat k) = 0) [0..<124]"
        by (auto simp: s' heap_cream_single_chk_kill_def simp del: upt_rec_numeral split: if_splits)
      have e: "empty_table (mem s1) (page_addr p)"
        using k(2) ok_page(5) [OF res(2) j(1)]
        by (simp add: empty_table_nth list_all_iff Ball_def del: upt_rec_numeral)
      show ?thesis
        using heap_cream_kill_room [OF res(2) j(1) e] slot_empty [OF res(2)]
          slot_empty [OF heap_cream_kill_spec(1) [OF res(2) j(1) e]]
        by (auto simp: k(1) empty_slots_def)
    qed simp
    then show ?thesis using spec free1 slot1 by auto
  next
    case False
    then obtain l where "l < j" "slot s l = 0" by auto
    then obtain h where h: "h < j" "slot s h = 0" "\<And>l. l < h \<Longrightarrow> slot s l \<noteq> 0"
      using exists_least_iff [of "\<lambda>l. l < j \<and> slot s l = 0"] by (metis less_trans)
    have "s' = s" using cream_free_scan_hole [OF ok j(1,3) h, of 0] f a by (simp add: heap_cream_free_def j(2))
    then show ?thesis using ok by (auto simp: cream_inv_def)
  qed
  then show "cream_inv s'" "cream_live s - {(a, n)} \<subseteq> cream_live s'" "cream_live s' \<subseteq> cream_live s"
    "\<And>x. obj_byte (ran ps) x \<Longrightarrow> mem s' x = mem s x" "empty_slots s \<subseteq> empty_slots s'" "free_set s \<subseteq> free_set s'"
    by blast+
qed

section \<open>Objects that can be released\<close>

text \<open>
  A request for more blocks in a page whose only object lies at its start is served behind that object.  So two objects of
  at most 124 blocks together can be released one after the other, wherever the requests found place for them.
\<close>

text \<open>\<open>lodged s a n\<close>: the object at \<open>a\<close> is within reach, and at the start of its page if it is alone there.\<close>

definition lodged :: "'z cream_state_scheme \<Rightarrow> addr \<Rightarrow> nat \<Rightarrow> bool" where
  "lodged s a n \<longleftrightarrow> (\<exists>j<124. \<exists>i. (\<forall>l\<le>j. slot s l \<noteq> 0) \<and> (i, n) \<in> slab_runs (mem s) (slot s j) \<and> a = block_addr (slot s j) i \<and>
     (slab_runs (mem s) (slot s j) = {(i, n)} \<longrightarrow> i = 0))"

text \<open>\<open>companions s p q\<close>: both are within reach, and \<open>p\<close> is not alone in a page before the one of \<open>q\<close>.\<close>

definition companions :: "'z cream_state_scheme \<Rightarrow> addr \<Rightarrow> addr \<Rightarrow> bool" where
  "companions s p q \<longleftrightarrow> p \<noteq> q \<and> (\<exists>j<124. \<exists>k<124. \<exists>i n h m. (\<forall>l. l \<le> j \<or> l \<le> k \<longrightarrow> slot s l \<noteq> 0) \<and>
     (i, n) \<in> slab_runs (mem s) (slot s j) \<and> p = block_addr (slot s j) i \<and>
     (h, m) \<in> slab_runs (mem s) (slot s k) \<and> q = block_addr (slot s k) h \<and>
     (j < k \<longrightarrow> slab_runs (mem s) (slot s j) \<noteq> {(i, n)}))"

lemma companionsI:
  assumes "p \<noteq> q" and "j < 124" and "k < 124" and "\<And>l. l \<le> j \<or> l \<le> k \<Longrightarrow> slot s l \<noteq> 0"
    and "(i, n) \<in> slab_runs (mem s) (slot s j)" and "p = block_addr (slot s j) i"
    and "(h, m) \<in> slab_runs (mem s) (slot s k)" and "q = block_addr (slot s k) h"
    and "j < k \<longrightarrow> slab_runs (mem s) (slot s j) \<noteq> {(i, n)}"
  shows "companions s p q"
  unfolding companions_def using assms by blast

text \<open>A well-formed table without runs behind \<open>i\<close> has room there.\<close>

lemma free_run_behind:
  assumes wf: "wf_table t" and r: "\<And>j n. is_run t j n \<Longrightarrow> j + n \<le> i" and b: "i + m \<le> length t"
  shows "free_run t i m"
  unfolding free_run_def
proof (intro conjI allI impI)
  fix k assume "k < m"
  show "t ! (i + k) = 0"
  proof (rule ccontr)
    assume nz: "t ! (i + k) \<noteq> 0"
    have "i + k < length t" using b \<open>k < m\<close> by simp
    from this nz obtain j n where "is_run t j n" "j \<le> i + k" "i + k < j + n" by (rule wf_tableD [OF wf])
    then show False using r by fastforce
  qed
qed (rule b)

lemma slab_find_behind:
  assumes wf: "wf_table (bytes_at m page 124)" and r: "\<And>j n. (j, n) \<in> slab_runs m page \<Longrightarrow> j + n \<le> i"
    and n: "1 \<le> n" "i + n \<le> 124"
  shows "\<exists>k\<le>i. slab_find m page n = Some k"
proof -
  have f: "free_run (bytes_at m page 124) i n"
    by (rule free_run_behind [OF wf]) (use r n in \<open>simp_all add: slab_runs_def runs_def\<close>)
  then obtain k where k: "first_fit (bytes_at m page 124) n = Some k"
    using first_fit_None [OF n(1)] by (cases "first_fit (bytes_at m page 124) n") auto
  then have "k \<le> i" using f by (metis first_fit_Some linorder_not_le)
  then show ?thesis using k n by (simp add: slab_find_def)
qed

lemma cream_table:
  assumes "cream_ok s m0 ps" and "j < 124" and "slot s j \<noteq> 0"
  shows "wf_table (bytes_at (mem s) (slot s j) 124)"
proof -
  obtain p where p: "slot s j = page_addr p" "p \<in> ran ps" by (rule cream_slot [OF assms])
  then show ?thesis using base_page(3) [of s m0 "ran ps" p] assms(1) by (simp add: cream_ok_def)
qed

lemma malloc_lodged:
  assumes inv: "cream_inv s" and m: "heap_cream_malloc sz s = (a, s')" and a: "a \<noteq> 0"
  shows "lodged s' a (blocks_for sz)"
proof -
  let ?n = "blocks_for sz"
  obtain m0 ps where ok: "cream_ok s m0 ps" using inv by (auto simp: cream_inv_def)
  obtain j i where p: "placed_at ?n s a s' j i" using heap_cream_malloc_spec(5) [OF ok m a] by blast
  have "(i, ?n) \<in> slab_runs (mem s') (slot s' j) \<and> (slab_runs (mem s') (slot s' j) = {(i, ?n)} \<longrightarrow> i = 0)"
  proof (cases "slot s j = 0")
    case False
    then have f: "slab_find (mem s) (slot s j) ?n = Some i" and r: "slab_runs (mem s') (slot s' j) = insert (i, ?n) (slab_runs (mem s) (slot s j))"
      and j: "j < 124" using p by (auto simp: placed_at_def)
    note fd = slab_findD [OF f]
    have "i = 0" if "slab_runs (mem s') (slot s' j) = {(i, ?n)}"
    proof -
      have "(i, ?n) \<notin> slab_runs (mem s) (slot s j)"
        using slab.alloc_fresh [OF fd(1) f, of i ?n] fd(1) by (auto simp: slab_runs_def)
      then have "slab_runs (mem s) (slot s j) = {}" using that r by auto
      then have "\<exists>k\<le>0. slab_find (mem s) (slot s j) ?n = Some k"
        using fd(1,3) by (intro slab_find_behind [OF cream_table [OF ok j False]]) auto
      then show ?thesis using f by simp
    qed
    then show ?thesis using r by blast
  qed (use p in \<open>auto simp: placed_at_def\<close>)
  moreover have "j < 124" "\<forall>l\<le>j. slot s' l \<noteq> 0" "a = block_addr (slot s' j) i" using p by (auto simp: placed_at_def)
  ultimately show ?thesis unfolding lodged_def by blast
qed

lemma lodged_reached: "lodged s a n \<Longrightarrow> reached s a"
proof -
  assume "lodged s a n"
  then obtain j i where j: "j < 124" "\<forall>l\<le>j. slot s l \<noteq> 0" "(i, n) \<in> slab_runs (mem s) (slot s j)" "a = block_addr (slot s j) i"
    unfolding lodged_def by blast
  then have "in_range (slot s j) 4096 a"
    using block_in_page(1) [OF slab_runs_range(2) [OF j(3)], of "slot s j" a] slab_runs_range(1) [OF j(3)] by simp
  then show ?thesis by (rule reachedI [OF j(1,2)])
qed

lemma malloc_companions:
  assumes inv: "cream_inv s" and l: "lodged s p n" and m: "heap_cream_malloc sz s = (q, s')" and q: "q \<noteq> 0" "p \<noteq> q"
    and fit: "n + blocks_for sz \<le> 124"
  shows "companions s' p q"
proof -
  let ?m = "blocks_for sz"
  obtain m0 ps where ok: "cream_ok s m0 ps" using inv by (auto simp: cream_inv_def)
  obtain k h where pl: "placed_at ?m s q s' k h" using heap_cream_malloc_spec(5) [OF ok m q(1)] by blast
  then have k: "k < 124" "q = block_addr (slot s' k) h" "\<forall>l\<le>k. slot s' l \<noteq> 0" "(h, ?m) \<in> slab_runs (mem s') (slot s' k)"
    and before: "\<forall>l<k. slot s l \<noteq> 0 \<and> slab_find (mem s) (slot s l) ?m = None"
    and other: "\<forall>l<124. l \<noteq> k \<longrightarrow> slot s' l = slot s l \<and> (slot s l \<noteq> 0 \<longrightarrow> slab_runs (mem s') (slot s l) = slab_runs (mem s) (slot s l))"
    by (auto simp: placed_at_def split: if_splits)
  obtain j i where j: "j < 124" "\<forall>l\<le>j. slot s l \<noteq> 0" "(i, n) \<in> slab_runs (mem s) (slot s j)" "p = block_addr (slot s j) i"
    and one: "slab_runs (mem s) (slot s j) = {(i, n)} \<longrightarrow> i = 0" using l unfolding lodged_def by blast
  have jj: "slot s' j = slot s j" "(i, n) \<in> slab_runs (mem s') (slot s j)"
    using j(1-3) other pl by (cases "j = k"; auto simp: placed_at_def)+
  have "slab_runs (mem s') (slot s j) \<noteq> {(i, n)}" if "j < k"
  proof
    assume "slab_runs (mem s') (slot s j) = {(i, n)}"
    then have r: "slab_runs (mem s) (slot s j) = {(i, n)}" using other j(1,2) that by auto
    then have "i = 0" using one by blast
    moreover have "1 \<le> ?m" using slab_runs_range(1) [OF k(4)] .
    ultimately have "\<exists>k\<le>n. slab_find (mem s) (slot s j) ?m = Some k"
      using r fit j(2) by (intro slab_find_behind [OF cream_table [OF ok j(1)]]) auto
    then show False using before that by auto
  qed
  moreover have "slot s' l \<noteq> 0" if "l \<le> j \<or> l \<le> k" for l
    using that k(1,3) j(1,2) other by (cases "l = k") auto
  ultimately show ?thesis unfolding companions_def using q(2) j(1,4) k(1,2,4) jj by metis
qed

lemma companions_reached: "companions s p q \<Longrightarrow> reached s p"
proof -
  assume "companions s p q"
  then obtain j i n where j: "j < 124" "\<forall>l\<le>j. slot s l \<noteq> 0" "(i, n) \<in> slab_runs (mem s) (slot s j)" "p = block_addr (slot s j) i"
    unfolding companions_def by blast
  then have "in_range (slot s j) 4096 p"
    using block_in_page(1) [OF slab_runs_range(2) [OF j(3)], of "slot s j" p] slab_runs_range(1) [OF j(3)] by simp
  then show ?thesis by (rule reachedI [OF j(1,2)])
qed

lemma companions_free:
  assumes inv: "cream_inv s" and c: "companions s p q"
  shows "reached (snd (heap_cream_free p s)) q"
proof -
  let ?s' = "snd (heap_cream_free p s)"
  obtain m0 ps where ok: "cream_ok s m0 ps" using inv by (auto simp: cream_inv_def)
  obtain j k i n h m where j: "j < 124" "(i, n) \<in> slab_runs (mem s) (slot s j)" "p = block_addr (slot s j) i"
    and k: "k < 124" "(h, m) \<in> slab_runs (mem s) (slot s k)" "q = block_addr (slot s k) h"
    and full: "\<forall>l. l \<le> j \<or> l \<le> k \<longrightarrow> slot s l \<noteq> 0" and ne: "p \<noteq> q" "j < k \<longrightarrow> slab_runs (mem s) (slot s j) \<noteq> {(i, n)}"
    using c unfolding companions_def by blast
  obtain P where P: "ps j = Some P" "slot s j = page_addr P" by (rule cream_slot [OF ok j(1)]) (use full in auto)
  have "heap_cream_free (block_addr (page_addr P) i) s = (fst (heap_cream_free p s), ?s')" by (simp add: j(3) P(2))
  note fs = heap_cream_free_slots [OF ok P(1) j(2) [unfolded P(2)] _ this]
  have same: "slot ?s' l = slot s l" if "l < 124" "l \<noteq> j" for l using fs(1) [OF _ that] full by simp
  have "slot ?s' j = slot s j" if jk: "j \<le> k"
  proof -
    obtain i' n' where "(i', n') \<in> slab_runs (mem s) (slot s j)" "(i', n') \<noteq> (i, n)"
    proof (cases "j = k")
      case True
      then have "(h, m) \<noteq> (i, n)" using ne(1) j(3) k(3) by auto
      then show thesis using that k(2) True by blast
    next
      case False
      then show thesis using that ne(2) j(2) jk by auto
    qed
    then show ?thesis using fs(2) full P(2) by simp
  qed
  then have "slot ?s' l = slot s l" if "l \<le> k" for l using same [of l] that k(1) by (cases "l = j") auto
  moreover have "in_range (slot s k) 4096 q"
    using block_in_page(1) [OF slab_runs_range(2) [OF k(2)], of "slot s k" q] slab_runs_range(1) [OF k(2)] k(3) by simp
  ultimately show ?thesis using full by (intro reachedI [OF k(1)]) simp_all
qed

text \<open>Both only depend on the slots and the tables of their pages.\<close>

definition same_pages :: "'z cream_state_scheme \<Rightarrow> 'y cream_state_scheme \<Rightarrow> bool" where
  "same_pages s s' \<longleftrightarrow> (\<forall>j<124. slot s' j = slot s j \<and> (slot s j \<noteq> 0 \<longrightarrow> slab_runs (mem s') (slot s j) = slab_runs (mem s) (slot s j)))"

lemma same_pages_lodged: "same_pages s s' \<Longrightarrow> lodged s a n \<Longrightarrow> lodged s' a n"
proof -
  assume s: "same_pages s s'" and "lodged s a n"
  then obtain j i where j: "j < 124" "\<forall>l\<le>j. slot s l \<noteq> 0" "(i, n) \<in> slab_runs (mem s) (slot s j)" "a = block_addr (slot s j) i"
    "slab_runs (mem s) (slot s j) = {(i, n)} \<longrightarrow> i = 0" unfolding lodged_def by blast
  then have e: "slot s' l = slot s l" "slot s' l \<noteq> 0" "slab_runs (mem s') (slot s' l) = slab_runs (mem s) (slot s l)" if "l \<le> j" for l
    using s that unfolding same_pages_def by auto
  show "lodged s' a n" unfolding lodged_def using j e by (intro exI [of _ j] conjI exI [of _ i]) auto
qed

lemma same_pages_companions: "same_pages s s' \<Longrightarrow> companions s p q \<Longrightarrow> companions s' p q"
proof -
  assume s: "same_pages s s'" and "companions s p q"
  then obtain j k i n h m where j: "j < 124" "(i, n) \<in> slab_runs (mem s) (slot s j)" "p = block_addr (slot s j) i"
    and k: "k < 124" "(h, m) \<in> slab_runs (mem s) (slot s k)" "q = block_addr (slot s k) h"
    and full: "\<forall>l. l \<le> j \<or> l \<le> k \<longrightarrow> slot s l \<noteq> 0" and ne: "p \<noteq> q" "j < k \<longrightarrow> slab_runs (mem s) (slot s j) \<noteq> {(i, n)}"
    unfolding companions_def by blast
  have e: "slot s' l = slot s l" "slot s' l \<noteq> 0" "slab_runs (mem s') (slot s' l) = slab_runs (mem s) (slot s l)" if "l \<le> j \<or> l \<le> k" for l
    using s full that j(1) k(1) unfolding same_pages_def by auto
  have ej: "slot s' j = slot s j" "slab_runs (mem s') (slot s j) = slab_runs (mem s) (slot s j)" using e [of j] by simp_all
  have ek: "slot s' k = slot s k" "slab_runs (mem s') (slot s k) = slab_runs (mem s) (slot s k)" using e [of k] by simp_all
  show "companions s' p q"
    by (rule companionsI [of p q j k s' i n h m]) (use ne j k e(2) in \<open>simp_all add: ej ek\<close>)
qed

lemma cream_ok_store_pages:
  assumes ok: "cream_ok s m0 ps" and out: "\<And>x. \<not> obj_byte (ran ps) x \<Longrightarrow> mem s' x = mem s x"
    and same: "mothermary s' = mothermary s" "kernel_heap s' = kernel_heap s"
  shows "same_pages s s'"
  unfolding same_pages_def
proof (rule allI, rule impI, rule conjI)
  fix j :: nat assume j: "j < 124"
  show "slot s' j = slot s j" by (rule cream_ok_store(4) [OF ok _ same j]) (rule out)
  show "slot s j \<noteq> 0 \<longrightarrow> slab_runs (mem s') (slot s j) = slab_runs (mem s) (slot s j)"
  proof
    assume nz: "slot s j \<noteq> 0"
    obtain p where p: "slot s j = page_addr p" "p \<in> ran ps" by (rule cream_slot [OF ok j nz])
    show "slab_runs (mem s') (slot s j) = slab_runs (mem s) (slot s j)"
      unfolding p(1) by (rule cream_ok_store(5) [OF ok _ same p(2)]) (rule out)
  qed
qed

section \<open>What the heaps leave alone\<close>

text \<open>A step of the heaps changes the memory and the console only.\<close>

definition heap_step :: "'z machine_scheme \<Rightarrow> 'z machine_scheme \<Rightarrow> bool" where
  "heap_step s s' \<longleftrightarrow> (\<exists>v x y m. s' = s\<lparr>vedio := v, cursor_x := x, cursor_y := y, mem := m\<rparr>)"

lemma heap_step_refl [simp]: "heap_step s s"
  unfolding heap_step_def
  by (intro exI [of _ "vedio s"] exI [of _ "cursor_x s"] exI [of _ "cursor_y s"] exI [of _ "mem s"]) simp

lemma heap_step_trans [trans]: "heap_step s s' \<Longrightarrow> heap_step s' s'' \<Longrightarrow> heap_step s s''"
  unfolding heap_step_def by force

lemma heap_step_print: "heap_step s s' \<Longrightarrow> heap_step s (print cs s')"
proof -
  obtain v x y where "print cs s' = s'\<lparr>vedio := v, cursor_x := x, cursor_y := y\<rparr>" using print_ext [of cs s'] by blast
  then have "heap_step s' (print cs s')"
    unfolding heap_step_def by (intro exI [of _ v] exI [of _ x] exI [of _ y] exI [of _ "mem s'"]) simp
  then show "heap_step s s' \<Longrightarrow> heap_step s (print cs s')" by (rule heap_step_trans [rotated])
qed

lemma heap_step_mem: "heap_step s s' \<Longrightarrow> heap_step s (s'\<lparr>mem := m\<rparr>)"
  unfolding heap_step_def by force

lemma heap_step_kzalloc: "heap_step s s' \<Longrightarrow> kzalloc sz s' = (p, s'') \<Longrightarrow> heap_step s s''"
  by (auto simp: kzalloc_def kmalloc_def heap_malloc_def heap_get_start_block_def Let_def
      split: prod.splits option.splits if_splits intro!: heap_step_mem heap_step_print)

lemma heap_step_malloc_32: "heap_step s s' \<Longrightarrow> malloc_32 page sz s' = (a, s'') \<Longrightarrow> heap_step s s''"
  by (auto simp: malloc_32_eq split: option.splits intro!: heap_step_mem heap_step_print)

lemma heap_step_slot: "heap_step s s' \<Longrightarrow> heap_step s (set_slot k v s')"
  by (simp add: set_slot_def heap_step_mem)

lemma heap_step_kfree: "heap_step s s' \<Longrightarrow> heap_step s (kfree p s')"
  by (simp add: kfree_def heap_free_def Let_def heap_step_mem)

lemma heap_step_cream_try: "cream_try sz i s = (r, k, s') \<Longrightarrow> heap_step s s'"
proof (induction sz i s arbitrary: r k s' rule: cream_try.induct)
  case (1 sz i s)
  show ?case
  proof (cases "i < MAX_4KB_HEAP \<and> slot s i \<noteq> 0")
    case True
    obtain a s1 where m: "malloc_32 (slot s i) sz s = (a, s1)" by fastforce
    have "heap_step s s1" by (rule heap_step_malloc_32 [OF heap_step_refl m])
    then have "heap_step s1 s' \<Longrightarrow> heap_step s s'" by (rule heap_step_trans)
    then show ?thesis
      using 1 True m \<open>heap_step s s1\<close> by (auto simp: cream_try.simps [of sz i s] split: if_splits)
  next
    case False
    then show ?thesis using "1.prems" by (auto simp: cream_try.simps [of sz i s])
  qed
qed

lemma heap_step_malloc: "heap_cream_malloc sz s = (a, s') \<Longrightarrow> heap_step s s'"
  by (auto simp: heap_cream_malloc_def Let_def split: if_splits prod.splits
      dest!: heap_step_cream_try
      intro!: heap_step_print elim!: heap_step_malloc_32 [rotated] intro!: heap_step_mem heap_step_slot elim!: heap_step_kzalloc [rotated])

lemma heap_step_heap32_free: "heap32_free page b s = (r, s') \<Longrightarrow> heap_step s s'"
  by (auto simp: heap32_free_def Let_def split: if_splits prod.splits bool.splits
      intro!: heap_step_print heap_step_mem)

lemma heap_step_chk_kill: "heap_step s s' \<Longrightarrow> heap_step s (heap_cream_single_chk_kill i s')"
  by (simp add: heap_cream_single_chk_kill_def heap_cream_kill_def heap_step_slot heap_step_kfree del: upt_rec_numeral)

lemma heap_step_free_scan: "cream_free_scan a i s = (b, s') \<Longrightarrow> heap_step s s'"
proof (induction a i s arbitrary: b s' rule: cream_free_scan.induct)
  case (1 a i s)
  obtain r s1 where f: "heap32_free (slot s i) a s = (r, s1)" by fastforce
  have h: "heap_step s s1" by (rule heap_step_heap32_free [OF f])
  show ?case
    using "1.prems" f h "1.IH" heap_step_trans [OF h] heap_step_chk_kill [OF h]
    by (fastforce simp: cream_free_scan.simps [of a i s] split: if_splits bool.splits)
qed

lemma heap_step_free: "heap_step s (snd (heap_cream_free a s))"
  using heap_step_free_scan [of a 0 s]
  by (cases "cream_free_scan a 0 s") (simp add: heap_cream_free_def heap_step_print)

section \<open>The view of a client\<close>

text \<open>\<open>client s k\<close>: the heap is in order and \<open>k\<close> more requests are sure to be served.\<close>

definition client :: "'z cream_state_scheme \<Rightarrow> nat \<Rightarrow> bool" where
  "client s k \<longleftrightarrow> cream_inv s \<and> room s k"

lemma client_less: "client s k \<Longrightarrow> l \<le> k \<Longrightarrow> client s l"
  by (simp add: client_def room_def)

lemma client_malloc:
  assumes "client s (Suc k)" and "sz \<noteq> 0" and "sz \<le> TOTAL_BYTES_AVAIL" and "heap_cream_malloc sz s = (a, s')"
  obtains n where "a \<noteq> 0" and "client s' k" and "heap_step s s'" and "unat sz \<le> n" and "0 < n"
    and "cream_objects s' = insert (a, n) (cream_objects s)"
    and "\<And>b l. (b, l) \<in> cream_objects s \<Longrightarrow> ranges_disjoint a n b l" and "a \<notin> fst ` cream_objects s"
    and "\<And>b l x. (b, l) \<in> cream_objects s \<Longrightarrow> in_range b l x \<Longrightarrow> mem s' x = mem s x"
proof -
  have inv: "cream_inv s" and room: "room s (Suc k)" using assms(1) by (simp_all add: client_def)
  note r = room_malloc [OF inv room assms(2-4)] and c = heap_cream_malloc_contract [OF inv assms(4)]
  obtain n where n: "unat sz \<le> n" "0 < n" "cream_objects s' = insert (a, n) (cream_objects s)"
    and "\<forall>(b, l) \<in> cream_objects s. ranges_disjoint a n b l" using c(3) [OF r(1)] by blast
  then have d: "ranges_disjoint a n b l" if "(b, l) \<in> cream_objects s" for b l using that by blast
  have "a \<noteq> b" if "(b, l) \<in> cream_objects s" for b l
    using d [OF that] n(2) cream_objects_pos [OF that] in_range_self unfolding ranges_disjoint_def by blast
  then have "a \<notin> fst ` cream_objects s" by force
  moreover have "client s' k" using r(2) c(1) by (simp add: client_def)
  ultimately show thesis by (intro that [OF r(1) _ heap_step_malloc [OF assms(4)] n d _ c(4)])
qed

lemma objects_live: "(a, n * 32) \<in> cream_objects s \<longleftrightarrow> (a, n) \<in> cream_live s"
  by (auto simp: cream_objects_def)

lemma client_free:
  assumes "client s k" and "(a, n) \<in> cream_objects s" and "s' = snd (heap_cream_free a s)"
  shows "client s' k" and "heap_step s s'" and "cream_objects s - {(a, n)} \<subseteq> cream_objects s'"
    and "cream_objects s' \<subseteq> cream_objects s"
    and "(b, l) \<in> cream_objects s \<Longrightarrow> in_range b l x \<Longrightarrow> mem s' x = mem s x"
proof -
  obtain m0 ps where ok: "cream_ok s m0 ps" using assms(1) by (auto simp: client_def cream_inv_def)
  obtain j where j: "(a, j) \<in> cream_live s" "n = j * 32" by (rule cream_objectsE [OF assms(2)])
  have f: "heap_cream_free a s = (fst (heap_cream_free a s), s')" by (simp add: assms(3))
  note r = release_any [OF ok j(1) f]
  show "client s' k" using r(1) room_mono [OF _ r(5,6)] assms(1) by (simp add: client_def)
  show "heap_step s s'" unfolding assms(3) by (rule heap_step_free)
  show "cream_objects s - {(a, n)} \<subseteq> cream_objects s'" "cream_objects s' \<subseteq> cream_objects s"
    using r(2,3) by (auto simp: cream_objects_def j(2))
  show "(b, l) \<in> cream_objects s \<Longrightarrow> in_range b l x \<Longrightarrow> mem s' x = mem s x"
    using r(4) obj_byte_live [OF ok] by (auto elim!: cream_objectsE)
qed

text \<open>One that is within reach is gone after its release.\<close>

lemma client_release:
  assumes "client s k" and "(a, n) \<in> cream_objects s" and "reached s a"
  shows "cream_objects (snd (heap_cream_free a s)) = cream_objects s - {(a, n)}"
  using heap_cream_free_contract(2) [OF _ assms(2,3)] assms(1) by (simp add: client_def)

text \<open>Two objects of at most 124 blocks together, the first one stored to in between.\<close>

lemma client_lodged:
  "client s k \<Longrightarrow> heap_cream_malloc sz s = (a, s') \<Longrightarrow> a \<noteq> 0 \<Longrightarrow> lodged s' a (blocks_for sz)"
  using malloc_lodged by (auto simp: client_def)

lemma client_companions:
  "client s k \<Longrightarrow> lodged s p n \<Longrightarrow> heap_cream_malloc sz s = (q, s') \<Longrightarrow> q \<noteq> 0 \<Longrightarrow> p \<noteq> q \<Longrightarrow> n + blocks_for sz \<le> 124 \<Longrightarrow> companions s' p q"
  using malloc_companions by (auto simp: client_def)

lemma client_release_both:
  assumes cl: "client s k" and o: "(p, n) \<in> cream_objects s" "(q, l) \<in> cream_objects s" and c: "companions s p q"
  shows "cream_objects (snd (heap_cream_free q (snd (heap_cream_free p s)))) = cream_objects s - {(p, n), (q, l)}"
proof -
  let ?t = "snd (heap_cream_free p s)"
  have "p \<noteq> q" using c by (simp add: companions_def)
  have t: "cream_objects ?t = cream_objects s - {(p, n)}" by (rule client_release [OF cl o(1) companions_reached [OF c]])
  then have "(q, l) \<in> cream_objects ?t" using o(2) \<open>p \<noteq> q\<close> by auto
  moreover have "reached ?t q" by (rule companions_free [OF _ c]) (use cl in \<open>simp add: client_def\<close>)
  ultimately have "cream_objects (snd (heap_cream_free q ?t)) = cream_objects ?t - {(q, l)}"
    by (rule client_release [OF client_free(1) [OF cl o(1) refl]])
  then show ?thesis using t by auto
qed

text \<open>Bytes of live objects may be overwritten.\<close>

lemma client_stores:
  assumes "client s k" and w: "\<And>x. mem s' x \<noteq> mem s x \<Longrightarrow> \<exists>(a, n) \<in> cream_objects s. in_range a n x"
    and "mothermary s' = mothermary s" and "kernel_heap s' = kernel_heap s"
  shows "client s' k" and "cream_objects s' = cream_objects s" and "same_pages s s'"
proof -
  obtain m0 ps where ok: "cream_ok s m0 ps" using assms(1) by (auto simp: client_def cream_inv_def)
  have out: "mem s' x = mem s x" if "\<not> obj_byte (ran ps) x" for x
    using that w [of x] obj_byte_live [OF ok] by (auto elim!: cream_objectsE)
  show "same_pages s s'" by (rule cream_ok_store_pages [OF ok out assms(3,4)])
  note st = cream_ok_store [OF ok out assms(3,4)]
  have "empty_slots s \<subseteq> empty_slots s'" "free_set s \<subseteq> free_set s'"
    using st(3,4) by (auto simp: empty_slots_def free_set_def page_free_def)
  then show "client s' k" using st(1) assms(1) room_mono by (auto simp: client_def cream_inv_def)
  show "cream_objects s' = cream_objects s" by (simp add: cream_objects_def st(2))
qed

lemma client_store:
  assumes "client s k" and "(a, n) \<in> cream_objects s" and "\<And>x. \<not> in_range a n x \<Longrightarrow> mem s' x = mem s x"
    and "mothermary s' = mothermary s" and "kernel_heap s' = kernel_heap s"
  shows "client s' k" and "cream_objects s' = cream_objects s" and "same_pages s s'"
  by (rule client_stores [OF assms(1) _ assms(4,5)]; use assms(2,3) in blast)+

lemma client_same:
  assumes "client s k" and "mem s' = mem s" and "mothermary s' = mothermary s" and "kernel_heap s' = kernel_heap s"
  shows "client s' k" and "cream_objects s' = cream_objects s" and "same_pages s s'"
  by (rule client_stores [OF assms(1) _ assms(3,4)]; simp add: assms(2))+

text \<open>After the start-up every slot is empty and all pages but the first are free.\<close>

lemma boot_client:
  assumes zero: "mem t = (\<lambda>_. 0)" and s: "s = help_me_mary_mother_of_god (kheap_init t)"
  shows "client s 124" and "cream_objects s = {}"
proof -
  note ok = boot_ok [OF assms]
  have "empty_slots s = {..<124}" using ok(1) by (auto simp: empty_slots_def cream_ok_def slots_are_def)
  moreover have "free_set s = {1..<kheap_pages}" by (auto simp: free_set_def page_free_def ok(2))
  ultimately show "client s 124" using ok(1) by (auto simp: client_def cream_inv_def room_def kheap_pages_def)
  show "cream_objects s = {}" using cream_live_eq [OF ok(1)] by (simp add: cream_objects_def live_blocks_def)
qed

lemma help_me_step:
  obtains p u where "heap_step t u" and "help_me_mary_mother_of_god t = u\<lparr>mothermary := p\<rparr>"
proof -
  obtain p' u where z: "kzalloc 1 t = (p', u)" by fastforce
  show thesis
    by (rule that [of u p']) (use z heap_step_kzalloc [OF heap_step_refl z] in \<open>simp_all add: help_me_mary_mother_of_god_def\<close>)
qed

end
