(* ===== verification/Heap_Runs.thy ===== *)
theory Heap_Runs
  imports Object_Store Cream_Room
begin

text \<open>
  Both heaps of the kernel as object stores (theory \<open>Object_Store\<close>): whatever sequence of requests, releases and stores
  into their own objects the clients make, the heap behaves as a store of separate byte lists.
\<close>

section \<open>Stores of the clients\<close>

text \<open>A client stores a byte.\<close>

definition put_byte :: "addr \<Rightarrow> byte \<Rightarrow> 'z machine_scheme \<Rightarrow> 'z machine_scheme" where
  "put_byte x v s = s\<lparr>mem := (mem s)(x := v)\<rparr>"

lemma put_byte_mem [simp]: "mem (put_byte x v s) = (mem s)(x := v)"
  by (simp add: put_byte_def)

lemma put_byte_heap [simp]: "kernel_heap (put_byte x v s) = kernel_heap s"
  by (simp add: put_byte_def)

lemma put_byte_cream [simp]: "mothermary (put_byte x v s) = mothermary s"
  by (simp add: put_byte_def)

lemma kheap_put:
  assumes inv: "kheap_inv s" and l: "(a, n) \<in> kheap_live s" "in_range a n x"
  shows "kheap_inv (put_byte x v s)" and "kheap_live (put_byte x v s) = kheap_live s"
proof -
  have "kheap_tbl (put_byte x v s) = kheap_tbl s"
    by (rule kheap_tbl_frame) (use kheap_live_table [OF l] in \<open>auto simp: put_byte_def\<close>)
  note k = kheap_inv_frame [OF inv _ this]
  show "kheap_inv (put_byte x v s)" "kheap_live (put_byte x v s) = kheap_live s" using k by (simp_all add: kheap_live_def)
qed

lemma kheap_live_apart:
  assumes "(a, n) \<in> kheap_live s" and "(b, k) \<in> kheap_live s" and "(a, n) \<noteq> (b, k)"
  shows "ranges_disjoint a n b k"
proof -
  obtain i m where i: "(i, m) \<in> kheap_runs s" "a = page_addr i" "n = m * 4096" "1 \<le> m" "i + m \<le> kheap_pages"
    by (rule kheap_liveE [OF assms(1)])
  obtain j l where j: "(j, l) \<in> kheap_runs s" "b = page_addr j" "k = l * 4096" "1 \<le> l" "j + l \<le> kheap_pages"
    by (rule kheap_liveE [OF assms(2)])
  have "i + m \<le> j \<or> j + l \<le> i" by (rule kheap_runs_disjoint [OF i(1) j(1)]) (use assms(3) i(2,3) j(2,3) in auto)
  then show ?thesis unfolding i(2,3) j(2,3) using i(4,5) j(4,5) by (intro pages_disjoint)
qed

lemma kheap_live_size: "(a, n) \<in> kheap_live s \<Longrightarrow> n \<le> 2 ^ 32"
  by (erule kheap_liveE) (simp add: kheap_pages_def)

interpretation kheap_store: object_heap "{kmalloc, kzalloc}" kfree kheap_inv kheap_live mem "\<lambda>_ _. True" put_byte
proof (rule object_heap.intro)
  show "alloc \<in> {kmalloc, kzalloc} \<Longrightarrow> allocator alloc kfree kheap_inv kheap_live mem (\<lambda>_ _. True)" for alloc
    using kheap.allocator_axioms kzheap.allocator_axioms by blast
qed (simp, rule kheap_live_apart, assumption+, rule kheap_live_size, assumption, simp add: kheap_put)

lemma cream_put:
  assumes inv: "cream_inv s" and l: "(a, n) \<in> cream_objects s" "in_range a n x"
  shows "cream_inv (put_byte x v s)" and "cream_objects (put_byte x v s) = cream_objects s"
proof -
  obtain m0 ps where ok: "cream_ok s m0 ps" using inv by (auto simp: cream_inv_def)
  obtain k where k: "(a, k) \<in> cream_live s" "n = k * 32" by (rule cream_objectsE [OF l(1)])
  have "obj_byte (ran ps) x" by (rule obj_byte_live [OF ok k(1) l(2) [unfolded k(2)]])
  then have out: "\<not> obj_byte (ran ps) y \<Longrightarrow> mem (put_byte x v s) y = mem s y" for y by auto
  note st = cream_ok_store [OF ok out]
  show "cream_inv (put_byte x v s)" using st(1) by (auto simp: cream_inv_def)
  show "cream_objects (put_byte x v s) = cream_objects s" using st(2) by (simp add: cream_objects_def)
qed

lemma cream_apart:
  assumes inv: "cream_inv s" and l: "(a, n) \<in> cream_objects s" "(b, k) \<in> cream_objects s" "(a, n) \<noteq> (b, k)"
  shows "ranges_disjoint a n b k"
proof -
  obtain m0 ps where ok: "cream_ok s m0 ps" using inv by (auto simp: cream_inv_def)
  obtain n' where n: "(a, n') \<in> cream_live s" "n = n' * 32" by (rule cream_objectsE [OF l(1)])
  obtain k' where k: "(b, k') \<in> cream_live s" "k = k' * 32" by (rule cream_objectsE [OF l(2)])
  obtain j p i where p: "ps j = Some p" "a = block_addr (page_addr p) i" "(i, n') \<in> slab_runs (mem s) (page_addr p)"
    by (rule cream_liveE [OF ok n(1)])
  obtain j' q h where q: "ps j' = Some q" "b = block_addr (page_addr q) h" "(h, k') \<in> slab_runs (mem s) (page_addr q)"
    by (rule cream_liveE [OF ok k(1)])
  note r = slab_runs_range [OF p(3)] slab_runs_range [OF q(3)]
  show ?thesis
  proof (cases "p = q")
    case True
    have "i + n' \<le> h \<or> h + k' \<le> i"
      by (rule runs_disjoint [of "bytes_at (mem s) (page_addr p) 124"]) (use p q l(3) n(2) k(2) True in \<open>auto simp: slab_runs_def runs_def\<close>)
    then show ?thesis unfolding p(2) q(2) n(2) k(2) True using r by (intro blocks_disjoint)
  next
    case False
    have "p < kheap_pages" "q < kheap_pages" using ok_page [OF ok p(1)] ok_page [OF ok q(1)] run_page(1) by blast+
    then show ?thesis unfolding p(2) q(2) n(2) k(2) using False r by (intro block_in_cream_page)
  qed
qed

lemma cream_size: "(a, n) \<in> cream_objects s \<Longrightarrow> n \<le> 2 ^ 32"
  by (erule cream_objectsE) (use slab_runs_range(2) in \<open>fastforce simp: cream_live_def\<close>)

interpretation cream_store: object_heap "{heap_cream_malloc}" "\<lambda>a s. snd (heap_cream_free a s)" cream_inv cream_objects mem
    reached put_byte
proof (rule object_heap.intro)
  show "alloc \<in> {heap_cream_malloc} \<Longrightarrow> allocator alloc (\<lambda>a s. snd (heap_cream_free a s)) cream_inv cream_objects mem reached"
    for alloc using cream.allocator_axioms by blast
qed (simp, rule cream_apart, assumption+, rule cream_size, assumption, simp add: cream_put)

section \<open>Properties\<close>

text \<open>C7: every sequence of steps of the clients of the kernel heap (requests of \<open>kmalloc\<close> and \<open>kzalloc\<close>, releases, stores into
  live pages) keeps the heap in order and is a sequence of steps of the abstract store of byte lists; an allocation that
  the sequence does not name stays live with its bytes.\<close>

theorem kheap_runs_refine:
  assumes "run (client_step {kmalloc, kzalloc} kfree kheap_live put_byte (\<lambda>_ _. True)) s es s'" and "kheap_inv s" and "holds kheap_live mem s m"
  shows "kheap_inv s' \<and> (\<exists>m'. run store_step m es m' \<and> holds kheap_live mem s' m') \<and>
    (\<forall>(b, k) \<in> kheap_live s. (\<forall>e \<in> set es. \<not> names e b) \<longrightarrow> (b, k) \<in> kheap_live s' \<and> bytes_at (mem s') b k = bytes_at (mem s) b k)"
  using kheap_store.runs_refine [OF assms] kheap_store.runs_keep [OF assms(1,2)] by blast

lemma kheap_runs_refine_witness:
  "\<exists>s' m' bs. run (client_step {kmalloc, kzalloc} kfree kheap_live put_byte (\<lambda>_ _. True)) (kheap_init zero_image)
      [Request 10 (page_addr 0), Put (page_addr 0) 5 7] s' \<and> holds kheap_live mem s' m' \<and> m' (page_addr 0) = Some bs \<and> bs ! 5 = 7"
proof -
  let ?s = "kheap_init zero_image" and ?a = "page_addr 0"
  let ?s1 = "snd (kmalloc 10 ?s)"
  let ?s' = "put_byte (?a + of_nat 5) 7 ?s1"
  have inv: "kheap_inv ?s" "kheap_live ?s = {}" by (simp_all add: kheap_live_def kheap_init_inv)
  have k: "kmalloc 10 ?s = (?a, ?s1)" using kmalloc_init [of 10 zero_image] by (simp add: pages_for_nat)
  have nz: "?a \<noteq> 0" by (rule page_addr_nz) (simp add: kheap_pages_def)
  obtain n where n: "10 \<le> n" "(?a, n) \<in> kheap_live ?s1" using kmalloc_contract(3) [OF inv(1) k nz] by auto
  let ?step = "client_step {kmalloc, kzalloc} kfree kheap_live put_byte (\<lambda>_ _. True)"
  have "?step ?s (Request 10 ?a) ?s1" by (rule client_step.request [where alloc = kmalloc, OF _ k]) simp
  moreover have "?step ?s1 (Put ?a 5 7) ?s'" by (rule client_step.change [where live = kheap_live, OF n(2)]) (use n(1) in simp)
  ultimately have r: "run ?step ?s [Request 10 ?a, Put ?a 5 7] ?s'" by auto
  have "holds kheap_live mem ?s (\<lambda>_. None)" by (rule holdsI) (simp_all add: inv(2))
  from kheap_runs_refine [OF r inv(1) this] obtain m' where
    m': "run store_step (\<lambda>_. None) [Request 10 ?a, Put ?a 5 7] m'" "holds kheap_live mem ?s' m'" by blast
  from m'(1) obtain bs where "m' ?a = Some bs" "bs ! 5 = 7" by (auto elim!: store_putE store_requestE)
  with r m'(2) show ?thesis by blast
qed

text \<open>C8: the same for the object heap, whatever the clients request and release: a release that reaches the object's page
  is a step \<open>Release\<close> of the store, one that does not (an empty slot lies before the page) is the step \<open>Lost\<close>, which leaves the
  object where it is.\<close>

theorem cream_runs_refine:
  assumes "run (client_step {heap_cream_malloc} (\<lambda>a s. snd (heap_cream_free a s)) cream_objects put_byte reached) s es s'"
    and "cream_inv s" and "holds cream_objects mem s m"
  shows "cream_inv s' \<and> (\<exists>m'. run store_step m es m' \<and> holds cream_objects mem s' m') \<and>
    (\<forall>(b, k) \<in> cream_objects s. (\<forall>e \<in> set es. \<not> names e b) \<longrightarrow> (b, k) \<in> cream_objects s' \<and> bytes_at (mem s') b k = bytes_at (mem s) b k)"
  using cream_store.runs_refine [OF assms] cream_store.runs_keep [OF assms(1,2)] by blast

lemma cream_runs_refine_witness:
  "\<exists>s' a. run (client_step {heap_cream_malloc} (\<lambda>a s. snd (heap_cream_free a s)) cream_objects put_byte reached) booted_cream
      [Request 64 a, Release a] s' \<and> a \<noteq> 0 \<and> cream_objects s' = {}"
proof -
  let ?a = "fst (heap_cream_malloc 64 booted_cream)" and ?s1 = "snd (heap_cream_malloc 64 booted_cream)"
  let ?s' = "snd (heap_cream_free ?a ?s1)"
  let ?step = "client_step {heap_cream_malloc} (\<lambda>a s. snd (heap_cream_free a s)) cream_objects put_byte reached"
  have nz: "?a \<noteq> 0" by (rule booted_cream_serves) (simp_all add: const_defs)
  have e: "cream_objects booted_cream = {}" using cream_live_eq [OF booted_cream_ok] by (simp add: cream_objects_def live_blocks_def)
  obtain n where n: "(?a, n) \<in> cream_objects ?s1" using heap_cream_malloc_contract(3) [OF booted_cream_inv prod.collapse [symmetric] nz] by auto
  have "?step booted_cream (Request 64 ?a) ?s1" by (rule client_step.request [where alloc = heap_cream_malloc]) simp_all
  moreover have "?step ?s1 (Release ?a) ?s'"
    using client_step.give_back [where release = "\<lambda>a s. snd (heap_cream_free a s)" and live = cream_objects
        and can_release = reached, OF n heap_cream_malloc_reached [OF booted_cream_inv prod.collapse [symmetric] nz]] .
  ultimately have r: "run ?step booted_cream [Request 64 ?a, Release ?a] ?s'" by auto
  have "holds cream_objects mem booted_cream (\<lambda>_. None)" by (rule holdsI) (simp_all add: e)
  from cream_runs_refine [OF r booted_cream_inv this] obtain m' where
    m': "run store_step (\<lambda>_. None) [Request 64 ?a, Release ?a] m'" "holds cream_objects mem ?s' m'" by blast
  from m'(1) have "m' = (\<lambda>_. None)" by (auto elim!: store_releaseE store_requestE)
  then have "cream_objects ?s' = {}" using holdsD(1) [OF m'(2)] by auto
  with r nz show ?thesis by blast
qed

end
