(* ===== verification/Paging.thy ===== *)
theory Paging
  imports Heap_Cream
begin

text \<open>
  \<open>src/kernel/paging/paging.c\<close> and the two assembly routines it calls: building the page directory
  that maps every address to itself, loading it, and changing one entry.  \<open>cr0\<close> and \<open>cr3\<close> are the
  control registers; \<open>translate\<close> is the two-level lookup of the i386 in the tables of the memory.
\<close>

record paging_state = cream_state +
  cur_dir_table :: addr
  cr0 :: u32
  cr3 :: u32
  interrupts :: bool

definition PAGING_PRESENT :: u32 where [const_defs]: "PAGING_PRESENT = 1"
definition READ_AND_WRITE :: u32 where [const_defs]: "READ_AND_WRITE = 2"
definition NO_DIR_ENTRIES :: nat where [const_defs]: "NO_DIR_ENTRIES = 1024"
definition NO_PAGE_ENTRIES :: nat where [const_defs]: "NO_PAGE_ENTRIES = 1024"
definition PAGE_BLOCK_SIZE :: u32 where [const_defs]: "PAGE_BLOCK_SIZE = 4096"

text \<open>The flags every entry gets.\<close>

definition entry_flags :: "u32 \<Rightarrow> u32" where
  "entry_flags flags = (flags AND 0xfff) OR READ_AND_WRITE OR PAGING_PRESENT"

text \<open>The inner loop: 1024 entries, \<open>offset\<close> running in steps of 0x1000.\<close>

definition fill_page_table :: "u32 \<Rightarrow> addr \<Rightarrow> u32 \<times> mem \<Rightarrow> u32 \<times> mem" where
  "fill_page_table flags page_index =
     fold (\<lambda>j (offset, m).
       (offset + 0x1000,
        st32 m (word_at page_index j) (offset OR (flags AND 0xfff) OR READ_AND_WRITE OR PAGING_PRESENT)))
       [0..<NO_PAGE_ENTRIES]"

text \<open>One round of the outer loop; the running value is \<open>offset\<close>.\<close>

definition dir_entry ::
  "u32 \<Rightarrow> addr \<Rightarrow> nat \<Rightarrow> u32 \<times> 'z kheap_state_scheme \<Rightarrow> u32 \<times> 'z kheap_state_scheme" where
  "dir_entry flags index i os =
     (case os of (offset, s) \<Rightarrow>
       case kzalloc (of_nat NO_PAGE_ENTRIES * 4) s of (index_val, s1) \<Rightarrow>
         if index_val = 0 then
           (let s2 = print (lit (''create32_dir_table,paging.c:kzalloc in dir table gave NULL'' @ [CHR 10])) s1
            in (offset, s2\<lparr>mem := st32 (mem s2) (word_at index i) 0\<rparr>))
         else if index_val AND 0xfff \<noteq> 0 then
           (let s2 = print (lit (''create32_dir_table,paging.c:kzalloc in dir table gave non aligned address'' @ [CHR 10])) s1
            in (offset, s2\<lparr>mem := st32 (mem s2) (word_at index i) 0\<rparr>))
         else
           (let m1 = st32 (mem s1) (word_at index i)
                  ((index_val AND 0xfffff000) OR (flags AND 0xfff) OR READ_AND_WRITE OR PAGING_PRESENT)
            in case fill_page_table flags index_val (offset, m1) of
                 (offset', m2) \<Rightarrow> (offset', s1\<lparr>mem := m2\<rparr>)))"

definition create_32_dir_table ::
  "u32 \<Rightarrow> 'z kheap_state_scheme \<Rightarrow> addr \<times> 'z kheap_state_scheme" where
  "create_32_dir_table flags s =
     (case kzalloc (of_nat NO_DIR_ENTRIES * 4) s of (rtn_val, s1) \<Rightarrow>
       if rtn_val = 0 then
         (0, print (lit ''create_32_dir_table,paging.c:page dir table was itself given NULL'') s1)
       else if rtn_val AND 0xfff \<noteq> 0 then
         (0, print (lit ''create_32_dir_table,paging.c:page dir table was itself given unaligned addr'') s1)
       else (rtn_val, snd (fold (dir_entry flags rtn_val) [0..<NO_DIR_ENTRIES] (0, s1))))"

text \<open>The assembly routines of \<open>enable_paging.asm\<close>; \<open>interrupts\<close> is the interrupt flag, which \<open>cli\<close> clears.\<close>

definition load_dir_table :: "addr \<Rightarrow> 'z paging_state_scheme \<Rightarrow> 'z paging_state_scheme" where
  "load_dir_table a s = s\<lparr>cr3 := a\<rparr>"

definition enable_paging_asm :: "'z paging_state_scheme \<Rightarrow> 'z paging_state_scheme" where
  "enable_paging_asm s = s\<lparr>interrupts := False, cr0 := cr0 s OR 0x80000000\<rparr>"

definition set_dir_table :: "addr \<Rightarrow> 'z paging_state_scheme \<Rightarrow> 'z paging_state_scheme" where
  "set_dir_table a s = (load_dir_table a s)\<lparr>cur_dir_table := a\<rparr>"

definition enable_paging :: "'z paging_state_scheme \<Rightarrow> 'z paging_state_scheme" where
  "enable_paging s = enable_paging_asm s"

text \<open>\<open>get_index_from_virt\<close> returns the error code and, on success, the two indices it stores.\<close>

definition get_index_from_virt :: "addr \<Rightarrow> int \<times> (u32 \<times> u32) option" where
  "get_index_from_virt va =
     (if va AND 0xfff \<noteq> 0 then (- GEN32_INVARG, None)
      else (0, Some (va div (of_nat NO_PAGE_ENTRIES * PAGE_BLOCK_SIZE),
                     (va mod (of_nat NO_PAGE_ENTRIES * PAGE_BLOCK_SIZE)) div PAGE_BLOCK_SIZE)))"

definition set_page_table_enrty :: "addr \<Rightarrow> addr \<Rightarrow> u32 \<Rightarrow> u32 \<Rightarrow> mem \<Rightarrow> int \<times> mem" where
  "set_page_table_enrty dir va set_val flags m =
     (case get_index_from_virt va of
       (_, None) \<Rightarrow> (- GEN32_INVARG, m)
     | (_, Some (di, pi)) \<Rightarrow>
         let pg_t = ld32 m (word_at dir (unat di)) AND 0xfffff000
         in (0, st32 m (word_at pg_t (unat pi)) (set_val OR flags)))"

section \<open>The address translation of the processor\<close>

definition translate :: "mem \<Rightarrow> addr \<Rightarrow> addr \<Rightarrow> addr option" where
  "translate m dir va =
     (let de = ld32 m (word_at (dir AND 0xfffff000) (unat (drop_bit 22 va)));
          pe = ld32 m (word_at (de AND 0xfffff000) (unat (drop_bit 12 va AND 0x3ff)))
      in if \<not> bit de 0 \<or> \<not> bit pe 0 then None
         else Some ((pe AND 0xfffff000) OR (va AND 0xfff)))"

lemma va_indices:
  "unat (drop_bit 22 va) < 1024" "unat (drop_bit 12 va AND 0x3ff) < 1024" for va :: u32
proof -
  have "unat va < 2 ^ 32" by (rule unat_lt_2p32)
  then show "unat (drop_bit 22 va) < 1024" by (simp add: drop_bit_eq_div unat_div)
  have "drop_bit 12 va AND 0x3ff = take_bit 10 (drop_bit 12 va)"
    by (simp add: take_bit_eq_mask mask_eq_exp_minus_1)
  then show "unat (drop_bit 12 va AND 0x3ff) < 1024"
    by (simp add: take_bit_eq_mod unat_mod)
qed

lemma page_addr_and: "p < kheap_pages \<Longrightarrow> page_addr p AND 0xfff = 0"
proof -
  assume "p < kheap_pages"
  then have "page_addr p mod 4096 = 0" by (rule page_addr_mod)
  moreover have "page_addr p AND 0xfff = take_bit 12 (page_addr p)"
    by (simp add: take_bit_eq_mask mask_eq_exp_minus_1)
  ultimately show ?thesis by (simp add: take_bit_eq_mod)
qed

lemma low_bits_0: "v AND 0xfff = 0 \<longleftrightarrow> (\<forall>n<12. \<not> bit v n)" for v :: u32
proof -
  have "v AND 0xfff = take_bit 12 v" by (simp add: take_bit_eq_mask mask_eq_exp_minus_1)
  then show ?thesis by (auto simp: bit_eq_iff bit_simps)
qed

text \<open>The masks, bit by bit (\<open>bit_simps\<close> takes numerals to the integers).\<close>

lemma bit_high: "bit (0xfffff000 :: int) n \<longleftrightarrow> 12 \<le> n \<and> n < 32"
proof -
  have e: "(0xfffff000 :: int) = push_bit 12 (mask 20)" by (simp add: mask_eq_exp_minus_1 push_bit_eq_mult)
  show ?thesis unfolding e by (auto simp: bit_simps)
qed

lemma bit_low: "bit (0xfff :: int) n \<longleftrightarrow> n < 12"
proof -
  have e: "(0xfff :: int) = mask 12" by (simp add: mask_eq_exp_minus_1)
  show ?thesis unfolding e by (auto simp: bit_simps)
qed

lemma bit_3: "bit (3 :: int) n \<longleftrightarrow> n < 2"
proof -
  have e: "(3 :: int) = mask 2" by (simp add: mask_eq_exp_minus_1)
  show ?thesis unfolding e by (auto simp: bit_simps)
qed

lemma entry_flags_high: "12 \<le> n \<Longrightarrow> \<not> bit (entry_flags flags) n"
  by (auto simp: entry_flags_def const_defs bit_simps bit_low bit_3)

lemma entry_present: "bit (x OR entry_flags flags) 0"
  by (simp add: entry_flags_def const_defs bit_simps)

lemma entry_address:
  assumes "v AND 0xfff = 0"
  shows "(v OR entry_flags flags) AND 0xfffff000 = v"
proof (rule bit_word_eqI)
  fix n assume "n < LENGTH(32)"
  then show "bit ((v OR entry_flags flags) AND 0xfffff000) n \<longleftrightarrow> bit v n"
    using assms by (cases "n < 12") (auto simp: low_bits_0 bit_simps bit_high entry_flags_high)
qed

lemma entry_or: "x OR (flags AND 0xfff) OR READ_AND_WRITE OR PAGING_PRESENT = x OR entry_flags flags"
  by (simp add: entry_flags_def or.assoc)

text \<open>An address is made of its two indices and its offset.\<close>

lemma va_split:
  fixes va :: u32
  defines "i \<equiv> unat (drop_bit 22 va)" and "j \<equiv> unat (drop_bit 12 va AND 0x3ff)"
  shows "of_nat (i * 1024 + j) * 0x1000 = va AND 0xfffff000"
proof -
  have j: "j = unat va div 4096 mod 1024"
  proof -
    have "drop_bit 12 va AND 0x3ff = take_bit 10 (drop_bit 12 va)"
      by (simp add: take_bit_eq_mask mask_eq_exp_minus_1)
    then show ?thesis by (simp add: j_def take_bit_eq_mod unat_mod drop_bit_eq_div unat_div)
  qed
  have i: "i = unat va div 4096 div 1024"
    by (simp add: i_def drop_bit_eq_div unat_div div_mult2_eq [symmetric])
  have "i * 1024 + j = unat va div 4096" by (simp add: i j)
  then have "of_nat (i * 1024 + j) * 0x1000 = (of_nat (unat va div 4096) :: u32) * 0x1000" by simp
  also have "\<dots> = push_bit 12 (drop_bit 12 va)"
  proof -
    have "of_nat (unat va div 4096) = drop_bit 12 va"
      by (rule unat_inj)
        (use unat_lt_2p32 [of va] in \<open>simp add: drop_bit_eq_div unat_div unat_of_nat take_bit_nat_eq_self\<close>)
    then show ?thesis by (simp add: push_bit_eq_mult)
  qed
  also have "\<dots> = va AND 0xfffff000"
    by (rule bit_word_eqI) (auto simp: bit_simps bit_high)
  finally show ?thesis .
qed

lemma page_entry:
  "((va AND 0xfffff000) OR entry_flags flags) AND 0xfffff000 OR (va AND 0xfff) = va" for va :: u32
  by (rule bit_word_eqI) (auto simp: bit_simps bit_high bit_low not_le dest: entry_flags_high)

section \<open>The tables are filled\<close>

lemma fill_page_table_eq:
  "fill_page_table flags a (off, m) = (off + of_nat 1024 * 0x1000,
     fold (\<lambda>j m. st32 m (word_at a j) ((off + of_nat j * 0x1000) OR entry_flags flags)) [0..<1024] m)"
proof -
  have "fold (\<lambda>j (off, m). (off + 0x1000, st32 m (word_at a j) (off OR (flags AND 0xfff) OR READ_AND_WRITE OR PAGING_PRESENT)))
      [0..<k] (off, m)
    = (off + of_nat k * 0x1000,
       fold (\<lambda>j m. st32 m (word_at a j) ((off + of_nat j * 0x1000) OR entry_flags flags)) [0..<k] m)" for k
    by (induction k) (simp_all add: entry_or algebra_simps)
  then show ?thesis by (simp only: fill_page_table_def NO_PAGE_ENTRIES_def)
qed

text \<open>
  \<open>mapped flags d P n m\<close>: entry \<open>i < n\<close> of the directory at \<open>d\<close> points to page \<open>P i\<close>, whose entry \<open>j\<close>
  maps page \<open>i * 1024 + j\<close> to itself.
\<close>

definition mapped :: "u32 \<Rightarrow> addr \<Rightarrow> (nat \<Rightarrow> nat) \<Rightarrow> nat \<Rightarrow> mem \<Rightarrow> bool" where
  "mapped flags d P n m \<longleftrightarrow>
     (\<forall>i<n. ld32 m (word_at d i) = page_addr (P i) OR entry_flags flags \<and>
       (\<forall>j<1024. ld32 m (word_at (page_addr (P i)) j)
          = (of_nat (i * 1024 + j) * 0x1000) OR entry_flags flags))"

text \<open>The pages in use: the directory \<open>pd\<close> and the page tables entered so far.\<close>

definition tables_ok :: "'z kheap_state_scheme \<Rightarrow> nat \<Rightarrow> (nat \<Rightarrow> nat) \<Rightarrow> nat \<Rightarrow> bool" where
  "tables_ok s pd P n \<longleftrightarrow> kheap_inv s \<and> (pd, 1) \<in> kheap_runs s \<and>
     (\<forall>i<n. (P i, 1) \<in> kheap_runs s \<and> P i \<noteq> pd) \<and> inj_on P {..<n}"

lemma kzalloc_page:
  assumes inv: "kheap_inv s" and free: "page_free s q0"
  obtains q s' where "kzalloc 4096 s = (page_addr q, s')" and "page_free s q" and "kheap_inv s'"
    and "kheap_runs s' = insert (q, 1) (kheap_runs s)" and "s' = s\<lparr>mem := mem s'\<rparr>"
    and "\<And>x. \<not> in_range KHEAP_TABLE kheap_pages x \<Longrightarrow> \<not> in_range (page_addr q) 4096 x \<Longrightarrow> mem s' x = mem s x"
proof -
  obtain a s' where z: "kzalloc 4096 s = (a, s')" by fastforce
  have p1: "pages_for 4096 = 1" by (simp add: pages_for_nat)
  have "a \<noteq> 0"
    using kzalloc_NullD(1) [of s 4096 s'] kheap_find_some [OF assms] z inv by (auto simp: p1 kheap_inv_def)
  obtain q where q: "a = page_addr q" "new_run 4096 s q s'"
    and out: "\<And>x. \<not> in_range KHEAP_TABLE kheap_pages x \<Longrightarrow> \<not> in_range a (unat (4096 :: u32)) x \<Longrightarrow> mem s' x = mem s x"
    by (rule kzalloc_new_run [OF inv z \<open>a \<noteq> 0\<close>]) blast
  have r: "q + 1 \<le> kheap_pages" "kheap_inv s'" "kheap_runs s' = insert (q, 1) (kheap_runs s)"
    "\<And>j n. (j, n) \<in> kheap_runs s \<Longrightarrow> q + 1 \<le> j \<or> j + n \<le> q" "s' = s\<lparr>mem := mem s'\<rparr>"
    using q(2) by (auto simp: new_run_def p1)
  have f: "page_free s q" unfolding page_free_def using r(1,4) by fastforce
  show thesis by (rule that [OF z [unfolded q(1)] f r(2,3,5)]) (use out q(1) in auto)
qed

lemma page_frees_insert:
  "kheap_runs s' = insert (q, 1) (kheap_runs s) \<Longrightarrow> {p. page_free s' p} = {p. page_free s p} - {q}"
  by (auto simp: page_free_def)

lemma page_frees_finite: "finite {p. page_free s p}"
  by (rule finite_subset [of _ "{..<kheap_pages}"]) (auto simp: page_free_def)

lemma mapped_extend:
  assumes "mapped flags d P n m" and "n < 1024"
    and dir: "\<And>i. i < 1024 \<Longrightarrow> ld32 m' (word_at d i) = (if i = n then page_addr q OR entry_flags flags else ld32 m (word_at d i))"
    and old: "\<And>i j. i < n \<Longrightarrow> j < 1024 \<Longrightarrow> ld32 m' (word_at (page_addr (P i)) j) = ld32 m (word_at (page_addr (P i)) j)"
    and fresh: "\<And>j. j < 1024 \<Longrightarrow> ld32 m' (word_at (page_addr q) j) = (of_nat (n * 1024 + j) * 0x1000) OR entry_flags flags"
  shows "mapped flags d (P(n := q)) (Suc n) m'"
  unfolding mapped_def
proof (intro allI impI conjI)
  fix i assume i: "i < Suc n"
  show "ld32 m' (word_at d i) = page_addr ((P(n := q)) i) OR entry_flags flags"
    using dir [of i] i assms(1,2) by (cases "i = n") (auto simp: mapped_def)
  fix j :: nat assume j: "j < 1024"
  show "ld32 m' (word_at (page_addr ((P(n := q)) i)) j) = (of_nat (i * 1024 + j) * 0x1000) OR entry_flags flags"
    using fresh [OF j] old [of i j] i j assms(1) by (cases "i = n") (auto simp: mapped_def)
qed

lemma tables_extend:
  assumes ok: "tables_ok s pd P n" and "kheap_inv s'" and "kheap_runs s' = insert (q, 1) (kheap_runs s)"
    and new: "\<And>p. (p, 1) \<in> kheap_runs s \<Longrightarrow> p \<noteq> q"
  shows "tables_ok s' pd (P(n := q)) (Suc n)"
proof -
  have P: "(P i, 1) \<in> kheap_runs s \<and> P i \<noteq> pd \<and> P i \<noteq> q" if "i < n" for i using ok new that by (auto simp: tables_ok_def)
  have "inj_on (P(n := q)) {..<n}"
    using ok P by (intro inj_on_fun_updI) (auto simp: tables_ok_def)
  moreover have "(P(n := q)) n \<notin> (P(n := q)) ` {..<n}" using P by auto
  ultimately have "inj_on (P(n := q)) {..<Suc n}" unfolding lessThan_Suc by (subst inj_on_insert) auto
  then show ?thesis using ok assms(2,3) P new by (auto simp: tables_ok_def less_Suc_eq)
qed

text \<open>One round of the outer loop, with a free page left.\<close>

lemma dir_entry_step:
  assumes ok: "tables_ok s pd P n" and map: "mapped flags (page_addr pd) P n (mem s)"
    and n: "n < 1024" and free: "page_free s q0"
  obtains q s' where
    "dir_entry flags (page_addr pd) n (of_nat (n * 1024) * 0x1000, s) = (of_nat (Suc n * 1024) * 0x1000, s')"
    and "tables_ok s' pd (P(n := q)) (Suc n)" and "mapped flags (page_addr pd) (P(n := q)) (Suc n) (mem s')"
    and "{p. page_free s' p} = {p. page_free s p} - {q}" and "page_free s q" and "s' = s\<lparr>mem := mem s'\<rparr>"
    and "\<And>x. \<not> in_range KHEAP_TABLE kheap_pages x \<Longrightarrow> \<not> in_range (page_addr q) 4096 x \<Longrightarrow>
      \<not> in_range (page_addr pd) 4096 x \<Longrightarrow> mem s' x = mem s x"
proof -
  let ?d = "page_addr pd" and ?off = "of_nat (n * 1024) * 0x1000 :: u32"
  have inv: "kheap_inv s" using ok by (simp add: tables_ok_def)
  obtain q s1 where z: "kzalloc 4096 s = (page_addr q, s1)" and q: "page_free s q"
    and inv1: "kheap_inv s1" and runs1: "kheap_runs s1 = insert (q, 1) (kheap_runs s)"
    and s1: "s1 = s\<lparr>mem := mem s1\<rparr>"
    and out1: "\<And>x. \<not> in_range KHEAP_TABLE kheap_pages x \<Longrightarrow> \<not> in_range (page_addr q) 4096 x \<Longrightarrow> mem s1 x = mem s x"
    by (rule kzalloc_page [OF inv free]) blast
  have qb: "q < kheap_pages" using q by (simp add: page_free_def)
  have new: "(p, 1) \<in> kheap_runs s \<Longrightarrow> p \<noteq> q" for p using not_page_free q by blast
  have pd: "(pd, 1) \<in> kheap_runs s" "pd < kheap_pages" "pd \<noteq> q"
    using ok run_page(1) [of pd s] new by (auto simp: tables_ok_def)
  have Pi: "(P i, 1) \<in> kheap_runs s" "P i < kheap_pages" "P i \<noteq> q" "P i \<noteq> pd" if "i < n" for i
    using ok run_page(1) [of "P i" s] new that by (auto simp: tables_ok_def)
  let ?m1 = "st32 (mem s1) (word_at ?d n) (page_addr q OR entry_flags flags)"
  let ?m2 = "fold (\<lambda>j m. st32 m (word_at (page_addr q) j) ((?off + of_nat j * 0x1000) OR entry_flags flags)) [0..<1024] ?m1"
  let ?s' = "s1\<lparr>mem := ?m2\<rparr>"
  have nz: "page_addr q \<noteq> 0" and al: "page_addr q AND 0xfff = 0"
    using page_addr_nz page_addr_and qb by auto
  have hi: "page_addr q AND 0xfffff000 = page_addr q"
    using al by (intro bit_word_eqI) (auto simp: low_bits_0 bit_simps bit_high intro: leI)
  have step: "dir_entry flags ?d n (?off, s) = (of_nat (Suc n * 1024) * 0x1000, ?s')"
    using z by (simp add: dir_entry_def NO_PAGE_ENTRIES_def nz al hi Let_def fill_page_table_eq entry_or algebra_simps
        del: upt_rec_numeral)
  have out_d: "?m1 x = mem s1 x" if "\<not> in_range ?d 4096 x" for x
    using that n st32_word_at_out [of ?d 1024 x n] by simp
  have out_q: "?m2 x = ?m1 x" if "\<not> in_range (page_addr q) 4096 x" for x
    using that fill_words_out [of 1024 1024 "page_addr q" x] by (simp del: upt_rec_numeral)
  have frame: "mem ?s' x = mem s x"
    if "\<not> in_range KHEAP_TABLE kheap_pages x" "\<not> in_range (page_addr q) 4096 x" "\<not> in_range ?d 4096 x" for x
    using out1 out_d out_q that by simp
  have apart_q: "\<not> in_range (page_addr q) 4096 x" if "in_range (page_addr p) 4096 x" "p < kheap_pages" "p \<noteq> q" for p x
    using pages_apart [of p q 4096 4096] that qb by (auto simp: ranges_disjoint_def)
  have apart_d: "\<not> in_range ?d 4096 x" if "in_range (page_addr p) 4096 x" "p < kheap_pages" "p \<noteq> pd" for p x
    using pages_apart [of p pd 4096 4096] that pd(2) by (auto simp: ranges_disjoint_def)
  have apart_t: "\<not> in_range KHEAP_TABLE kheap_pages x" if "in_range (page_addr p) 4096 x" "p < kheap_pages" for p x
    using table_apart [of p 4096] that by (auto simp: ranges_disjoint_def)
  have tbl: "kheap_tbl ?s' = kheap_tbl s1"
  proof (rule kheap_tbl_frame)
    fix x assume "in_range KHEAP_TABLE kheap_pages x"
    then have "\<not> in_range ?d 4096 x" "\<not> in_range (page_addr q) 4096 x" using apart_t pd(2) qb by blast+
    then show "mem ?s' x = mem s1 x" using out_d out_q by simp
  qed
  have inv': "kheap_inv ?s'" "kheap_runs ?s' = insert (q, 1) (kheap_runs s)"
    using kheap_inv_frame [OF inv1 _ tbl] runs1 by simp_all
  note tables = tables_extend [OF ok inv' new]
  have dir: "ld32 ?m2 (word_at ?d i) = (if i = n then page_addr q OR entry_flags flags else ld32 (mem s) (word_at ?d i))"
    if "i < 1024" for i
  proof -
    have "ld32 ?m2 (word_at ?d i) = ld32 ?m1 (word_at ?d i)"
      by (rule ld32_word_at_cong [of ?d 1024]) (use that out_q apart_q [OF _ pd(2,3)] in auto)
    also have "\<dots> = (if i = n then page_addr q OR entry_flags flags else ld32 (mem s1) (word_at ?d i))"
      using ld32_word_at [of n 1024 i] n that by auto
    also have "ld32 (mem s1) (word_at ?d i) = ld32 (mem s) (word_at ?d i)"
      by (rule ld32_word_at_cong [of ?d 1024]) (use that out1 apart_q [OF _ pd(2,3)] apart_t [OF _ pd(2)] in auto)
    finally show ?thesis .
  qed
  have old: "ld32 ?m2 (word_at (page_addr (P i)) j) = ld32 (mem s) (word_at (page_addr (P i)) j)"
    if "i < n" "j < 1024" for i j
    by (rule ld32_word_at_cong [of "page_addr (P i)" 1024])
      (use that frame apart_q [OF _ Pi(2,3)] apart_d [OF _ Pi(2,4)] apart_t [OF _ Pi(2)] in \<open>auto simp del: upt_rec_numeral\<close>)
  have fresh: "ld32 ?m2 (word_at (page_addr q) j) = (of_nat (n * 1024 + j) * 0x1000) OR entry_flags flags" if "j < 1024" for j
    using fill_words [of 1024 1024 j "page_addr q"] that by (simp add: algebra_simps del: upt_rec_numeral)
  have "mapped flags ?d (P(n := q)) (Suc n) ?m2"
    by (rule mapped_extend [OF map n dir old fresh]; assumption)
  moreover have "?s' = s\<lparr>mem := mem ?s'\<rparr>"
    by (subst s1) simp
  ultimately show thesis
    using that [OF step tables] page_frees_insert [OF inv'(2)] q frame by simp
qed

definition free_count :: "'z kheap_state_scheme \<Rightarrow> nat" where
  "free_count s = card {q. page_free s q}"

lemma free_count_pos: "1 \<le> free_count s \<Longrightarrow> \<exists>q. page_free s q"
  by (rule ccontr) (simp add: free_count_def)

lemma free_count_remove:
  assumes "{p. page_free s' p} = {p. page_free s p} - {q}" and "page_free s q"
  shows "free_count s' = free_count s - 1"
  using assms(2) page_frees_finite [of s] unfolding free_count_def assms(1) by simp

text \<open>\<open>only_taken d s s'\<close>: between the states only the block table, page \<open>d\<close> and pages that were taken have changed.\<close>

definition only_taken :: "addr set \<Rightarrow> 'z kheap_state_scheme \<Rightarrow> 'z kheap_state_scheme \<Rightarrow> bool" where
  "only_taken D s s' \<longleftrightarrow> {q. page_free s' q} \<subseteq> {q. page_free s q} \<and>
     (\<forall>x. \<not> in_range KHEAP_TABLE kheap_pages x \<longrightarrow> x \<notin> D \<longrightarrow>
        (\<forall>q. page_free s q \<longrightarrow> \<not> page_free s' q \<longrightarrow> \<not> in_range (page_addr q) 4096 x) \<longrightarrow> mem s' x = mem s x)"

lemma only_taken_trans: "only_taken D s s' \<Longrightarrow> only_taken D s' s'' \<Longrightarrow> only_taken D s s''"
  unfolding only_taken_def by (intro conjI allI impI) (blast, metis Collect_mono_iff)

lemma only_takenI:
  "{p. page_free s' p} = {p. page_free s p} - {q} \<Longrightarrow> page_free s q \<Longrightarrow>
    (\<And>x. \<not> in_range KHEAP_TABLE kheap_pages x \<Longrightarrow> \<not> in_range (page_addr q) 4096 x \<Longrightarrow> x \<notin> D \<Longrightarrow> mem s' x = mem s x) \<Longrightarrow>
    only_taken D s s'"
  unfolding only_taken_def by blast

lemma dir_entries:
  assumes "tables_ok s pd P 0" and "n \<le> 1024" and "n \<le> free_count s"
  shows "\<exists>P s'. fold (dir_entry flags (page_addr pd)) [0..<n] (0, s) = (of_nat (n * 1024) * 0x1000, s') \<and>
    tables_ok s' pd P n \<and> mapped flags (page_addr pd) P n (mem s') \<and>
    free_count s' = free_count s - n \<and> s' = s\<lparr>mem := mem s'\<rparr> \<and> only_taken {x. in_range (page_addr pd) 4096 x} s s'"
  using assms(2,3)
proof (induction n)
  case 0
  have "tables_ok s pd P 0" "mapped flags (page_addr pd) P 0 (mem s)" "only_taken {x. in_range (page_addr pd) 4096 x} s s" for P
    using assms(1) by (simp_all add: tables_ok_def mapped_def only_taken_def)
  then show ?case by auto
next
  case (Suc n)
  then obtain P s1 where IH: "fold (dir_entry flags (page_addr pd)) [0..<n] (0, s) = (of_nat (n * 1024) * 0x1000, s1)"
    "tables_ok s1 pd P n" "mapped flags (page_addr pd) P n (mem s1)"
    "free_count s1 = free_count s - n" "s1 = s\<lparr>mem := mem s1\<rparr>" "only_taken {x. in_range (page_addr pd) 4096 x} s s1"
    by auto
  then have "1 \<le> free_count s1" using Suc.prems by linarith
  then obtain q0 where q0: "page_free s1 q0" using free_count_pos [of s1] by auto
  obtain q s2 where step: "dir_entry flags (page_addr pd) n (of_nat (n * 1024) * 0x1000, s1)
        = (of_nat (Suc n * 1024) * 0x1000, s2)"
    "tables_ok s2 pd (P(n := q)) (Suc n)" "mapped flags (page_addr pd) (P(n := q)) (Suc n) (mem s2)"
    "{p. page_free s2 p} = {p. page_free s1 p} - {q}" "page_free s1 q" "s2 = s1\<lparr>mem := mem s2\<rparr>"
    and out: "\<And>x. \<not> in_range KHEAP_TABLE kheap_pages x \<Longrightarrow> \<not> in_range (page_addr q) 4096 x \<Longrightarrow>
      \<not> in_range (page_addr pd) 4096 x \<Longrightarrow> mem s2 x = mem s1 x"
    by (rule dir_entry_step [OF IH(2,3) _ q0]) (use Suc.prems in auto)
  have "free_count s2 = free_count s - Suc n"
    using free_count_remove [OF step(4,5)] IH(4) by simp
  moreover have "s2 = s\<lparr>mem := mem s2\<rparr>" using step(6) IH(5) by (metis (no_types) machine.surjective machine.update_convs(1))
  moreover have "only_taken {x. in_range (page_addr pd) 4096 x} s1 s2" by (rule only_takenI [OF step(4,5)]) (simp add: out)
  ultimately show ?case using IH(1) step(1-3) only_taken_trans [OF IH(6)] by auto
qed

text \<open>
  The directory maps every address to itself when a page is free for it and for each of its 1024 tables.
\<close>

lemma mapped_translate:
  assumes "mapped flags (page_addr pd) P 1024 m" and "pd < kheap_pages" and "\<And>i. i < 1024 \<Longrightarrow> P i < kheap_pages"
  shows "translate m (page_addr pd) va = Some va"
proof -
  let ?i = "unat (drop_bit 22 va)" and ?j = "unat (drop_bit 12 va AND 0x3ff)"
  have dir: "page_addr p AND 0xfffff000 = page_addr p" if "p < kheap_pages" for p
    using page_addr_and [OF that] by (intro bit_word_eqI) (auto simp: low_bits_0 bit_simps bit_high intro: leI)
  have de: "ld32 m (word_at (page_addr pd) ?i) = page_addr (P ?i) OR entry_flags flags"
    and pe: "ld32 m (word_at (page_addr (P ?i)) ?j) = (va AND 0xfffff000) OR entry_flags flags"
    using assms(1) va_indices [of va] va_split [of va] by (auto simp: mapped_def)
  have pt: "(page_addr (P ?i) OR entry_flags flags) AND 0xfffff000 = page_addr (P ?i)"
    using assms(3) va_indices(1) page_addr_and by (intro entry_address) auto
  have "translate m (page_addr pd) va = Some (((va AND 0xfffff000) OR entry_flags flags) AND 0xfffff000 OR (va AND 0xfff))"
    unfolding translate_def Let_def dir [OF assms(2)] de pt pe by (simp add: entry_present)
  then show ?thesis by (simp only: page_entry)
qed

lemma create_32_dir_table_ok:
  assumes inv: "kheap_inv s" and free: "1025 \<le> free_count s"
  obtains pd P s' where "create_32_dir_table flags s = (page_addr pd, s')" and "tables_ok s' pd P 1024"
    and "mapped flags (page_addr pd) P 1024 (mem s')" and "s' = s\<lparr>mem := mem s'\<rparr>"
    and "free_count s' = free_count s - 1025" and "only_taken {} s s'"
proof -
  obtain q0 where q0: "page_free s q0" using free_count_pos [of s] free by auto
  obtain pd s1 where z: "kzalloc 4096 s = (page_addr pd, s1)" and q: "page_free s pd"
    and inv1: "kheap_inv s1" and runs1: "kheap_runs s1 = insert (pd, 1) (kheap_runs s)"
    and s1: "s1 = s\<lparr>mem := mem s1\<rparr>"
    and out: "\<And>x. \<not> in_range KHEAP_TABLE kheap_pages x \<Longrightarrow> \<not> in_range (page_addr pd) 4096 x \<Longrightarrow> mem s1 x = mem s x"
    by (rule kzalloc_page [OF inv q0]) blast
  have pb: "pd < kheap_pages" using q by (simp add: page_free_def)
  have ok: "tables_ok s1 pd id 0" using inv1 runs1 by (simp add: tables_ok_def)
  have c: "free_count s1 = free_count s - 1"
    by (rule free_count_remove [OF page_frees_insert [OF runs1] q])
  then have "1024 \<le> free_count s1" using free by linarith
  then obtain P s' where f: "fold (dir_entry flags (page_addr pd)) [0..<1024] (0, s1) = (of_nat (1024 * 1024) * 0x1000, s')"
    and s': "tables_ok s' pd P 1024" "mapped flags (page_addr pd) P 1024 (mem s')"
      "free_count s' = free_count s1 - 1024" "s' = s1\<lparr>mem := mem s'\<rparr>" "only_taken {x. in_range (page_addr pd) 4096 x} s1 s'"
    using dir_entries [OF ok, of 1024 flags] by (auto simp del: upt_rec_numeral of_nat_mult)
  have "create_32_dir_table flags s = (page_addr pd, s')"
    using z f page_addr_nz [OF pb] page_addr_and [OF pb]
    by (simp add: create_32_dir_table_def NO_DIR_ENTRIES_def del: upt_rec_numeral)
  moreover have "s' = s\<lparr>mem := mem s'\<rparr>" using s'(4) s1 by (metis (no_types) machine.surjective machine.update_convs(1))
  moreover have "only_taken {} s s'"
  proof -
    have f1: "{q. page_free s1 q} = {q. page_free s q} - {pd}" by (rule page_frees_insert [OF runs1])
    then have np: "\<not> page_free s' pd" using s'(5) by (auto simp: only_taken_def)
    have "only_taken {x. in_range (page_addr pd) 4096 x} s s1" by (rule only_takenI [OF f1 q]) (simp add: out)
    from only_taken_trans [OF this s'(5)] show ?thesis using q np unfolding only_taken_def by blast
  qed
  ultimately show thesis using that s' c by simp
qed

text \<open>Right after start-up the heap has 25600 free pages.\<close>

lemma free_count_init: "free_count (kheap_init s) = 25600"
proof -
  have "{q. page_free (kheap_init s) q} = {..<kheap_pages}"
    by (auto simp: page_free_def kheap_init_inv)
  then show ?thesis by (simp add: free_count_def kheap_pages_def)
qed

section \<open>Changing one entry\<close>

lemma index_high: "unat (va div (of_nat NO_PAGE_ENTRIES * PAGE_BLOCK_SIZE)) = unat (drop_bit 22 va)" for va :: u32
  by (simp add: const_defs unat_div drop_bit_eq_div)

lemma index_low:
  "unat ((va mod (of_nat NO_PAGE_ENTRIES * PAGE_BLOCK_SIZE)) div PAGE_BLOCK_SIZE) = unat (drop_bit 12 va AND 0x3ff)"
  for va :: u32
proof -
  have "unat va mod 4194304 div 4096 = unat va div 4096 mod 1024"
    using mod_mult2_eq [of "unat va" 4096 1024] by simp
  moreover have "drop_bit 12 va AND 0x3ff = take_bit 10 (drop_bit 12 va)"
    by (simp add: take_bit_eq_mask mask_eq_exp_minus_1)
  ultimately show ?thesis
    by (simp add: const_defs unat_div unat_mod take_bit_eq_mod drop_bit_eq_div)
qed

lemma same_indices:
  fixes va x :: u32
  assumes "va AND 0xfff = 0"
  shows "drop_bit 22 x = drop_bit 22 va \<and> drop_bit 12 x AND 0x3ff = drop_bit 12 va AND 0x3ff \<longleftrightarrow>
    x AND 0xfffff000 = va"
proof
  have va: "va AND 0xfffff000 = va"
    using assms by (intro bit_word_eqI) (auto simp: low_bits_0 bit_simps bit_high intro: leI)
  {
    assume "drop_bit 22 x = drop_bit 22 va \<and> drop_bit 12 x AND 0x3ff = drop_bit 12 va AND 0x3ff"
    then have "x AND 0xfffff000 = va AND 0xfffff000" using va_split [of x] va_split [of va] by simp
    then show "x AND 0xfffff000 = va" by (simp add: va)
  next
    assume e: "x AND 0xfffff000 = va"
    have "bit va n \<longleftrightarrow> bit x n" if "12 \<le> n" for n
      using that by (auto simp: e [symmetric] bit_simps bit_high dest: bit_imp_le_length)
    then show "drop_bit 22 x = drop_bit 22 va \<and> drop_bit 12 x AND 0x3ff = drop_bit 12 va AND 0x3ff"
      by (auto intro!: bit_word_eqI simp: bit_simps)
  }
qed

lemma set_page_table_enrty_translate:
  assumes ok: "tables_ok s pd P 1024" and map: "mapped flags (page_addr pd) P 1024 m"
    and va: "va AND 0xfff = 0" and set: "set_page_table_enrty (page_addr pd) va val fl m = (r, m')"
  shows "r = 0" and "translate m' (page_addr pd) x =
    (if x AND 0xfffff000 = va
     then if bit (val OR fl) 0 then Some (((val OR fl) AND 0xfffff000) OR (x AND 0xfff)) else None
     else Some x)"
proof -
  have pd: "pd < kheap_pages" using ok run_page(1) by (auto simp: tables_ok_def)
  have P: "P i < kheap_pages" "P i \<noteq> pd" if "i < 1024" for i
    using ok run_page(1) that by (auto simp: tables_ok_def)
  let ?i = "\<lambda>x :: u32. unat (drop_bit 22 x)" and ?j = "\<lambda>x :: u32. unat (drop_bit 12 x AND 0x3ff)"
  note ib = va_indices
  have align: "page_addr p AND 0xfffff000 = page_addr p" if "p < kheap_pages" for p
    using page_addr_and [OF that] by (intro bit_word_eqI) (auto simp: low_bits_0 bit_simps bit_high intro: leI)
  have pt: "(page_addr (P i) OR entry_flags flags) AND 0xfffff000 = page_addr (P i)" if "i < 1024" for i
    using page_addr_and [OF P(1) [OF that]] by (rule entry_address)
  have "ld32 m (word_at (page_addr pd) (?i va)) AND 0xfffff000 = page_addr (P (?i va))"
    using map ib(1) pt by (simp add: mapped_def)
  then have m': "r = 0" "m' = st32 m (word_at (page_addr (P (?i va))) (?j va)) (val OR fl)"
    using set va by (simp_all add: set_page_table_enrty_def get_index_from_virt_def index_high index_low)
  show "r = 0" by (rule m')
  have de: "ld32 m' (word_at (page_addr pd) (?i x)) = page_addr (P (?i x)) OR entry_flags flags"
  proof -
    have "ld32 m' (word_at (page_addr pd) (?i x)) = ld32 m (word_at (page_addr pd) (?i x))"
    proof (rule ld32_word_at_cong [of _ 1024])
      fix y assume "in_range (page_addr pd) (4 * 1024) y"
      then have "\<not> in_range (page_addr (P (?i va))) (4 * 1024) y"
        using pages_apart [of "P (?i va)" pd 4096 4096] P [OF ib(1)] pd by (auto simp: ranges_disjoint_def)
      then show "m' y = m y" unfolding m'(2) by (rule st32_word_at_out) (use ib(2) in auto)
    qed (use ib(1) in auto)
    then show ?thesis using map ib(1) by (simp add: mapped_def)
  qed
  have pe: "ld32 m' (word_at (page_addr (P (?i x))) (?j x)) =
      (if x AND 0xfffff000 = va then val OR fl else (x AND 0xfffff000) OR entry_flags flags)"
  proof (cases "?i x = ?i va")
    case True
    have "ld32 m' (word_at (page_addr (P (?i x))) (?j x)) =
        (if ?j va = ?j x then val OR fl else ld32 m (word_at (page_addr (P (?i x))) (?j x)))"
      unfolding m'(2) True by (rule ld32_word_at [of _ 1024]) (use ib(2) in auto)
    moreover have "?j va = ?j x \<longleftrightarrow> x AND 0xfffff000 = va"
      using same_indices [OF va, of x] True unat_inj by auto
    moreover have "ld32 m (word_at (page_addr (P (?i x))) (?j x)) = (x AND 0xfffff000) OR entry_flags flags"
      using map ib [of x] va_split [of x] by (simp add: mapped_def)
    ultimately show ?thesis by simp
  next
    case False
    then have "P (?i x) \<noteq> P (?i va)"
      using ok ib(1) [of x] ib(1) [of va] by (auto simp: tables_ok_def dest: inj_onD)
    then have ap: "ranges_disjoint (page_addr (P (?i va))) 4096 (page_addr (P (?i x))) 4096"
      using P(1) ib(1) by (intro pages_apart) auto
    have "ld32 m' (word_at (page_addr (P (?i x))) (?j x)) = ld32 m (word_at (page_addr (P (?i x))) (?j x))"
    proof (rule ld32_word_at_cong [of _ 1024])
      fix y assume "in_range (page_addr (P (?i x))) (4 * 1024) y"
      then have "\<not> in_range (page_addr (P (?i va))) (4 * 1024) y"
        using ap by (auto simp: ranges_disjoint_def)
      then show "m' y = m y" unfolding m'(2) by (rule st32_word_at_out) (use ib(2) in auto)
    qed (use ib(2) in auto)
    moreover have "x AND 0xfffff000 \<noteq> va" using same_indices [OF va, of x] False by metis
    moreover have "ld32 m (word_at (page_addr (P (?i x))) (?j x)) = (x AND 0xfffff000) OR entry_flags flags"
      using map ib [of x] va_split [of x] by (simp add: mapped_def)
    ultimately show ?thesis by simp
  qed
  show "translate m' (page_addr pd) x = (if x AND 0xfffff000 = va
     then if bit (val OR fl) 0 then Some (((val OR fl) AND 0xfffff000) OR (x AND 0xfff)) else None
     else Some x)"
    unfolding translate_def Let_def align [OF pd] de pt [OF ib(1)] pe
    by (simp add: entry_present page_entry)
qed

section \<open>Properties\<close>

text \<open>C9: With 1025 free pages \<open>create_32_dir_table\<close> succeeds, keeps the heap's invariant, takes exactly
  those pages, and the directory it returns translates every one of the 2^32 addresses to itself.\<close>

theorem paging_identity:
  assumes "kheap_inv s" and "1025 \<le> free_count s" and "create_32_dir_table flags s = (d, s')"
  shows "d \<noteq> 0 \<and> kheap_inv s' \<and> free_count s' = free_count s - 1025 \<and> s' = s\<lparr>mem := mem s'\<rparr> \<and>
    (\<forall>va. translate (mem s') d va = Some va)"
proof -
  obtain pd P where d: "d = page_addr pd" and ok: "tables_ok s' pd P 1024"
    and map: "mapped flags (page_addr pd) P 1024 (mem s')"
    and rest: "s' = s\<lparr>mem := mem s'\<rparr>" "free_count s' = free_count s - 1025"
    by (rule create_32_dir_table_ok [OF assms(1,2), of flags]) (use assms(3) in simp)
  have pb: "pd < kheap_pages" "\<And>i. i < 1024 \<Longrightarrow> P i < kheap_pages"
    using ok run_page(1) by (auto simp: tables_ok_def)
  have "translate (mem s') d va = Some va" for va
    unfolding d by (rule mapped_translate [OF map pb])
  moreover have "kheap_inv s'" "d \<noteq> 0"
    using ok d page_addr_nz [OF pb(1)] by (simp_all add: tables_ok_def)
  ultimately show ?thesis using rest by blast
qed

lemma paging_identity_witness:
  "translate (mem (snd (create_32_dir_table 3 (kheap_init zero_image))))
     (fst (create_32_dir_table 3 (kheap_init zero_image))) 0xb8000 = Some 0xb8000"
  using paging_identity [of "kheap_init zero_image" 3 "fst (create_32_dir_table 3 (kheap_init zero_image))"
      "snd (create_32_dir_table 3 (kheap_init zero_image))"]
  by (simp add: kheap_init_inv free_count_init)

text \<open>C10: In the directory of \<open>create_32_dir_table\<close>, \<open>set_page_table_enrty\<close> of an aligned address
  redirects exactly the addresses of that page, to the frame of the new entry (or to nothing when it is
  not marked present); every other address keeps its translation.  An unaligned address is refused
  without a store.\<close>

theorem set_entry_redirects_one_page:
  assumes "kheap_inv s" and "1025 \<le> free_count s" and "create_32_dir_table flags s = (d, s')"
    and "set_page_table_enrty d va val fl (mem s') = (r, m')"
  shows "if va AND 0xfff \<noteq> 0 then r = - GEN32_INVARG \<and> m' = mem s'
    else r = 0 \<and> (\<forall>x. translate m' d x =
      (if x AND 0xfffff000 = va
       then if bit (val OR fl) 0 then Some (((val OR fl) AND 0xfffff000) OR (x AND 0xfff)) else None
       else Some x))"
proof -
  obtain pd P where d: "d = page_addr pd" and ok: "tables_ok s' pd P 1024"
    and map: "mapped flags (page_addr pd) P 1024 (mem s')"
    by (rule create_32_dir_table_ok [OF assms(1,2), of flags]) (use assms(3) in simp)
  show ?thesis
  proof (cases "va AND 0xfff = 0")
    case True
    note res = set_page_table_enrty_translate [OF ok map True assms(4) [unfolded d]]
    have "\<forall>x. translate m' d x =
      (if x AND 0xfffff000 = va
       then if bit (val OR fl) 0 then Some (((val OR fl) AND 0xfffff000) OR (x AND 0xfff)) else None
       else Some x)"
      unfolding d by (intro allI res(2))
    then show ?thesis using True res(1) by (simp only: if_False simp_thms)
  next
    case False
    then show ?thesis using assms(4) by (simp add: set_page_table_enrty_def get_index_from_virt_def)
  qed
qed

lemma set_entry_redirects_one_page_witness:
  "translate (snd (set_page_table_enrty (fst (create_32_dir_table 3 (kheap_init zero_image))) 0x5000 0x9000 1
      (mem (snd (create_32_dir_table 3 (kheap_init zero_image))))))
    (fst (create_32_dir_table 3 (kheap_init zero_image))) 0x5123 = Some 0x9123"
  using set_entry_redirects_one_page [of "kheap_init zero_image" 3 "fst (create_32_dir_table 3 (kheap_init zero_image))"
      "snd (create_32_dir_table 3 (kheap_init zero_image))" "0x5000" "0x9000" 1, OF _ _ _ prod.collapse [symmetric]]
  by (simp add: kheap_init_inv free_count_init)

end
