(* ===== verification/Idt.thy ===== *)
theory Idt
  imports Paging
begin

text \<open>
  \<open>src/kernel/idt/idt.c\<close>: the interrupt descriptor table, 512 packed 8-byte gates in memory, and the
  register the processor finds it through.  The addresses of the two globals and of the four
  handlers (assembly labels, chosen by the linker) are parameters of the model.
\<close>

record idt_state = paging_state +
  idt_table :: addr
  idtr_descriptor :: addr
  idtr :: "u16 \<times> addr"

definition TOTAL_INTERRUPTS :: nat where [const_defs]: "TOTAL_INTERRUPTS = 512"
definition KERNEL_CODE_SELECTOR :: u16 where [const_defs]: "KERNEL_CODE_SELECTOR = 0x08"
definition INTERRUPT_KC_3_1 :: byte where [const_defs]: "INTERRUPT_KC_3_1 = 0xee"

text \<open>\<open>&idt_table[i]\<close>.\<close>

definition gate_at :: "addr \<Rightarrow> nat \<Rightarrow> addr" where
  "gate_at t i = t + 8 * of_nat i"

definition setup_idt32IKC31 :: "u32 \<Rightarrow> addr \<Rightarrow> 'z idt_state_scheme \<Rightarrow> 'z idt_state_scheme" where
  "setup_idt32IKC31 interrupt_no address s =
     (let g = gate_at (idt_table s) (unat interrupt_no);
          m1 = st16 (mem s) g (ucast (address AND 0x0000ffff));
          m2 = st16 m1 (g + 6) (ucast (drop_bit 16 address));
          m3 = st16 m2 (g + 2) KERNEL_CODE_SELECTOR;
          m4 = st8 m3 (g + 5) INTERRUPT_KC_3_1;
          m5 = st8 m4 (g + 4) 0
      in s\<lparr>mem := m5\<rparr>)"

text \<open>The assembly routine: \<open>lidt\<close> reads the 6-byte descriptor.\<close>

definition load_idtr :: "addr \<Rightarrow> 'z idt_state_scheme \<Rightarrow> 'z idt_state_scheme" where
  "load_idtr a s = s\<lparr>idtr := (ld16 (mem s) a, ld32 (mem s) (a + 2))\<rparr>"

definition idt_init :: "addr \<Rightarrow> addr \<Rightarrow> addr \<Rightarrow> addr \<Rightarrow> 'z idt_state_scheme \<Rightarrow> 'z idt_state_scheme" where
  "idt_init sr0 sr20 sr21 isr_x s =
     (let s1 = print (lit (''starting idt load....'' @ [CHR 10])) s;
          s2 = s1\<lparr>mem := memset (mem s1) (idt_table s1) 0 (of_nat TOTAL_INTERRUPTS * 8)\<rparr>;
          s3 = s2\<lparr>mem := st16 (mem s2) (idtr_descriptor s2) (of_nat (TOTAL_INTERRUPTS * 8 - 1))\<rparr>;
          s4 = s3\<lparr>mem := st32 (mem s3) (idtr_descriptor s3 + 2) (idt_table s3)\<rparr>;
          s5 = fold (\<lambda>i s. setup_idt32IKC31 (of_nat i) isr_x s) [0..<TOTAL_INTERRUPTS] s4;
          s6 = setup_idt32IKC31 0x00 sr0 s5;
          s7 = setup_idt32IKC31 0x21 sr21 s6;
          s8 = setup_idt32IKC31 0x20 sr20 s7;
          s9 = load_idtr (idtr_descriptor s8) s8
      in print (lit (''idt loading successfull'' @ [CHR 10])) s9)"

section \<open>What the processor reads\<close>

text \<open>A gate as the processor decodes it: offset, selector, type byte.\<close>

definition gate :: "mem \<Rightarrow> addr \<Rightarrow> nat \<Rightarrow> addr \<times> u16 \<times> byte" where
  "gate m t i =
     (let g = gate_at t i
      in (push_bit 16 (ucast (ld16 m (g + 6))) OR ucast (ld16 m g), ld16 m (g + 2), m (g + 5)))"

lemma gate_neq:
  "g + 1 \<noteq> g" "g + 2 \<noteq> g" "g + 5 \<noteq> g" "g + 4 \<noteq> g" "g + 6 \<noteq> g" "g + 7 \<noteq> g" "g + 3 \<noteq> g" for g :: addr
  by simp_all

lemma address_halves:
  "push_bit 16 (ucast (ucast (drop_bit 16 a) :: u16)) OR ucast (ucast (a AND 0xffff) :: u16) = a" for a :: u32
proof -
  have m: "(0xffff :: u32) = mask 16" by (simp add: mask_eq_exp_minus_1)
  show ?thesis unfolding m by (rule bit_word_eqI) (auto simp: bit_simps)
qed

lemma setup_gate:
  "gate (mem (setup_idt32IKC31 n a s)) (idt_table s) (unat n) = (a, KERNEL_CODE_SELECTOR, INTERRUPT_KC_3_1)"
proof -
  let ?g = "gate_at (idt_table s) (unat n)"
  have "ld16 (mem (setup_idt32IKC31 n a s)) ?g = ucast (a AND 0xffff)"
    "ld16 (mem (setup_idt32IKC31 n a s)) (?g + 6) = ucast (drop_bit 16 a)"
    "ld16 (mem (setup_idt32IKC31 n a s)) (?g + 2) = KERNEL_CODE_SELECTOR"
    by (rule bit_word_eqI,
      force simp: setup_idt32IKC31_def Let_def ld16_def st16_def st8_apply bit_simps add.assoc)+
  moreover have "mem (setup_idt32IKC31 n a s) (?g + 5) = INTERRUPT_KC_3_1"
    by (simp add: setup_idt32IKC31_def Let_def st8_apply)
  ultimately show ?thesis by (simp add: gate_def Let_def address_halves)
qed

lemma setup_out:
  assumes "\<not> in_range (gate_at (idt_table s) (unat n)) 8 x"
  shows "mem (setup_idt32IKC31 n a s) x = mem s x"
proof -
  let ?g = "gate_at (idt_table s) (unat n)"
  have "x \<noteq> ?g + of_nat k" if "k < 8" for k
    using assms that by (auto simp: in_range_offset)
  from this [of 0] this [of 1] this [of 2] this [of 3] this [of 4] this [of 5] this [of 6] this [of 7]
  show ?thesis by (simp add: setup_idt32IKC31_def Let_def st16_def st8_apply add.assoc)
qed

lemma setup_fields [simp]:
  "idt_table (setup_idt32IKC31 n a s) = idt_table s"
  "idtr_descriptor (setup_idt32IKC31 n a s) = idtr_descriptor s"
  by (simp_all add: setup_idt32IKC31_def Let_def)

lemma setup_ext: "setup_idt32IKC31 n a s = s\<lparr>mem := mem (setup_idt32IKC31 n a s)\<rparr>"
  by (simp add: setup_idt32IKC31_def Let_def)

lemma gate_range:
  assumes "in_range (gate_at t i) 8 x" and "i < 512"
  shows "in_range t 4096 x" and "unat (x - t) div 8 = i"
proof -
  from assms(1) obtain k where k: "k < 8" "x = gate_at t i + of_nat k" by (rule in_rangeE)
  have "x - t = of_nat (8 * i + k)" by (simp add: k(2) gate_at_def)
  moreover have "8 * i + k < 2 ^ 32" using assms(2) k(1) by simp
  ultimately have "unat (x - t) = 8 * i + k" by (simp only: unat_of_nat32)
  then show "in_range t 4096 x" "unat (x - t) div 8 = i"
    using assms(2) k(1) by (simp_all add: in_range_def)
qed

lemma gate_cong:
  assumes "\<And>x. in_range (gate_at t i) 8 x \<Longrightarrow> m x = m' x"
  shows "gate m t i = gate m' t i"
proof -
  let ?g = "gate_at t i"
  have "m (?g + of_nat k) = m' (?g + of_nat k)" if "k < 8" for k
    using that by (intro assms) (simp add: in_range_offset)
  from this [of 0] this [of 1] this [of 2] this [of 3] this [of 5] this [of 6] this [of 7]
  show ?thesis by (simp add: gate_def Let_def ld16_def add.assoc)
qed

text \<open>A gate is changed by its own set-up only.\<close>

lemma setup_gates:
  assumes "unat n < 512" and "i < 512"
  shows "gate (mem (setup_idt32IKC31 n a s)) (idt_table s) i =
    (if i = unat n then (a, KERNEL_CODE_SELECTOR, INTERRUPT_KC_3_1) else gate (mem s) (idt_table s) i)"
proof (cases "i = unat n")
  case True
  then show ?thesis by (simp add: setup_gate)
next
  case False
  have "gate (mem (setup_idt32IKC31 n a s)) (idt_table s) i = gate (mem s) (idt_table s) i"
  proof (rule gate_cong)
    fix x assume x: "in_range (gate_at (idt_table s) i) 8 x"
    have "\<not> in_range (gate_at (idt_table s) (unat n)) 8 x"
      using gate_range(2) [OF x assms(2)] gate_range(2) [OF _ assms(1)] False by blast
    then show "mem (setup_idt32IKC31 n a s) x = mem s x" by (rule setup_out)
  qed
  with False show ?thesis by simp
qed

lemma setup_gates_at:
  "idt_table s = t \<Longrightarrow> unat n < 512 \<Longrightarrow> i < 512 \<Longrightarrow> gate (mem (setup_idt32IKC31 n a s)) t i =
    (if i = unat n then (a, KERNEL_CODE_SELECTOR, INTERRUPT_KC_3_1) else gate (mem s) t i)"
  using setup_gates [of n i a s] by simp

lemma setup_all:
  "n \<le> 512 \<Longrightarrow> let s' = fold (\<lambda>i s. setup_idt32IKC31 (of_nat i) a s) [0..<n] s in
     idt_table s' = idt_table s \<and> idtr_descriptor s' = idtr_descriptor s \<and>
     (\<forall>x. \<not> in_range (idt_table s) 4096 x \<longrightarrow> mem s' x = mem s x) \<and>
     (\<forall>i<n. gate (mem s') (idt_table s) i = (a, KERNEL_CODE_SELECTOR, INTERRUPT_KC_3_1))"
proof (induction n)
  case (Suc n)
  let ?s = "fold (\<lambda>i s. setup_idt32IKC31 (of_nat i) a s) [0..<n] s"
  let ?s' = "setup_idt32IKC31 (of_nat n) a ?s"
  have IH: "idt_table ?s = idt_table s" "idtr_descriptor ?s = idtr_descriptor s"
    "\<forall>x. \<not> in_range (idt_table s) 4096 x \<longrightarrow> mem ?s x = mem s x"
    "\<forall>i<n. gate (mem ?s) (idt_table s) i = (a, KERNEL_CODE_SELECTOR, INTERRUPT_KC_3_1)"
    using Suc by (auto simp: Let_def)
  have n: "unat (of_nat n :: u32) = n" using Suc.prems by (intro unat_of_nat32) simp
  have "\<forall>i<Suc n. gate (mem ?s') (idt_table s) i = (a, KERNEL_CODE_SELECTOR, INTERRUPT_KC_3_1)"
    using setup_gates [of "of_nat n" _ a ?s] Suc.prems IH(1,4) n by (auto simp: less_Suc_eq)
  moreover have "mem ?s' x = mem s x" if "\<not> in_range (idt_table s) 4096 x" for x
    using setup_out [of ?s "of_nat n" x a] gate_range(1) [of "idt_table s" n x] IH(1,3) n that Suc.prems by auto
  ultimately show ?case using IH(1,2) by (simp add: Let_def)
qed simp

lemma print_idt [simp]:
  "idt_table (print cs s) = idt_table s" "idtr_descriptor (print cs s) = idtr_descriptor s" "idtr (print cs s) = idtr s"
  using print_ext [of cs s] by auto

text \<open>What \<open>idt_init\<close> leaves: the descriptor register, the gates, and the memory outside the two globals.\<close>

definition vector_gate :: "addr \<Rightarrow> addr \<Rightarrow> addr \<Rightarrow> addr \<Rightarrow> nat \<Rightarrow> addr \<times> u16 \<times> byte" where
  "vector_gate sr0 sr20 sr21 isr_x i =
     (if i = 0 then sr0 else if i = 0x20 then sr20 else if i = 0x21 then sr21 else isr_x, 0x08, 0xee)"

lemma idt_init_ok:
  assumes s': "s' = idt_init sr0 sr20 sr21 isr_x s"
  shows "\<And>i. i < 512 \<Longrightarrow> gate (mem s') (idt_table s) i = vector_gate sr0 sr20 sr21 isr_x i"
    and "\<And>x. \<not> in_range (idt_table s) 4096 x \<Longrightarrow> \<not> in_range (idtr_descriptor s) 6 x \<Longrightarrow> mem s' x = mem s x"
    and "ranges_disjoint (idt_table s) 4096 (idtr_descriptor s) 6 \<Longrightarrow> idtr s' = (4095, idt_table s)"
proof -
  define s4 where "s4 = (let s1 = print (lit (''starting idt load....'' @ [CHR 10])) s;
          s2 = s1\<lparr>mem := memset (mem s1) (idt_table s1) 0 (of_nat TOTAL_INTERRUPTS * 8)\<rparr>;
          s3 = s2\<lparr>mem := st16 (mem s2) (idtr_descriptor s2) (of_nat (TOTAL_INTERRUPTS * 8 - 1))\<rparr>
      in s3\<lparr>mem := st32 (mem s3) (idtr_descriptor s3 + 2) (idt_table s3)\<rparr>)"
  define s5 where "s5 = fold (\<lambda>i s. setup_idt32IKC31 (of_nat i) isr_x s) [0..<512] s4"
  define s8 where "s8 = setup_idt32IKC31 0x20 sr20 (setup_idt32IKC31 0x21 sr21 (setup_idt32IKC31 0x00 sr0 s5))"
  let ?t = "idt_table s" and ?d = "idtr_descriptor s"
  have init: "s' = print (lit (''idt loading successfull'' @ [CHR 10])) (load_idtr (idtr_descriptor s8) s8)"
    unfolding s' idt_init_def s8_def s5_def s4_def Let_def TOTAL_INTERRUPTS_def by (rule refl)
  have f4: "idt_table s4 = ?t" "idtr_descriptor s4 = ?d" by (simp_all add: s4_def Let_def)
  have m4: "mem s4 = st32 (st16 (memset (mem s) ?t 0 (of_nat TOTAL_INTERRUPTS * 8)) ?d 4095) (?d + 2) ?t"
    by (simp add: s4_def Let_def TOTAL_INTERRUPTS_def)
  have s5: "idt_table s5 = ?t" "idtr_descriptor s5 = ?d"
    "\<And>x. \<not> in_range ?t 4096 x \<Longrightarrow> mem s5 x = mem s4 x"
    "\<And>i. i < 512 \<Longrightarrow> gate (mem s5) ?t i = (isr_x, KERNEL_CODE_SELECTOR, INTERRUPT_KC_3_1)"
    using setup_all [of 512 isr_x s4] unfolding Let_def s5_def [symmetric] f4 by blast+
  have f8: "idt_table s8 = ?t" "idtr_descriptor s8 = ?d" by (simp_all add: s8_def s5)
  have out8: "mem s8 x = mem s4 x" if "\<not> in_range ?t 4096 x" for x
  proof -
    have o: "\<not> in_range (gate_at ?t k) 8 x" if k: "k < 512" for k
      using gate_range(1) [OF _ k] \<open>\<not> in_range ?t 4096 x\<close> by blast
    show ?thesis
      using s5 that o [of 0] o [of 32] o [of 33] by (simp add: s8_def setup_out)
  qed
  show "gate (mem s') ?t i = vector_gate sr0 sr20 sr21 isr_x i" if i: "i < 512" for i
    using s5(1) s5(4) [OF i] i
    by (simp add: init load_idtr_def s8_def setup_gates_at KERNEL_CODE_SELECTOR_def INTERRUPT_KC_3_1_def vector_gate_def)
  show "mem s' x = mem s x" if x: "\<not> in_range ?t 4096 x" "\<not> in_range ?d 6 x" for x
  proof -
    have "\<not> in_range ?d 2 x" "\<not> in_range (?d + 2) 4 x"
      using x(2) in_range_mono [of ?d 2 x 6] in_range_sub [of 2 4 6 ?d x] by auto
    then show ?thesis
      using x(1) by (simp add: init load_idtr_def out8 m4 st32_out st16_out memset_out TOTAL_INTERRUPTS_def)
  qed
  show "idtr s' = (4095, ?t)" if disj: "ranges_disjoint ?t 4096 ?d 6"
  proof -
    have nd: "\<not> in_range (?d + 2) 4 ?d" "\<not> in_range (?d + 2) 4 (?d + 1)"
      by (auto simp: in_range_4)
    have "ld16 (mem s4) ?d = ld16 (st16 (memset (mem s) ?t 0 (of_nat TOTAL_INTERRUPTS * 8)) ?d 4095) ?d"
      unfolding m4 by (rule ld16_cong) (use nd in \<open>auto simp: in_range_2 st32_out\<close>)
    then have d4: "ld16 (mem s4) ?d = 4095" "ld32 (mem s4) (?d + 2) = ?t" by (simp_all add: m4)
    have o: "mem s8 (?d + of_nat k) = mem s4 (?d + of_nat k)" if "k < 6" for k
      by (rule out8) (use ranges_disjointD [OF disj that] that in simp)
    from o [of 0] o [of 1] o [of 2] o [of 3] o [of 4] o [of 5]
    have "ld16 (mem s8) ?d = 4095" "ld32 (mem s8) (?d + 2) = ?t"
      unfolding d4 [symmetric] by (simp_all add: ld16_def ld32_def add.assoc)
    then show ?thesis by (simp add: init load_idtr_def f8)
  qed
qed

text \<open>The fields an operation of this component can change.\<close>

definition idt_step :: "'z idt_state_scheme \<Rightarrow> 'z idt_state_scheme \<Rightarrow> bool" where
  "idt_step s s' \<longleftrightarrow> (\<exists>v x y m r. s' = s\<lparr>vedio := v, cursor_x := x, cursor_y := y, mem := m, idtr := r\<rparr>)"

lemma idt_step_refl: "idt_step s s"
  unfolding idt_step_def
  by (intro exI [of _ "vedio s"] exI [of _ "cursor_x s"] exI [of _ "cursor_y s"] exI [of _ "mem s"] exI [of _ "idtr s"]) simp

lemma idt_stepI:
  assumes "idt_step s s'"
  shows "idt_step s (s'\<lparr>vedio := v, cursor_x := x, cursor_y := y, mem := m, idtr := r\<rparr>)"
proof -
  obtain v' x' y' m' r' where "s' = s\<lparr>vedio := v', cursor_x := x', cursor_y := y', mem := m', idtr := r'\<rparr>"
    using assms by (unfold idt_step_def) blast
  then have "s'\<lparr>vedio := v, cursor_x := x, cursor_y := y, mem := m, idtr := r\<rparr> =
    s\<lparr>vedio := v, cursor_x := x, cursor_y := y, mem := m, idtr := r\<rparr>" by simp
  then show ?thesis unfolding idt_step_def by blast
qed

lemma idt_step_print: "idt_step s s' \<Longrightarrow> idt_step s (print cs s')"
proof -
  assume st: "idt_step s s'"
  obtain v x y where "print cs s' = s'\<lparr>vedio := v, cursor_x := x, cursor_y := y\<rparr>" using print_ext [of cs s'] by blast
  then show ?thesis using idt_stepI [OF st, where v = v and x = x and y = y and m = "mem s'" and r = "idtr s'"] by simp
qed

lemma idt_step_mem: "idt_step s s' \<Longrightarrow> idt_step s (s'\<lparr>mem := m\<rparr>)"
  using idt_stepI [where s = s and s' = s' and v = "vedio s'" and x = "cursor_x s'" and y = "cursor_y s'" and m = m and r = "idtr s'"] by simp

lemma idt_step_setup: "idt_step s s' \<Longrightarrow> idt_step s (setup_idt32IKC31 n a s')"
  by (subst setup_ext) (rule idt_step_mem)

lemma idt_step_load: "idt_step s s' \<Longrightarrow> idt_step s (load_idtr a s')"
  using idt_stepI [where s = s and s' = s' and v = "vedio s'" and x = "cursor_x s'" and y = "cursor_y s'" and m = "mem s'"] by (simp add: load_idtr_def)

lemma idt_step_all: "idt_step s s' \<Longrightarrow> idt_step s (fold (\<lambda>i s. setup_idt32IKC31 (of_nat i) a s) is s')"
  by (induction "is" arbitrary: s') (auto intro: idt_step_setup)

lemma idt_init_step: "idt_step s (idt_init sr0 sr20 sr21 isr_x s)"
  unfolding idt_init_def Let_def
  by (intro idt_step_print idt_step_load idt_step_setup idt_step_all idt_step_mem idt_step_refl)

section \<open>Properties\<close>

text \<open>C11: After \<open>idt_init\<close> the processor finds a table of 512 gates at \<open>idt_table\<close>; gate 0 leads to the
  division handler, 0x20 to the timer's, 0x21 to the keyboard's and every other one to the default
  handler, all through the kernel's code segment as 32-bit interrupt gates.  (The two globals must
  not overlap, as the linker sees to.)\<close>

theorem idt_init_gates:
  assumes "ranges_disjoint (idt_table s) 4096 (idtr_descriptor s) 6" and "i < 512"
  shows "idtr (idt_init sr0 sr20 sr21 isr_x s) = (4095, idt_table s) \<and>
    gate (mem (idt_init sr0 sr20 sr21 isr_x s)) (snd (idtr (idt_init sr0 sr20 sr21 isr_x s))) i =
      (if i = 0 then sr0 else if i = 0x20 then sr20 else if i = 0x21 then sr21 else isr_x, 0x08, 0xee)"
  using idt_init_ok(1) [OF refl assms(2)]
  by (simp only: idt_init_ok(3) [OF refl assms(1)] snd_conv vector_gate_def simp_thms)

definition zero_idt :: idt_state where
  "zero_idt = \<lparr>vedio = (\<lambda>_. 0), cursor_x = 0, cursor_y = 0, mem = (\<lambda>_. 0),
     kernel_heap = \<lparr>table = None, start_addr = 0, end_addr = 0\<rparr>,
     kernel_heap_table = \<lparr>entries = 0, total = 0\<rparr>, mothermary = 0,
     cur_dir_table = 0, cr0 = 1, cr3 = 0, interrupts = False,
     idt_table = 0x110000, idtr_descriptor = 0x120000, idtr = (0, 0)\<rparr>"

lemma idt_init_gates_witness:
  "gate (mem (idt_init 0x100100 0x100200 0x100300 0x100400 zero_idt))
     (snd (idtr (idt_init 0x100100 0x100200 0x100300 0x100400 zero_idt))) 0x20 = (0x100200, 0x08, 0xee)"
proof -
  have "ranges_disjoint (idt_table zero_idt) 4096 (idtr_descriptor zero_idt) 6"
    by (intro ranges_disjoint_nat) (simp_all add: zero_idt_def)
  then show ?thesis
    by (intro trans [OF idt_init_gates [THEN conjunct2]]) simp_all
qed

end
