(* ===== verification/Timer.thy ===== *)
theory Timer
  imports Idt
begin

text \<open>
  The interrupt handlers of \<open>src/kernel/isr/isr.c\<close>, the waiting loops of \<open>src/kernel/time/time.c\<close>, the
  timer chip of \<open>src/kernel/pit/pit.c\<close> and the clock stubs of \<open>src/kernel/clock/clock.c\<close>.
\<close>

record timer_state = idt_state +
  tick :: u64

section \<open>isr.c\<close>

definition divide_zero :: "'z timer_state_scheme \<Rightarrow> 'z timer_state_scheme" where
  "divide_zero s = print (lit ''divide by zero error'') s"

definition int21_handler :: "'z timer_state_scheme \<Rightarrow> 'z timer_state_scheme" where
  "int21_handler s = print (lit ''test int 0x21'') s"

definition int20_handler :: "'z timer_state_scheme \<Rightarrow> 'z timer_state_scheme" where
  "int20_handler s = s\<lparr>tick := tick s + 1\<rparr>"

definition no_interrupt :: "'z timer_state_scheme \<Rightarrow> 'z timer_state_scheme" where
  "no_interrupt s = s"

section \<open>time.c\<close>

text \<open>
  \<open>while(tick < end);\<close> reads the volatile \<open>tick\<close> again and again.  Between two reads the timer
  interrupt may come: \<open>reads k\<close> is the value of the \<open>k\<close>-th read, and the loop returns the number of
  the read that ended it.  A loop that never ends is \<open>None\<close>.  A read of the 64-bit counter counts as one step, although the
  32-bit machine loads its two halves one after the other: \<open>reads\<close> are the values the program sees.
\<close>

partial_function (option) wait_ticks :: "(nat \<Rightarrow> u64) \<Rightarrow> u64 \<Rightarrow> nat \<Rightarrow> nat option" where
  "wait_ticks reads end' k = (if reads k < end' then wait_ticks reads end' (Suc k) else Some k)"

text \<open>Read 0 is the one that computes \<open>end\<close>.\<close>

definition sleep_ticks :: "(nat \<Rightarrow> u64) \<Rightarrow> u64 \<Rightarrow> nat option" where
  "sleep_ticks reads tick_count = (let end' = reads 0 + tick_count in wait_ticks reads end' 1)"

definition sleep :: "(nat \<Rightarrow> u64) \<Rightarrow> u32 \<Rightarrow> nat option" where
  "sleep reads time_sec = sleep_ticks reads (ucast (time_sec * 100))"

definition sleep_ms :: "(nat \<Rightarrow> u64) \<Rightarrow> u32 \<Rightarrow> nat option" where
  "sleep_ms reads milli_sec =
     (let milli_sec = (if milli_sec < 10 then 10 else milli_sec)
      in sleep_ticks reads (ucast (milli_sec div 10)))"

section \<open>pit.c\<close>

definition PIT_CHANNEL :: u16 where [const_defs]: "PIT_CHANNEL = 0x43"
definition PIT_VAL_PORT :: u16 where [const_defs]: "PIT_VAL_PORT = 0x40"
definition PIT_FREQ :: u32 where [const_defs]: "PIT_FREQ = 1193182"

text \<open>The three port writes, in order.  (For \<open>freq = 0\<close> the division of the source traps; the definition speaks of the others.)\<close>

definition pit_init :: "u32 \<Rightarrow> (u16 \<times> byte) list" where
  "pit_init freq =
     (let val = ucast (PIT_FREQ div freq) :: u16
      in [(PIT_CHANNEL, 0x36), (PIT_VAL_PORT, ucast (val AND 0xff)),
          (PIT_VAL_PORT, ucast (drop_bit 8 val AND 0xff))])"

section \<open>clock.c\<close>

definition get_time_fat16 :: u16 where "get_time_fat16 = 0"
definition get_date_fat16 :: u16 where "get_date_fat16 = 0"

section \<open>The waiting loop\<close>

text \<open>The first read that is not below the limit ends the loop.\<close>

lemma wait_ticks_first:
  assumes "k \<le> n" and "\<not> reads n < end'" and "\<And>j. k \<le> j \<Longrightarrow> j < n \<Longrightarrow> reads j < end'"
  shows "wait_ticks reads end' k = Some n"
  using assms
proof (induction "n - k" arbitrary: k)
  case 0
  then show ?case by (simp add: wait_ticks.simps [of reads end' k])
next
  case (Suc d)
  then have "reads k < end'" by simp
  moreover have "wait_ticks reads end' (Suc k) = Some n" using Suc by (intro Suc.hyps(1)) auto
  ultimately show ?case by (simp add: wait_ticks.simps [of reads end' k])
qed

lemma wait_ticks_Some:
  assumes "wait_ticks reads end' k = Some n"
  shows "k \<le> n \<and> \<not> reads n < end' \<and> (\<forall>j. k \<le> j \<and> j < n \<longrightarrow> reads j < end')"
  using assms
proof (induction rule: wait_ticks.raw_induct [rotated 1, consumes 1, case_names step])
  case (step w reads end' k n)
  show ?case
  proof (cases "reads k < end'")
    case True
    then have "w reads end' (Suc k) = Some n" using step(2) by simp
    from step(1) [OF this] have "Suc k \<le> n" "\<not> reads n < end'"
      and lt: "\<And>j. Suc k \<le> j \<Longrightarrow> j < n \<Longrightarrow> reads j < end'" by auto
    moreover have "reads j < end'" if "k \<le> j" "j < n" for j
      using lt [of j] True that by (cases "j = k") auto
    ultimately show ?thesis by auto
  next
    case False
    then show ?thesis using step(2) by auto
  qed
qed

lemma wait_ticks_None: "wait_ticks reads end' k = None \<longleftrightarrow> (\<forall>j\<ge>k. reads j < end')"
proof
  assume none: "wait_ticks reads end' k = None"
  show "\<forall>j\<ge>k. reads j < end'"
  proof (rule ccontr)
    assume "\<not> (\<forall>j\<ge>k. reads j < end')"
    then have ex: "\<exists>j. k \<le> j \<and> \<not> reads j < end'" by blast
    define n where "n = (LEAST j. k \<le> j \<and> \<not> reads j < end')"
    have "k \<le> n" "\<not> reads n < end'" using LeastI_ex [OF ex] by (auto simp: n_def)
    moreover have "reads j < end'" if "k \<le> j" "j < n" for j
      using not_less_Least [OF that(2) [unfolded n_def]] that(1) by blast
    ultimately have "wait_ticks reads end' k = Some n" by (rule wait_ticks_first)
    with none show False by simp
  qed
next
  assume "\<forall>j\<ge>k. reads j < end'"
  then show "wait_ticks reads end' k = None"
    using wait_ticks_Some [of reads end' k] by (cases "wait_ticks reads end' k") auto
qed

text \<open>As long as the timer interrupt keeps coming, \<open>sleep_ticks\<close> returns.\<close>

lemma sleep_ticks_returns:
  assumes "\<And>k. reads (Suc k) = reads k \<or> reads (Suc k) = reads k + 1"
    and "\<And>k. \<exists>j>k. reads j \<noteq> reads k"
  shows "\<exists>r. sleep_ticks reads n = Some r"
proof (rule ccontr)
  assume "\<not> (\<exists>r. sleep_ticks reads n = Some r)"
  then have "sleep_ticks reads n = None" by simp
  then have below: "reads k < reads 0 + n" if "1 \<le> k" for k
    using that by (simp add: sleep_ticks_def wait_ticks_None)
  have step: "unat (reads k) \<le> unat (reads (Suc k))" if "1 \<le> k" for k
  proof -
    have "unat (reads 0 + n) < 2 ^ 64" using unsigned_less [of "reads 0 + n"] by simp
    then have "unat (reads k + 1) = unat (reads k) + 1"
      using below [OF that]
      by (simp add: word_less_nat_alt unat_word_ariths)
    then show ?thesis using assms(1) [of k] by auto
  qed
  have mono: "unat (reads k) \<le> unat (reads j)" if "1 \<le> k" "k \<le> j" for k j
    using that(2) by (induction rule: dec_induct) (use step that(1) in \<open>auto intro: order_trans\<close>)
  have "\<exists>j\<ge>1. m \<le> unat (reads j)" for m
  proof (induction m)
    case (Suc m)
    then obtain j where j: "1 \<le> j" "m \<le> unat (reads j)" by auto
    obtain j' where j': "j < j'" "reads j' \<noteq> reads j" using assms(2) by blast
    then have "unat (reads j') \<noteq> unat (reads j)" using unsigned_word_eqI by blast
    then have "Suc m \<le> unat (reads j')" using mono [of j j'] j j'(1) by simp
    then show ?case using j(1) j'(1) by (intro exI [of _ j']) simp
  qed auto
  then obtain j where "1 \<le> j" "unat (reads 0 + n) \<le> unat (reads j)" by blast
  then show False using below [of j] by (simp add: word_less_nat_alt)
qed

lemma mask_8: "(0xff :: u16) = mask 8"
  by (simp add: mask_eq_exp_minus_1)

lemma low_byte: "unat (ucast (v AND 0xff) :: byte) = unat v mod 256" for v :: u16
  unfolding mask_8
  by (simp add: take_bit_eq_mask [symmetric] unsigned_ucast_eq unsigned_take_bit_eq take_bit_eq_mod unat_mod)

lemma high_byte: "unat (ucast (drop_bit 8 v AND 0xff) :: byte) = unat v div 256" for v :: u16
proof -
  have "unat v < 2 ^ 16" using unsigned_less [of v] by simp
  then show ?thesis unfolding mask_8
    by (simp add: take_bit_eq_mask [symmetric] unsigned_ucast_eq unsigned_take_bit_eq take_bit_eq_mod
        drop_bit_eq_div unat_div unat_mod)
qed

section \<open>Properties\<close>

text \<open>C23: While the timer interrupt keeps coming, counts up by at most one between two reads and the counter does not
  overflow, \<open>sleep_ticks n\<close> with \<open>n\<close> of at least 1 returns, and it does so at the first read that shows \<open>n\<close> ticks more than at its start: after
  exactly \<open>n\<close> interrupts.\<close>

theorem sleep_ticks_exact:
  assumes "\<And>k. reads (Suc k) = reads k \<or> reads (Suc k) = reads k + 1" and "\<And>k. \<exists>j>k. reads j \<noteq> reads k"
    and "unat (reads 0) + unat n < 2 ^ 64" and "n \<noteq> 0"
  shows "\<exists>r>0. sleep_ticks reads n = Some r \<and> reads r = reads 0 + n \<and> (\<forall>j<r. reads j < reads 0 + n)"
proof -
  obtain r where s: "sleep_ticks reads n = Some r" using sleep_ticks_returns [OF assms(1,2)] by blast
  let ?e = "reads 0 + n"
  have r: "1 \<le> r" "\<not> reads r < ?e" "\<And>j. 1 \<le> j \<Longrightarrow> j < r \<Longrightarrow> reads j < ?e"
    using wait_ticks_Some [of reads ?e 1 r] s by (auto simp: sleep_ticks_def Let_def)
  have e: "unat ?e = unat (reads 0) + unat n" using assms(3) by (simp add: unat_word_ariths)
  have n0: "0 < unat n" using assms(4) by (simp add: unat_gt_0)
  have below: "reads j < ?e" if "j < r" for j
    using that r(3) [of j] e n0 by (cases "j = 0") (auto simp: word_less_nat_alt)
  obtain q where q: "r = Suc q" using r(1) by (cases r) auto
  with r(2) assms(1) [of q] below [of q] have "reads r = reads q + 1" "reads q < ?e" "?e \<le> reads q + 1" by auto
  then have "unat ?e \<le> unat (reads q + 1)" "unat (reads q) < unat ?e" "unat (reads q + 1) \<le> unat (reads q) + 1"
    by (auto simp: word_less_nat_alt word_le_nat_alt unat_word_ariths)
  then have "unat (reads r) = unat ?e" using \<open>reads r = reads q + 1\<close> by simp
  then have "reads r = ?e" by (rule unsigned_word_eqI)
  then show ?thesis using s r(1) below by (intro exI [of _ r]) simp
qed

lemma sleep_ticks_exact_witness: "\<exists>r>0. sleep_ticks of_nat 3 = Some r \<and> (of_nat r :: u64) = of_nat 0 + 3 \<and> (\<forall>j<r. (of_nat j :: u64) < of_nat 0 + 3)"
proof (rule sleep_ticks_exact)
  show "\<exists>j>k. (of_nat j :: u64) \<noteq> of_nat k" for k by (intro exI [of _ "Suc k"]) simp
qed simp_all

text \<open>With interrupts disabled (the counter stands still) every sleep of at least one tick never
  returns.\<close>

theorem sleep_hangs_without_timer:
  assumes "\<And>k. reads k = t" and "n \<noteq> 0" and "unat t + unat n < 2 ^ 64"
  shows "sleep_ticks reads n = None"
proof -
  have "t < t + n"
    using assms(2,3) by (simp add: word_less_nat_alt unat_word_ariths unat_gt_0)
  then show ?thesis using assms(1) by (simp add: sleep_ticks_def wait_ticks_None)
qed

lemma sleep_hangs_without_timer_witness: "sleep_ticks (\<lambda>_. 5) 100 = None"
  by (rule sleep_hangs_without_timer [of _ 5]) simp_all

text \<open>C24: \<open>pit_init\<close> programs channel 0 with the 16-bit divisor, low byte first: for every frequency from
  19 Hz up, the two bytes written are the divisor 1193182 div freq.\<close>

theorem pit_init_divisor:
  assumes "19 \<le> freq"
  shows "\<exists>lo hi. pit_init freq = [(0x43, 0x36), (0x40, lo), (0x40, hi)] \<and>
    unat hi * 256 + unat lo = 1193182 div unat freq"
proof -
  let ?d = "PIT_FREQ div freq" and ?v = "ucast (PIT_FREQ div freq) :: u16"
  have "unat ?d = 1193182 div unat freq" by (simp add: unat_div PIT_FREQ_def)
  moreover have "1193182 div unat freq \<le> 1193182 div 19"
    using assms by (intro div_le_mono2) (simp_all add: word_le_nat_alt)
  ultimately have v: "unat ?v = 1193182 div unat freq"
    by (simp add: unsigned_ucast_eq take_bit_nat_eq_self)
  note lo = low_byte [of ?v] and hi = high_byte [of ?v]
  show ?thesis
    using lo hi v by (intro exI) (auto simp: pit_init_def PIT_CHANNEL_def PIT_VAL_PORT_def Let_def)
qed

lemma pit_init_divisor_witness: "\<exists>lo hi. pit_init 100 = [(0x43, 0x36), (0x40, lo), (0x40, hi)] \<and>
    unat hi * 256 + unat lo = 11931"
  using pit_init_divisor [of 100] by simp

end
