(* ===== verification/Disk.thy ===== *)
theory Disk
  imports Timer
begin

text \<open>
  The ATA disk driver \<open>src/kernel/disk/disk.c\<close>.  The port instructions act on the devices: their state
  \<open>'d\<close> and the effect of a port access are parameters, a record \<open>port_io\<close> of functions.  Objects of
  type \<open>struct disk\<close> and \<open>struct partition\<close> are kept in typed stores, the view of the memory at an
  address as an object of that type; distinct objects of the heap do not overlap (theory
  \<open>Heap_Cream\<close>), so a store to one never changes another.  Sector buffers are bytes of the memory.
\<close>

section \<open>Ports\<close>

record 'd port_io =
  inb_p :: "u16 \<Rightarrow> 'd \<Rightarrow> byte \<times> 'd"
  in16_p :: "u16 \<Rightarrow> 'd \<Rightarrow> u16 \<times> 'd"
  outb_p :: "u16 \<Rightarrow> byte \<Rightarrow> 'd \<Rightarrow> 'd"
  out16_p :: "u16 \<Rightarrow> u16 \<Rightarrow> 'd \<Rightarrow> 'd"

text \<open>
  The two forms of waiting in the driver: the condition \<open>c\<close> reads the status and tells whether to
  go on waiting.  \<open>wait_while\<close> is \<open>while(c){ if(k==0) return; k--; }\<close>, \<open>wait_while_dec\<close> is
  \<open>while(c){ if(--k==0) return; }\<close>.  The result tells whether the wait ended in time.
\<close>

fun wait_while :: "('d \<Rightarrow> bool \<times> 'd) \<Rightarrow> nat \<Rightarrow> 'd \<Rightarrow> bool \<times> 'd" where
  "wait_while c k d =
     (case c d of
       (True, d1) \<Rightarrow> (case k of 0 \<Rightarrow> (False, d1) | Suc k' \<Rightarrow> wait_while c k' d1)
     | (False, d1) \<Rightarrow> (True, d1))"

fun wait_while_dec :: "('d \<Rightarrow> bool \<times> 'd) \<Rightarrow> nat \<Rightarrow> 'd \<Rightarrow> bool \<times> 'd" where
  "wait_while_dec c k d =
     (case c d of
       (True, d1) \<Rightarrow>
         (case k of 0 \<Rightarrow> (False, d1) | Suc 0 \<Rightarrow> (False, d1) | Suc k' \<Rightarrow> wait_while_dec c k' d1)
     | (False, d1) \<Rightarrow> (True, d1))"

declare wait_while.simps [simp del] wait_while_dec.simps [simp del]

definition ATA_WAIT :: nat where [const_defs]: "ATA_WAIT = 100000"
definition TIMEOUT :: int where [const_defs]: "TIMEOUT = 5"
definition DISK_READ_ERR :: int where [const_defs]: "DISK_READ_ERR = 9"
definition DISK_WRITE_ERR :: int where [const_defs]: "DISK_WRITE_ERR = 6"
definition SECTOR_SIZE_DISK_GENERAL_WORD :: nat where [const_defs]: "SECTOR_SIZE_DISK_GENERAL_WORD = 256"
definition DISK_TYPE_REAL :: u32 where [const_defs]: "DISK_TYPE_REAL = 0"
definition DISK_SUPPORT_MAX :: nat where [const_defs]: "DISK_SUPPORT_MAX = 5"

text \<open>The loop conditions.\<close>

definition busy :: "'d port_io \<Rightarrow> u16 \<Rightarrow> 'd \<Rightarrow> bool \<times> 'd" where
  "busy io p d = (case inb_p io p d of (v, d1) \<Rightarrow> (v AND 0x80 \<noteq> 0, d1))"

definition busy_or_no_data :: "'d port_io \<Rightarrow> u16 \<Rightarrow> 'd \<Rightarrow> bool \<times> 'd" where
  "busy_or_no_data io p d =
     (case inb_p io p d of (v, d1) \<Rightarrow>
        if v AND 0x80 \<noteq> 0 then (True, d1)
        else case inb_p io p d1 of (w, d2) \<Rightarrow> (w AND 0x08 = 0, d2))"

definition not_data_ready :: "'d port_io \<Rightarrow> u16 \<Rightarrow> 'd \<Rightarrow> bool \<times> 'd" where
  "not_data_ready io p d = (case inb_p io p d of (v, d1) \<Rightarrow> (v AND 0x88 \<noteq> 0x08, d1))"

text \<open>\<open>(inb(p)&0x01) || (inb(p)&0x20)\<close>.\<close>

definition status_error :: "'d port_io \<Rightarrow> u16 \<Rightarrow> 'd \<Rightarrow> bool \<times> 'd" where
  "status_error io p d =
     (case inb_p io p d of (v, d1) \<Rightarrow>
        if v AND 0x01 \<noteq> 0 then (True, d1)
        else case inb_p io p d1 of (w, d2) \<Rightarrow> (w AND 0x20 \<noteq> 0, d2))"

text \<open>\<open>for(i=0;i<n;i++) inb(p);\<close>\<close>

definition inb_times :: "'d port_io \<Rightarrow> u16 \<Rightarrow> nat \<Rightarrow> 'd \<Rightarrow> 'd" where
  "inb_times io p n d = fold (\<lambda>_ d. snd (inb_p io p d)) [0..<n] d"

text \<open>\<open>for(j=0;j<n;j++) a[j]=in16(p);\<close> and its converse.\<close>

definition in_words :: "'d port_io \<Rightarrow> u16 \<Rightarrow> nat \<Rightarrow> addr \<Rightarrow> mem \<times> 'd \<Rightarrow> mem \<times> 'd" where
  "in_words io p n a =
     fold (\<lambda>j (m, d). case in16_p io p d of (w, d1) \<Rightarrow> (st16 m (a + 2 * of_nat j) w, d1)) [0..<n]"

definition out_words :: "'d port_io \<Rightarrow> u16 \<Rightarrow> nat \<Rightarrow> addr \<Rightarrow> mem \<Rightarrow> 'd \<Rightarrow> 'd" where
  "out_words io p n a m = fold (\<lambda>j d. out16_p io p (ld16 m (a + 2 * of_nat j)) d) [0..<n]"

section \<open>The structs and the globals\<close>

datatype FILE_SYST_TYPE =
  FS_UNKNOWN | FAT_12 | FAT_16_L32 | FAT_16_G32 | FAT_16_LBA | FAT_32_LBA | FAT_32_CHS | LINUX_NATIVE

record disk =
  dtype :: u32
  ata_code :: u32
  base_data_port :: u16
  control_port :: u16
  command_status_port :: u16
  head :: u16
  drive_head :: byte
  is_master :: byte
  sect_size :: u32
  sect_count :: u32
  link_list :: addr

record partition =
  f_disk :: addr
  fs_type :: FILE_SYST_TYPE
  start_sect :: u32
  sect_num :: u32
  is_bootable :: byte
  next_part :: addr

text \<open>\<open>disk1\<close> is the address of the global of that name.\<close>

record 'd disk_state = timer_state +
  dev :: 'd
  disk_at :: "addr \<Rightarrow> disk"
  part_at :: "addr \<Rightarrow> partition"
  motherlobe :: "addr list"
  disk1 :: addr
  G_BOOT_DRIVE :: byte

definition upd_disk :: "addr \<Rightarrow> (disk \<Rightarrow> disk) \<Rightarrow> ('d, 'z) disk_state_scheme \<Rightarrow> ('d, 'z) disk_state_scheme" where
  "upd_disk a f s = s\<lparr>disk_at := (disk_at s)(a := f (disk_at s a))\<rparr>"

definition upd_dev :: "('d \<Rightarrow> 'd) \<Rightarrow> ('d, 'z) disk_state_scheme \<Rightarrow> ('d, 'z) disk_state_scheme" where
  "upd_dev f s = s\<lparr>dev := f (dev s)\<rparr>"

section \<open>Set-up and identification\<close>

definition set_disk_info :: "addr \<Rightarrow> ('d, 'z) disk_state_scheme \<Rightarrow> ('d, 'z) disk_state_scheme" where
  "set_disk_info diske s =
     (let ata_val = ucast (ata_code (disk_at s diske)) :: u16;
          base = (if ata_val AND 0x02 = 0 then 0x1f0 else 0x170) :: u16;
          drive = (if ata_val AND 0x01 = 0 then 0xa0 else 0xb0) :: u16
      in upd_disk diske (\<lambda>k. k\<lparr>drive_head := ucast drive,
           is_master := (if drive AND 0x10 = 0 then 1 else 0),
           base_data_port := base, command_status_port := base + 0x07,
           control_port := base + 0x206, head := base + 0x6\<rparr>) s)"

definition get_disk_info ::
  "'d port_io \<Rightarrow> addr \<Rightarrow> byte \<Rightarrow> addr \<Rightarrow> ('d, 'z) disk_state_scheme \<Rightarrow> ('d, 'z) disk_state_scheme" where
  "get_disk_info io diske command buf s =
     (let k = disk_at s diske; base = base_data_port k; command_port = command_status_port k;
          d1 = outb_p io (control_port k) 0 (dev s);
          d2 = outb_p io (head k) (drive_head k) d1;
          d3 = inb_times io (base + 6) 4 d2
      in case wait_while_dec (busy io command_port) ATA_WAIT d3 of
           (False, d4) \<Rightarrow> s\<lparr>dev := d4\<rparr>
         | (True, d4) \<Rightarrow>
             (case wait_while_dec (busy_or_no_data io command_port) ATA_WAIT (outb_p io command_port command d4) of
               (False, d5) \<Rightarrow> s\<lparr>dev := d5\<rparr>
             | (True, d5) \<Rightarrow>
                 (case in_words io base 256 buf (mem s, d5) of
                   (m, d6) \<Rightarrow> s\<lparr>mem := m, dev := d6\<rparr>)))"

text \<open>
  \<open>check_disk\<close>, from the last wait on: \<open>status\<close> is the byte read before it.
\<close>

fun wait_data :: "'d port_io \<Rightarrow> u16 \<Rightarrow> nat \<Rightarrow> byte \<Rightarrow> 'd \<Rightarrow> byte option \<times> 'd" where
  "wait_data io p k status d =
     (if status AND 0x08 = 0 then
        (case inb_p io p d of (v, d1) \<Rightarrow>
          (case k of 0 \<Rightarrow> (None, d1) | Suc k' \<Rightarrow> wait_data io p k' v d1))
      else (Some status, d))"

declare wait_data.simps [simp del]

definition sizeof_disk :: u32 where [const_defs]: "sizeof_disk = 32"

abbreviation nl :: "byte list" where
  "nl \<equiv> lit [CHR 10]"

definition check_disk_tail ::
  "'d port_io \<Rightarrow> u16 \<Rightarrow> u16 \<Rightarrow> ('d, 'z) disk_state_scheme \<Rightarrow> addr \<times> ('d, 'z) disk_state_scheme" where
  "check_disk_tail io port_no ata_val s =
     (case inb_p io (port_no + 7) (dev s) of (status, d1) \<Rightarrow>
       let s1 = print nl (print_16 ata_val (print (lit ''status obtained for'') (s\<lparr>dev := d1\<rparr>)));
           s2 = print nl (print_hex status (print (lit ''status:'') s1))
       in case wait_data io (port_no + 7) ATA_WAIT status (dev s2) of
            (None, d2) \<Rightarrow> (0, s2\<lparr>dev := d2\<rparr>)
          | (Some st, d2) \<Rightarrow>
              let s3 = s2\<lparr>dev := d2\<rparr>
              in if st = 0x00 \<or> st = 0x01 then (0, s3)
                 else if st AND 0x08 \<noteq> 0 then
                   (case heap_cream_malloc sizeof_disk (print (lit ''detected one more disk...'' @ nl) s3) of
                     (a, s4) \<Rightarrow>
                       (a, upd_disk a (\<lambda>k. k\<lparr>ata_code := ucast ata_val, dtype := DISK_TYPE_REAL\<rparr>) s4))
                 else (0, s3))"

definition check_disk ::
  "'d port_io \<Rightarrow> u16 \<Rightarrow> ('d, 'z) disk_state_scheme \<Rightarrow> addr \<times> ('d, 'z) disk_state_scheme" where
  "check_disk io ata_val s =
     (let s1 = print nl (print_16 ata_val (print (lit ''trying'') s));
          port_no = (if ata_val AND 0x02 \<noteq> 0 then 0x170 else 0x1f0) :: u16;
          drive = (if ata_val AND 0x01 \<noteq> 0 then 0xb0 else 0xa0) :: byte;
          s2 = upd_dev (\<lambda>d. inb_times io (port_no + 6) 4
                 (outb_p io (port_no + 6) drive (outb_p io (port_no + 0x206) 0x00 d))) s1;
          s3 = print nl (print_16 ata_val (print (lit ''communication set for'') s2))
      in case inb_p io (port_no + 7) (dev s3) of (stat, d1) \<Rightarrow>
        let s4 = s3\<lparr>dev := d1\<rparr>
        in if stat = 0xff \<or> stat = 0x00 then (0, print (lit ''no device '' @ nl) s4)
           else case wait_while (busy io (port_no + 7)) ATA_WAIT (dev s4) of
             (False, d2) \<Rightarrow> (0, s4\<lparr>dev := d2\<rparr>)
           | (True, d2) \<Rightarrow>
               let s5 = s4\<lparr>dev := outb_p io (port_no + 7) 0xec d2\<rparr>;
                   s6 = print nl (print_16 ata_val (print (lit ''info command send for'') s5));
                   s7 = upd_dev (inb_times io (port_no + 6) 4) s6
               in case wait_while (busy_or_no_data io (port_no + 7)) ATA_WAIT (dev s7) of
                    (False, d3) \<Rightarrow> (0, s7\<lparr>dev := d3\<rparr>)
                  | (True, d3) \<Rightarrow> check_disk_tail io port_no ata_val (s7\<lparr>dev := d3\<rparr>))"

text \<open>\<open>(uint32_t)(buf[61]<<16)|(uint32_t)buf[60]\<close>.\<close>

definition sectors_of :: "mem \<Rightarrow> addr \<Rightarrow> u32" where
  "sectors_of m buf = push_bit 16 (ucast (ld16 m (buf + 122))) OR ucast (ld16 m (buf + 120))"

definition search_step ::
  "'d port_io \<Rightarrow> addr \<Rightarrow> u16 \<Rightarrow> nat \<times> ('d, 'z) disk_state_scheme \<Rightarrow> nat \<times> ('d, 'z) disk_state_scheme" where
  "search_step io buf i st =
     (case st of (index, s) \<Rightarrow>
       case check_disk io i s of (v, s1) \<Rightarrow>
         if v \<noteq> 0 then
           (let s2 = get_disk_info io v 0xec buf (set_disk_info v s1);
                s3 = upd_disk v (\<lambda>k. k\<lparr>sect_count := sectors_of (mem s2) buf, sect_size := 512\<rparr>) s2
            in (Suc index, s3\<lparr>motherlobe := (motherlobe s3)[index := v]\<rparr>))
         else (index, s1))"

definition disk_search_and_init ::
  "'d port_io \<Rightarrow> ('d, 'z) disk_state_scheme \<Rightarrow> ('d, 'z) disk_state_scheme" where
  "disk_search_and_init io s =
     (let s1 = upd_disk (disk1 s) (\<lambda>k. k\<lparr>dtype := DISK_TYPE_REAL, ata_code := ucast (G_BOOT_DRIVE s)\<rparr>) s
      in case heap_cream_malloc 512 s1 of (buf, s2) \<Rightarrow>
        let s3 = get_disk_info io (disk1 s2) 0xec buf (set_disk_info (disk1 s2) s2);
            s4 = upd_disk (disk1 s3) (\<lambda>k. k\<lparr>sect_count := sectors_of (mem s3) buf, sect_size := 512\<rparr>) s3;
            s5 = s4\<lparr>motherlobe := (motherlobe s4)[0 := disk1 s4]\<rparr>
        in case fold (search_step io buf) [0x81, 0x82, 0x83] (1, s5) of
             (_, s6) \<Rightarrow> snd (heap_cream_free buf s6))"

text \<open>\<open>motherlobe[index]\<close>; there is no check, an index of 5 or more reads past the array (\<open>None\<close>).\<close>

definition get_disk :: "u32 \<Rightarrow> ('d, 'z) disk_state_scheme \<Rightarrow> addr option" where
  "get_disk index s = (if unat index < length (motherlobe s) then Some (motherlobe s ! unat index) else None)"

section \<open>Reading and writing sectors\<close>

text \<open>
  The loops over the sectors: the result code, the memory and the device.  \<open>cur\<close> is \<open>cur_start\<close>.
\<close>

fun read_sectors :: "'d port_io \<Rightarrow> u16 \<Rightarrow> nat \<Rightarrow> addr \<Rightarrow> mem \<times> 'd \<Rightarrow> int \<times> mem \<times> 'd" where
  "read_sectors io base 0 cur md = (0, md)"
| "read_sectors io base (Suc n) cur (m, d) =
     (case wait_while (not_data_ready io (base + 7)) ATA_WAIT d of
       (False, d1) \<Rightarrow> (- TIMEOUT, m, d1)
     | (True, d1) \<Rightarrow>
         (case status_error io (base + 7) d1 of
           (True, d2) \<Rightarrow> (DISK_READ_ERR, m, d2)
         | (False, d2) \<Rightarrow>
             read_sectors io base n (cur + 512) (in_words io base SECTOR_SIZE_DISK_GENERAL_WORD cur (m, d2))))"

fun write_sectors :: "'d port_io \<Rightarrow> u16 \<Rightarrow> nat \<Rightarrow> addr \<Rightarrow> mem \<Rightarrow> 'd \<Rightarrow> int \<times> 'd" where
  "write_sectors io base 0 cur m d = (0, d)"
| "write_sectors io base (Suc n) cur m d =
     (case wait_while (not_data_ready io (base + 7)) ATA_WAIT d of
       (False, d1) \<Rightarrow> (- TIMEOUT, d1)
     | (True, d1) \<Rightarrow>
         (case status_error io (base + 7) d1 of
           (True, d2) \<Rightarrow> (DISK_WRITE_ERR, d2)
         | (False, d2) \<Rightarrow>
             write_sectors io base n (cur + 512) m (out_words io base SECTOR_SIZE_DISK_GENERAL_WORD cur m d2)))"

text \<open>What both functions do before the command: select the drive, wait, set the registers, wait.\<close>

definition select_drive :: "'d port_io \<Rightarrow> disk \<Rightarrow> u32 \<Rightarrow> 'd \<Rightarrow> 'd" where
  "select_drive io k lba d =
     outb_p io (base_data_port k + 6)
       (if is_master k \<noteq> 0 then ucast (0xe0 OR (drop_bit 24 lba AND 0x0f)) else ucast (0xf0 OR (drop_bit 24 lba AND 0xf))) d"

definition set_registers :: "'d port_io \<Rightarrow> u16 \<Rightarrow> u32 \<Rightarrow> u32 \<Rightarrow> 'd \<Rightarrow> 'd" where
  "set_registers io base lba total' d =
     (let d1 = outb_p io (base + 2) (ucast (total' AND 0xff)) d;
          d2 = outb_p io (base + 3) (ucast (lba AND 0xff)) d1;
          d3 = outb_p io (base + 4) (ucast (drop_bit 8 lba AND 0xff)) d2
      in outb_p io (base + 5) (ucast (drop_bit 16 lba AND 0xff)) d3)"

definition read_disk_block ::
  "'d port_io \<Rightarrow> addr \<Rightarrow> u32 \<Rightarrow> u32 \<Rightarrow> addr \<Rightarrow> ('d, 'z) disk_state_scheme \<Rightarrow> int \<times> ('d, 'z) disk_state_scheme" where
  "read_disk_block io disk_p lba total' buf s =
     (let k = disk_at s disk_p; base = base_data_port k
      in if sect_count k < lba + total' then (- GEN32_INVARG, s)
         else
           case wait_while (busy io (base + 7)) ATA_WAIT (select_drive io k lba (dev s)) of
             (False, d1) \<Rightarrow> (- TIMEOUT, s\<lparr>dev := d1\<rparr>)
           | (True, d1) \<Rightarrow>
             (case wait_while (busy io (base + 7)) ATA_WAIT (set_registers io base lba total' d1) of
               (False, d2) \<Rightarrow> (- TIMEOUT, s\<lparr>dev := d2\<rparr>)
             | (True, d2) \<Rightarrow>
               (case wait_while (busy io (base + 7)) ATA_WAIT (outb_p io (base + 7) 0x20 d2) of
                 (False, d3) \<Rightarrow> (- TIMEOUT, s\<lparr>dev := d3\<rparr>)
               | (True, d3) \<Rightarrow>
                 (case read_sectors io base (unat total') buf (mem s, d3) of
                   (r, m, d4) \<Rightarrow> (r, s\<lparr>mem := m, dev := d4\<rparr>)))))"

definition write_disk_block ::
  "'d port_io \<Rightarrow> addr \<Rightarrow> u32 \<Rightarrow> u32 \<Rightarrow> addr \<Rightarrow> ('d, 'z) disk_state_scheme \<Rightarrow> int \<times> ('d, 'z) disk_state_scheme" where
  "write_disk_block io disk_p lba total' buf s =
     (let k = disk_at s disk_p; base = base_data_port k
      in if sect_count k < lba + total' then (- GEN32_INVARG, s)
         else
           case wait_while (busy io (base + 7)) ATA_WAIT (select_drive io k lba (dev s)) of
             (False, d1) \<Rightarrow> (- TIMEOUT, s\<lparr>dev := d1\<rparr>)
           | (True, d1) \<Rightarrow>
             (case wait_while (busy io (base + 7)) ATA_WAIT (set_registers io base lba total' d1) of
               (False, d2) \<Rightarrow> (- TIMEOUT, s\<lparr>dev := d2\<rparr>)
             | (True, d2) \<Rightarrow>
               (case write_sectors io base (unat total') buf (mem s) (outb_p io (base + 7) 0x30 d2) of
                 (r, d3) \<Rightarrow>
                   if r \<noteq> 0 then (r, s\<lparr>dev := d3\<rparr>)
                   else
                     case wait_while (busy io (base + 7)) ATA_WAIT d3 of
                       (False, d4) \<Rightarrow> (- TIMEOUT, s\<lparr>dev := d4\<rparr>)
                     | (True, d4) \<Rightarrow>
                       (case status_error io (base + 7) d4 of
                         (True, d5) \<Rightarrow> (DISK_WRITE_ERR, s\<lparr>dev := d5\<rparr>)
                       | (False, d5) \<Rightarrow> (0, s\<lparr>dev := d5\<rparr>)))))"

text \<open>One line group of \<open>disk_debug_print\<close>, and the loop over the first four disks.\<close>

definition disk_debug_one :: "disk \<Rightarrow> 'z console_scheme \<Rightarrow> 'z console_scheme" where
  "disk_debug_one k s =
     (let s1 = print nl (print_32 (ata_code k) (print (lit ''ata_code:0x'') s));
          s2 = print nl (print_16 (base_data_port k) (print (lit ''base/data port:0x'') s1));
          s3 = print nl (print_16 (control_port k) (print (lit ''control port:0x'') s2));
          s4 = print nl (print_16 (command_status_port k) (print (lit ''command/status port:0x'') s3));
          s5 = print nl (print_16 (head k) (print (lit ''head:0x'') s4));
          s6 = print nl (print_hex (drive_head k) (print (lit ''drive head:0x'') s5));
          s7 = print nl (print_hex (is_master k) (print (lit ''is master:0x'') s6));
          s8 = print nl (print_32 (sect_count k) (print (lit ''sector count:0x'') s7))
      in print nl (print_32 (sect_size k) (print (lit ''sect size:0x'') s8)))"

definition disk_debug_print :: "('d, 'z) disk_state_scheme \<Rightarrow> ('d, 'z) disk_state_scheme" where
  "disk_debug_print s =
     fold (\<lambda>i s. if motherlobe s ! i \<noteq> 0 then disk_debug_one (disk_at s (motherlobe s ! i)) s else s) [0..<4] s"

text \<open>What the console and the start of the heap leave alone.\<close>

lemma print_disk_state [simp]:
  "dev (print cs s) = dev s" "disk_at (print cs s) = disk_at s" "part_at (print cs s) = part_at s"
  "motherlobe (print cs s) = motherlobe s" "disk1 (print cs s) = disk1 s"
  using print_ext [of cs s] by auto

lemma kheap_init_disk_state [simp]:
  "dev (kheap_init s) = dev s" "disk_at (kheap_init s) = disk_at s" "part_at (kheap_init s) = part_at s"
  "motherlobe (kheap_init s) = motherlobe s" "disk1 (kheap_init s) = disk1 s"
  by (simp_all add: kheap_init_def heap_create_def Let_def heap_validate_alignment_def heap_entry_count_def const_defs)

end
