(* ===== verification/Ata.thy ===== *)
theory Ata
  imports Disk
begin

text \<open>
  What the driver relies on in the drives of one ATA channel, as a locale: registers that keep what
  is written to them, a status byte that is busy for a bounded number of reads and then shows
  whether data is to be transferred, and the sector transfers of the commands 0x20 and 0x30 (LBA28,
  programmed I/O).  Under this contract \<open>read_disk_block\<close> and \<open>write_disk_block\<close> move whole sectors.
\<close>

section \<open>Sectors as bytes\<close>

text \<open>The two bytes of a data-port word, low byte first, and a sector as bytes.\<close>

definition word_bytes :: "u16 \<Rightarrow> byte list" where
  "word_bytes w = [ucast w, ucast (drop_bit 8 w)]"

definition sector_bytes :: "u16 list \<Rightarrow> byte list" where
  "sector_bytes ws = concat (map word_bytes ws)"

fun put_words :: "mem \<Rightarrow> addr \<Rightarrow> u16 list \<Rightarrow> mem" where
  "put_words m a [] = m"
| "put_words m a (w # ws) = put_words (st16 m a w) (a + 2) ws"

lemma length_sector_bytes [simp]: "length (sector_bytes ws) = 2 * length ws"
  by (induction ws) (simp_all add: sector_bytes_def word_bytes_def)

lemma sector_bytes_append: "sector_bytes (xs @ ys) = sector_bytes xs @ sector_bytes ys"
  by (simp add: sector_bytes_def)

lemma put_words_append: "put_words m a (xs @ ys) = put_words (put_words m a xs) (a + 2 * of_nat (length xs)) ys"
  by (induction xs arbitrary: m a) (simp_all add: algebra_simps)

lemma put_words_snoc: "put_words m a (xs @ [w]) = st16 (put_words m a xs) (a + 2 * of_nat (length xs)) w"
  by (simp add: put_words_append)

lemma put_words_bytes: "2 * length ws \<le> 2 ^ 32 \<Longrightarrow> put_words m a ws = put_bytes m a (sector_bytes ws)"
proof (induction ws arbitrary: m a)
  case (Cons w ws)
  have "sector_bytes (w # ws) = ucast w # ucast (drop_bit 8 w) # sector_bytes ws"
    by (simp add: sector_bytes_def word_bytes_def)
  with Cons show ?case by (simp add: put_bytes_Cons st16_def add.assoc)
qed (simp add: sector_bytes_def)

lemma put_words_fold:
  "n \<le> length ws \<Longrightarrow> fold (\<lambda>j m. st16 m (a + 2 * of_nat j) (ws ! j)) [0..<n] m = put_words m a (take n ws)"
proof (induction n)
  case (Suc n)
  then show ?case using put_words_snoc [of m a "take n ws" "ws ! n"] by (simp add: take_Suc_conv_app_nth)
qed simp

text \<open>A word list read from the memory, and the bytes it came from.\<close>

definition words_at :: "mem \<Rightarrow> addr \<Rightarrow> nat \<Rightarrow> u16 list" where
  "words_at m a n = map (\<lambda>j. ld16 m (a + 2 * of_nat j)) [0..<n]"

lemma word_bytes_ld16: "word_bytes (ld16 m a) = [m a, m (a + 1)]"
proof -
  have "(ucast (ld16 m a) :: byte) = m a" "(ucast (drop_bit 8 (ld16 m a)) :: byte) = m (a + 1)"
    by (rule bit_word_eqI, auto simp: ld16_def bit_simps dest: bit_imp_le_length)+
  then show ?thesis by (simp add: word_bytes_def)
qed

lemma sector_bytes_words_at: "sector_bytes (words_at m a n) = bytes_at m a (2 * n)"
proof (induction n)
  case (Suc n)
  have "sector_bytes (words_at m a (Suc n)) = bytes_at m a (2 * n) @ [m (a + 2 * of_nat n), m (a + 2 * of_nat n + 1)]"
    using Suc by (simp add: words_at_def sector_bytes_append) (simp add: sector_bytes_def word_bytes_ld16)
  then show ?case using bytes_at_append [of m a "2 * n" 2] by (simp add: bytes_at_Suc numeral_2_eq_2)
qed (simp add: words_at_def sector_bytes_def)

lemma words_at_Suc: "words_at m a (Suc n) = words_at m a n @ [ld16 m (a + 2 * of_nat n)]"
  by (simp add: words_at_def)

lemma length_words_at [simp]: "length (words_at m a n) = n"
  by (simp add: words_at_def)

lemma word_bytes_inj: "word_bytes v = word_bytes w \<Longrightarrow> v = w"
proof -
  assume e: "word_bytes v = word_bytes w"
  show "v = w"
  proof (rule bit_word_eqI)
    fix n assume n: "n < LENGTH(16)"
    show "bit v n \<longleftrightarrow> bit w n"
    proof (cases "n < 8")
      case True
      have "bit (ucast v :: byte) n = bit (ucast w :: byte) n" using e by (simp add: word_bytes_def)
      with True show ?thesis by (simp add: bit_simps)
    next
      case False
      have "bit (ucast (drop_bit 8 v) :: byte) (n - 8) = bit (ucast (drop_bit 8 w) :: byte) (n - 8)"
        using e by (simp add: word_bytes_def)
      moreover have "n - 8 < 8" using False n by simp
      ultimately show ?thesis using False by (simp add: bit_simps)
    qed
  qed
qed

lemma sector_bytes_inj: "length xs = length ys \<Longrightarrow> sector_bytes xs = sector_bytes ys \<Longrightarrow> xs = ys"
  by (induction rule: list_induct2) (auto simp: sector_bytes_def word_bytes_def intro: word_bytes_inj [unfolded word_bytes_def])

lemma words_at_put_bytes:
  assumes "2 * length ws \<le> 2 ^ 32"
  shows "words_at (put_bytes m a (sector_bytes ws)) a (length ws) = ws"
  using assms bytes_at_put_bytes [of "sector_bytes ws" m a]
  by (intro sector_bytes_inj) (simp_all add: sector_bytes_words_at)

lemma ld16_put_sector:
  assumes "length ws = 256" and "k < 256"
  shows "ld16 (put_bytes m a (sector_bytes ws)) (a + 2 * of_nat k) = ws ! k"
proof -
  have "words_at (put_bytes m a (sector_bytes ws)) a 256 ! k = ws ! k" using words_at_put_bytes [of ws m a] assms by simp
  then show ?thesis using assms(2) by (simp add: words_at_def)
qed

text \<open>The \<open>n\<close> sectors of a buffer, and a medium on which the sectors \<open>xs\<close> stand from \<open>l\<close> on.\<close>

definition word_sectors :: "mem \<Rightarrow> addr \<Rightarrow> nat \<Rightarrow> u16 list list" where
  "word_sectors m a n = map (\<lambda>i. words_at m (a + 512 * of_nat i) 256) [0..<n]"

definition put_sectors :: "(nat \<Rightarrow> u16 list) \<Rightarrow> nat \<Rightarrow> u16 list list \<Rightarrow> nat \<Rightarrow> u16 list" where
  "put_sectors f l xs = (\<lambda>i. if l \<le> i \<and> i < l + length xs then xs ! (i - l) else f i)"

lemma word_sectors_Suc: "word_sectors m a (Suc n) = words_at m a 256 # word_sectors m (a + 512) n"
  by (simp add: word_sectors_def upt_conv_Cons map_Suc_upt [symmetric] algebra_simps del: upt_Suc)

lemma put_sectors_Cons: "put_sectors (f(l := x)) (Suc l) xs = put_sectors f l (x # xs)"
proof
  fix i
  show "put_sectors (f(l := x)) (Suc l) xs i = put_sectors f l (x # xs) i"
  proof (cases "i = l")
    case False
    then have "i - l = Suc (i - Suc l)" if "l \<le> i" using that by simp
    with False show ?thesis by (auto simp: put_sectors_def)
  qed (simp add: put_sectors_def)
qed

lemma put_sectors_Nil [simp]: "put_sectors f l [] = f"
  by (auto simp: put_sectors_def fun_eq_iff)

section \<open>The contract of a drive\<close>

datatype ata_phase = Idle | Reading "u16 list" | Writing nat nat "u16 list"

text \<open>The sector address and count in the registers; a count of 0 stands for 256.\<close>

definition lba_of :: "(nat \<Rightarrow> byte) \<Rightarrow> nat" where
  "lba_of r = unat (r 6 AND 0x0f) * 2 ^ 24 + unat (r 5) * 2 ^ 16 + unat (r 4) * 2 ^ 8 + unat (r 3)"

definition count_of :: "(nat \<Rightarrow> byte) \<Rightarrow> nat" where
  "count_of r = (if r 2 = 0 then 256 else unat (r 2))"

text \<open>Bit 4 of the drive register selects the slave.\<close>

definition slave_of :: "(nat \<Rightarrow> byte) \<Rightarrow> bool" where
  "slave_of r \<longleftrightarrow> r 6 AND 0x10 \<noteq> 0"

text \<open>The registers the driver writes hold the address, the count and the drive of the request.\<close>

lemma unat_byte: "unat (ucast (x AND 0xff) :: byte) = unat (x :: u32) mod 2 ^ 8"
proof -
  have "x AND 0xff = take_bit 8 x" by (simp add: take_bit_eq_mask mask_eq_exp_minus_1)
  then show ?thesis by (simp add: unsigned_ucast_eq unsigned_take_bit_eq) (simp add: take_bit_eq_mod unat_mod)
qed

lemma drive_low:
  "ucast (0xe0 OR (x AND 0x0f)) AND (0x0f :: byte) = ucast ((x :: u32) AND 0x0f)"
  "ucast (0xf0 OR (x AND 0x0f)) AND (0x0f :: byte) = ucast ((x :: u32) AND 0x0f)"
proof -
  have a: "y AND (0x0f :: byte) = take_bit 4 y" for y by (simp add: take_bit_eq_mask mask_eq_exp_minus_1)
  have b: "x AND 0x0f = take_bit 4 x" by (simp add: take_bit_eq_mask mask_eq_exp_minus_1)
  have c: "take_bit 4 (ucast z :: byte) = ucast (take_bit 4 z)" for z :: u32
    by (rule bit_word_eqI) (auto simp: bit_simps)
  show "ucast (0xe0 OR (x AND 0x0f)) AND (0x0f :: byte) = ucast ((x :: u32) AND 0x0f)"
    "ucast (0xf0 OR (x AND 0x0f)) AND (0x0f :: byte) = ucast (x AND 0x0f)"
    unfolding a b c by (simp_all add: take_bit_or)
qed

lemma drive_bit4:
  "ucast (0xe0 OR (x AND 0x0f)) AND (0x10 :: byte) = 0"
  "ucast (0xf0 OR (x AND 0x0f)) AND (0x10 :: byte) \<noteq> 0" for x :: u32
proof -
  have b: "x AND 0x0f = take_bit 4 x" by (simp add: take_bit_eq_mask mask_eq_exp_minus_1)
  have p: "(0x10 :: byte) = 2 ^ 4" by simp
  have "\<not> bit (0xe0 :: int) 4" "bit (0xf0 :: int) 4" by simp_all
  then have "\<not> bit (ucast (0xe0 OR (x AND 0x0f)) :: byte) 4" "bit (ucast (0xf0 OR (x AND 0x0f)) :: byte) 4"
    unfolding b by (simp_all add: bit_simps)
  then show "ucast (0xe0 OR (x AND 0x0f)) AND (0x10 :: byte) = 0"
    "ucast (0xf0 OR (x AND 0x0f)) AND (0x10 :: byte) \<noteq> 0"
    unfolding p and_exp_eq_0_iff_not_bit by simp_all
qed

lemma base256:
  "n = n div 2 ^ 24 * 2 ^ 24 + n div 2 ^ 16 mod 2 ^ 8 * 2 ^ 16 + n div 2 ^ 8 mod 2 ^ 8 * 2 ^ 8 + n mod 2 ^ 8" for n :: nat
proof -
  have a: "x = d * 2 ^ 24 + p * 2 ^ 16 + q * 2 ^ 8 + r" if "x = b * 2 ^ 8 + r" "b = c * 2 ^ 8 + q" "c = d * 2 ^ 8 + p"
    for x b c d p q r :: nat
    using that by simp
  have "n = n div 2 ^ 8 * 2 ^ 8 + n mod 2 ^ 8" by simp
  moreover have "n div 2 ^ 8 = n div 2 ^ 16 * 2 ^ 8 + n div 2 ^ 8 mod 2 ^ 8"
    using div_mult_mod_eq [of "n div 2 ^ 8" "2 ^ 8"] by (simp add: div_mult2_eq [symmetric])
  moreover have "n div 2 ^ 16 = n div 2 ^ 24 * 2 ^ 8 + n div 2 ^ 16 mod 2 ^ 8"
    using div_mult_mod_eq [of "n div 2 ^ 16" "2 ^ 8"] by (simp add: div_mult2_eq [symmetric])
  ultimately show ?thesis by (rule a)
qed

lemma lba_digits:
  assumes "unat lba < 2 ^ 28"
  shows "unat (drop_bit 24 lba AND 0x0f :: u32) * 2 ^ 24 + unat (drop_bit 16 lba) mod 2^8 * 2 ^ 16 + unat (drop_bit 8 lba) mod 2 ^ 8 * 2 ^ 8
   + unat lba mod 2 ^ 8 = unat lba"
proof -
  have b: "drop_bit 24 lba AND 0x0f = take_bit 4 (drop_bit 24 lba)" by (simp add: take_bit_eq_mask mask_eq_exp_minus_1)
  define n where "n = unat lba"
  have "take_bit 32 (unat lba) = unat lba" using unat_lt_2p32 [of lba] by (simp add: take_bit_nat_eq_self)
  then have "unat (drop_bit k lba) = n div 2 ^ k" for k
    by (simp add: n_def unsigned_drop_bit_eq) (simp add: drop_bit_eq_div)
  moreover have "unat (take_bit 4 (drop_bit 24 lba)) = n div 2 ^ 24"
    using assms by (simp add: n_def unsigned_take_bit_eq unsigned_drop_bit_eq) (simp add: take_bit_eq_mod drop_bit_eq_div)
  moreover have "n = n div 2 ^ 24 * 2 ^ 24 + n div 2 ^ 16 mod 2 ^ 8 * 2 ^ 16 + n div 2 ^ 8 mod 2 ^ 8 * 2 ^ 8 + n mod 2 ^ 8"
    by (rule base256)
  ultimately show ?thesis unfolding b n_def by (metis n_def)
qed

lemma unsigned_ucast_low4: "unat (ucast (x AND 0x0f) :: byte) = unat ((x :: u32) AND 0x0f)"
proof -
  have "x AND 0x0f = take_bit 4 x" by (simp add: take_bit_eq_mask mask_eq_exp_minus_1)
  then show ?thesis by (simp add: unsigned_ucast_eq unsigned_take_bit_eq)
qed

lemma count_byte:
  "0 < unat n \<Longrightarrow> unat (n :: u32) \<le> 256 \<Longrightarrow>
    (if (ucast (n AND 0xff) :: byte) = 0 then 256 else unat (ucast (n AND 0xff) :: byte)) = unat n"
proof -
  assume n: "0 < unat n" "unat n \<le> 256"
  have "(ucast (n AND 0xff) :: byte) = 0 \<longleftrightarrow> unat n mod 2 ^ 8 = 0"
    by (metis unat_byte unat_0 unat_eq_zero)
  then show ?thesis using n by (cases "unat n = 256") (simp_all add: unat_byte)
qed

text \<open>A disk record that leads to a drive of the channel at \<open>base\<close>.\<close>

definition attached :: "u16 \<Rightarrow> (bool \<Rightarrow> bool) \<Rightarrow> disk \<Rightarrow> bool" where
  "attached base drives k \<longleftrightarrow> base_data_port k = base \<and> drives (is_master k = 0)"

lemma attached_update [simp]: "attached base drives (k\<lparr>link_list := l\<rparr>) = attached base drives k"
  by (simp add: attached_def)

lemma attached_all [simp]: "attached base (\<lambda>_. True) k \<longleftrightarrow> base_data_port k = base"
  by (simp add: attached_def)

text \<open>
  The drives that are on the channel are the parameter \<open>drives\<close> (its argument is true for the slave).  The
  registers are shared, so they can be written with an absent drive selected; only the commands need a drive.
\<close>

locale ata_drive =
  fixes io :: "'d port_io"
    and base :: u16
    and drives :: "bool \<Rightarrow> bool"
    and inv :: "'d \<Rightarrow> bool"
    and regs :: "'d \<Rightarrow> nat \<Rightarrow> byte"
    and media :: "'d \<Rightarrow> bool \<Rightarrow> nat \<Rightarrow> u16 list"
    and phase :: "'d \<Rightarrow> ata_phase"
    and pending :: "'d \<Rightarrow> nat"
  assumes pending_bound: "inv d \<Longrightarrow> pending d \<le> ATA_WAIT"
    and sector_words: "inv d \<Longrightarrow> length (media d sl n) = 256"
    and status: "inv d \<Longrightarrow> inb_p io (base + 7) d = (v, d') \<Longrightarrow>
      inv d' \<and> regs d' = regs d \<and> media d' = media d \<and> phase d' = phase d \<and> pending d' = pending d - 1 \<and>
      (if 0 < pending d then v AND 0x80 \<noteq> 0
       else v AND 0x80 = 0 \<and> v AND 0x01 = 0 \<and> v AND 0x20 = 0 \<and> v AND 0x88 = (if phase d = Idle then 0 else 0x08))"
    and register: "inv d \<Longrightarrow> phase d = Idle \<Longrightarrow> 2 \<le> r \<Longrightarrow> r \<le> 6 \<Longrightarrow> d' = outb_p io (base + of_nat r) v d \<Longrightarrow>
      inv d' \<and> regs d' = (regs d)(r := v) \<and> media d' = media d \<and> phase d' = Idle"
    and read_command: "inv d \<Longrightarrow> phase d = Idle \<Longrightarrow> drives (slave_of (regs d)) \<Longrightarrow> d' = outb_p io (base + 7) 0x20 d \<Longrightarrow>
      inv d' \<and> regs d' = regs d \<and> media d' = media d \<and>
      phase d' = Reading (concat (map (media d (slave_of (regs d)))
        [lba_of (regs d)..<lba_of (regs d) + count_of (regs d)]))"
    and read_word: "inv d \<Longrightarrow> phase d = Reading (w # ws) \<Longrightarrow> pending d = 0 \<Longrightarrow> in16_p io base d = (x, d') \<Longrightarrow>
      x = w \<and> inv d' \<and> regs d' = regs d \<and> media d' = media d \<and>
      phase d' = (if ws = [] then Idle else Reading ws) \<and> (length ws mod 256 \<noteq> 0 \<longrightarrow> pending d' = 0)"
    and write_command: "inv d \<Longrightarrow> phase d = Idle \<Longrightarrow> drives (slave_of (regs d)) \<Longrightarrow> d' = outb_p io (base + 7) 0x30 d \<Longrightarrow>
      inv d' \<and> regs d' = regs d \<and> media d' = media d \<and>
      phase d' = Writing (lba_of (regs d)) (count_of (regs d)) []"
    and write_word: "inv d \<Longrightarrow> phase d = Writing l n ws \<Longrightarrow> length ws < 256 \<Longrightarrow> pending d = 0 \<Longrightarrow>
      d' = out16_p io base w d \<Longrightarrow>
      inv d' \<and> regs d' = regs d \<and>
      (if length ws < 255 then media d' = media d \<and> phase d' = Writing l n (ws @ [w]) \<and> pending d' = 0
       else media d' = (media d)(slave_of (regs d) := (media d (slave_of (regs d)))(l := ws @ [w])) \<and>
         phase d' = (if n \<le> 1 then Idle else Writing (Suc l) (n - 1) []))"
begin

text \<open>Two device states that differ in the time left only.\<close>

definition same :: "'d \<Rightarrow> 'd \<Rightarrow> bool" where
  "same d d' \<longleftrightarrow> regs d' = regs d \<and> media d' = media d \<and> phase d' = phase d"

lemma same_refl [simp]: "same d d"
  by (simp add: same_def)

lemma same_trans: "same d d' \<Longrightarrow> same d' d'' \<Longrightarrow> same d d''"
  by (simp add: same_def)

lemma wait_pending:
  assumes "inv d" and "pending d \<le> k"
    and c: "\<And>d. inv d \<Longrightarrow> \<exists>d'. inv d' \<and> same d d' \<and> pending d' = pending d - 1 \<and> c d = (0 < pending d \<or> stuck d, d')"
    and stuck: "\<And>d'. same d d' \<Longrightarrow> \<not> stuck d'"
  shows "\<exists>d'. wait_while c k d = (True, d') \<and> inv d' \<and> same d d' \<and> pending d' = 0"
  using assms(1,2) stuck
proof (induction k arbitrary: d)
  case 0
  obtain d' where d': "inv d'" "same d d'" "pending d' = pending d - 1" "c d = (0 < pending d \<or> stuck d, d')"
    using c [OF 0(1)] by blast
  with 0 show ?case by (simp add: wait_while.simps [of c 0 d])
next
  case (Suc k)
  obtain d' where d': "inv d'" "same d d'" "pending d' = pending d - 1" "c d = (0 < pending d \<or> stuck d, d')"
    using c [OF Suc.prems(1)] by blast
  show ?case
  proof (cases "0 < pending d")
    case True
    have "\<exists>d''. wait_while c k d' = (True, d'') \<and> inv d'' \<and> same d' d'' \<and> pending d'' = 0"
    proof (rule Suc.IH)
      show "inv d'" by (rule d'(1))
      show "pending d' \<le> k" using d'(3) Suc.prems(2) by simp
      show "\<And>d''. same d' d'' \<Longrightarrow> \<not> stuck d''" using Suc.prems(3) same_trans [OF d'(2)] by blast
    qed
    then obtain d'' where d'': "wait_while c k d' = (True, d'')" "inv d''" "same d' d''" "pending d'' = 0"
      by blast
    have "wait_while c (Suc k) d = (True, d'')"
      using d'(4) True d''(1) by (simp add: wait_while.simps [of c "Suc k" d])
    then show ?thesis using d''(2,4) same_trans [OF d'(2) d''(3)] by blast
  next
    case False
    then show ?thesis using d' Suc.prems(3) by (simp add: wait_while.simps [of c "Suc k" d])
  qed
qed

lemma busy_step:
  "inv d \<Longrightarrow> \<exists>d'. inv d' \<and> same d d' \<and> pending d' = pending d - 1 \<and>
    busy io (base + 7) d = (0 < pending d \<or> False, d')"
proof -
  assume d: "inv d"
  obtain v d' where v: "inb_p io (base + 7) d = (v, d')" by fastforce
  from status [OF d v] show ?thesis
    by (cases "0 < pending d") (simp_all add: busy_def same_def v)
qed

lemma data_step:
  "inv d \<Longrightarrow> \<exists>d'. inv d' \<and> same d d' \<and> pending d' = pending d - 1 \<and>
    not_data_ready io (base + 7) d = (0 < pending d \<or> phase d = Idle, d')"
proof -
  assume d: "inv d"
  obtain v d' where v: "inb_p io (base + 7) d = (v, d')" by fastforce
  note st = status [OF d v]
  have "v AND 0x88 \<noteq> 0x08" if "0 < pending d"
  proof
    assume e: "v AND 0x88 = 0x08"
    have "v AND 0x80 = (v AND 0x88) AND 0x80" by (simp add: and.assoc)
    also have "\<dots> = 0" by (simp add: e)
    finally show False using st that by simp
  qed
  with st show ?thesis
    by (cases "0 < pending d"; cases "phase d = Idle") (simp_all add: not_data_ready_def same_def v)
qed

lemma wait_busy:
  assumes "inv d"
  obtains d' where "wait_while (busy io (base + 7)) ATA_WAIT d = (True, d')" and "inv d'" and "same d d'"
    and "pending d' = 0"
  using wait_pending [OF assms pending_bound [OF assms] busy_step] by blast

lemma wait_data_ready:
  assumes "inv d" and "phase d \<noteq> Idle"
  obtains d' where "wait_while (not_data_ready io (base + 7)) ATA_WAIT d = (True, d')" and "inv d'" and "same d d'"
    and "pending d' = 0"
proof -
  have "\<And>d'. same d d' \<Longrightarrow> \<not> phase d' = Idle" using assms(2) by (simp add: same_def)
  then show thesis using wait_pending [OF assms(1) pending_bound [OF assms(1)] data_step] that by blast
qed

lemma no_error:
  assumes "inv d" and "pending d = 0"
  obtains d' where "status_error io (base + 7) d = (False, d')" and "inv d'" and "same d d'" and "pending d' = 0"
proof -
  obtain v d1 where v: "inb_p io (base + 7) d = (v, d1)" by fastforce
  note s1 = status [OF assms(1) v]
  obtain w d2 where w: "inb_p io (base + 7) d1 = (w, d2)" by fastforce
  note s2 = status [OF conjunct1 [OF s1] w]
  show thesis
    by (rule that [of d2]) (use s1 s2 v w assms(2) in \<open>auto simp: status_error_def same_def\<close>)
qed

text \<open>One sector through the data port.\<close>

lemma read_words:
  assumes "inv d" and "phase d = Reading ws" and "length ws = 256 * Suc q" and "pending d = 0" and "n \<le> 256"
  shows "\<exists>d'. in_words io base n a (m, d) = (put_words m a (take n ws), d') \<and> inv d' \<and> regs d' = regs d \<and>
    media d' = media d \<and> phase d' = (if drop n ws = [] then Idle else Reading (drop n ws)) \<and>
    (n < 256 \<longrightarrow> pending d' = 0)"
  using assms(5)
proof (induction n)
  case 0
  then show ?case using assms by (intro exI [of _ d]) (auto simp: in_words_def)
next
  case (Suc n)
  then obtain d1 where d1: "in_words io base n a (m, d) = (put_words m a (take n ws), d1)" "inv d1"
    "regs d1 = regs d" "media d1 = media d" "phase d1 = (if drop n ws = [] then Idle else Reading (drop n ws))"
    "pending d1 = 0"
    by auto
  have n: "n < length ws" using Suc.prems assms(3) by simp
  then have ph: "phase d1 = Reading (ws ! n # drop (Suc n) ws)"
    using d1(5) Cons_nth_drop_Suc [OF n] by simp
  obtain x d2 where x: "in16_p io base d1 = (x, d2)" by fastforce
  note rd = read_word [OF d1(2) ph d1(6) x]
  have "length (drop (Suc n) ws) mod 256 \<noteq> 0" if "Suc n < 256"
  proof -
    have "length (drop (Suc n) ws) = (255 - n) + 256 * q" using that assms(3) by simp
    then have "length (drop (Suc n) ws) mod 256 = (255 - n) mod 256" by (simp only: mod_mult_self2)
    also have "\<dots> = 255 - n" by simp
    finally have "length (drop (Suc n) ws) mod 256 = 255 - n" .
    then show ?thesis using that by simp
  qed
  moreover have "in_words io base (Suc n) a (m, d) = (put_words m a (take (Suc n) ws), d2)"
    using d1(1) x rd n put_words_snoc [of m a "take n ws" "ws ! n"]
    by (simp add: in_words_def take_Suc_conv_app_nth)
  ultimately show ?case using rd d1 by (intro exI [of _ d2]) auto
qed

lemma read_sectors_ok:
  assumes "inv d" and "phase d = (if ws = [] then Idle else Reading ws)" and "length ws = 256 * n"
  shows "\<exists>d'. read_sectors io base n cur (m, d) = (0, put_words m cur ws, d') \<and> inv d' \<and> regs d' = regs d \<and>
    media d' = media d \<and> phase d' = Idle"
  using assms
proof (induction n arbitrary: d ws cur m)
  case (Suc n)
  then have ws: "ws \<noteq> []" "phase d = Reading ws" by auto
  obtain d1 where d1: "wait_while (not_data_ready io (base + 7)) ATA_WAIT d = (True, d1)" "inv d1" "same d d1"
    "pending d1 = 0"
    by (rule wait_data_ready [OF Suc.prems(1)]) (use ws in simp)
  obtain d2 where d2: "status_error io (base + 7) d1 = (False, d2)" "inv d2" "same d1 d2" "pending d2 = 0"
    by (rule no_error [OF d1(2,4)])
  have ph2: "phase d2 = Reading ws" "regs d2 = regs d" "media d2 = media d" using ws(2) d1(3) d2(3) by (simp_all add: same_def)
  obtain d3 where d3: "in_words io base 256 cur (m, d2) = (put_words m cur (take 256 ws), d3)" "inv d3"
    "regs d3 = regs d2" "media d3 = media d2" "phase d3 = (if drop 256 ws = [] then Idle else Reading (drop 256 ws))"
    using read_words [OF d2(2) ph2(1) Suc.prems(3) d2(4), of 256 cur m] by auto
  have "length (drop 256 ws) = 256 * n" using Suc.prems(3) by simp
  from Suc.IH [OF d3(2,5) this, of "cur + 512" "put_words m cur (take 256 ws)"]
  obtain d' where d': "read_sectors io base n (cur + 512) (put_words m cur (take 256 ws), d3)
      = (0, put_words (put_words m cur (take 256 ws)) (cur + 512) (drop 256 ws), d')"
    "inv d'" "regs d' = regs d3" "media d' = media d3" "phase d' = Idle" by blast
  have "put_words m cur ws = put_words (put_words m cur (take 256 ws)) (cur + 512) (drop 256 ws)"
    using put_words_append [of m cur "take 256 ws" "drop 256 ws"] Suc.prems(3) by simp
  then have "read_sectors io base (Suc n) cur (m, d) = (0, put_words m cur ws, d')"
    using d1(1) d2(1) d3(1) d'(1) by (simp add: SECTOR_SIZE_DISK_GENERAL_WORD_def)
  then show ?case using d' d3 ph2 by auto
qed auto

lemma write_words:
  assumes "inv d" and "phase d = Writing l k []" and "pending d = 0" and "n \<le> 256"
  shows "inv (out_words io base n a m d) \<and> regs (out_words io base n a m d) = regs d \<and>
    (if n < 256 then media (out_words io base n a m d) = media d \<and> pending (out_words io base n a m d) = 0 \<and>
       phase (out_words io base n a m d) = Writing l k (words_at m a n)
     else media (out_words io base n a m d)
         = (media d)(slave_of (regs d) := (media d (slave_of (regs d)))(l := words_at m a n)) \<and>
       phase (out_words io base n a m d) = (if k \<le> 1 then Idle else Writing (Suc l) (k - 1) []))"
  using assms(4)
proof (induction n)
  case 0
  then show ?case using assms by (simp add: out_words_def words_at_def)
next
  case (Suc n)
  define d1 where "d1 = out_words io base n a m d"
  from Suc have d1: "inv d1" "regs d1 = regs d" "media d1 = media d" "pending d1 = 0"
    "phase d1 = Writing l k (words_at m a n)"
    by (simp_all add: d1_def)
  have e: "out_words io base (Suc n) a m d = out16_p io base (ld16 m (a + 2 * of_nat n)) d1"
    by (simp add: out_words_def d1_def)
  have "length (words_at m a n) < 256" using Suc.prems by simp
  from write_word [OF d1(1,5) this d1(4) e] show ?case
    unfolding words_at_Suc [of m a n] using Suc.prems d1 by (cases "Suc n = 256") simp_all
qed

lemma write_sectors_ok:
  assumes "inv d" and "phase d = (if n = 0 then Idle else Writing l n [])"
  shows "\<exists>d'. write_sectors io base n cur m d = (0, d') \<and> inv d' \<and> regs d' = regs d \<and> phase d' = Idle \<and>
    media d' = (media d)(slave_of (regs d) := put_sectors (media d (slave_of (regs d))) l (word_sectors m cur n))"
  using assms
proof (induction n arbitrary: d l cur)
  case 0
  then show ?case by (simp add: word_sectors_def)
next
  case (Suc n)
  then have ph: "phase d = Writing l (Suc n) []" by simp
  obtain d1 where d1: "wait_while (not_data_ready io (base + 7)) ATA_WAIT d = (True, d1)" "inv d1" "same d d1"
    "pending d1 = 0"
    by (rule wait_data_ready [OF Suc.prems(1)]) (use ph in simp)
  obtain d2 where d2: "status_error io (base + 7) d1 = (False, d2)" "inv d2" "same d1 d2" "pending d2 = 0"
    by (rule no_error [OF d1(2,4)])
  have ph2: "phase d2 = Writing l (Suc n) []" "regs d2 = regs d" "media d2 = media d"
    using ph d1(3) d2(3) by (simp_all add: same_def)
  define d3 where "d3 = out_words io base 256 cur m d2"
  have d3: "inv d3" "regs d3 = regs d" "phase d3 = (if n = 0 then Idle else Writing (Suc l) n [])"
    "media d3 = (media d)(slave_of (regs d) := (media d (slave_of (regs d)))(l := words_at m cur 256))"
    using write_words [OF d2(2) ph2(1) d2(4), of 256 cur m] ph2 by (simp_all add: d3_def)
  obtain d' where d': "write_sectors io base n (cur + 512) m d3 = (0, d')" "inv d'" "regs d' = regs d3" "phase d' = Idle"
    "media d' = (media d3)(slave_of (regs d3) :=
      put_sectors (media d3 (slave_of (regs d3))) (Suc l) (word_sectors m (cur + 512) n))"
    using Suc.IH [OF d3(1,3), of "cur + 512"] by blast
  have "write_sectors io base (Suc n) cur m d = (0, d')"
    using d1(1) d2(1) d'(1) by (simp add: SECTOR_SIZE_DISK_GENERAL_WORD_def d3_def)
  moreover have "media d' = (media d)(slave_of (regs d) :=
      put_sectors (media d (slave_of (regs d))) l (word_sectors m cur (Suc n)))"
    by (simp add: d'(5) d3(2,4) put_sectors_Cons word_sectors_Suc)
  ultimately show ?case using d' d3(2) by auto
qed

text \<open>The registers before a command hold the request.\<close>

lemma request_registers:
  assumes "inv d" and "phase d = Idle" and "base_data_port k = base" and "unat lba < 2 ^ 28" and "0 < unat n"
    and "unat n \<le> 256"
  obtains d1 d2 where "wait_while (busy io (base + 7)) ATA_WAIT (select_drive io k lba d) = (True, d1)"
    and "wait_while (busy io (base + 7)) ATA_WAIT (set_registers io base lba n d1) = (True, d2)"
    and "inv d2" and "phase d2 = Idle" and "media d2 = media d" and "lba_of (regs d2) = unat lba"
    and "count_of (regs d2) = unat n" and "slave_of (regs d2) \<longleftrightarrow> is_master k = 0"
proof -
  define v where "v = (if is_master k \<noteq> 0 then ucast (0xe0 OR (drop_bit 24 lba AND 0x0f))
    else ucast (0xf0 OR (drop_bit 24 lba AND 0xf)) :: byte)"
  have v: "v AND 0x0f = ucast (drop_bit 24 lba AND 0x0f)" "v AND 0x10 \<noteq> 0 \<longleftrightarrow> is_master k = 0"
    by (simp_all add: v_def drive_low drive_bit4)
  have "select_drive io k lba d = outb_p io (base + of_nat 6) v d"
    by (simp add: select_drive_def assms(3) v_def)
  from register [OF assms(1,2) _ _ this] have s: "inv (select_drive io k lba d)" "phase (select_drive io k lba d) = Idle"
    "regs (select_drive io k lba d) = (regs d)(6 := v)" "media (select_drive io k lba d) = media d"
    by simp_all
  obtain d1 where d1: "wait_while (busy io (base + 7)) ATA_WAIT (select_drive io k lba d) = (True, d1)" "inv d1"
    "same (select_drive io k lba d) d1" by (rule wait_busy [OF s(1)])
  have i1: "phase d1 = Idle" using d1(3) s(2) by (simp add: same_def)
  define e1 where "e1 = outb_p io (base + of_nat 2) (ucast (n AND 0xff)) d1"
  define e2 where "e2 = outb_p io (base + of_nat 3) (ucast (lba AND 0xff)) e1"
  define e3 where "e3 = outb_p io (base + of_nat 4) (ucast (drop_bit 8 lba AND 0xff)) e2"
  define e4 where "e4 = outb_p io (base + of_nat 5) (ucast (drop_bit 16 lba AND 0xff)) e3"
  note r1 = register [OF d1(2) i1 _ _ e1_def, simplified]
  note r2 = register [OF _ _ _ _ e2_def, simplified]
  note r3 = register [OF _ _ _ _ e3_def, simplified]
  note r4 = register [OF _ _ _ _ e4_def, simplified]
  have e4: "set_registers io base lba n d1 = e4"
    by (simp add: set_registers_def e1_def e2_def e3_def e4_def)
  have f: "inv e4" "phase e4 = Idle" "media e4 = media d" using r1 r2 r3 r4 d1(3) s(4) by (simp_all add: same_def)
  have g: "regs e4 = (regs d)(6 := v, 2 := ucast (n AND 0xff), 3 := ucast (lba AND 0xff),
      4 := ucast (drop_bit 8 lba AND 0xff), 5 := ucast (drop_bit 16 lba AND 0xff))"
    using r1 r2 r3 r4 d1(3) s(3) by (simp add: same_def)
  obtain d2 where d2: "wait_while (busy io (base + 7)) ATA_WAIT e4 = (True, d2)" "inv d2" "same e4 d2"
    by (rule wait_busy [OF f(1)])
  have h: "regs d2 = regs e4" "phase d2 = Idle" "media d2 = media d" using d2(3) f by (simp_all add: same_def)
  have "lba_of (regs d2) = unat lba"
    using lba_digits [OF assms(4)] by (simp add: lba_of_def h(1) g v(1) unat_byte unsigned_ucast_low4)
  moreover have "count_of (regs d2) = unat n" using count_byte [OF assms(5,6)] by (auto simp: count_of_def h(1) g split: if_splits)
  moreover have "slave_of (regs d2) \<longleftrightarrow> is_master k = 0" by (simp add: slave_of_def h(1) g v(2))
  ultimately show thesis using that [OF d1(1) _ d2(2) h(2,3)] d2(1) e4 by simp
qed

lemma sectors_read_length:
  "inv d \<Longrightarrow> length (concat (map (media d sl) [l..<l + n])) = 256 * n"
  by (induction n) (simp_all add: sector_words)

text \<open>Whole sectors are read, and nothing else of the state changes.\<close>

lemma read_disk_block_ok:
  assumes "inv (dev s)" and "phase (dev s) = Idle" and k: "attached base drives (disk_at s p)"
    and bounds: "unat lba + unat n \<le> unat (sect_count (disk_at s p))" "unat lba + unat n \<le> 2 ^ 28"
    and n: "0 < unat n" "unat n \<le> 256"
  shows "\<exists>d'. read_disk_block io p lba n buf s =
      (0, s\<lparr>mem := put_bytes (mem s) buf (sector_bytes (concat (map (media (dev s) (is_master (disk_at s p) = 0))
        [unat lba..<unat lba + unat n]))), dev := d'\<rparr>) \<and>
    inv d' \<and> phase d' = Idle \<and> media d' = media (dev s)"
proof -
  define sl where "sl \<longleftrightarrow> is_master (disk_at s p) = 0"
  have base: "base_data_port (disk_at s p) = base" and sl: "drives sl" using k by (simp_all add: attached_def sl_def)
  define ws where "ws = concat (map (media (dev s) sl) [unat lba..<unat lba + unat n])"
  have b28: "unat lba < 2 ^ 28" using bounds(2) n by linarith
  have no: "\<not> sect_count (disk_at s p) < lba + n"
    using bounds n unat_lt_2p32 [of "sect_count (disk_at s p)"]
    by (simp add: word_less_nat_alt unat_plus_if' not_less)
  obtain d1 d2 where d: "wait_while (busy io (base + 7)) ATA_WAIT (select_drive io (disk_at s p) lba (dev s)) = (True, d1)"
    "wait_while (busy io (base + 7)) ATA_WAIT (set_registers io base lba n d1) = (True, d2)"
    "inv d2" "phase d2 = Idle" "media d2 = media (dev s)" "lba_of (regs d2) = unat lba"
    "count_of (regs d2) = unat n" "slave_of (regs d2) \<longleftrightarrow> sl"
    unfolding sl_def by (rule request_registers [OF assms(1,2) base b28 n])
  define d3 where "d3 = outb_p io (base + 7) 0x20 d2"
  from read_command [OF d(3,4) _ d3_def] sl d(5-8) have d3: "inv d3" "media d3 = media (dev s)" "phase d3 = Reading ws"
    by (simp_all add: ws_def)
  obtain d4 where d4: "wait_while (busy io (base + 7)) ATA_WAIT d3 = (True, d4)" "inv d4" "same d3 d4"
    by (rule wait_busy [OF d3(1)])
  have len: "length ws = 256 * unat n" unfolding ws_def by (rule sectors_read_length [OF assms(1)])
  then have ph: "phase d4 = (if ws = [] then Idle else Reading ws)" using d4(3) d3(3) n by (auto simp: same_def)
  obtain d' where d': "read_sectors io base (unat n) buf (mem s, d4) = (0, put_words (mem s) buf ws, d')" "inv d'"
    "media d' = media d4" "phase d' = Idle"
    using read_sectors_ok [OF d4(2) ph len] by blast
  have "2 * length ws \<le> 2 ^ 32" using len n by simp
  then have "read_disk_block io p lba n buf s = (0, s\<lparr>mem := put_bytes (mem s) buf (sector_bytes ws), dev := d'\<rparr>)"
    using no base d(1,2) d4(1) d'(1) by (simp add: read_disk_block_def Let_def d3_def put_words_bytes)
  then show ?thesis using d'(2-4) d4(3) d3(2) by (auto simp: same_def ws_def sl_def)
qed

lemma write_disk_block_ok:
  assumes "inv (dev s)" and "phase (dev s) = Idle" and k: "attached base drives (disk_at s p)"
    and bounds: "unat lba + unat n \<le> unat (sect_count (disk_at s p))" "unat lba + unat n \<le> 2 ^ 28"
    and n: "0 < unat n" "unat n \<le> 256"
  shows "\<exists>d'. write_disk_block io p lba n buf s = (0, s\<lparr>dev := d'\<rparr>) \<and> inv d' \<and> phase d' = Idle \<and>
    media d' = (media (dev s))(is_master (disk_at s p) = 0 :=
      put_sectors (media (dev s) (is_master (disk_at s p) = 0)) (unat lba) (word_sectors (mem s) buf (unat n)))"
proof -
  define sl where "sl \<longleftrightarrow> is_master (disk_at s p) = 0"
  have base: "base_data_port (disk_at s p) = base" and sl: "drives sl" using k by (simp_all add: attached_def sl_def)
  have b28: "unat lba < 2 ^ 28" using bounds(2) n by linarith
  have no: "\<not> sect_count (disk_at s p) < lba + n"
    using bounds n unat_lt_2p32 [of "sect_count (disk_at s p)"]
    by (simp add: word_less_nat_alt unat_plus_if' not_less)
  obtain d1 d2 where d: "wait_while (busy io (base + 7)) ATA_WAIT (select_drive io (disk_at s p) lba (dev s)) = (True, d1)"
    "wait_while (busy io (base + 7)) ATA_WAIT (set_registers io base lba n d1) = (True, d2)"
    "inv d2" "phase d2 = Idle" "media d2 = media (dev s)" "lba_of (regs d2) = unat lba"
    "count_of (regs d2) = unat n" "slave_of (regs d2) \<longleftrightarrow> sl"
    unfolding sl_def by (rule request_registers [OF assms(1,2) base b28 n])
  define d3 where "d3 = outb_p io (base + 7) 0x30 d2"
  from write_command [OF d(3,4) _ d3_def] sl d(5-8) n have d3: "inv d3" "media d3 = media (dev s)" "regs d3 = regs d2"
    "phase d3 = (if unat n = 0 then Idle else Writing (unat lba) (unat n) [])"
    by simp_all
  obtain d4 where d4: "write_sectors io base (unat n) buf (mem s) d3 = (0, d4)" "inv d4" "phase d4 = Idle"
    "media d4 = (media d3)(slave_of (regs d3) :=
      put_sectors (media d3 (slave_of (regs d3))) (unat lba) (word_sectors (mem s) buf (unat n)))"
    using write_sectors_ok [OF d3(1,4)] by blast
  obtain d5 where d5: "wait_while (busy io (base + 7)) ATA_WAIT d4 = (True, d5)" "inv d5" "same d4 d5" "pending d5 = 0"
    by (rule wait_busy [OF d4(2)])
  obtain d6 where d6: "status_error io (base + 7) d5 = (False, d6)" "inv d6" "same d5 d6"
    by (rule no_error [OF d5(2,4)])
  have "write_disk_block io p lba n buf s = (0, s\<lparr>dev := d6\<rparr>)"
    using no base d(1,2) d4(1) d5(1) d6(1) by (simp add: write_disk_block_def Let_def d3_def)
  then show ?thesis
    using d6(2,3) d5(3) d4(3,4) d3(2,3) d(8) by (auto simp: same_def sl_def)
qed

end

end
