(* ===== verification/Pio.thy ===== *)
theory Pio
  imports Ata
begin

text \<open>
  An executable channel with two drives that fulfils the contract of theory \<open>Ata\<close>, and what the
  driver does with it: the sector transfers of \<open>read_disk_block\<close> and \<open>write_disk_block\<close> under the
  contract, and their failures on any device.
\<close>

section \<open>A channel at ports 0x1f0\<close>

text \<open>
  The channel answers a command busy for a few reads of the status, and again after each sector.
\<close>

record channel =
  ch_regs :: "nat \<Rightarrow> byte"
  ch_media :: "bool \<Rightarrow> nat \<Rightarrow> u16 list"
  ch_phase :: ata_phase
  ch_busy :: nat

definition ch_inb :: "u16 \<Rightarrow> channel \<Rightarrow> byte \<times> channel" where
  "ch_inb p d =
     (if p = 0x1f7 then
        if 0 < ch_busy d then (0x80, d\<lparr>ch_busy := ch_busy d - 1\<rparr>)
        else (if ch_phase d = Idle then 0x50 else 0x58, d)
      else (ch_regs d (unat (p - 0x1f0)), d))"

definition ch_in16 :: "u16 \<Rightarrow> channel \<Rightarrow> u16 \<times> channel" where
  "ch_in16 p d =
     (case ch_phase d of
       Reading (w # ws) \<Rightarrow>
         if p = 0x1f0 then
           (w, d\<lparr>ch_phase := if ws = [] then Idle else Reading ws,
                 ch_busy := if length ws mod 256 = 0 then 2 else 0\<rparr>)
         else (0, d)
     | _ \<Rightarrow> (0, d))"

definition ch_outb :: "u16 \<Rightarrow> byte \<Rightarrow> channel \<Rightarrow> channel" where
  "ch_outb p v d =
     (if p = 0x1f7 then
        if v = 0x20 then
          d\<lparr>ch_phase := Reading (concat (map (ch_media d (slave_of (ch_regs d)))
              [lba_of (ch_regs d)..<lba_of (ch_regs d) + count_of (ch_regs d)])), ch_busy := 3\<rparr>
        else if v = 0x30 then
          d\<lparr>ch_phase := Writing (lba_of (ch_regs d)) (count_of (ch_regs d)) [], ch_busy := 3\<rparr>
        else d
      else if 0x1f2 \<le> p \<and> p \<le> 0x1f6 then d\<lparr>ch_regs := (ch_regs d)(unat (p - 0x1f0) := v)\<rparr>
      else d)"

definition ch_out16 :: "u16 \<Rightarrow> u16 \<Rightarrow> channel \<Rightarrow> channel" where
  "ch_out16 p w d =
     (case ch_phase d of
       Writing l n ws \<Rightarrow>
         if p = 0x1f0 then
           if length ws < 255 then d\<lparr>ch_phase := Writing l n (ws @ [w])\<rparr>
           else d\<lparr>ch_media := (ch_media d)(slave_of (ch_regs d) :=
                    (ch_media d (slave_of (ch_regs d)))(l := ws @ [w])),
                  ch_phase := if n \<le> 1 then Idle else Writing (Suc l) (n - 1) [], ch_busy := 2\<rparr>
         else d
     | _ \<Rightarrow> d)"

definition ch_io :: "channel port_io" where
  "ch_io = \<lparr>inb_p = ch_inb, in16_p = ch_in16, outb_p = ch_outb, out16_p = ch_out16\<rparr>"

definition ch_inv :: "channel \<Rightarrow> bool" where
  "ch_inv d \<longleftrightarrow> ch_busy d \<le> ATA_WAIT \<and> (\<forall>sl n. length (ch_media d sl n) = 256)"

interpretation pio: ata_drive ch_io "0x1f0" "\<lambda>_. True" ch_inv ch_regs ch_media ch_phase ch_busy
proof unfold_locales
  fix d d' :: channel and r :: nat and v :: byte
  assume d: "ch_inv d" "ch_phase d = Idle" "2 \<le> r" "r \<le> 6" "d' = outb_p ch_io (0x1f0 + of_nat r) v d"
  then have "r \<in> {2, 3, 4, 5, 6}" by auto
  with d show "ch_inv d' \<and> ch_regs d' = (ch_regs d)(r := v) \<and> ch_media d' = ch_media d \<and> ch_phase d' = Idle"
    by (auto simp: ch_io_def ch_outb_def ch_inv_def)
qed (auto simp: ch_io_def ch_inb_def ch_in16_def ch_outb_def ch_out16_def ch_inv_def ATA_WAIT_def split: if_splits)

section \<open>Sectors written and read back\<close>

lemma length_word_sectors [simp]: "length (word_sectors m a n) = n"
  by (simp add: word_sectors_def)

lemma put_sectors_read: "map (put_sectors f l xs) [l..<l + length xs] = xs"
  by (rule nth_equalityI) (simp_all add: put_sectors_def)

lemma sector_bytes_word_sectors: "sector_bytes (concat (word_sectors m a n)) = bytes_at m a (512 * n)"
proof (induction n)
  case (Suc n)
  have "word_sectors m a (Suc n) = word_sectors m a n @ [words_at m (a + 512 * of_nat n) 256]"
    by (simp add: word_sectors_def)
  then show ?case
    using Suc bytes_at_append [of m a "512 * n" 512] by (simp add: sector_bytes_append sector_bytes_words_at add.commute)
qed (simp add: word_sectors_def sector_bytes_def)

context ata_drive
begin

lemma write_read_block:
  assumes "inv (dev s)" and "phase (dev s) = Idle" and "attached base drives (disk_at s p)"
    and "unat lba + unat n \<le> unat (sect_count (disk_at s p))" and "unat lba + unat n \<le> 2 ^ 28"
    and "0 < unat n" and "unat n \<le> 256"
  shows "\<exists>d1 d2. write_disk_block io p lba n src s = (0, s\<lparr>dev := d1\<rparr>) \<and>
    read_disk_block io p lba n dst (s\<lparr>dev := d1\<rparr>)
      = (0, s\<lparr>mem := put_bytes (mem s) dst (bytes_at (mem s) src (512 * unat n)), dev := d2\<rparr>)"
proof -
  define sl where "sl \<longleftrightarrow> is_master (disk_at s p) = 0"
  obtain d1 where d1: "write_disk_block io p lba n src s = (0, s\<lparr>dev := d1\<rparr>)" "inv d1" "phase d1 = Idle"
    "media d1 = (media (dev s))(sl := put_sectors (media (dev s) sl) (unat lba) (word_sectors (mem s) src (unat n)))"
    using write_disk_block_ok [OF assms] unfolding sl_def by blast
  have "\<exists>d2. read_disk_block io p lba n dst (s\<lparr>dev := d1\<rparr>) = (0, s\<lparr>mem := put_bytes (mem s) dst
      (sector_bytes (concat (map (media d1 sl) [unat lba..<unat lba + unat n]))), dev := d2\<rparr>)"
    using read_disk_block_ok [of "s\<lparr>dev := d1\<rparr>" p lba n dst] d1(2,3) assms(3-7) by (auto simp: sl_def)
  moreover have "map (media d1 sl) [unat lba..<unat lba + unat n] = word_sectors (mem s) src (unat n)"
    using put_sectors_read [of "media (dev s) sl" "unat lba" "word_sectors (mem s) src (unat n)"] by (simp add: d1(4))
  ultimately show ?thesis using d1(1) by (metis sector_bytes_word_sectors)
qed

end

section \<open>A device that stays busy\<close>

lemma wait_while_stuck:
  "(\<And>d. fst (c d)) \<Longrightarrow> wait_while c k d = (False, ((\<lambda>d. snd (c d)) ^^ Suc k) d)"
proof (induction k arbitrary: d)
  case 0
  then show ?case by (cases "c d") (use 0 [of d] in \<open>simp add: wait_while.simps [of c 0]\<close>)
next
  case (Suc k)
  from Suc.prems [of d] obtain d1 where d1: "c d = (True, d1)" by (cases "c d") auto
  have "wait_while c (Suc k) d = wait_while c k d1" by (simp add: wait_while.simps [of c "Suc k"] d1)
  also have "\<dots> = (False, ((\<lambda>d. snd (c d)) ^^ Suc k) d1)" by (rule Suc.IH) (rule Suc.prems)
  finally show ?case by (simp add: d1 funpow_Suc_right del: funpow.simps)
qed

section \<open>Properties\<close>

text \<open>The memory before anything has run, and a channel whose sectors are all zero with two disks on it.\<close>

definition blank_channel :: channel where
  "blank_channel = \<lparr>ch_regs = (\<lambda>_. 0), ch_media = (\<lambda>_ _. replicate 256 0), ch_phase = Idle, ch_busy = 0\<rparr>"

definition blank_disk :: disk where
  "blank_disk = \<lparr>dtype = 0, ata_code = 0x80, base_data_port = 0x1f0, control_port = 0x3f6, command_status_port = 0x1f7,
     head = 0x1f6, drive_head = 0xa0, is_master = 1, sect_size = 512, sect_count = 1000, link_list = 0\<rparr>"

definition blank_state :: "channel disk_state" where
  "blank_state = \<lparr>vedio = (\<lambda>_. 0), cursor_x = 0, cursor_y = 0, mem = (\<lambda>_. 0),
     kernel_heap = \<lparr>table = None, start_addr = 0, end_addr = 0\<rparr>,
     kernel_heap_table = \<lparr>entries = 0, total = 0\<rparr>, mothermary = 0, cur_dir_table = 0, cr0 = 0, cr3 = 0, interrupts = False,
     idt_table = 0x200000, idtr_descriptor = 0x203000, idtr = (0, 0), tick = 0, dev = blank_channel,
     disk_at = (\<lambda>_. blank_disk), part_at = (\<lambda>_. \<lparr>f_disk = 0, fs_type = FS_UNKNOWN, start_sect = 0, sect_num = 0,
       is_bootable = 0, next_part = 0\<rparr>), motherlobe = replicate DISK_SUPPORT_MAX 0, disk1 = 0x204000, G_BOOT_DRIVE = 0x80\<rparr>"

lemma blank_state_disk [simp]:
  "dev blank_state = blank_channel" "disk_at blank_state p = blank_disk" "base_data_port blank_disk = 0x1f0"
  "sect_count blank_disk = 1000" "is_master blank_disk = 1"
  by (simp_all add: blank_state_def blank_disk_def)

lemma blank_channel_inv: "ch_inv blank_channel" "ch_phase blank_channel = Idle"
  by (simp_all add: blank_channel_def ch_inv_def)

text \<open>C12: a read of whole sectors.\<close>

theorem read_disk_block_reads:
  assumes "ata_drive io base drives dinv regs media phase pending"
    and "dinv (dev s)" and "phase (dev s) = Idle" and "attached base drives (disk_at s p)"
    and "unat lba + unat n \<le> unat (sect_count (disk_at s p))" and "unat lba + unat n \<le> 2 ^ 28"
    and "0 < unat n" and "unat n \<le> 256"
  shows "\<exists>d'. read_disk_block io p lba n buf s =
      (0, s\<lparr>mem := put_bytes (mem s) buf (sector_bytes (concat (map (media (dev s) (is_master (disk_at s p) = 0))
        [unat lba..<unat lba + unat n]))), dev := d'\<rparr>) \<and>
    dinv d' \<and> phase d' = Idle \<and> media d' = media (dev s)"
  by (rule ata_drive.read_disk_block_ok [OF assms])

lemma read_disk_block_reads_witness: "fst (read_disk_block ch_io 0x204000 5 2 0x300000 blank_state) = 0"
  using read_disk_block_reads [OF pio.ata_drive_axioms, of blank_state "0x204000" 5 2 "0x300000"]
    by (auto simp: blank_channel_inv)

text \<open>C14: what is written is read back.\<close>

theorem write_disk_block_read_back:
  assumes "ata_drive io base drives dinv regs media phase pending"
    and "dinv (dev s)" and "phase (dev s) = Idle" and "attached base drives (disk_at s p)"
    and "unat lba + unat n \<le> unat (sect_count (disk_at s p))" and "unat lba + unat n \<le> 2 ^ 28"
    and "0 < unat n" and "unat n \<le> 256"
  shows "\<exists>d1 d2. write_disk_block io p lba n src s = (0, s\<lparr>dev := d1\<rparr>) \<and>
    read_disk_block io p lba n dst (s\<lparr>dev := d1\<rparr>)
      = (0, s\<lparr>mem := put_bytes (mem s) dst (bytes_at (mem s) src (512 * unat n)), dev := d2\<rparr>)"
  by (rule ata_drive.write_read_block [OF assms])

lemma write_disk_block_read_back_witness: "fst (write_disk_block ch_io 0x204000 998 2 0x300000 blank_state) = 0"
  using write_disk_block_read_back [OF pio.ata_drive_axioms, of blank_state "0x204000" 998 2 "0x300000" "0x400000"]
    by (auto simp: blank_channel_inv)

text \<open>C13: a write changes the addressed sectors only.\<close>

theorem write_disk_block_writes:
  assumes "ata_drive io base drives dinv regs media phase pending"
    and "dinv (dev s)" and "phase (dev s) = Idle" and "attached base drives (disk_at s p)"
    and "unat lba + unat n \<le> unat (sect_count (disk_at s p))" and "unat lba + unat n \<le> 2 ^ 28"
    and "0 < unat n" and "unat n \<le> 256"
  shows "\<exists>d'. write_disk_block io p lba n buf s = (0, s\<lparr>dev := d'\<rparr>) \<and> dinv d' \<and> phase d' = Idle \<and>
    media d' = (media (dev s))(is_master (disk_at s p) = 0 :=
      put_sectors (media (dev s) (is_master (disk_at s p) = 0)) (unat lba) (word_sectors (mem s) buf (unat n)))"
  by (rule ata_drive.write_disk_block_ok [OF assms])

lemma write_disk_block_writes_witness: "fst (write_disk_block ch_io 0x204000 0 256 0x300000 blank_state) = 0"
  using write_disk_block_writes [OF pio.ata_drive_axioms, of blank_state "0x204000" 0 256 "0x300000"]
    by (auto simp: blank_channel_inv)

text \<open>C16: a device that stays busy.\<close>

theorem disk_block_timeout:
  assumes "\<And>d. fst (inb_p io (base_data_port (disk_at s p) + 7) d) AND 0x80 \<noteq> 0"
    and "lba + n \<le> sect_count (disk_at s p)"
    and "d' = ((\<lambda>d. snd (inb_p io (base_data_port (disk_at s p) + 7) d)) ^^ Suc ATA_WAIT)
      (select_drive io (disk_at s p) lba (dev s))"
  shows "read_disk_block io p lba n buf s = (- TIMEOUT, s\<lparr>dev := d'\<rparr>) \<and>
    write_disk_block io p lba n buf s = (- TIMEOUT, s\<lparr>dev := d'\<rparr>)"
proof -
  let ?p = "base_data_port (disk_at s p) + 7"
  have "busy io ?p = (\<lambda>d. (True, snd (inb_p io ?p d)))" using assms(1) by (simp add: busy_def fun_eq_iff case_prod_beta)
  then have "wait_while (busy io ?p) ATA_WAIT d = (False, ((\<lambda>d. snd (inb_p io ?p d)) ^^ Suc ATA_WAIT) d)" for d
    using wait_while_stuck [of "busy io ?p" ATA_WAIT d] by simp
  then show ?thesis
    using assms(2) by (simp add: read_disk_block_def write_disk_block_def Let_def assms(3) leD)
qed

lemma disk_block_timeout_witness:
  "fst (read_disk_block \<lparr>inb_p = (\<lambda>_ d. (0xff, d)), in16_p = (\<lambda>_ d. (0xffff, d)), outb_p = (\<lambda>_ _ d. d),
      out16_p = (\<lambda>_ _ d. d)\<rparr> 0x204000 5 2 0x300000 blank_state) = - TIMEOUT"
  by (subst disk_block_timeout [THEN conjunct1, OF _ _ refl]) simp_all

end
