(* ===== verification/Disk_Stream.thy ===== *)
theory Disk_Stream
  imports Pio
begin

text \<open>
  The byte stream over a disk, \<open>src/kernel/disk/disk_stream.c\<close>.  A \<open>struct disk_stream\<close> lies in the
  memory: \<open>pos\<close> at its address and \<open>disk_struct\<close> 4 bytes after.  \<open>get_bytes_from_disk_bytes\<close> shows that a request
  delivers exactly the bytes of the disk from \<open>pos\<close> on.
\<close>

definition SECTOR_SIZE :: nat where [const_defs]: "SECTOR_SIZE = 512"
definition sizeof_disk_stream :: u32 where [const_defs]: "sizeof_disk_stream = 8"

text \<open>\<open>init_disk_stream\<close> allocates before it looks at its argument.\<close>

definition init_disk_stream :: "addr \<Rightarrow> 'z kheap_state_scheme \<Rightarrow> addr \<times> 'z kheap_state_scheme" where
  "init_disk_stream disk_p s =
     (case kzalloc sizeof_disk_stream s of (ds, s1) \<Rightarrow>
        if disk_p = 0 then (0, s1)
        else (ds, s1\<lparr>mem := st32 (st32 (mem s1) (ds + 4) disk_p) ds 0\<rparr>))"

definition disk_stream_seek :: "addr \<Rightarrow> u32 \<Rightarrow> 'z machine_scheme \<Rightarrow> 'z machine_scheme" where
  "disk_stream_seek ds position s = s\<lparr>mem := st32 (mem s) ds position\<rparr>"

text \<open>The copy of the part of one sector that is asked for, from \<open>buf[index]\<close> to \<open>ram_location[i]\<close>.\<close>

function copy_sector :: "mem \<Rightarrow> addr \<Rightarrow> nat \<Rightarrow> addr \<Rightarrow> nat \<Rightarrow> nat \<Rightarrow> mem \<times> nat" where
  "copy_sector m buf index ram i no_bytes =
     (if i < no_bytes \<and> index < SECTOR_SIZE then
        copy_sector (st8 m (ram + of_nat i) (m (buf + of_nat index))) buf (Suc index) ram (Suc i) no_bytes
      else (m, i))"
  by pat_completeness auto
termination by (relation "measure (\<lambda>(m, buf, index, ram, i, no_bytes). SECTOR_SIZE - index)") auto

declare copy_sector.simps [simp del]

fun stream_sectors ::
  "'d port_io \<Rightarrow> addr \<Rightarrow> addr \<Rightarrow> addr \<Rightarrow> nat \<Rightarrow> nat \<Rightarrow> u32 \<Rightarrow> nat \<Rightarrow> nat \<Rightarrow>
    ('d, 'z) disk_state_scheme \<Rightarrow> ('d, 'z) disk_state_scheme" where
  "stream_sectors io ds buf ram no_bytes 0 lba index i s = s"
| "stream_sectors io ds buf ram no_bytes (Suc count) lba index i s =
     (case read_disk_block io (ld32 (mem s) (ds + 4)) lba 1 buf s of (r, s1) \<Rightarrow>
        if r \<noteq> 0 then print (lit ''disk_stream.c:get_bytes_from_disk,failed to read the block'') s1
        else case copy_sector (mem s1) buf index ram i no_bytes of (m, i') \<Rightarrow>
          stream_sectors io ds buf ram no_bytes count (lba + 1) 0 i' (s1\<lparr>mem := m\<rparr>))"

text \<open>Both ways out of the loop free the buffer.  \<open>no_bytes + index\<close> is a sum of 32-bit values.\<close>

definition get_bytes_from_disk ::
  "'d port_io \<Rightarrow> addr \<Rightarrow> u32 \<Rightarrow> addr \<Rightarrow> ('d, 'z) disk_state_scheme \<Rightarrow> ('d, 'z) disk_state_scheme" where
  "get_bytes_from_disk io ds no_bytes ram s =
     (if no_bytes = 0 then s
      else case kzalloc (of_nat SECTOR_SIZE) s of (buf, s1) \<Rightarrow>
        let pos = ld32 (mem s1) ds;
            lba = pos div of_nat SECTOR_SIZE;
            index = pos mod of_nat SECTOR_SIZE;
            n = no_bytes + index;
            count = n div of_nat SECTOR_SIZE + (if n mod of_nat SECTOR_SIZE \<noteq> 0 then 1 else 0)
        in kfree buf (stream_sectors io ds buf ram (unat no_bytes) (unat count) lba (unat index) 0 s1))"

definition free_disk_stream :: "addr \<Rightarrow> 'z kheap_state_scheme \<Rightarrow> 'z kheap_state_scheme" where
  "free_disk_stream ds s = kfree ds s"

section \<open>The copy of a sector\<close>

lemma ceil_512:
  assumes "c = n div 512 + (if n mod 512 \<noteq> 0 then 1 else (0 :: nat))"
  shows "n \<le> 512 * c \<and> 512 * c < n + 512"
proof -
  have n: "n = 512 * (n div 512) + n mod 512" "n mod 512 < 512" by simp_all
  show ?thesis
  proof (cases "n mod 512 = 0")
    case True
    with assms have "c = n div 512" by simp
    with n(1) True show ?thesis by linarith
  next
    case False
    with assms have "c = n div 512 + 1" by simp
    with n False show ?thesis by linarith
  qed
qed

lemma round_up:
  assumes "unat (x :: u32) = n"
  shows "unat (x div of_nat SECTOR_SIZE + (if x mod of_nat SECTOR_SIZE \<noteq> 0 then 1 else 0))
    = n div 512 + (if n mod 512 \<noteq> 0 then 1 else 0)"
proof -
  have d: "unat (x div of_nat SECTOR_SIZE) = n div 512" "unat (x mod of_nat SECTOR_SIZE) = n mod 512"
    by (simp_all add: SECTOR_SIZE_def unat_div unat_mod assms)
  have "n < 2 ^ 32" using assms unat_lt_2p32 [of x] by simp
  then have "Suc (n div 512) < 2 ^ 32" by simp
  moreover have "x mod of_nat SECTOR_SIZE \<noteq> 0 \<longleftrightarrow> n mod 512 \<noteq> 0" using d(2) by (metis unat_eq_zero)
  ultimately show ?thesis using d(1) by (simp add: unat_plus_if')
qed

lemma copy_sector_spec:
  assumes "i \<le> n" and "n < 2 ^ 32" and "ranges_disjoint buf 512 ram n" and "index \<le> 512"
    and "copy_sector m buf index ram i n = (m', i')"
  shows "i' = i + min (n - i) (512 - index) \<and> (\<forall>x. \<not> in_range ram n x \<longrightarrow> m' x = m x) \<and>
    (\<forall>j<n. m' (ram + of_nat j) = (if i \<le> j \<and> j < i' then m (buf + of_nat (index + (j - i))) else m (ram + of_nat j)))"
  using assms
proof (induction m buf index ram i n rule: copy_sector.induct)
  case (1 m buf index ram i n)
  define m1 where "m1 = st8 m (ram + of_nat i) (m (buf + of_nat index))"
  show ?case
  proof (cases "i < n \<and> index < SECTOR_SIZE")
    case False
    with "1.prems" show ?thesis by (auto simp: copy_sector.simps [of m] SECTOR_SIZE_def)
  next
    case True
    then have b: "i < n" "index < 512" by (simp_all add: SECTOR_SIZE_def)
    have "copy_sector m1 buf (Suc index) ram (Suc i) n = (m', i')"
      using "1.prems"(5) True by (simp add: copy_sector.simps [of m] m1_def)
    from "1.IH" [OF True _ "1.prems"(2,3) _ this [unfolded m1_def], folded m1_def] b
    have ih: "i' = Suc i + min (n - Suc i) (512 - Suc index)" "\<And>x. \<not> in_range ram n x \<Longrightarrow> m' x = m1 x"
      "\<And>j. j < n \<Longrightarrow> m' (ram + of_nat j) =
        (if Suc i \<le> j \<and> j < i' then m1 (buf + of_nat (Suc index + (j - Suc i))) else m1 (ram + of_nat j))"
      by auto
    have i': "i' = i + min (n - i) (512 - index)" using ih(1) b by arith
    have out: "m1 x = m x" if "\<not> in_range ram n x" for x
      using that in_range_offset [of i ram n] b "1.prems"(2) by (auto simp: m1_def st8_apply)
    have buf: "m1 (buf + of_nat k) = m (buf + of_nat k)" if "k < 512" for k
      using out that "1.prems"(3) in_range_offset [of k buf 512] by (auto simp: ranges_disjoint_def)
    have ram: "m1 (ram + of_nat j) = (if j = i then m (buf + of_nat index) else m (ram + of_nat j))" if "j < n" for j
      using that b "1.prems"(2) by (auto simp: m1_def st8_apply of_nat_eq_iff32)
    have "m' (ram + of_nat j) = (if i \<le> j \<and> j < i' then m (buf + of_nat (index + (j - i))) else m (ram + of_nat j))"
      if j: "j < n" for j
    proof (cases "Suc i \<le> j \<and> j < i'")
      case True
      then have e: "Suc index + (j - Suc i) = index + (j - i)" and k: "index + (j - i) < 512" using i' by auto
      have "m' (ram + of_nat j) = m1 (buf + of_nat (index + (j - i)))"
        using ih(3) [OF j] True unfolding e by (simp only: if_True simp_thms)
      also have "\<dots> = m (buf + of_nat (index + (j - i)))" by (rule buf [OF k])
      finally show ?thesis using True by simp
    next
      case False
      then show ?thesis using ih(1) ih(3) [OF j] ram [OF j] by auto
    qed
    then show ?thesis using i' ih(2) out by auto
  qed
qed

section \<open>The bytes of a disk\<close>

lemma dev_mem_update [simp]: "s\<lparr>dev := d, mem := m\<rparr> = s\<lparr>mem := m, dev := d\<rparr>"
  by (cases s) simp

text \<open>Byte \<open>i\<close> of a drive.\<close>

definition disk_byte :: "(nat \<Rightarrow> u16 list) \<Rightarrow> nat \<Rightarrow> byte" where
  "disk_byte sectors i = sector_bytes (sectors (i div 512)) ! (i mod 512)"

text \<open>A range inside a live allocation of the kernel heap.\<close>

definition owned :: "'z kheap_state_scheme \<Rightarrow> addr \<Rightarrow> nat \<Rightarrow> bool" where
  "owned s a n \<longleftrightarrow> (\<exists>(b, k) \<in> kheap_live s. \<forall>x. in_range a n x \<longrightarrow> in_range b k x)"

lemma ownedE:
  assumes "owned s a k" and "in_range a k x"
  obtains b l where "(b, l) \<in> kheap_live s" and "in_range b l x"
  using assms by (auto simp: owned_def)

lemma kheap_tbl_cong:
  "(\<And>x. in_range KHEAP_TABLE kheap_pages x \<Longrightarrow> mem s' x = mem s x) \<Longrightarrow> kheap_tbl s' = kheap_tbl s"
  by (auto simp: kheap_tbl_def in_range_offset kheap_pages_def intro!: bytes_at_cong)

text \<open>One sector \<open>lba\<close> in the buffer and the copy of its part: the request stands at byte \<open>pos\<close> of the drive.\<close>

lemma sector_part:
  assumes bs: "length (sector_bytes (sec lba)) = 512" and cp: "copy_sector (put_bytes m buf (sector_bytes (sec lba))) buf index ram i n = (m', i')"
    and b: "i \<le> n" "n < 2 ^ 32" "index < 512" "ranges_disjoint buf 512 ram n" and pos: "pos = 512 * lba + index"
  shows "i' = i + min (n - i) (512 - index)" and "i' < n \<Longrightarrow> 512 * (lba + 1) = pos + (i' - i)"
    and "\<And>x. \<not> in_range buf 512 x \<Longrightarrow> \<not> in_range ram n x \<Longrightarrow> m' x = m x"
    and "\<And>j. j < i' \<Longrightarrow> m' (ram + of_nat j) = (if j < i then m (ram + of_nat j) else disk_byte sec (pos + (j - i)))"
proof -
  note c = copy_sector_spec [OF b(1,2,4) less_imp_le [OF b(3)] cp]
  show i': "i' = i + min (n - i) (512 - index)" using c by blast
  show "i' < n \<Longrightarrow> 512 * (lba + 1) = pos + (i' - i)" using i' b(3) pos by simp
  show "m' x = m x" if "\<not> in_range buf 512 x" "\<not> in_range ram n x" for x
    using c that bs by (simp add: put_bytes_out)
  fix j assume j: "j < i'"
  then have jn: "j < n" using i' b(1) by linarith
  show "m' (ram + of_nat j) = (if j < i then m (ram + of_nat j) else disk_byte sec (pos + (j - i)))"
  proof (cases "j < i")
    case True
    have "m' (ram + of_nat j) = put_bytes m buf (sector_bytes (sec lba)) (ram + of_nat j)" using c jn True by simp
    also have "\<dots> = m (ram + of_nat j)"
      using bs jn b(2,4) in_range_offset [of j ram n] by (intro put_bytes_out) (auto simp: ranges_disjoint_def)
    finally show ?thesis using True by simp
  next
    case False
    then have k: "index + (j - i) < 512" using j i' b(3) by auto
    have "m' (ram + of_nat j) = put_bytes m buf (sector_bytes (sec lba)) (buf + of_nat (index + (j - i)))" using c jn j False by simp
    also have "\<dots> = sector_bytes (sec lba) ! (index + (j - i))" using k bs by (intro put_bytes_in) simp_all
    also have "\<dots> = disk_byte sec (pos + (j - i))"
    proof -
      have "pos + (j - i) = index + (j - i) + 512 * lba" using pos by simp
      then have "(pos + (j - i)) div 512 = lba" "(pos + (j - i)) mod 512 = index + (j - i)"
        using k by (simp_all only: div_mult_self2 mod_mult_self2) simp_all
      then show ?thesis by (simp add: disk_byte_def)
    qed
    finally show ?thesis using False by simp
  qed
qed

text \<open>The number of sectors of a request.\<close>

lemma request_sectors:
  fixes pos n :: u32
  assumes "c = unat ((n + pos mod of_nat SECTOR_SIZE) div of_nat SECTOR_SIZE
      + (if (n + pos mod of_nat SECTOR_SIZE) mod of_nat SECTOR_SIZE \<noteq> 0 then 1 else 0))"
    and "unat pos + unat n \<le> 512 * cap" and "cap < 2 ^ 23"
  shows "unat pos = 512 * unat (pos div of_nat SECTOR_SIZE) + unat (pos mod of_nat SECTOR_SIZE)"
    and "unat (pos mod of_nat SECTOR_SIZE) < 512" and "unat n + unat (pos mod of_nat SECTOR_SIZE) \<le> 512 * c"
    and "512 * c < unat n + unat (pos mod of_nat SECTOR_SIZE) + 512"
proof -
  let ?i = "unat (pos mod of_nat SECTOR_SIZE)"
  show p: "unat pos = 512 * unat (pos div of_nat SECTOR_SIZE) + ?i" and "?i < 512"
    by (simp_all add: SECTOR_SIZE_def unat_div unat_mod)
  have "unat n + ?i \<le> 512 * cap" using assms(2) p by linarith
  then have "unat n + ?i < 2 ^ 32" using assms(3) by simp
  then have q: "unat (n + pos mod of_nat SECTOR_SIZE) = unat n + ?i" by (simp add: unat_plus_if')
  have "c = (unat n + ?i) div 512 + (if (unat n + ?i) mod 512 \<noteq> 0 then 1 else 0)" unfolding assms(1) by (rule round_up [OF q])
  from ceil_512 [OF this] show "unat n + ?i \<le> 512 * c" "512 * c < unat n + ?i + 512" by simp_all
qed

text \<open>The buffer of a sector on the kernel heap, and its release after stores in it and in a range of the client.\<close>

lemma kzalloc_sector:
  assumes inv: "kheap_inv s" and z: "kzalloc (of_nat SECTOR_SIZE) s = (buf, s1)" and "buf \<noteq> 0"
  obtains N where "s1 = s\<lparr>mem := mem s1\<rparr>" and "kheap_inv s1" and "kheap_live s1 = insert (buf, N) (kheap_live s)"
    and "512 \<le> N" and "(buf, N) \<notin> kheap_live s" and "\<And>a k. owned s a k \<Longrightarrow> ranges_disjoint buf 512 a k"
    and "\<And>b k x. (b, k) \<in> kheap_live s \<Longrightarrow> in_range b k x \<Longrightarrow> mem s1 x = mem s x \<and> \<not> in_range buf 512 x"
    and "\<exists>i < kheap_pages. buf = page_addr i"
proof -
  note contract = kzalloc_contract [OF inv z]
  obtain N where "unat (of_nat SECTOR_SIZE :: u32) \<le> N" and live1: "kheap_live s1 = insert (buf, N) (kheap_live s)"
    and "\<forall>(b, k) \<in> kheap_live s. ranges_disjoint buf N b k"
    using contract(3) [OF assms(3)] by blast
  then have N: "512 \<le> N" "\<And>b k. (b, k) \<in> kheap_live s \<Longrightarrow> ranges_disjoint buf N b k"
    by (auto simp: SECTOR_SIZE_def)
  obtain i where i: "buf = page_addr i" "new_run (of_nat SECTOR_SIZE) s i s1"
    by (rule kzalloc_new_run [OF inv z assms(3)]) blast
  then have s1: "s1 = s\<lparr>mem := mem s1\<rparr>" "i < kheap_pages" by (simp_all add: new_run_def)
  have apart: "ranges_disjoint buf 512 a k" if own: "owned s a k" for a k
  proof -
    obtain b l where b: "(b, l) \<in> kheap_live s" "\<And>x. in_range a k x \<Longrightarrow> in_range b l x"
      using own by (auto simp: owned_def)
    show ?thesis
      using N(2) [OF b(1)] b(2) in_range_mono [OF _ N(1)] unfolding ranges_disjoint_def by blast
  qed
  have "mem s1 x = mem s x \<and> \<not> in_range buf 512 x" if "(b, k) \<in> kheap_live s" "in_range b k x" for b k x
    using contract(4) [OF that] N(2) [OF that(1)] that(2) in_range_mono [OF _ N(1)] unfolding ranges_disjoint_def by blast
  moreover have "(buf, N) \<notin> kheap_live s"
    using N(2) [of buf N] N(1) in_range_self [of N buf] unfolding ranges_disjoint_def by (meson less_le_trans zero_less_numeral)
  ultimately show thesis using that [OF s1(1) contract(1) live1 N(1) _ apart] i(1) s1(2) by blast
qed

lemma kfree_sector:
  assumes inv: "kheap_inv s1" and live: "kheap_live s1 = insert (buf, N) (kheap_live s)" "(buf, N) \<notin> kheap_live s" "512 \<le> N"
    and i: "i < kheap_pages" "buf = page_addr i" and ram: "owned s ram n"
    and out: "\<And>x. \<not> in_range buf 512 x \<Longrightarrow> \<not> in_range ram n x \<Longrightarrow> m x = mem s1 x"
    and s2: "s2 = s1\<lparr>mem := m, dev := d\<rparr>"
  shows "kheap_inv (kfree buf s2)" and "kheap_live (kfree buf s2) = kheap_live s"
    and "kfree buf s2 = s2\<lparr>mem := mem (kfree buf s2)\<rparr>"
    and "\<And>b k x. (b, k) \<in> kheap_live s \<Longrightarrow> in_range b k x \<Longrightarrow> mem (kfree buf s2) x = m x"
proof -
  have bufN: "(buf, N) \<in> kheap_live s1" using live by simp
  have "m x = mem s1 x" if "in_range KHEAP_TABLE kheap_pages x" for x
    using out [of x] that kheap_live_table [OF bufN] ram live(1) kheap_live_table [of _ _ s1] in_range_mono [OF _ live(3)]
    unfolding owned_def by blast
  then have "kheap_tbl s2 = kheap_tbl s1" by (auto simp: s2 intro: kheap_tbl_cong)
  from kheap_inv_frame [OF inv _ this] have h2: "kheap_inv s2" "kheap_live s2 = kheap_live s1"
    by (simp_all add: s2 kheap_live_def)
  note free = kfree_live [OF h2(1) bufN [folded h2(2)]]
  show "kheap_inv (kfree buf s2)" by (rule free(1))
  show "kheap_live (kfree buf s2) = kheap_live s" using free(2) h2(2) live(1,2) by simp
  show "kfree buf s2 = s2\<lparr>mem := mem (kfree buf s2)\<rparr>" using kfree_eq [OF _ i(1), of s2] h2(1) by (simp add: i(2) kheap_inv_def)
  show "mem (kfree buf s2) x = m x" if "(b, k) \<in> kheap_live s" "in_range b k x" for b k x
    using free(3) [of b k x] that h2(2) live(1) by (simp add: s2)
qed

context ata_drive
begin

lemma stream_sectors_ok:
  assumes "inv (dev s)" and "phase (dev s) = Idle" and "ld32 (mem s) (ds + 4) = p"
    and "attached base drives (disk_at s p)" and "unat (sect_count (disk_at s p)) \<le> 2 ^ 23"
    and "i \<le> n" and "n < 2 ^ 32" and "index < 512"
    and "n - i + index \<le> 512 * c" and "512 * c < n - i + index + 512"
    and "pos = 512 * unat lba + index" and "pos + (n - i) \<le> 512 * unat (sect_count (disk_at s p))"
    and dis: "ranges_disjoint buf 512 ram n" "ranges_disjoint buf 512 (ds + 4) 4" "ranges_disjoint ram n (ds + 4) 4"
  shows "\<exists>m d. stream_sectors io ds buf ram n c lba index i s = s\<lparr>mem := m, dev := d\<rparr> \<and>
    inv d \<and> phase d = Idle \<and> media d = media (dev s) \<and>
    (\<forall>j<n. m (ram + of_nat j) = (if j < i then mem s (ram + of_nat j)
       else disk_byte (media (dev s) (is_master (disk_at s p) = 0)) (pos + (j - i)))) \<and>
    (\<forall>x. \<not> in_range buf 512 x \<longrightarrow> \<not> in_range ram n x \<longrightarrow> m x = mem s x)"
  using assms(1-12)
proof (induction c arbitrary: lba index i s pos)
  case 0
  then show ?case by (intro exI [of _ "mem s"] exI [of _ "dev s"]) auto
next
  case (Suc c)
  define sec where "sec = media (dev s) (is_master (disk_at s p) = 0)"
  have cap: "unat lba + 1 \<le> unat (sect_count (disk_at s p))"
  proof -
    have "512 * c < n - i + index" using Suc.prems(10) by simp
    then have "0 < n - i + index" by (rule le_less_trans [OF le0])
    then have "512 * unat lba < 512 * unat (sect_count (disk_at s p))" using Suc.prems(11,12) by linarith
    then show ?thesis by simp
  qed
  obtain d1 where d1: "read_disk_block io p lba 1 buf s =
      (0, s\<lparr>mem := put_bytes (mem s) buf (sector_bytes (sec (unat lba))), dev := d1\<rparr>)"
    "inv d1" "phase d1 = Idle" "media d1 = media (dev s)"
    using read_disk_block_ok [OF Suc.prems(1,2,4), of lba 1 buf] cap Suc.prems(5) by (auto simp: sec_def)
  have len: "length (sector_bytes (sec (unat lba))) = 512" using Suc.prems(1) by (simp add: sec_def sector_words)
  obtain m2 i' where cp: "copy_sector (put_bytes (mem s) buf (sector_bytes (sec (unat lba)))) buf index ram i n = (m2, i')" by fastforce
  note c = sector_part [where sec = sec, OF len cp Suc.prems(6-8) dis(1) Suc.prems(11)]
  define s2 where "s2 = s\<lparr>mem := m2, dev := d1\<rparr>"
  have ds: "ld32 m2 (ds + 4) = p"
    using Suc.prems(3) ld32_cong [of "ds + 4" m2 "mem s"] c(3) dis(2,3) by (auto simp: ranges_disjoint_def)
  have step: "stream_sectors io ds buf ram n (Suc c) lba index i s = stream_sectors io ds buf ram n c (lba + 1) 0 i' s2"
    using d1(1) cp Suc.prems(3) by (simp add: s2_def)
  have l1: "unat (lba + 1) = unat lba + 1"
    using cap Suc.prems(5) by (simp add: unat_plus_if')
  have "\<exists>m d. stream_sectors io ds buf ram n c (lba + 1) 0 i' s2 = s2\<lparr>mem := m, dev := d\<rparr> \<and>
    inv d \<and> phase d = Idle \<and> media d = media (dev s2) \<and>
    (\<forall>j<n. m (ram + of_nat j) = (if j < i' then mem s2 (ram + of_nat j)
       else disk_byte (media (dev s2) (is_master (disk_at s2 p) = 0)) (512 * unat (lba + 1) + (j - i')))) \<and>
    (\<forall>x. \<not> in_range buf 512 x \<longrightarrow> \<not> in_range ram n x \<longrightarrow> m x = mem s2 x)"
    by (rule Suc.IH) (use cap Suc.prems d1 c(1) ds l1 in \<open>auto simp: s2_def min_def split: if_splits\<close>)
  then obtain m d where r: "stream_sectors io ds buf ram n c (lba + 1) 0 i' s2 = s2\<lparr>mem := m, dev := d\<rparr>"
    "inv d" "phase d = Idle" "media d = media (dev s)"
    "\<And>j. j < n \<Longrightarrow> m (ram + of_nat j) = (if j < i' then m2 (ram + of_nat j) else disk_byte sec (512 * (unat lba + 1) + (j - i')))"
    "\<And>x. \<not> in_range buf 512 x \<Longrightarrow> \<not> in_range ram n x \<Longrightarrow> m x = m2 x"
    using d1(4) l1 by (auto simp: s2_def sec_def)
  have "m (ram + of_nat j) = (if j < i then mem s (ram + of_nat j) else disk_byte sec (pos + (j - i)))"
    if j: "j < n" for j
  proof (cases "j < i'")
    case True
    then show ?thesis using r(5) [OF j] c(4) [OF True] by simp
  next
    case False
    moreover from False have "512 * (unat lba + 1) + (j - i') = pos + (j - i)" using c(1,2) j by simp
    ultimately show ?thesis using r(5) [OF j] c(1) by simp
  qed
  then show ?case
    using step r c(3) by (intro exI [of _ m] exI [of _ d]) (auto simp: s2_def sec_def)
qed

text \<open>A whole request.\<close>

lemma get_bytes_from_disk_ok:
  assumes heap: "kheap_inv s" "fst (kzalloc (of_nat SECTOR_SIZE) s) \<noteq> 0"
    and drive: "inv (dev s)" "phase (dev s) = Idle"
    and ds: "owned s ds 8" "ld32 (mem s) (ds + 4) = p" "ld32 (mem s) ds = pos"
    and ram: "owned s ram (unat n)" "ranges_disjoint ram (unat n) ds 8"
    and geometry: "attached base drives (disk_at s p)" "unat (sect_count (disk_at s p)) < 2 ^ 23"
      "unat pos + unat n \<le> 512 * unat (sect_count (disk_at s p))"
  shows "\<exists>m d. get_bytes_from_disk io ds n ram s = s\<lparr>mem := m, dev := d\<rparr> \<and>
    inv d \<and> phase d = Idle \<and> media d = media (dev s) \<and>
    bytes_at m ram (unat n) = map (disk_byte (media (dev s) (is_master (disk_at s p) = 0))) [unat pos..<unat pos + unat n] \<and>
    kheap_inv (s\<lparr>mem := m, dev := d\<rparr>) \<and> kheap_live (s\<lparr>mem := m, dev := d\<rparr>) = kheap_live s \<and>
    (\<forall>(b, k) \<in> kheap_live s. \<forall>x. in_range b k x \<longrightarrow> \<not> in_range ram (unat n) x \<longrightarrow> m x = mem s x)"
proof (cases "n = 0")
  case True
  then have "get_bytes_from_disk io ds n ram s = s\<lparr>mem := mem s, dev := dev s\<rparr>" by (simp add: get_bytes_from_disk_def)
  moreover have "s\<lparr>mem := mem s, dev := dev s\<rparr> = s" by simp
  ultimately show ?thesis using True heap(1) drive by (intro exI [of _ "mem s"] exI [of _ "dev s"]) simp
next
  case False
  obtain buf s1 where z: "kzalloc (of_nat SECTOR_SIZE) s = (buf, s1)" by fastforce
  then have buf0: "buf \<noteq> 0" using heap(2) by simp
  obtain N i where s1: "s1 = s\<lparr>mem := mem s1\<rparr>" and inv1: "kheap_inv s1" and live: "kheap_live s1 = insert (buf, N) (kheap_live s)"
    "(buf, N) \<notin> kheap_live s" "512 \<le> N" and apart: "\<And>a k. owned s a k \<Longrightarrow> ranges_disjoint buf 512 a k"
    and kept: "\<And>b k x. (b, k) \<in> kheap_live s \<Longrightarrow> in_range b k x \<Longrightarrow> mem s1 x = mem s x \<and> \<not> in_range buf 512 x"
    and i: "i < kheap_pages" "buf = page_addr i"
    by (rule kzalloc_sector [OF heap(1) z buf0]) blast
  have ds4: "in_range (ds + 4) 4 x \<Longrightarrow> in_range ds 8 x" "in_range ds 4 x \<Longrightarrow> in_range ds 8 x" for x
    using in_range_sub [of 4 4 8 ds x] in_range_mono [of ds 4 x 8] by simp_all
  have "mem s1 x = mem s x" if "in_range ds 8 x" for x by (rule ownedE [OF ds(1) that]) (use kept in blast)
  then have ld: "ld32 (mem s1) ds = pos" "ld32 (mem s1) (ds + 4) = p"
    using ds ds4 ld32_cong [of ds "mem s1" "mem s"] ld32_cong [of "ds + 4" "mem s1" "mem s"] by auto
  let ?index = "unat (pos mod of_nat SECTOR_SIZE)" and ?lba = "pos div of_nat SECTOR_SIZE" and ?sec = "media (dev s) (is_master (disk_at s p) = 0)"
  define c where "c = unat ((n + pos mod of_nat SECTOR_SIZE) div of_nat SECTOR_SIZE
    + (if (n + pos mod of_nat SECTOR_SIZE) mod of_nat SECTOR_SIZE \<noteq> 0 then 1 else 0))"
  note c = request_sectors [OF c_def geometry(3,2)]
  have get: "get_bytes_from_disk io ds n ram s = kfree buf (stream_sectors io ds buf ram (unat n) c ?lba ?index 0 s1)"
    using False z ld by (simp add: get_bytes_from_disk_def Let_def c_def)
  have dev1: "dev s1 = dev s" "disk_at s1 = disk_at s" by (subst s1, simp)+
  have "\<exists>m d. stream_sectors io ds buf ram (unat n) c ?lba ?index 0 s1 = s1\<lparr>mem := m, dev := d\<rparr> \<and>
    inv d \<and> phase d = Idle \<and> media d = media (dev s1) \<and>
    (\<forall>j<unat n. m (ram + of_nat j) = (if j < 0 then mem s1 (ram + of_nat j)
       else disk_byte (media (dev s1) (is_master (disk_at s1 p) = 0)) (unat pos + (j - 0)))) \<and>
    (\<forall>x. \<not> in_range buf 512 x \<longrightarrow> \<not> in_range ram (unat n) x \<longrightarrow> m x = mem s1 x)"
    by (rule stream_sectors_ok)
      (use drive ld geometry c dev1 apart [OF ram(1)] apart [OF ds(1)] ram(2) ds4 in \<open>auto simp: ranges_disjoint_def\<close>)
  then obtain m d where st: "stream_sectors io ds buf ram (unat n) c ?lba ?index 0 s1 = s1\<lparr>mem := m, dev := d\<rparr>"
    and d: "inv d" "phase d = Idle" "media d = media (dev s)"
    and bytes: "\<And>j. j < unat n \<Longrightarrow> m (ram + of_nat j) = disk_byte ?sec (unat pos + j)"
    and out: "\<And>x. \<not> in_range buf 512 x \<Longrightarrow> \<not> in_range ram (unat n) x \<Longrightarrow> m x = mem s1 x"
    using dev1 by auto
  define s2 where "s2 = s1\<lparr>mem := m, dev := d\<rparr>"
  have free: "kheap_inv (kfree buf s2)" "kheap_live (kfree buf s2) = kheap_live s" "kfree buf s2 = s2\<lparr>mem := mem (kfree buf s2)\<rparr>"
    and keep: "\<And>b k x. (b, k) \<in> kheap_live s \<Longrightarrow> in_range b k x \<Longrightarrow> mem (kfree buf s2) x = m x"
    by (rule kfree_sector [OF inv1 live i ram(1) out s2_def]; assumption)+
  have res: "kfree buf s2 = s\<lparr>mem := mem (kfree buf s2), dev := d\<rparr>"
    using free(3) unfolding s2_def by (subst (asm) s1) simp
  have "bytes_at (mem (kfree buf s2)) ram (unat n) = map (disk_byte ?sec) [unat pos..<unat pos + unat n]"
  proof (rule nth_equalityI)
    fix j assume "j < length (bytes_at (mem (kfree buf s2)) ram (unat n))"
    then have j: "j < unat n" by simp
    then have "in_range ram (unat n) (ram + of_nat j)" using in_range_offset [of j ram "unat n"] unat_lt_2p32 [of n] by simp
    then have "mem (kfree buf s2) (ram + of_nat j) = m (ram + of_nat j)" using keep ram(1) unfolding owned_def by blast
    then show "bytes_at (mem (kfree buf s2)) ram (unat n) ! j = map (disk_byte ?sec) [unat pos..<unat pos + unat n] ! j"
      using j bytes by simp
  qed simp
  moreover have "mem (kfree buf s2) x = mem s x" if l: "(b, k) \<in> kheap_live s" "in_range b k x" "\<not> in_range ram (unat n) x" for b k x
    using keep [OF l(1,2)] out [of x] l(3) kept [OF l(1,2)] by simp
  ultimately show ?thesis
    using get st d free(1,2) res
    by (intro exI [of _ "mem (kfree buf s2)"] exI [of _ d]) (auto simp: s2_def)
qed

end

section \<open>Streams\<close>

lemma owned_kept:
  "kheap_live s \<subseteq> kheap_live s' \<Longrightarrow> owned s a n \<Longrightarrow> owned s' a n"
  unfolding owned_def by blast

lemma init_disk_stream_ok:
  assumes "kheap_inv s" and "init_disk_stream p s = (ds, s')" and "ds \<noteq> 0"
  obtains i where "ds = page_addr i" and "kheap_inv s'" and "kheap_runs s' = insert (i, 1) (kheap_runs s)"
    and "s' = s\<lparr>mem := mem s'\<rparr>" and "i < kheap_pages" and "ld32 (mem s') (ds + 4) = p" and "ld32 (mem s') ds = 0"
    and "\<And>a k x. owned s a k \<Longrightarrow> in_range a k x \<Longrightarrow> mem s' x = mem s x"
proof -
  obtain s1 where z: "kzalloc sizeof_disk_stream s = (ds, s1)" and p: "p \<noteq> 0"
    and s': "s' = s1\<lparr>mem := st32 (st32 (mem s1) (ds + 4) p) ds 0\<rparr>"
    using assms(2,3) by (auto simp: init_disk_stream_def split: prod.splits if_splits)
  have one: "pages_for sizeof_disk_stream = 1" by (simp add: pages_for_nat sizeof_disk_stream_def)
  note contract = kzalloc_contract [OF assms(1) z]
  obtain i where i: "ds = page_addr i" "new_run sizeof_disk_stream s i s1"
    by (rule kzalloc_new_run [OF assms(1) z assms(3)]) blast
  then have run: "kheap_runs s1 = insert (i, 1) (kheap_runs s)" "i < kheap_pages" "kheap_inv s1" "s1 = s\<lparr>mem := mem s1\<rparr>"
    by (simp_all add: new_run_def one)
  have b8: "in_range ds 8 x" if "in_range ds 4 x \<or> in_range (ds + 4) 4 x" for x
    using in_range_sub [of 4 4 8 ds x] in_range_mono [of ds 4 x 8] that by auto
  have tbl: "\<not> in_range KHEAP_TABLE kheap_pages x" if "in_range ds 8 x" for x
    using table_page_disjoint [of i 1 8] run(2) that by (auto simp: i(1) ranges_disjoint_def)
  have st: "mem s' x = mem s1 x" if "\<not> in_range ds 8 x" for x
  proof -
    have "\<not> in_range ds 4 x" "\<not> in_range (ds + 4) 4 x" using b8 that by blast+
    then show ?thesis by (simp add: s' st32_out)
  qed
  then have "kheap_tbl s' = kheap_tbl s1" using tbl by (blast intro: kheap_tbl_cong)
  from kheap_inv_frame [OF run(3) _ this] have "kheap_inv s'" "kheap_runs s' = insert (i, 1) (kheap_runs s)"
    by (simp_all add: s' run(1))
  moreover have "s' = s\<lparr>mem := mem s'\<rparr>" unfolding s' by (subst run(4)) simp
  moreover have "ranges_disjoint ds 4 (ds + 4) 4"
    by (auto simp: ranges_disjoint_def in_range_4)
  then have "ld32 (mem s') (ds + 4) = p" by (simp add: s' ld32_st32_other)
  moreover have "ld32 (mem s') ds = 0" by (simp add: s')
  moreover have "mem s' x = mem s x" if own: "owned s a k" "in_range a k x" for a k x
  proof -
    obtain b l where b: "(b, l) \<in> kheap_live s" "in_range b l x" by (rule ownedE [OF own])
    obtain N where N: "8 \<le> N" "ranges_disjoint ds N b l"
      using contract(3) [OF assms(3)] b(1) by (auto simp: sizeof_disk_stream_def)
    then have "\<not> in_range ds 8 x" using b(2) in_range_mono [OF _ N(1)] by (auto simp: ranges_disjoint_def)
    then show ?thesis using st contract(4) [OF b] by simp
  qed
  ultimately show thesis using that i(1) run(2) by blast
qed

lemma pages_for_512: "pages_for (of_nat SECTOR_SIZE) = 1"
  by (simp add: pages_for_nat SECTOR_SIZE_def)

section \<open>Properties\<close>

text \<open>C15: a request on a stream delivers the bytes of the disk.\<close>

theorem get_bytes_from_disk_bytes:
  assumes "ata_drive io base drives dinv regs media phase pending"
    and "kheap_inv s" and "fst (kzalloc (of_nat SECTOR_SIZE) s) \<noteq> 0"
    and "dinv (dev s)" and "phase (dev s) = Idle"
    and "owned s ds 8" and "ld32 (mem s) (ds + 4) = p" and "ld32 (mem s) ds = pos"
    and "owned s ram (unat n)" and "ranges_disjoint ram (unat n) ds 8"
    and "attached base drives (disk_at s p)" and "unat (sect_count (disk_at s p)) < 2 ^ 23"
    and "unat pos + unat n \<le> 512 * unat (sect_count (disk_at s p))"
  shows "\<exists>m d. get_bytes_from_disk io ds n ram s = s\<lparr>mem := m, dev := d\<rparr> \<and>
    dinv d \<and> phase d = Idle \<and> media d = media (dev s) \<and>
    bytes_at m ram (unat n) = map (disk_byte (media (dev s) (is_master (disk_at s p) = 0))) [unat pos..<unat pos + unat n] \<and>
    kheap_inv (s\<lparr>mem := m, dev := d\<rparr>) \<and> kheap_live (s\<lparr>mem := m, dev := d\<rparr>) = kheap_live s \<and>
    (\<forall>(b, k) \<in> kheap_live s. \<forall>x. in_range b k x \<longrightarrow> \<not> in_range ram (unat n) x \<longrightarrow> m x = mem s x)"
  by (rule ata_drive.get_bytes_from_disk_ok [OF assms])

definition stream_state :: "channel disk_state" where
  "stream_state = snd (init_disk_stream 0x204000 (kheap_init blank_state))"

lemma stream_state_facts:
  "fst (init_disk_stream 0x204000 (kheap_init blank_state)) = page_addr 0" "kheap_inv stream_state"
  "kheap_runs stream_state = {(0, 1)}" "dev stream_state = blank_channel" "disk_at stream_state p = blank_disk"
  "ld32 (mem stream_state) (page_addr 0 + 4) = 0x204000" "ld32 (mem stream_state) (page_addr 0) = 0"
proof -
  let ?s = "kheap_init blank_state"
  obtain ds s' where i: "init_disk_stream 0x204000 ?s = (ds, s')" by fastforce
  have one: "pages_for sizeof_disk_stream = 1" by (simp add: pages_for_nat sizeof_disk_stream_def)
  obtain a s1 where z: "kzalloc sizeof_disk_stream ?s = (a, s1)" by fastforce
  have ds: "ds = a" using i z by (auto simp: init_disk_stream_def)
  have nz: "a \<noteq> 0"
    using kzalloc_NullD(1) [of ?s sizeof_disk_stream s1] z kheap_find_init [of 1 blank_state]
    by (auto simp: one kheap_init_ready)
  obtain j where j: "a = page_addr j" "kheap_find ?s (pages_for sizeof_disk_stream) = Some j"
    by (rule kzalloc_new_run [OF _ z nz]) (simp_all add: kheap_init_inv)
  then have a: "a = page_addr 0" using kheap_find_init [of 1 blank_state] by (simp add: one)
  obtain k where k: "ds = page_addr k" "kheap_inv s'" "kheap_runs s' = insert (k, 1) (kheap_runs ?s)"
    "s' = ?s\<lparr>mem := mem s'\<rparr>" "k < kheap_pages" "ld32 (mem s') (ds + 4) = 0x204000" "ld32 (mem s') ds = 0"
    by (rule init_disk_stream_ok [OF _ i]) (simp_all add: kheap_init_inv ds nz)
  have "k = 0" using k(1,5) ds a page_addr_inj [of k 0] by (simp add: kheap_pages_def)
  moreover have "dev ?s = blank_channel" "disk_at ?s p = blank_disk" by simp_all
  moreover have "dev s' = dev ?s" "disk_at s' p = disk_at ?s p" by (subst k(4), simp)+
  ultimately show "fst (init_disk_stream 0x204000 ?s) = page_addr 0" "kheap_inv stream_state"
    "kheap_runs stream_state = {(0, 1)}" "dev stream_state = blank_channel" "disk_at stream_state p = blank_disk"
    "ld32 (mem stream_state) (page_addr 0 + 4) = 0x204000" "ld32 (mem stream_state) (page_addr 0) = 0"
    using k i by (simp_all add: stream_state_def kheap_init_inv)
qed

lemma get_bytes_from_disk_bytes_witness:
  "bytes_at (mem (get_bytes_from_disk ch_io (page_addr 0) 1000 (page_addr 0 + 256) stream_state)) (page_addr 0 + 256) 1000
    = map (disk_byte (\<lambda>_. replicate 256 0)) [0..<1000]"
proof -
  have live: "kheap_live stream_state = {(page_addr 0, 4096)}" by (simp add: kheap_live_def stream_state_facts)
  have r: "in_range (page_addr 0 + 256) 1000 x \<Longrightarrow> in_range (page_addr 0) 4096 x" for x
    using in_range_sub [of 256 1000 4096 "page_addr 0" x] by simp
  have o: "owned stream_state (page_addr 0) 8" "owned stream_state (page_addr 0 + 256) (unat (1000 :: u32))"
    using in_range_mono [of "page_addr 0" 8 _ 4096] r by (auto simp: owned_def live)
  have dis: "ranges_disjoint (page_addr 0 + 256) (unat (1000 :: u32)) (page_addr 0) 8"
    by (intro ranges_disjoint_nat) (simp_all add: page_addr_def const_defs)
  have "page_free stream_state 1" by (auto simp: page_free_def stream_state_facts kheap_pages_def)
  then have "fst (kzalloc (of_nat SECTOR_SIZE) stream_state) \<noteq> 0"
    using kheap_find_some [OF stream_state_facts(2)] kzalloc_NullD(1) [of stream_state "of_nat SECTOR_SIZE"] stream_state_facts(2)
    by (metis kheap_inv_def pages_for_512 prod.collapse)
  from get_bytes_from_disk_bytes [OF pio.ata_drive_axioms stream_state_facts(2) this _ _ o(1) stream_state_facts(6,7) o(2) dis]
  show ?thesis by (auto simp: stream_state_facts blank_channel_inv) (simp add: blank_channel_def)
qed

end
