(* ===== verification/Cstring.thy ===== *)
theory Cstring
  imports Prelude
begin

text \<open>
  The string routines of \<open>src/kernel/string/string.c\<close> over the flat memory.  A loop that only a
  NUL byte ends is a \<open>partial_function (option)\<close>: \<open>None\<close> is the loop that never returns.  A loop
  that counts \<open>n\<close> down recurses on \<open>unat n\<close>.  The routines that return their first argument are
  modelled by the memory they leave.

  The lemmas relate each routine to the C string (\<open>cstr\<close>) it is called on, and show what
  \<open>strncpy\<close> does when its source is longer than \<open>n\<close>: its counter wraps around and it clears
  the memory.
\<close>

partial_function (option) strlen_loop :: "mem \<Rightarrow> addr \<Rightarrow> u32 \<Rightarrow> u32 option" where
  "strlen_loop m str n = (if m str = 0 then Some n else strlen_loop m (str + 1) (n + 1))"

definition strlen :: "mem \<Rightarrow> addr \<Rightarrow> u32 option" where
  "strlen m str = strlen_loop m str 0"

partial_function (option) strcpy :: "mem \<Rightarrow> addr \<Rightarrow> addr \<Rightarrow> mem option" where
  "strcpy m dest src =
     (if m src = 0 then Some (st8 m dest 0)
      else strcpy (st8 m dest (m src)) (dest + 1) (src + 1))"

text \<open>
  The copying loop \<open>for(;*src && n--;src++,dest++)\<close> leaves the memory, the advanced \<open>dest\<close> and
  the \<open>n\<close> it ended with.  With \<open>*src\<close> not NUL and \<open>n\<close> zero, the test \<open>n--\<close> is false and still
  decrements: \<open>n\<close> becomes \<open>SIZE_MAX\<close>.
\<close>

fun strncpy_copy :: "mem \<Rightarrow> addr \<Rightarrow> addr \<Rightarrow> nat \<Rightarrow> mem \<times> addr \<times> u32" where
  "strncpy_copy m dest src 0 = (m, dest, if m src \<noteq> 0 then - 1 else 0)"
| "strncpy_copy m dest src (Suc n) =
     (if m src \<noteq> 0 then strncpy_copy (st8 m dest (m src)) (dest + 1) (src + 1) n
      else (m, dest, of_nat (Suc n)))"

text \<open>The padding loop \<open>while(n) { *dest='\0'; dest++; n--; }\<close>.\<close>

fun strncpy_pad :: "mem \<Rightarrow> addr \<Rightarrow> nat \<Rightarrow> mem" where
  "strncpy_pad m dest 0 = m"
| "strncpy_pad m dest (Suc n) = strncpy_pad (st8 m dest 0) (dest + 1) n"

definition strncpy :: "mem \<Rightarrow> addr \<Rightarrow> addr \<Rightarrow> u32 \<Rightarrow> mem" where
  "strncpy m dest src n =
     (case strncpy_copy m dest src (unat n) of (m', dest', n') \<Rightarrow> strncpy_pad m' dest' (unat n'))"

fun strnlen_loop :: "mem \<Rightarrow> addr \<Rightarrow> u32 \<Rightarrow> nat \<Rightarrow> u32" where
  "strnlen_loop m str n 0 = n"
| "strnlen_loop m str n (Suc i) =
     (if m str = 0 then n - of_nat (Suc i) else strnlen_loop m (str + 1) n i)"

definition strnlen :: "mem \<Rightarrow> addr \<Rightarrow> u32 \<Rightarrow> u32" where
  "strnlen m str n = strnlen_loop m str n (unat n)"

fun strncmp_loop :: "mem \<Rightarrow> addr \<Rightarrow> addr \<Rightarrow> nat \<Rightarrow> int" where
  "strncmp_loop m s1 s2 0 = 0"
| "strncmp_loop m s1 s2 (Suc n) =
     (if m s1 \<noteq> m s2 then uint (m s1) - uint (m s2)
      else if m s1 = 0 then 0
      else strncmp_loop m (s1 + 1) (s2 + 1) n)"

definition strncmp :: "mem \<Rightarrow> addr \<Rightarrow> addr \<Rightarrow> u32 \<Rightarrow> int" where
  "strncmp m s1 s2 n = strncmp_loop m s1 s2 (unat n)"

text \<open>\<open>strcmp\<close> subtracts plain (signed) \<open>char\<close>s, without the casts of \<open>strncmp\<close>.\<close>

partial_function (option) strcmp :: "mem \<Rightarrow> addr \<Rightarrow> addr \<Rightarrow> int option" where
  "strcmp m s1 s2 =
     (if m s1 \<noteq> 0 \<or> m s2 \<noteq> 0
      then if m s1 \<noteq> m s2 then Some (sint (m s1) - sint (m s2)) else strcmp m (s1 + 1) (s2 + 1)
      else Some 0)"

section \<open>Lengths\<close>

lemma strlen_loop_cstr: "cstr m p s \<Longrightarrow> strlen_loop m p n = Some (n + of_nat (length s))"
  by (induction s arbitrary: p n)
    (simp_all add: cstr_Cons strlen_loop.simps [of m p for p] add.assoc)

lemma strlen_cstr: "cstr m p s \<Longrightarrow> strlen m p = Some (of_nat (length s))"
  by (simp add: strlen_def strlen_loop_cstr)

lemma strnlen_loop_cstr:
  "cstr m p s \<Longrightarrow> i \<le> unat n \<Longrightarrow>
    strnlen_loop m p n i = (if length s < i then n - of_nat (i - length s) else n)"
  by (induction m p n i arbitrary: s rule: strnlen_loop.induct; case_tac s)
    (auto simp: cstr_Cons)

lemma strnlen_cstr:
  assumes "cstr m p s"
  shows "strnlen m p n = of_nat (min (length s) (unat n))"
proof -
  have "n - of_nat (unat n - length s) = of_nat (length s)" if "length s < unat n"
    using that by (simp add: of_nat_diff)
  then show ?thesis
    using strnlen_loop_cstr [OF assms order.refl, of n] by (auto simp: strnlen_def min_def)
qed

section \<open>Comparison\<close>

lemma strncmp_loop_eq_0:
  "cstr m p s \<Longrightarrow> cstr m q t \<Longrightarrow> strncmp_loop m p q n = 0 \<longleftrightarrow> take n s = take n t"
  by (induction m p q n arbitrary: s t rule: strncmp_loop.induct; case_tac s; case_tac t)
    (auto simp: cstr_Cons word_uint_eq_iff)

lemma strncmp_loop_neg:
  "cstr m p s \<Longrightarrow> cstr m q t \<Longrightarrow>
    strncmp_loop m p q n < 0 \<longleftrightarrow> ord_class.lexordp (take n s) (take n t)"
proof (induction m p q n arbitrary: s t rule: strncmp_loop.induct)
  case (2 m p q n)
  have "uint c \<noteq> 0 \<longleftrightarrow> 0 < uint c" for c :: byte
    using uint_ge_0 [of c] by linarith
  with 2 show ?case
    by (cases s; cases t) (auto simp: cstr_Cons word_uint_eq_iff word_less_def)
qed simp

lemma strcmp_cstr:
  "cstr m p s \<Longrightarrow> cstr m q t \<Longrightarrow> \<exists>r. strcmp m p q = Some r \<and> (r = 0 \<longleftrightarrow> s = t)"
proof (induction s arbitrary: p q t)
  case Nil
  then show ?case
    by (cases t) (auto simp: cstr_Cons strcmp.simps [of m p q] sint_eq_iff sint_eq_0)
next
  case (Cons c s)
  show ?case
  proof (cases t)
    case Nil
    with Cons.prems show ?thesis
      by (auto simp: cstr_Cons strcmp.simps [of m p q] sint_eq_iff sint_eq_0)
  next
    case (Cons d u)
    with Cons.prems Cons.IH [of "p + 1" "q + 1" u] show ?thesis
      by (auto simp: cstr_Cons strcmp.simps [of m p q] sint_eq_iff sint_eq_0)
  qed
qed

section \<open>Copies\<close>

lemma strcpy_cstr:
  "cstr m src s \<Longrightarrow> ranges_disjoint dest (Suc (length s)) src (Suc (length s)) \<Longrightarrow>
    strcpy m dest src = Some (put_bytes m dest (s @ [0]))"
proof (induction s arbitrary: m dest src)
  case Nil
  then show ?case by (simp add: strcpy.simps [of m dest src] put_bytes_Cons)
next
  case (Cons c s)
  from Cons.prems have src: "m src = c" "c \<noteq> 0" "cstr m (src + 1) s" "Suc (Suc (length s)) \<le> 2 ^ 32"
    by (auto simp: cstr_Cons)
  have "\<not> in_range (src + 1) (Suc (length s)) dest"
    using Cons.prems(2) by (simp add: ranges_disjoint_def in_range_Suc)
  then have "cstr (st8 m dest c) (src + 1) s" by (intro cstr_st8 src)
  moreover have "ranges_disjoint (dest + 1) (Suc (length s)) (src + 1) (Suc (length s))"
    using Cons.prems(2) ranges_disjoint_tail by simp
  ultimately have "strcpy (st8 m dest c) (dest + 1) (src + 1)
      = Some (put_bytes (st8 m dest c) (dest + 1) (s @ [0]))"
    by (rule Cons.IH)
  with src show ?case by (simp add: strcpy.simps [of m dest src] put_bytes_Cons)
qed

lemma strncpy_copy_cstr:
  "cstr m src s \<Longrightarrow> length s \<le> n \<Longrightarrow> ranges_disjoint dest (length s) src (Suc (length s)) \<Longrightarrow>
    strncpy_copy m dest src n
      = (put_bytes m dest s, dest + of_nat (length s), of_nat (n - length s))"
proof (induction s arbitrary: m dest src n)
  case Nil
  then show ?case by (cases n) simp_all
next
  case (Cons c s)
  then obtain k where n: "n = Suc k" by (cases n) auto
  from Cons.prems have src: "m src = c" "c \<noteq> 0" "cstr m (src + 1) s" "Suc (length s) \<le> 2 ^ 32"
    by (auto simp: cstr_Cons)
  have "\<not> in_range (src + 1) (Suc (length s)) dest"
    using Cons.prems(3) by (simp add: ranges_disjoint_def in_range_Suc)
  then have "cstr (st8 m dest c) (src + 1) s" by (intro cstr_st8 src)
  moreover have "ranges_disjoint (dest + 1) (length s) (src + 1) (Suc (length s))"
    using Cons.prems(3) ranges_disjoint_tail by simp
  ultimately show ?case
    using Cons.IH [of "st8 m dest c" "src + 1" k "dest + 1"] Cons.prems(2) src
    by (simp add: n put_bytes_Cons add.assoc)
qed

lemma strncpy_pad_eq: "n \<le> 2 ^ 32 \<Longrightarrow> strncpy_pad m d n = put_bytes m d (replicate n 0)"
  by (induction n arbitrary: m d) (simp_all add: put_bytes_Cons)

text \<open>A source that fits: its bytes, then zeros up to \<open>n\<close>.\<close>

lemma strncpy_fits:
  assumes "cstr m src s" and "length s \<le> unat n"
    and "ranges_disjoint dest (unat n) src (Suc (length s))"
  shows "strncpy m dest src n = put_bytes m dest (s @ replicate (unat n - length s) 0)"
proof -
  have "ranges_disjoint dest (length s) src (Suc (length s))"
    using assms(2,3) by (auto simp: ranges_disjoint_def dest: in_range_mono)
  note copy = strncpy_copy_cstr [OF assms(1,2) this]
  have n: "unat n < 2 ^ 32" by (rule unat_lt_2p32)
  then have "unat (of_nat (unat n - length s) :: u32) = unat n - length s"
    by (intro unat_of_nat32) simp
  then show ?thesis
    using assms(2) n
    by (simp add: strncpy_def copy strncpy_pad_eq put_bytes_append del: of_nat_diff)
qed

text \<open>
  A source with more than \<open>n\<close> characters: the first loop copies \<open>n\<close> of them and leaves the
  counter at \<open>2 ^ 32 - 1\<close>, and the padding loop clears that many bytes.
\<close>

lemma strncpy_copy_long:
  "\<forall>i\<le>n. m (src + of_nat i) \<noteq> 0 \<Longrightarrow> n < 2 ^ 32 \<Longrightarrow> ranges_disjoint dest n src (Suc n) \<Longrightarrow>
    strncpy_copy m dest src n = (put_bytes m dest (bytes_at m src n), dest + of_nat n, - 1)"
proof (induction n arbitrary: m dest src)
  case 0
  then show ?case by simp
next
  case (Suc n)
  let ?m = "st8 m dest (m src)"
  have out: "\<not> in_range (src + 1) (Suc n) dest"
    using Suc.prems(3) by (simp add: ranges_disjoint_def in_range_Suc)
  have keep: "?m (src + 1 + of_nat i) = m (src + 1 + of_nat i)" if "i \<le> n" for i
    using out that Suc.prems(2) by (intro st8_other) (auto simp: in_range_offset)
  have nz: "\<forall>i\<le>n. ?m (src + 1 + of_nat i) \<noteq> 0"
  proof (intro allI impI)
    fix i assume "i \<le> n"
    then show "?m (src + 1 + of_nat i) \<noteq> 0"
      using keep Suc.prems(1) [rule_format, of "Suc i"] by (simp add: add.assoc)
  qed
  have "bytes_at ?m (src + 1) n = bytes_at m (src + 1) n"
    by (rule bytes_at_cong) (simp add: keep)
  moreover have "ranges_disjoint (dest + 1) n (src + 1) (Suc n)"
    using Suc.prems(3) ranges_disjoint_tail by simp
  ultimately show ?case
    using Suc.IH [OF nz] Suc.prems(1) [rule_format, of 0] Suc.prems(2)
    by (simp add: bytes_at_Suc put_bytes_Cons add.assoc)
qed

section \<open>Property\<close>

text \<open>C36: a source longer than the bound destroys the whole memory: the count wraps to \<open>SIZE_MAX\<close> and the padding
  loop clears every byte but one, wherever it lies.\<close>

theorem strncpy_clears_memory:
  assumes "\<forall>i\<le>unat n. m (src + of_nat i) \<noteq> 0"
    and "ranges_disjoint dest (unat n) src (Suc (unat n))"
    and "x \<noteq> dest + n - 1"
  shows "strncpy m dest src n x = 0"
proof -
  have "unat (x - (dest + n)) \<noteq> 2 ^ 32 - 1"
  proof
    assume "unat (x - (dest + n)) = 2 ^ 32 - 1"
    then have "x - (dest + n) = - 1" by (metis unat_minus1 word_unat_eq_iff)
    then have "x = dest + n - 1" by (metis diff_add_cancel add.commute uminus_add_conv_diff)
    with assms(3) show False by simp
  qed
  with unat_lt_2p32 [of "x - (dest + n)"] have "unat (x - (dest + n)) < 2 ^ 32 - 1" by linarith
  then show ?thesis
    using strncpy_copy_long [OF assms(1) unat_lt_2p32 assms(2)]
    by (simp add: strncpy_def unat_minus1 strncpy_pad_eq put_bytes_def in_range_def)
qed

lemma strncpy_clears_memory_witness: "strncpy (\<lambda>_. 1) 0x2000 0x1000 4 0x500000 = 0"
  by (rule strncpy_clears_memory) (auto intro!: ranges_disjoint_nat)

end
