(* ===== verification/Partitions.thy ===== *)
theory Partitions
  imports Disk_Stream Cream_Room Cstring
begin

text \<open>
  The partition scan \<open>src/kernel/file_syst/partitions.c\<close>: reading sector 0 of every disk and building the
  linked list of its partitions.  The list of a disk is proved to be what the partition table of
  the sector says (\<open>disk_entries\<close>).
\<close>

section \<open>The code\<close>

definition upd_part :: "addr \<Rightarrow> (partition \<Rightarrow> partition) \<Rightarrow> ('d, 'z) disk_state_scheme \<Rightarrow> ('d, 'z) disk_state_scheme" where
  "upd_part a f s = s\<lparr>part_at := (part_at s)(a := f (part_at s a))\<rparr>"

definition sizeof_partition :: u32 where [const_defs]: "sizeof_partition = 24"

definition get32 :: "mem \<Rightarrow> addr \<Rightarrow> u32" where
  "get32 m p = ucast (m p) OR push_bit 8 (ucast (m (p + 1))) OR push_bit 16 (ucast (m (p + 2)))
     OR push_bit 24 (ucast (m (p + 3)))"

definition check_mbr :: "mem \<Rightarrow> addr \<Rightarrow> bool" where
  "check_mbr m partition_table = list_ex (\<lambda>i. m (partition_table + of_nat (i * 16) + 4) \<noteq> 0) [0..<4]"

text \<open>\<open>strncmp\<close> against a string literal of the source.\<close>

fun strncmp_lit :: "mem \<Rightarrow> addr \<Rightarrow> byte list \<Rightarrow> nat \<Rightarrow> int" where
  "strncmp_lit m p t 0 = 0"
| "strncmp_lit m p [] (Suc n) = uint (m p)"
| "strncmp_lit m p (c # t) (Suc n) =
     (if m p \<noteq> c then uint (m p) - uint c else if m p = 0 then 0 else strncmp_lit m (p + 1) t n)"

definition fix_vbr :: "addr \<Rightarrow> addr \<Rightarrow> ('d, 'z) disk_state_scheme \<Rightarrow> ('d, 'z) disk_state_scheme" where
  "fix_vbr sect_0_buf hd1 s =
     (let m = mem s; s1 = sect_0_buf + 0x36;
          fs = (if strncmp_lit m s1 (lit ''FAT12 '') 6 = 0 then FAT_12
                else if strncmp_lit m s1 (lit ''FAT16 '') 6 = 0 then FAT_16_LBA
                else if strncmp_lit m (sect_0_buf + 0x52) (lit ''FAT32 '') 6 = 0 then FAT_32_LBA
                else if strncmp_lit m (sect_0_buf + 0x47) (lit ''FAT32 '') 6 = 0 then FAT_32_LBA
                else FS_UNKNOWN)
      in upd_part hd1 (\<lambda>k. k\<lparr>fs_type := fs, start_sect := 0\<rparr>) s)"

text \<open>The \<open>switch\<close> on the type byte of an entry.\<close>

definition mbr_type :: "byte \<Rightarrow> FILE_SYST_TYPE" where
  "mbr_type v =
     (if v = 0x01 then FAT_12 else if v = 0x04 then FAT_16_L32 else if v = 0x06 then FAT_16_G32
      else if v = 0x0e then FAT_16_LBA else if v = 0x0c then FAT_32_LBA else if v = 0x0b then FAT_32_CHS
      else if v = 0x83 then LINUX_NATIVE else FS_UNKNOWN)"

text \<open>One round of the loop over the four entries: \<open>head\<close>, \<open>last\<close> and the state.\<close>

definition mbr_step ::
  "addr \<Rightarrow> addr \<Rightarrow> nat \<Rightarrow> addr \<times> addr \<times> ('d, 'z) disk_state_scheme \<Rightarrow> addr \<times> addr \<times> ('d, 'z) disk_state_scheme" where
  "mbr_step dsk partition_table i st =
     (case st of (hd1, last1, s) \<Rightarrow>
       let loop_var = partition_table + of_nat (16 * i);
           s_s_local = get32 (mem s) (loop_var + 8);
           s_c_local = get32 (mem s) (loop_var + 12)
       in if s_c_local = 0 then (hd1, last1, s)
          else case heap_cream_malloc sizeof_partition s of (cur, s1) \<Rightarrow>
            let s2 = upd_part cur (\<lambda>k. k\<lparr>is_bootable := if mem s1 loop_var = 0x80 then 1 else 0\<rparr>) s1;
                s3 = upd_part cur (\<lambda>k. k\<lparr>fs_type := mbr_type (mem s2 (loop_var + 4))\<rparr>) s2;
                s4 = upd_part cur (\<lambda>k. k\<lparr>f_disk := dsk, start_sect := s_s_local, sect_num := s_c_local,
                       next_part := 0\<rparr>) s3;
                k = part_at s4 cur
            in if sect_count (disk_at s4 (f_disk k)) < start_sect k + sect_num k
               then (hd1, last1, snd (heap_cream_free cur (print (lit ''corrupted'' @ nl) s4)))
               else if hd1 = 0 then (cur, cur, s4)
               else (hd1, cur, upd_part last1 (\<lambda>k. k\<lparr>next_part := cur\<rparr>) s4))"

definition create_linked_list ::
  "addr \<Rightarrow> addr \<Rightarrow> addr \<Rightarrow> ('d, 'z) disk_state_scheme \<Rightarrow> addr \<times> ('d, 'z) disk_state_scheme" where
  "create_linked_list dsk sect_0_buf partition_table s =
     (if \<not> check_mbr (mem s) partition_table then
        case heap_cream_malloc sizeof_partition (print (lit ''we have vbr'' @ nl) s) of (hd1, s1) \<Rightarrow>
          (hd1, upd_part hd1 (\<lambda>k. k\<lparr>is_bootable := 0, f_disk := dsk, sect_num := sect_count (disk_at s1 dsk),
             next_part := 0\<rparr>) (fix_vbr sect_0_buf hd1 s1))
      else case fold (mbr_step dsk partition_table) [0..<4] (0, 0, s) of (hd1, _, s1) \<Rightarrow> (hd1, s1))"

definition single_disk_scan ::
  "'d port_io \<Rightarrow> addr \<Rightarrow> ('d, 'z) disk_state_scheme \<Rightarrow> ('d, 'z) disk_state_scheme" where
  "single_disk_scan io disk_1 s =
     (if disk_1 = 0 then s
      else case heap_cream_malloc 512 (upd_disk disk_1 (\<lambda>k. k\<lparr>link_list := 0\<rparr>) s) of (sect_0_buf, s1) \<Rightarrow>
        case read_disk_block io disk_1 0 1 sect_0_buf s1 of (r, s2) \<Rightarrow>
          if r < 0 then snd (heap_cream_free sect_0_buf s2)
          else if mem s2 (sect_0_buf + 510) \<noteq> 0x55 \<or> mem s2 (sect_0_buf + 511) \<noteq> 0xaa
          then snd (heap_cream_free sect_0_buf s2)
          else case create_linked_list disk_1 sect_0_buf (sect_0_buf + 446)
                      (print (lit ''create a linked list'' @ nl) s2) of (l, s3) \<Rightarrow>
            snd (heap_cream_free sect_0_buf (upd_disk disk_1 (\<lambda>k. k\<lparr>link_list := l\<rparr>) s3)))"

definition scan_part_all_disks :: "'d port_io \<Rightarrow> ('d, 'z) disk_state_scheme \<Rightarrow> ('d, 'z) disk_state_scheme" where
  "scan_part_all_disks io s =
     fold (\<lambda>i s. if motherlobe s ! i = 0 then s else single_disk_scan io (motherlobe s ! i) s) [0..<5] s"

text \<open>The line printed for a partition, and the walk over the list: \<open>None\<close> is a walk that never ends.\<close>

definition print_part :: "partition \<Rightarrow> ('d, 'z) disk_state_scheme \<Rightarrow> ('d, 'z) disk_state_scheme" where
  "print_part k s =
     print (if is_bootable k \<noteq> 0 then lit ''bootable'' @ nl else lit ''non bootable'' @ nl)
       (print (case fs_type k of FAT_12 \<Rightarrow> lit ''fat12:'' | FAT_16_L32 \<Rightarrow> lit ''fat16:'' | FAT_16_G32 \<Rightarrow> lit ''fat16:''
          | FAT_16_LBA \<Rightarrow> lit ''fat16:'' | FAT_32_LBA \<Rightarrow> lit ''fat32:'' | FAT_32_CHS \<Rightarrow> lit ''fat32:''
          | LINUX_NATIVE \<Rightarrow> lit ''linux native:'' | FS_UNKNOWN \<Rightarrow> lit ''file system unknown:'') s)"

partial_function (option) print_parts ::
  "addr \<Rightarrow> ('d, 'z) disk_state_scheme \<Rightarrow> ('d, 'z) disk_state_scheme option" where
  "print_parts cur s =
     (if cur = 0 then Some s else print_parts (next_part (part_at s cur)) (print_part (part_at s cur) s))"

definition print_link_list :: "addr \<Rightarrow> ('d, 'z) disk_state_scheme \<Rightarrow> ('d, 'z) disk_state_scheme option" where
  "print_link_list dsk s =
     (if link_list (disk_at s dsk) = 0 then Some (print (lit ''no linked list'' @ nl) s)
      else print_parts (link_list (disk_at s dsk)) s)"

fun partition_debug_from :: "nat list \<Rightarrow> ('d, 'z) disk_state_scheme \<Rightarrow> ('d, 'z) disk_state_scheme option" where
  "partition_debug_from [] s = Some s"
| "partition_debug_from (i # is) s =
     (if motherlobe s ! i = 0 then partition_debug_from is s
      else case print_link_list (motherlobe s ! i) (print nl (print_32 (of_nat i) (print (lit ''diskno:'') s))) of
        None \<Rightarrow> None | Some s1 \<Rightarrow> partition_debug_from is s1)"

definition partition_debug :: "('d, 'z) disk_state_scheme \<Rightarrow> ('d, 'z) disk_state_scheme option" where
  "partition_debug s = partition_debug_from [0..<5] s"

section \<open>Lists of partitions\<close>

fun plist :: "(addr \<Rightarrow> partition) \<Rightarrow> addr \<Rightarrow> addr list \<Rightarrow> bool" where
  "plist f p [] \<longleftrightarrow> p = 0"
| "plist f p (a # as) \<longleftrightarrow> p = a \<and> a \<noteq> 0 \<and> plist f (next_part (f a)) as"

lemma plist_cong: "(\<And>a. a \<in> set as \<Longrightarrow> next_part (f a) = next_part (g a)) \<Longrightarrow> plist f p as = plist g p as"
  by (induction as arbitrary: p) auto

lemma plist_0: "plist f p as \<Longrightarrow> p = 0 \<longleftrightarrow> as = []"
  by (cases as) auto

lemma plist_unique: "plist f p as \<Longrightarrow> plist f p bs \<Longrightarrow> as = bs"
  by (induction as arbitrary: p bs; case_tac bs) auto

lemma plist_snoc:
  "plist f p as \<Longrightarrow> distinct as \<Longrightarrow> as \<noteq> [] \<Longrightarrow> a \<notin> set as \<Longrightarrow> a \<noteq> 0 \<Longrightarrow> next_part (g a) = 0 \<Longrightarrow> next_part (g (last as)) = a \<Longrightarrow>
    (\<And>b. b \<in> set as \<Longrightarrow> b \<noteq> last as \<Longrightarrow> next_part (g b) = next_part (f b)) \<Longrightarrow> plist g p (as @ [a])"
proof (induction as arbitrary: p)
  case (Cons b as)
  show ?case
  proof (cases "as = []")
    case False
    then have "b \<noteq> last as" using Cons.prems(2) by (metis distinct.simps(2) last_in_set)
    then have "next_part (g b) = next_part (f b)" using Cons.prems(8) [of b] False by simp
    moreover have "plist g (next_part (f b)) (as @ [a])"
      by (rule Cons.IH) (use Cons.prems False in auto)
    ultimately show ?thesis using Cons.prems(1) by simp
  qed (use Cons.prems in simp)
qed simp

section \<open>The entries of a table\<close>

definition entry :: "partition \<Rightarrow> byte \<times> FILE_SYST_TYPE \<times> u32 \<times> u32" where
  "entry k = (is_bootable k, fs_type k, start_sect k, sect_num k)"

definition mbr_entry :: "mem \<Rightarrow> addr \<Rightarrow> nat \<Rightarrow> byte \<times> FILE_SYST_TYPE \<times> u32 \<times> u32" where
  "mbr_entry m pt i =
     (let e = pt + of_nat (16 * i)
      in (if m e = 0x80 then 1 else 0, mbr_type (m (e + 4)), get32 m (e + 8), get32 m (e + 12)))"

definition usable :: "u32 \<Rightarrow> byte \<times> FILE_SYST_TYPE \<times> u32 \<times> u32 \<Rightarrow> bool" where
  "usable cap e \<longleftrightarrow> (case e of (_, _, st, n) \<Rightarrow> n \<noteq> 0 \<and> \<not> cap < st + n)"

text \<open>
  The loop invariant: \<open>s0\<close> is the state before the loop, \<open>c\<close> the requests still to come, \<open>es\<close> the
  entries entered so far.
\<close>

definition scan_ok ::
  "('d, 'z) disk_state_scheme \<Rightarrow> addr \<Rightarrow> nat \<Rightarrow> (byte \<times> FILE_SYST_TYPE \<times> u32 \<times> u32) list \<Rightarrow>
    addr \<times> addr \<times> ('d, 'z) disk_state_scheme \<Rightarrow> bool" where
  "scan_ok s0 dsk c es st \<longleftrightarrow> (case st of (hd1, last1, s) \<Rightarrow>
     client s c \<and> cream_objects s0 \<subseteq> cream_objects s \<and>
     (\<exists>as. plist (part_at s) hd1 as \<and> (as \<noteq> [] \<longrightarrow> last1 = last as) \<and> map (entry \<circ> part_at s) as = es \<and>
        distinct as \<and> (\<forall>a \<in> set as. f_disk (part_at s a) = dsk \<and> a \<notin> fst ` cream_objects s0 \<and>
          (\<exists>n\<ge>24. (a, n) \<in> cream_objects s))) \<and>
     (\<forall>a \<in> fst ` cream_objects s0. part_at s a = part_at s0 a) \<and>
     (\<forall>(b, l) \<in> cream_objects s0. \<forall>x. in_range b l x \<longrightarrow> mem s x = mem s0 x) \<and>
     disk_at s = disk_at s0 \<and> dev s = dev s0 \<and> motherlobe s = motherlobe s0 \<and> disk1 s = disk1 s0)"

lemma scan_okI:
  assumes "client s c" and "cream_objects s0 \<subseteq> cream_objects s" and "plist (part_at s) hd1 as"
    and "as \<noteq> [] \<Longrightarrow> last1 = last as" and "map (entry \<circ> part_at s) as = es" and "distinct as"
    and "\<And>a. a \<in> set as \<Longrightarrow> f_disk (part_at s a) = dsk" and "\<And>a. a \<in> set as \<Longrightarrow> a \<notin> fst ` cream_objects s0"
    and "\<And>a. a \<in> set as \<Longrightarrow> \<exists>n\<ge>24. (a, n) \<in> cream_objects s"
    and "\<And>a. a \<in> fst ` cream_objects s0 \<Longrightarrow> part_at s a = part_at s0 a"
    and "\<And>b l x. (b, l) \<in> cream_objects s0 \<Longrightarrow> in_range b l x \<Longrightarrow> mem s x = mem s0 x"
    and "disk_at s = disk_at s0" and "dev s = dev s0" and "motherlobe s = motherlobe s0" and "disk1 s = disk1 s0"
  shows "scan_ok s0 dsk c es (hd1, last1, s)"
  unfolding scan_ok_def prod.case using assms by blast

lemma heap_step_disk:
  assumes "heap_step s s'"
  shows "disk_at s' = disk_at s" "part_at s' = part_at s" "dev s' = dev s" "motherlobe s' = motherlobe s"
    "disk1 s' = disk1 s" "kernel_heap s' = kernel_heap s" "mothermary s' = mothermary s"
  using assms by (auto simp: heap_step_def)

lemma upd_part_fields [simp]:
  "mem (upd_part a f s) = mem s" "disk_at (upd_part a f s) = disk_at s" "dev (upd_part a f s) = dev s"
  "part_at (upd_part a f s) = (part_at s)(a := f (part_at s a))" "motherlobe (upd_part a f s) = motherlobe s"
  "disk1 (upd_part a f s) = disk1 s" "mothermary (upd_part a f s) = mothermary s"
  "kernel_heap (upd_part a f s) = kernel_heap s"
  by (simp_all add: upd_part_def)

lemma client_upd_part:
  "client s k \<Longrightarrow> client (upd_part a f s) k" "client s k \<Longrightarrow> cream_objects (upd_part a f s) = cream_objects s"
  by (rule client_same; simp)+

lemma scan_ok_start: "client s0 c \<Longrightarrow> scan_ok s0 dsk c [] (0, 0, s0)"
  unfolding scan_ok_def by (auto intro: exI [of _ "[]"])

lemma scan_ok_less: "scan_ok s0 dsk c es st \<Longrightarrow> l \<le> c \<Longrightarrow> scan_ok s0 dsk l es st"
  using client_less by (fastforce simp: scan_ok_def)

text \<open>The entry is filled: the state before it is linked or given back.\<close>

lemma mbr_step_fill:
  assumes "heap_cream_malloc sizeof_partition s = (cur, s1)"
    and e: "e = pt + of_nat (16 * i)" and "get32 (mem s) (e + 12) \<noteq> 0"
    and "s4 = upd_part cur (\<lambda>k. k\<lparr>is_bootable := if mem s1 e = 0x80 then 1 else 0,
        fs_type := mbr_type (mem s1 (e + 4)), f_disk := dsk,
        start_sect := get32 (mem s) (e + 8),
        sect_num := get32 (mem s) (e + 12), next_part := 0\<rparr>) s1"
  shows "mbr_step dsk pt i (hd1, last1, s) =
    (if sect_count (disk_at s1 dsk) < get32 (mem s) (e + 8) + get32 (mem s) (e + 12)
     then (hd1, last1, snd (heap_cream_free cur (print (lit ''corrupted'' @ nl) s4)))
     else if hd1 = 0 then (cur, cur, s4)
     else (hd1, cur, upd_part last1 (\<lambda>k. k\<lparr>next_part := cur\<rparr>) s4))"
proof -
  have u: "upd_part a f (upd_part a g t) = upd_part a (\<lambda>k. f (g k)) t" for a f g and t :: "('d, 'z) disk_state_scheme"
    by (simp add: upd_part_def)
  show ?thesis
    using assms(3) by (simp add: mbr_step_def Let_def assms(1,4) u e)
qed

text \<open>\<open>filled s0 s c t cur ent dsk\<close>: \<open>t\<close> is \<open>s\<close> with the new partition object \<open>cur\<close>, whose entry is \<open>ent\<close>.\<close>

definition filled ::
  "('d, 'z) disk_state_scheme \<Rightarrow> ('d, 'z) disk_state_scheme \<Rightarrow> nat \<Rightarrow> ('d, 'z) disk_state_scheme \<Rightarrow> addr \<Rightarrow>
    byte \<times> FILE_SYST_TYPE \<times> u32 \<times> u32 \<Rightarrow> addr \<Rightarrow> bool" where
  "filled s0 s c t cur ent dsk \<longleftrightarrow> client t c \<and> cur \<noteq> 0 \<and> cur \<notin> fst ` cream_objects s \<and>
     (\<exists>n\<ge>24. cream_objects t = insert (cur, n) (cream_objects s)) \<and>
     (\<forall>a. a \<noteq> cur \<longrightarrow> part_at t a = part_at s a) \<and> entry (part_at t cur) = ent \<and>
     next_part (part_at t cur) = 0 \<and> f_disk (part_at t cur) = dsk \<and>
     (\<forall>b l x. (b, l) \<in> cream_objects s0 \<longrightarrow> in_range b l x \<longrightarrow> mem t x = mem s0 x) \<and>
     disk_at t = disk_at s0 \<and> dev t = dev s0 \<and> motherlobe t = motherlobe s0 \<and> disk1 t = disk1 s0"

lemma scan_okE:
  assumes "scan_ok s0 dsk c es (hd1, last1, s)"
  obtains as where "client s c" and "cream_objects s0 \<subseteq> cream_objects s"
    and "plist (part_at s) hd1 as" and "as \<noteq> [] \<Longrightarrow> last1 = last as" and "map (entry \<circ> part_at s) as = es" and "distinct as"
    and "\<And>a. a \<in> set as \<Longrightarrow> f_disk (part_at s a) = dsk \<and> a \<notin> fst ` cream_objects s0 \<and> (\<exists>n\<ge>24. (a, n) \<in> cream_objects s)"
    and "\<And>a. a \<in> fst ` cream_objects s0 \<Longrightarrow> part_at s a = part_at s0 a"
    and "\<And>b l x. (b, l) \<in> cream_objects s0 \<Longrightarrow> in_range b l x \<Longrightarrow> mem s x = mem s0 x"
    and "disk_at s = disk_at s0" "dev s = dev s0" "motherlobe s = motherlobe s0" "disk1 s = disk1 s0"
  using assms unfolding scan_ok_def by (auto simp: Ball_def)

text \<open>An entry that does not fit: the object is given back.\<close>

lemma scan_drop:
  assumes ok: "scan_ok s0 dsk k es (hd1, last1, s)" and f: "filled s0 s c s4 cur ent dsk"
  shows "scan_ok s0 dsk c es (hd1, last1, snd (heap_cream_free cur (print bs s4)))"
proof -
  obtain as where sub: "cream_objects s0 \<subseteq> cream_objects s" and pl: "plist (part_at s) hd1 as"
    and la: "as \<noteq> [] \<Longrightarrow> last1 = last as" and es: "map (entry \<circ> part_at s) as = es" and dist: "distinct as"
    and props: "\<And>a. a \<in> set as \<Longrightarrow> f_disk (part_at s a) = dsk \<and> a \<notin> fst ` cream_objects s0 \<and> (\<exists>n\<ge>24. (a, n) \<in> cream_objects s)"
    and old: "\<And>a. a \<in> fst ` cream_objects s0 \<Longrightarrow> part_at s a = part_at s0 a"
    by (rule scan_okE [OF ok]) blast
  obtain n where n: "cream_objects s4 = insert (cur, n) (cream_objects s)" and c4: "client s4 c" and cur: "cur \<notin> fst ` cream_objects s"
    and p4: "\<And>a. a \<noteq> cur \<Longrightarrow> part_at s4 a = part_at s a"
    and m4: "\<And>b l x. (b, l) \<in> cream_objects s0 \<Longrightarrow> in_range b l x \<Longrightarrow> mem s4 x = mem s0 x"
    and same4: "disk_at s4 = disk_at s0" "dev s4 = dev s0" "motherlobe s4 = motherlobe s0" "disk1 s4 = disk1 s0"
    using f unfolding filled_def by blast
  let ?t = "print bs s4"
  have ct: "client ?t c" "cream_objects ?t = cream_objects s4" by (rule client_same [OF c4]; simp)+
  have cn: "(cur, n) \<in> cream_objects ?t" by (simp add: ct(2) n)
  note fr = client_free [OF ct(1) cn refl]
  have obj: "cream_objects s \<subseteq> cream_objects (snd (heap_cream_free cur ?t))" using fr(3) cur by (force simp: ct(2) n)
  have hf: "part_at (snd (heap_cream_free cur ?t)) = part_at s4" using heap_step_disk(2) [OF fr(2)] by simp
  have mf: "mem (snd (heap_cream_free cur ?t)) x = mem s0 x" if "(b, l) \<in> cream_objects s0" "in_range b l x" for b l x
    using fr(5) [of b l x] that sub m4 [OF that] by (auto simp: ct(2) n)
  have as4: "part_at s4 a = part_at s a" if "a \<in> set as" for a
    by (rule p4) (use props [OF that] cur in force)
  show ?thesis
  proof (rule scan_okI [where as = as])
    show "part_at (snd (heap_cream_free cur ?t)) a = part_at s0 a" if "a \<in> fst ` cream_objects s0" for a
      using old [OF that] p4 [of a] that cur sub unfolding hf by (metis image_mono subsetD)
    show "plist (part_at (snd (heap_cream_free cur ?t))) hd1 as" unfolding hf using plist_cong [of as "part_at s4" "part_at s"] as4 pl by simp
    show "map (entry \<circ> part_at (snd (heap_cream_free cur ?t))) as = es" unfolding hf using es as4 by (auto cong: map_cong)
    show "\<exists>n\<ge>24. (a, n) \<in> cream_objects (snd (heap_cream_free cur ?t))" if "a \<in> set as" for a using props [OF that] obj by blast
  qed (use fr(1) obj sub la dist props as4 mf same4 hf heap_step_disk [OF fr(2)] in auto)
qed

text \<open>An entry that fits is linked at the end.\<close>

lemma scan_append:
  assumes ok: "scan_ok s0 dsk k es (hd1, last1, s)" and f: "filled s0 s c s4 cur ent dsk"
  shows "scan_ok s0 dsk c (es @ [ent])
    (if hd1 = 0 then (cur, cur, s4) else (hd1, cur, upd_part last1 (\<lambda>k. k\<lparr>next_part := cur\<rparr>) s4))"
proof -
  obtain as where sub: "cream_objects s0 \<subseteq> cream_objects s" and pl: "plist (part_at s) hd1 as"
    and la: "as \<noteq> [] \<Longrightarrow> last1 = last as" and es: "map (entry \<circ> part_at s) as = es" and dist: "distinct as"
    and props: "\<And>a. a \<in> set as \<Longrightarrow> f_disk (part_at s a) = dsk \<and> a \<notin> fst ` cream_objects s0 \<and> (\<exists>n\<ge>24. (a, n) \<in> cream_objects s)"
    and old: "\<And>a. a \<in> fst ` cream_objects s0 \<Longrightarrow> part_at s a = part_at s0 a"
    by (rule scan_okE [OF ok]) blast
  obtain n where n: "24 \<le> n" "cream_objects s4 = insert (cur, n) (cream_objects s)" and c4: "client s4 c" "cur \<noteq> 0" "cur \<notin> fst ` cream_objects s"
    and p4: "\<And>a. a \<noteq> cur \<Longrightarrow> part_at s4 a = part_at s a"
    and k4: "entry (part_at s4 cur) = ent" "next_part (part_at s4 cur) = 0" "f_disk (part_at s4 cur) = dsk"
    and m4: "\<And>b l x. (b, l) \<in> cream_objects s0 \<Longrightarrow> in_range b l x \<Longrightarrow> mem s4 x = mem s0 x"
    and same4: "disk_at s4 = disk_at s0" "dev s4 = dev s0" "motherlobe s4 = motherlobe s0" "disk1 s4 = disk1 s0"
    using f unfolding filled_def by blast
  have cur: "cur \<notin> set as" "cur \<notin> fst ` cream_objects s0" using c4(3) props sub by force+
  have old4: "part_at s4 a = part_at s0 a" if "a \<in> fst ` cream_objects s0" for a using old [OF that] p4 [of a] that cur(2) by metis
  show ?thesis
  proof (cases "hd1 = 0")
    case True
    then have as: "as = []" using plist_0 [OF pl] by simp
    have "scan_ok s0 dsk c (es @ [ent]) (cur, cur, s4)"
      by (rule scan_okI [where as = "[cur]"]) (use n c4 k4 sub cur(2) m4 same4 es as old4 in auto)
    then show ?thesis using True by simp
  next
    case False
    then have as: "as \<noteq> []" using plist_0 [OF pl] by simp
    define s5 where "s5 = upd_part last1 (\<lambda>k. k\<lparr>next_part := cur\<rparr>) s4"
    have la': "last1 = last as" "last1 \<in> set as" using la [OF as] as by simp_all
    have p5: "part_at s5 a = part_at s4 a" if "a \<noteq> last1" for a using that by (simp add: s5_def)
    have e5: "entry (part_at s5 a) = entry (part_at s4 a)" "f_disk (part_at s5 a) = f_disk (part_at s4 a)" for a
      by (simp_all add: s5_def entry_def)
    have as4: "part_at s4 a = part_at s a" if "a \<in> set as" for a by (rule p4) (use that cur(1) in auto)
    have "scan_ok s0 dsk c (es @ [ent]) (hd1, cur, s5)"
    proof (rule scan_okI [where as = "as @ [cur]"])
      show "plist (part_at s5) hd1 (as @ [cur])"
      proof (rule plist_snoc [OF pl dist as cur(1) c4(2)])
        show "next_part (part_at s5 cur) = 0" using k4(2) p5 [of cur] la'(2) cur(1) by force
        show "next_part (part_at s5 (last as)) = cur" by (simp add: s5_def la'(1))
        show "next_part (part_at s5 b) = next_part (part_at s b)" if "b \<in> set as" "b \<noteq> last as" for b
          using that as4 p5 la'(1) by simp
      qed
      show "map (entry \<circ> part_at s5) (as @ [cur]) = es @ [ent]" using es as4 k4(1) e5 by (auto cong: map_cong)
      show "client s5 c" using client_upd_part [OF c4(1)] by (simp add: s5_def)
      show obj: "cream_objects s0 \<subseteq> cream_objects s5" using client_upd_part [OF c4(1)] n(2) sub by (auto simp: s5_def)
      show "\<exists>n\<ge>24. (b, n) \<in> cream_objects s5" if "b \<in> set (as @ [cur])" for b
        using that n props [of b] client_upd_part(2) [OF c4(1)] by (fastforce simp: s5_def)
      show "b \<notin> fst ` cream_objects s0" if "b \<in> set (as @ [cur])" for b
        using that props [of b] cur(2) by (cases "b = cur") simp_all
      show "part_at s5 a = part_at s0 a" if "a \<in> fst ` cream_objects s0" for a
        using p5 old4 [OF that] props [OF la'(2)] that by metis
    qed (use k4(3) cur m4 same4 props as4 dist e5(2) in \<open>auto simp: s5_def\<close>)
    then show ?thesis using False by (simp add: s5_def)
  qed
qed

text \<open>The entry is filled in a new object.\<close>

lemma mbr_entry_cong:
  assumes "\<And>k. k < 16 \<Longrightarrow> m (pt + of_nat (16 * i) + of_nat k) = m' (pt + of_nat (16 * i) + of_nat k)"
  shows "mbr_entry m pt i = mbr_entry m' pt i"
  unfolding mbr_entry_def Let_def get32_def
  using assms [of 0] assms [of 4] assms [of 8] assms [of 9] assms [of 10] assms [of 11]
    assms [of 12] assms [of 13] assms [of 14] assms [of 15] by (simp add: add.assoc)

lemma mbr_step_filled:
  assumes ok: "scan_ok s0 dsk (Suc c) es (hd1, last1, s)"
    and tbl: "\<And>k. k < 16 \<Longrightarrow> \<exists>(b, l) \<in> cream_objects s0. in_range b l (pt + of_nat (16 * i) + of_nat k)"
    and en: "mbr_entry (mem s0) pt i = (bo, ty, ss, sc)" and "sc \<noteq> 0"
  obtains cur s4 where "filled s0 s c s4 cur (bo, ty, ss, sc) dsk"
    and "mbr_step dsk pt i (hd1, last1, s) = (if sect_count (disk_at s0 dsk) < ss + sc
       then (hd1, last1, snd (heap_cream_free cur (print (lit ''corrupted'' @ nl) s4)))
       else if hd1 = 0 then (cur, cur, s4) else (hd1, cur, upd_part last1 (\<lambda>k. k\<lparr>next_part := cur\<rparr>) s4))"
proof -
  define e where "e = pt + of_nat (16 * i)"
  from ok have cl: "client s (Suc c)" and sub: "cream_objects s0 \<subseteq> cream_objects s"
    and mem: "\<And>b l x. (b, l) \<in> cream_objects s0 \<Longrightarrow> in_range b l x \<Longrightarrow> mem s x = mem s0 x"
    and same: "disk_at s = disk_at s0" "dev s = dev s0" "motherlobe s = motherlobe s0" "disk1 s = disk1 s0"
    by (auto elim: scan_okE)
  obtain cur s1 where m: "heap_cream_malloc sizeof_partition s = (cur, s1)" by fastforce
  obtain n where a: "cur \<noteq> 0" "client s1 c" "heap_step s s1" "24 \<le> n"
    "cream_objects s1 = insert (cur, n) (cream_objects s)" "cur \<notin> fst ` cream_objects s"
    and keep: "\<And>b l x. (b, l) \<in> cream_objects s \<Longrightarrow> in_range b l x \<Longrightarrow> mem s1 x = mem s x"
    by (rule client_malloc [OF cl _ _ m]) (auto simp: const_defs)
  note hs = heap_step_disk [OF a(3)]
  have m1: "mem s1 x = mem s0 x" if "(b, l) \<in> cream_objects s0" "in_range b l x" for b l x
    using mem [OF that] keep [OF _ that(2)] that(1) sub by auto
  have "mbr_entry (mem s) pt i = (bo, ty, ss, sc)" "mbr_entry (mem s1) pt i = (bo, ty, ss, sc)"
    unfolding en [symmetric] by (rule mbr_entry_cong; use tbl mem m1 in blast)+
  then have b: "get32 (mem s) (e + 8) = ss" "get32 (mem s) (e + 12) = sc" "(if mem s1 e = 0x80 then 1 else 0) = bo" "mbr_type (mem s1 (e + 4)) = ty"
    by (simp_all add: mbr_entry_def Let_def e_def)
  define s4 where "s4 = upd_part cur (\<lambda>k. k\<lparr>is_bootable := if mem s1 e = 0x80 then 1 else 0,
      fs_type := mbr_type (mem s1 (e + 4)), f_disk := dsk, start_sect := get32 (mem s) (e + 8),
      sect_num := get32 (mem s) (e + 12), next_part := 0\<rparr>) s1"
  have "filled s0 s c s4 cur (bo, ty, ss, sc) dsk"
    unfolding filled_def
  proof (intro conjI allI impI)
    show "\<exists>n\<ge>24. cream_objects s4 = insert (cur, n) (cream_objects s)"
      using client_upd_part(2) [OF a(2)] a(4,5) by (auto simp: s4_def)
  qed (use client_upd_part(1) [OF a(2)] a(1,6) m1 hs same b in \<open>simp_all add: s4_def entry_def\<close>)
  moreover have "mbr_step dsk pt i (hd1, last1, s) = (if sect_count (disk_at s0 dsk) < ss + sc
       then (hd1, last1, snd (heap_cream_free cur (print (lit ''corrupted'' @ nl) s4)))
       else if hd1 = 0 then (cur, cur, s4) else (hd1, cur, upd_part last1 (\<lambda>k. k\<lparr>next_part := cur\<rparr>) s4))"
    using mbr_step_fill [OF m e_def _ s4_def, of hd1 last1] b \<open>sc \<noteq> 0\<close> hs(1) same(1) by simp
  ultimately show thesis by (rule that)
qed

lemma mbr_step_ok:
  assumes ok: "scan_ok s0 dsk (Suc c) es st"
    and tbl: "\<And>k. k < 16 \<Longrightarrow> \<exists>(b, l) \<in> cream_objects s0. in_range b l (pt + of_nat (16 * i) + of_nat k)"
  shows "scan_ok s0 dsk c
    (es @ (if usable (sect_count (disk_at s0 dsk)) (mbr_entry (mem s0) pt i) then [mbr_entry (mem s0) pt i] else []))
    (mbr_step dsk pt i st)"
proof -
  obtain hd1 last1 s where st: "st = (hd1, last1, s)" by (metis prod_cases3)
  note ok' = ok [unfolded st]
  obtain bo ty ss sc where en: "mbr_entry (mem s0) pt i = (bo, ty, ss, sc)" by (metis prod_cases4)
  show ?thesis
  proof (cases "sc = 0")
    case True
    have "\<And>b l x. (b, l) \<in> cream_objects s0 \<Longrightarrow> in_range b l x \<Longrightarrow> mem s x = mem s0 x" using ok' by (auto elim: scan_okE)
    then have "mbr_entry (mem s) pt i = (bo, ty, ss, sc)"
      unfolding en [symmetric] by (intro mbr_entry_cong) (use tbl in blast)
    then have "get32 (mem s) (pt + of_nat (16 * i) + 12) = 0" using True by (simp add: mbr_entry_def Let_def)
    then have "mbr_step dsk pt i st = st" by (simp add: mbr_step_def st Let_def)
    then show ?thesis using scan_ok_less [OF ok, of c] True by (simp add: usable_def en)
  next
    case False
    obtain cur s4 where f: "filled s0 s c s4 cur (bo, ty, ss, sc) dsk"
      and step: "mbr_step dsk pt i (hd1, last1, s) = (if sect_count (disk_at s0 dsk) < ss + sc
         then (hd1, last1, snd (heap_cream_free cur (print (lit ''corrupted'' @ nl) s4)))
         else if hd1 = 0 then (cur, cur, s4) else (hd1, cur, upd_part last1 (\<lambda>k. k\<lparr>next_part := cur\<rparr>) s4))"
      by (rule mbr_step_filled [OF ok' tbl en False])
    show ?thesis using scan_drop [OF ok' f] scan_append [OF ok' f] False by (simp add: st step en usable_def)
  qed
qed

section \<open>The table as bytes of the sector\<close>

text \<open>
  What sector 0 says about a disk of \<open>cap\<close> sectors, from its 512 bytes: nothing without the signature, the
  whole disk when no entry has a type, and otherwise the entries that are not empty and fit.
\<close>

definition table_entry :: "byte list \<Rightarrow> nat \<Rightarrow> byte \<times> FILE_SYST_TYPE \<times> u32 \<times> u32" where
  "table_entry b i =
     (if b ! (446 + 16 * i) = 0x80 then 1 else 0, mbr_type (b ! (450 + 16 * i)), le32 b (454 + 16 * i), le32 b (458 + 16 * i))"

definition vbr_type :: "byte list \<Rightarrow> FILE_SYST_TYPE" where
  "vbr_type b =
     (if take 6 (drop 0x36 b) = lit ''FAT12 '' then FAT_12
      else if take 6 (drop 0x36 b) = lit ''FAT16 '' then FAT_16_LBA
      else if take 6 (drop 0x52 b) = lit ''FAT32 '' \<or> take 6 (drop 0x47 b) = lit ''FAT32 '' then FAT_32_LBA
      else FS_UNKNOWN)"

definition disk_entries :: "byte list \<Rightarrow> u32 \<Rightarrow> (byte \<times> FILE_SYST_TYPE \<times> u32 \<times> u32) list" where
  "disk_entries b cap =
     (if b ! 510 \<noteq> 0x55 \<or> b ! 511 \<noteq> 0xaa then []
      else if list_all (\<lambda>i. b ! (450 + 16 * i) = 0) [0..<4] then [(0, vbr_type b, 0, cap)]
      else filter (usable cap) (map (table_entry b) [0..<4]))"

lemma byte_bit: "bit (b :: byte) n \<Longrightarrow> n < 8"
  using bit_imp_le_length [of b n] by simp

lemma get32_bytes: "get32 m p = of_nat (unat (m p) + 2 ^ 8 * unat (m (p + 1)) + 2 ^ 16 * unat (m (p + 2)) + 2 ^ 24 * unat (m (p + 3)))"
proof -
  let ?a = "ucast (m p) :: u32" and ?b = "ucast (m (p + 1)) :: u32" and ?c = "ucast (m (p + 2)) :: u32" and ?d = "ucast (m (p + 3)) :: u32"
  have "push_bit 16 ?c AND push_bit 24 ?d = 0"
    by (rule bit_word_eqI) (auto simp: bit_simps dest!: byte_bit)
  then have c: "push_bit 16 ?c OR push_bit 24 ?d = push_bit 16 ?c + push_bit 24 ?d" by (simp add: disjunctive_add_eq_or)
  have "push_bit 8 ?b AND (push_bit 16 ?c OR push_bit 24 ?d) = 0"
    by (rule bit_word_eqI) (auto simp: bit_simps dest!: byte_bit)
  then have b: "push_bit 8 ?b OR push_bit 16 ?c OR push_bit 24 ?d = push_bit 8 ?b + (push_bit 16 ?c OR push_bit 24 ?d)"
    by (simp add: disjunctive_add_eq_or)
  have "?a AND (push_bit 8 ?b OR push_bit 16 ?c OR push_bit 24 ?d) = 0"
    by (rule bit_word_eqI) (auto simp: bit_simps dest!: byte_bit)
  then have "get32 m p = ?a + (push_bit 8 ?b OR push_bit 16 ?c OR push_bit 24 ?d)"
    by (simp add: get32_def disjunctive_add_eq_or)
  also have "\<dots> = ?a + push_bit 8 ?b + push_bit 16 ?c + push_bit 24 ?d" by (simp only: b) (simp only: c add.assoc)
  also have "\<dots> = of_nat (unat (m p) + 2 ^ 8 * unat (m (p + 1)) + 2 ^ 16 * unat (m (p + 2)) + 2 ^ 24 * unat (m (p + 3)))"
    by (simp add: push_bit_eq_mult)
  finally show ?thesis .
qed

lemma get32_le32:
  assumes "bytes_at m buf 512 = b" and "i + 3 < 512"
  shows "get32 m (buf + of_nat i) = le32 b i"
proof -
  have "m (buf + of_nat i + of_nat k) = b ! (i + k)" if "i + k < 512" for k
    using that assms(1) nth_bytes_at [of "i + k" 512 m buf] by (simp add: add.assoc)
  from this [of 0] this [of 1] this [of 2] this [of 3] show ?thesis
    using assms(2) by (simp add: get32_bytes le32_def)
qed

lemma strncmp_lit_0: "0 \<notin> set t \<Longrightarrow> length t = n \<Longrightarrow> strncmp_lit m p t n = 0 \<longleftrightarrow> bytes_at m p n = t"
  by (induction m p t n rule: strncmp_lit.induct) (auto simp: bytes_at_Suc word_uint_eq_iff)

text \<open>On a literal in memory it is the \<open>strncmp\<close> of the string routines.\<close>

lemma strncmp_lit_strncmp: "cstr m q t \<Longrightarrow> strncmp_loop m p q n = strncmp_lit m p t n"
  by (induction m p q n arbitrary: t rule: strncmp_loop.induct; case_tac t) (auto simp: cstr_Cons)

section \<open>The list of a disk\<close>

lemma in_sector:
  "k < 512 \<Longrightarrow> 512 \<le> N \<Longrightarrow> in_range buf N (buf + of_nat k)"
  using in_range_offset [of k buf N] by simp

lemma mbr_entry_table:
  assumes "bytes_at m buf 512 = b" and "i < 4"
  shows "mbr_entry m (buf + 446) i = table_entry b i"
proof -
  have byte: "m (buf + of_nat k) = b ! k" if "k < 512" for k using that assms(1) nth_bytes_at [of k 512 m buf] by simp
  define e where "e = buf + 446 + of_nat (16 * i)"
  have e: "e = buf + of_nat (446 + 16 * i)" "e + 4 = buf + of_nat (450 + 16 * i)" "e + 8 = buf + of_nat (454 + 16 * i)"
    "e + 12 = buf + of_nat (458 + 16 * i)"
    by (simp_all add: e_def)
  have k: "446 + 16 * i < 512" "450 + 16 * i < 512" "454 + 16 * i + 3 < 512" "458 + 16 * i + 3 < 512"
    using assms(2) by simp_all
  have "m e = b ! (446 + 16 * i)" by (simp only: e(1) byte [OF k(1)])
  moreover have "m (e + 4) = b ! (450 + 16 * i)" by (simp only: e(2) byte [OF k(2)])
  moreover have "get32 m (e + 8) = le32 b (454 + 16 * i)" by (simp only: e(3) get32_le32 [OF assms(1) k(3)])
  moreover have "get32 m (e + 12) = le32 b (458 + 16 * i)" by (simp only: e(4) get32_le32 [OF assms(1) k(4)])
  ultimately show ?thesis unfolding mbr_entry_def Let_def e_def [symmetric] table_entry_def by simp
qed

lemma scan_table:
  assumes "client s0 (c + 4)" and "(buf, N) \<in> cream_objects s0" and "512 \<le> N"
    and b: "bytes_at (mem s0) buf 512 = b" and "n \<le> 4"
  shows "scan_ok s0 dsk (c + 4 - n) (filter (usable (sect_count (disk_at s0 dsk))) (map (table_entry b) [0..<n]))
    (fold (mbr_step dsk (buf + 446)) [0..<n] (0, 0, s0))"
  using assms(5)
proof (induction n)
  case 0
  then show ?case using scan_ok_start [OF assms(1)] by simp
next
  case (Suc n)
  then have n: "n < 4" "c + 4 - n = Suc (c + 4 - Suc n)" by auto
  have "\<exists>(b, l) \<in> cream_objects s0. in_range b l (buf + 446 + of_nat (16 * n) + of_nat k)" if "k < 16" for k
  proof (rule bexI [OF _ assms(2)])
    have "buf + 446 + of_nat (16 * n) + of_nat k = buf + of_nat (446 + 16 * n + k)" by simp
    then show "case (buf, N) of (b, l) \<Rightarrow> in_range b l (buf + 446 + of_nat (16 * n) + of_nat k)"
      using in_sector [of "446 + 16 * n + k" N buf] that n(1) assms(3) by (simp only: prod.case)
  qed
  from mbr_step_ok [OF Suc.IH [unfolded n(2)] this] n(1) Suc.prems show ?case
    unfolding mbr_entry_table [OF b n(1)] by (simp split: if_splits)
qed

lemma check_mbr_table:
  assumes "bytes_at m buf 512 = b"
  shows "check_mbr m (buf + 446) \<longleftrightarrow> \<not> list_all (\<lambda>i. b ! (450 + 16 * i) = 0) [0..<4]"
proof -
  have "m (buf + 446 + of_nat (i * 16) + 4) = b ! (450 + 16 * i)" if "i < 4" for i
  proof -
    have "buf + 446 + of_nat (i * 16) + 4 = buf + of_nat (450 + 16 * i)" by simp
    then show ?thesis using that assms nth_bytes_at [of "450 + 16 * i" 512 m buf] by (simp only:)
  qed
  then show ?thesis by (auto simp: check_mbr_def list_ex_iff list_all_iff simp del: upt_rec_numeral of_nat_mult)
qed

lemma fix_vbr_type:
  assumes "bytes_at (mem s) buf 512 = b"
  shows "fix_vbr buf p s = upd_part p (\<lambda>k. k\<lparr>fs_type := vbr_type b, start_sect := 0\<rparr>) s"
proof -
  have t: "bytes_at (mem s) (buf + of_nat k) 6 = take 6 (drop k b)" if "k + 6 \<le> 512" for k
    using that assms take_bytes_at [of 6 "512 - k"] drop_bytes_at [of k 512 "mem s" buf] by simp
  have z: "0 \<notin> set (lit ''FAT12 '')" "0 \<notin> set (lit ''FAT16 '')" "0 \<notin> set (lit ''FAT32 '')"
    "length (lit ''FAT12 '') = 6" "length (lit ''FAT16 '') = 6" "length (lit ''FAT32 '') = 6"
    by (simp_all add: lit_def)
  note c = strncmp_lit_0 [OF z(1,4)] strncmp_lit_0 [OF z(2,5)] strncmp_lit_0 [OF z(3,6)]
  show ?thesis
    using t [of "0x36"] t [of "0x52"] t [of "0x47"] by (simp add: fix_vbr_def Let_def c vbr_type_def)
qed

lemma create_linked_list_ok:
  assumes cl: "client s0 (c + 4)" and buf: "(buf, N) \<in> cream_objects s0" "512 \<le> N"
    and b: "bytes_at (mem s0) buf 512 = b" and magic: "b ! 510 = 0x55" "b ! 511 = 0xaa"
    and r: "create_linked_list dsk buf (buf + 446) s0 = (l, s)"
  shows "\<exists>last1. scan_ok s0 dsk c (disk_entries b (sect_count (disk_at s0 dsk))) (l, last1, s)"
proof (cases "check_mbr (mem s0) (buf + 446)")
  case True
  obtain h last1 s' where f: "fold (mbr_step dsk (buf + 446)) [0..<4] (0, 0, s0) = (h, last1, s')" by (metis prod_cases3)
  then have "l = h" "s = s'" using r True by (simp_all add: create_linked_list_def del: upt_rec_numeral)
  moreover have "scan_ok s0 dsk c (filter (usable (sect_count (disk_at s0 dsk))) (map (table_entry b) [0..<4])) (h, last1, s')"
    using scan_table [OF cl buf b, of 4 dsk] f by (simp del: upt_rec_numeral)
  ultimately show ?thesis
    using True magic check_mbr_table [OF b] by (auto simp: disk_entries_def simp del: upt_rec_numeral)
next
  case False
  define t where "t = print (lit ''we have vbr'' @ nl) s0"
  have ct: "client t (c + 4)" "cream_objects t = cream_objects s0" unfolding t_def by (rule client_same [OF cl]; simp)+
  have tm: "mem t = mem s0" by (simp add: t_def)
  obtain cur s1 where m: "heap_cream_malloc sizeof_partition t = (cur, s1)" by fastforce
  have ct': "client t (Suc (c + 3))" using ct(1) by (simp add: add.commute)
  obtain n where a: "cur \<noteq> 0" "client s1 (c + 3)" "heap_step t s1" "24 \<le> n"
    "cream_objects s1 = insert (cur, n) (cream_objects t)" "cur \<notin> fst ` cream_objects t"
    and keep: "\<And>b l x. (b, l) \<in> cream_objects t \<Longrightarrow> in_range b l x \<Longrightarrow> mem s1 x = mem t x"
    by (rule client_malloc [OF ct' _ _ m]) (auto simp: const_defs)
  note hs = heap_step_disk [OF a(3)]
  have "mem s1 (buf + of_nat k) = mem s0 (buf + of_nat k)" if "k < 512" for k
    using keep [of buf N "buf + of_nat k"] buf in_sector [OF that buf(2), of buf] ct(2) tm by simp
  then have b1: "bytes_at (mem s1) buf 512 = b" using b by (auto intro: bytes_at_cong)
  have l: "l = cur" and s: "s = upd_part cur (\<lambda>k. k\<lparr>is_bootable := 0, f_disk := dsk, sect_num := sect_count (disk_at s0 dsk),
      next_part := 0\<rparr>) (upd_part cur (\<lambda>k. k\<lparr>fs_type := vbr_type b, start_sect := 0\<rparr>) s1)"
    using r False m hs(1) by (auto simp: create_linked_list_def t_def fix_vbr_type [OF b1])
  have "client s (c + 3)" "cream_objects s = insert (cur, n) (cream_objects s0)"
    using client_upd_part client_upd_part(2) [OF client_upd_part(1) [OF a(2)]] a(2,5) ct(2) unfolding s by (simp_all add: client_upd_part)
  then have "scan_ok s0 dsk c [(0, vbr_type b, 0, sect_count (disk_at s0 dsk))] (cur, cur, s)"
  proof (intro scan_okI [where as = "[cur]"])
    show "part_at s a = part_at s0 a" if "a \<in> fst ` cream_objects s0" for a
      using that a(6) ct(2) hs(2) by (auto simp: s t_def)
    show "mem s x = mem s0 x" if "(b, l) \<in> cream_objects s0" "in_range b l x" for b l x
      using keep [of b l x] that by (simp add: s ct(2) tm)
  qed (use a(1,4,6) ct(2) hs client_less [of s "c + 3" c] in \<open>auto simp: s entry_def t_def\<close>)
  then show ?thesis
    using l False magic check_mbr_table [OF b] by (auto simp: disk_entries_def simp del: upt_rec_numeral)
qed

lemma upd_disk_fields [simp]:
  "mem (upd_disk a f s) = mem s" "part_at (upd_disk a f s) = part_at s" "dev (upd_disk a f s) = dev s"
  "disk_at (upd_disk a f s) = (disk_at s)(a := f (disk_at s a))" "motherlobe (upd_disk a f s) = motherlobe s"
  "disk1 (upd_disk a f s) = disk1 s" "mothermary (upd_disk a f s) = mothermary s"
  "kernel_heap (upd_disk a f s) = kernel_heap s"
  by (simp_all add: upd_disk_def)

lemma client_upd_disk:
  "client s k \<Longrightarrow> client (upd_disk a f s) k" "client s k \<Longrightarrow> cream_objects (upd_disk a f s) = cream_objects s"
  by (rule client_same; simp)+

text \<open>
  What a scan of \<open>dsk\<close> leaves: \<open>b\<close> is sector 0, \<open>c\<close> the requests that are still sure to be served.  Live
  objects, their bytes and partitions, the other disks and the device are as before.
\<close>

definition scanned ::
  "('d, 'z) disk_state_scheme \<Rightarrow> addr \<Rightarrow> byte list \<Rightarrow> nat \<Rightarrow> ('d, 'z) disk_state_scheme \<Rightarrow> bool" where
  "scanned s dsk b c s' \<longleftrightarrow>
     (\<exists>as. plist (part_at s') (link_list (disk_at s' dsk)) as \<and> distinct as \<and>
        map (entry \<circ> part_at s') as = disk_entries b (sect_count (disk_at s dsk)) \<and>
        (\<forall>a \<in> set as. f_disk (part_at s' a) = dsk \<and> a \<notin> fst ` cream_objects s \<and> (\<exists>n\<ge>24. (a, n) \<in> cream_objects s'))) \<and>
     client s' c \<and> cream_objects s \<subseteq> cream_objects s' \<and>
     (\<forall>a \<in> fst ` cream_objects s. part_at s' a = part_at s a) \<and>
     (\<forall>(a, l) \<in> cream_objects s. \<forall>x. in_range a l x \<longrightarrow> mem s' x = mem s x) \<and>
     disk_at s' = (disk_at s)(dsk := (disk_at s dsk)\<lparr>link_list := link_list (disk_at s' dsk)\<rparr>) \<and>
     motherlobe s' = motherlobe s"

text \<open>The end of a scan, when the buffer is given back and the list is entered.\<close>

lemma scan_end:
  assumes ok: "scan_ok s0 dsk c es (l, last1, s)" and es: "es = disk_entries b (sect_count (disk_at s0 dsk))"
    and buf: "(buf, N) \<in> cream_objects s0" and new: "buf \<notin> fst ` cream_objects t" "cream_objects s0 = insert (buf, N) (cream_objects t)"
    and t: "disk_at s0 = (disk_at t)(dsk := (disk_at t dsk)\<lparr>link_list := x0\<rparr>)" "part_at s0 = part_at t" "motherlobe s0 = motherlobe t"
      "\<And>a l x. (a, l) \<in> cream_objects t \<Longrightarrow> in_range a l x \<Longrightarrow> mem s0 x = mem t x"
    and s': "s' = snd (heap_cream_free buf (upd_disk dsk (\<lambda>k. k\<lparr>link_list := l\<rparr>) s))"
  shows "scanned t dsk b c s'" and "dev s' = dev s0"
proof -
  define u where "u = upd_disk dsk (\<lambda>k. k\<lparr>link_list := l\<rparr>) s"
  from ok obtain as where cl: "client s c" and sub: "cream_objects s0 \<subseteq> cream_objects s"
    and pl: "plist (part_at s) l as" and es': "map (entry \<circ> part_at s) as = es" and dist: "distinct as"
    and props: "\<And>a. a \<in> set as \<Longrightarrow> f_disk (part_at s a) = dsk \<and> a \<notin> fst ` cream_objects s0 \<and>
      (\<exists>n\<ge>24. (a, n) \<in> cream_objects s)"
    and old: "\<And>a. a \<in> fst ` cream_objects s0 \<Longrightarrow> part_at s a = part_at s0 a"
    and mem: "\<And>b l x. (b, l) \<in> cream_objects s0 \<Longrightarrow> in_range b l x \<Longrightarrow> mem s x = mem s0 x"
    and same: "disk_at s = disk_at s0" "dev s = dev s0" "motherlobe s = motherlobe s0"
    unfolding scan_ok_def by (auto simp: Ball_def)
  have u: "client u c" "cream_objects u = cream_objects s" unfolding u_def by (rule client_upd_disk [OF cl])+
  have bu: "(buf, N) \<in> cream_objects u" using buf sub u(2) by blast
  note f = client_free [OF u(1) bu s' [folded u_def]] and hs = heap_step_disk [OF client_free(2) [OF u(1) bu s' [folded u_def]]]
  have p': "part_at s' = part_at s" and d': "disk_at s' = (disk_at s0)(dsk := (disk_at s0 dsk)\<lparr>link_list := l\<rparr>)"
    and m': "motherlobe s' = motherlobe t" using hs same t(3) by (simp_all add: u_def)
  have ll: "link_list (disk_at s' dsk) = l" by (simp add: d')
  have keep: "cream_objects t \<subseteq> cream_objects s'" using f(3) u(2) sub new by force
  have "\<exists>n\<ge>24. (a, n) \<in> cream_objects s'" if a: "a \<in> set as" for a
  proof -
    obtain n where n: "24 \<le> n" "(a, n) \<in> cream_objects s" using props [OF a] by blast
    have "a \<noteq> buf" using props [OF a] buf by force
    then show ?thesis using f(3) u(2) n by blast
  qed
  then have lists: "\<exists>as. plist (part_at s') (link_list (disk_at s' dsk)) as \<and> distinct as \<and>
        map (entry \<circ> part_at s') as = disk_entries b (sect_count (disk_at t dsk)) \<and>
        (\<forall>a \<in> set as. f_disk (part_at s' a) = dsk \<and> a \<notin> fst ` cream_objects t \<and> (\<exists>n\<ge>24. (a, n) \<in> cream_objects s'))"
    using pl dist es' es props new(2) t(1) by (intro exI [of _ as]) (simp add: p' ll)
  have mem': "mem s' x = mem t x" if "(a, k) \<in> cream_objects t" "in_range a k x" for a k x
    using f(5) [of a k x] that u(2) sub new(2) mem [of a k x] t(4) [OF that] by (auto simp: u_def)
  show "scanned t dsk b c s'"
    unfolding scanned_def
    using lists f(1) keep mem' m' old new(2) t(1,2) d' p' by (auto simp: ll)
  show "dev s' = dev s0" using hs same by (simp add: u_def)
qed

text \<open>A scan with any outcome of the transfer: \<open>m\<close> and \<open>d\<close> are what it leaves.\<close>

lemma single_disk_scan_buffer:
  assumes cl: "client s (c + 5)" and dsk: "dsk \<noteq> 0"
    and m: "heap_cream_malloc 512 (upd_disk dsk (\<lambda>k. k\<lparr>link_list := 0\<rparr>) s) = (buf, s1)"
    and r: "read_disk_block io dsk 0 1 buf s1 = (r, s1\<lparr>mem := m1, dev := d\<rparr>)"
    and fr: "\<And>x. \<not> in_range buf 512 x \<Longrightarrow> m1 x = mem s1 x"
    and b: "b = (if r < 0 then replicate 512 0 else bytes_at m1 buf 512)"
    and s': "s' = single_disk_scan io dsk s"
  shows "scanned s dsk b c s'" and "dev s' = d"
proof -
  define t where "t = upd_disk dsk (\<lambda>k. k\<lparr>link_list := 0\<rparr>) s"
  have t: "client t (c + 5)" "cream_objects t = cream_objects s" unfolding t_def by (rule client_upd_disk [OF cl])+
  have tm: "mem t = mem s" by (simp add: t_def)
  have t': "client t (Suc (c + 4))" using t(1) by (simp add: add.commute)
  obtain N where a: "client s1 (c + 4)" "heap_step t s1" "512 \<le> N"
    "cream_objects s1 = insert (buf, N) (cream_objects t)" "buf \<notin> fst ` cream_objects t"
    and keep: "\<And>b l x. (b, l) \<in> cream_objects t \<Longrightarrow> in_range b l x \<Longrightarrow> mem s1 x = mem t x"
    and apart: "\<And>b l. (b, l) \<in> cream_objects t \<Longrightarrow> ranges_disjoint buf N b l"
    by (rule client_malloc [OF t' _ _ m [folded t_def]]) (auto simp: const_defs)
  note hs = heap_step_disk [OF a(2)]
  define s2 where "s2 = s1\<lparr>mem := m1, dev := d\<rparr>"
  have bN: "(buf, N) \<in> cream_objects s1" by (simp add: a(4))
  have out: "mem s2 x = mem s1 x" if "\<not> in_range buf N x" for x
    using fr [of x] that in_range_mono [of buf 512 x N] a(3) by (auto simp: s2_def)
  have s2: "client s2 (c + 4)" "cream_objects s2 = cream_objects s1"
    by (rule client_store [OF a(1) bN out]; simp add: s2_def)+
  have mem2: "mem s2 x = mem s x" if "(q, l) \<in> cream_objects s" "in_range q l x" for q l x
    using out [of x] keep [of q l x] apart [of q l] that by (auto simp: t(2) tm ranges_disjoint_def)
  have new: "buf \<notin> fst ` cream_objects s" "cream_objects s2 = insert (buf, N) (cream_objects s)"
    using a(4,5) s2(2) by (simp_all add: t(2))
  have f2: "disk_at s2 = (disk_at s)(dsk := (disk_at s dsk)\<lparr>link_list := 0\<rparr>)" "part_at s2 = part_at s"
    "motherlobe s2 = motherlobe s" "dev s2 = d"
    using hs by (simp_all add: s2_def t_def)
  have byte: "r \<ge> 0 \<Longrightarrow> mem s2 (buf + 510) = b ! 510" "r \<ge> 0 \<Longrightarrow> mem s2 (buf + 511) = b ! 511"
    using nth_bytes_at [of 510 512 m1 buf] nth_bytes_at [of 511 512 m1 buf] by (simp_all add: b s2_def)
  have "scanned s dsk b c s' \<and> dev s' = d"
  proof (cases "r \<ge> 0 \<and> b ! 510 = 0x55 \<and> b ! 511 = 0xaa")
    case False
    then have no: "disk_entries b (sect_count (disk_at s2 dsk)) = []" by (auto simp: disk_entries_def b)
    have "s' = snd (heap_cream_free buf (upd_disk dsk (\<lambda>k. k\<lparr>link_list := 0\<rparr>) s2))"
    proof -
      have "(disk_at s2)(dsk := (disk_at s2 dsk)\<lparr>link_list := 0\<rparr>) = disk_at s2" by (simp add: f2)
      then have "upd_disk dsk (\<lambda>k. k\<lparr>link_list := 0\<rparr>) s2 = s2" by (simp add: upd_disk_def)
      then show ?thesis
        using False dsk m r byte by (auto simp: s' single_disk_scan_def s2_def)
    qed
    note s'' = this
    have "scan_ok s2 dsk c [] (0, 0, s2)" by (rule scan_ok_start [OF client_less [OF s2(1)]]) simp
    from scan_end [OF this no [symmetric] _ new(1) new(2) f2(1-3) mem2 s''] new(2) f2(4) show ?thesis by simp
  next
    case True
    then have bb: "b = bytes_at m1 buf 512" by (simp add: b)
    define s3 where "s3 = print (lit ''create a linked list'' @ nl) s2"
    have s3: "client s3 (c + 4)" "cream_objects s3 = cream_objects s2" unfolding s3_def by (rule client_same [OF s2(1)]; simp)+
    have bN3: "(buf, N) \<in> cream_objects s3" by (simp add: s3(2) new(2))
    obtain l s4 where cr: "create_linked_list dsk buf (buf + 446) s3 = (l, s4)" by fastforce
    have b3: "bytes_at (mem s3) buf 512 = b" by (simp add: s3_def s2_def bb)
    obtain last1 where ok: "scan_ok s3 dsk c (disk_entries b (sect_count (disk_at s3 dsk))) (l, last1, s4)"
      using create_linked_list_ok [OF s3(1) bN3 a(3) b3 _ _ cr] True by auto
    have s'': "s' = snd (heap_cream_free buf (upd_disk dsk (\<lambda>k. k\<lparr>link_list := l\<rparr>) s4))"
      using True dsk m r byte cr by (simp add: s' single_disk_scan_def s2_def s3_def)
    have f3: "disk_at s3 = disk_at s2" "part_at s3 = part_at s2" "motherlobe s3 = motherlobe s2" "dev s3 = d" "mem s3 = mem s2"
      by (simp_all add: s3_def f2)
    from scan_end [OF ok refl bN3 new(1) new(2) [folded s3(2)] f2(1-3) [folded f3(1-3)] _ s''] mem2 f3(4,5)
    show ?thesis by simp
  qed
  then show "scanned s dsk b c s'" "dev s' = d" by blast+
qed

context ata_drive
begin

lemma single_disk_scan_ok:
  assumes cl: "client s (c + 5)" and dsk: "dsk \<noteq> 0"
    and drive: "inv (dev s)" "phase (dev s) = Idle" "attached base drives (disk_at s dsk)"
    and cap: "sect_count (disk_at s dsk) \<noteq> 0"
    and b: "b = sector_bytes (media (dev s) (is_master (disk_at s dsk) = 0) 0)"
  shows "scanned s dsk b c (single_disk_scan io dsk s)" and "inv (dev (single_disk_scan io dsk s))"
    and "phase (dev (single_disk_scan io dsk s)) = Idle" and "media (dev (single_disk_scan io dsk s)) = media (dev s)"
proof -
  define t where "t = upd_disk dsk (\<lambda>k. k\<lparr>link_list := 0\<rparr>) s"
  obtain buf s1 where m: "heap_cream_malloc 512 t = (buf, s1)" by fastforce
  note hs = heap_step_disk [OF heap_step_malloc [OF m]]
  have k1: "disk_at s1 dsk = (disk_at s dsk)\<lparr>link_list := 0\<rparr>" "dev s1 = dev s" by (simp_all add: hs t_def)
  have "unat (0 :: u32) + unat (1 :: u32) \<le> unat (sect_count (disk_at s1 dsk))"
    using cap by (simp add: k1 unat_gt_0 Suc_le_eq)
  from read_disk_block_ok [OF _ _ _ this, of buf] obtain d where
    r: "read_disk_block io dsk 0 1 buf s1 = (0, s1\<lparr>mem := put_bytes (mem s1) buf b, dev := d\<rparr>)"
    and d: "inv d" "phase d = Idle" "media d = media (dev s)"
    using drive by (auto simp: k1 b)
  have len: "length b = 512" using drive(1) by (simp add: b sector_words)
  have "b = (if (0 :: int) < 0 then replicate 512 0 else bytes_at (put_bytes (mem s1) buf b) buf 512)"
    using bytes_at_put_bytes [of b "mem s1" buf] len by simp
  note sc = single_disk_scan_buffer [OF cl dsk m [unfolded t_def] r _ this refl]
  have fr: "\<not> in_range buf 512 x \<Longrightarrow> put_bytes (mem s1) buf b x = mem s1 x" for x by (simp add: put_bytes_out len)
  show "scanned s dsk b c (single_disk_scan io dsk s)" by (rule sc(1)) (rule fr)
  show "inv (dev (single_disk_scan io dsk s))" "phase (dev (single_disk_scan io dsk s)) = Idle"
    "media (dev (single_disk_scan io dsk s)) = media (dev s)"
    using sc(2) [OF fr] d by simp_all
qed

end

section \<open>Walking a list\<close>

lemma print_part_parts [simp]: "part_at (print_part k s) = part_at s"
  by (simp add: print_part_def)

lemma print_parts_plist: "plist (part_at s) p as \<Longrightarrow> print_parts p s = Some (fold (\<lambda>a t. print_part (part_at s a) t) as s)"
proof (induction as arbitrary: p s)
  case Nil
  then show ?case by (simp add: print_parts.simps)
next
  case (Cons a as)
  then show ?case
    using Cons.IH [of "print_part (part_at s a) s"] by (subst print_parts.simps) simp
qed

section \<open>A machine after its start-up\<close>

text \<open>
  The first sector has the table of a disk of 1000 sectors: a bootable FAT16 partition of 500 sectors from
  63 on, and a Linux partition that starts behind the last sector.
\<close>

definition mbr_sector :: "byte list" where
  "mbr_sector = replicate 446 0 @ [0x80, 0, 0, 0, 0x0e, 0, 0, 0, 63, 0, 0, 0, 0xf4, 1, 0, 0] @
     [0, 0, 0, 0, 0x83, 0, 0, 0, 0xe8, 3, 0, 0, 1, 0, 0, 0] @ replicate 32 0 @ [0x55, 0xaa]"

definition mbr_channel :: channel where
  "mbr_channel = blank_channel\<lparr>ch_media := \<lambda>_ _. words_at (put_bytes (\<lambda>_. 0) 0 mbr_sector) 0 256\<rparr>"

definition booted :: "channel disk_state" where
  "booted = help_me_mary_mother_of_god (kheap_init (blank_state\<lparr>dev := mbr_channel\<rparr>))"

lemma booted_client: "client booted 124" "cream_objects booted = {}"
  by (rule boot_client [OF _ booted_def]; simp add: blank_state_def)+

lemma booted_devices [simp]: "dev booted = mbr_channel" "disk_at booted p = blank_disk" "motherlobe booted = replicate 5 0"
proof -
  let ?t = "kheap_init (blank_state\<lparr>dev := mbr_channel\<rparr>)"
  obtain p u where u: "heap_step ?t u" "help_me_mary_mother_of_god ?t = u\<lparr>mothermary := p\<rparr>" by (rule help_me_step)
  show "dev booted = mbr_channel" "disk_at booted q = blank_disk" "motherlobe booted = replicate 5 0" for q
    using heap_step_disk [OF u(1)]
    by (simp_all add: booted_def u(2)) (simp_all add: blank_state_def const_defs)
qed

lemma mbr_channel_inv: "ch_inv mbr_channel" "ch_phase mbr_channel = Idle"
  by (simp_all add: mbr_channel_def blank_channel_def ch_inv_def)

lemma mbr_channel_sector: "sector_bytes (ch_media mbr_channel sl 0) = mbr_sector"
  using bytes_at_put_bytes [of mbr_sector "\<lambda>_. 0" 0]
  by (simp add: mbr_channel_def sector_bytes_words_at mbr_sector_def)

lemma mbr_sector_entries: "disk_entries mbr_sector 1000 = [(1, FAT_16_LBA, 63, 500)]"
proof -
  have four: "[0..<4] = [0, 1, 2, 3 :: nat]" by code_simp
  have "mbr_sector ! 510 = 0x55" "mbr_sector ! 511 = 0xaa" "mbr_sector ! 450 = 0x0e" by (simp_all add: mbr_sector_def nth_append)
  moreover have "table_entry mbr_sector 0 = (1, FAT_16_LBA, 63, 500)" "table_entry mbr_sector 1 = (0, LINUX_NATIVE, 1000, 1)"
    "table_entry mbr_sector 2 = (0, FS_UNKNOWN, 0, 0)" "table_entry mbr_sector 3 = (0, FS_UNKNOWN, 0, 0)"
    by (simp_all add: table_entry_def mbr_sector_def nth_append mbr_type_def le32_def)
  ultimately show ?thesis by (simp add: disk_entries_def four usable_def del: upt_rec_numeral)
qed

section \<open>Properties\<close>

text \<open>C18: the partition list of a disk is the partition table of its first sector.\<close>

theorem single_disk_scan_lists:
  assumes "ata_drive io base drives dinv regs media phase pending"
    and "client s (c + 5)" and "dsk \<noteq> 0"
    and "dinv (dev s)" and "phase (dev s) = Idle" and "attached base drives (disk_at s dsk)"
    and "sect_count (disk_at s dsk) \<noteq> 0"
    and "b = sector_bytes (media (dev s) (is_master (disk_at s dsk) = 0) 0)"
  shows "scanned s dsk b c (single_disk_scan io dsk s) \<and> media (dev (single_disk_scan io dsk s)) = media (dev s)"
  using ata_drive.single_disk_scan_ok [OF assms] by blast

lemma single_disk_scan_lists_witness:
  "\<exists>a. plist (part_at (single_disk_scan ch_io 0x204000 booted))
      (link_list (disk_at (single_disk_scan ch_io 0x204000 booted) 0x204000)) [a] \<and>
    entry (part_at (single_disk_scan ch_io 0x204000 booted) a) = (1, FAT_16_LBA, 63, 500)"
proof -
  have "client booted (119 + 5)" using booted_client by simp
  from single_disk_scan_lists [OF pio.ata_drive_axioms this, of "0x204000" mbr_sector]
  have "scanned booted 0x204000 mbr_sector 119 (single_disk_scan ch_io 0x204000 booted)"
    by (simp add: mbr_channel_inv mbr_channel_sector)
  then obtain as where "plist (part_at (single_disk_scan ch_io 0x204000 booted))
      (link_list (disk_at (single_disk_scan ch_io 0x204000 booted) 0x204000)) as"
    and "map (entry \<circ> part_at (single_disk_scan ch_io 0x204000 booted)) as = [(1, FAT_16_LBA, 63, 500)]"
    unfolding scanned_def using mbr_sector_entries by (elim conjE exE) (simp add: that)
  then show ?thesis by (intro exI [of _ "as ! 0"]) (cases as; auto)
qed

text \<open>The walk that prints a partition list ends at its end.\<close>

lemma print_link_list_ends:
  assumes "plist (part_at s) (link_list (disk_at s dsk)) as"
  shows "print_link_list dsk s = Some (if as = [] then print (lit ''no linked list'' @ nl) s
    else fold (\<lambda>a t. print_part (part_at s a) t) as s)"
  using print_parts_plist [OF assms] plist_0 [OF assms] by (simp add: print_link_list_def)

end
