(* ===== verification/Vfs.thy ===== *)
theory Vfs
  imports Partitions
begin

text \<open>
  The tables of the file-system layer: the structs and globals of \<open>src/kernel/file_syst/vfs.h\<close>, \<open>vfs.c\<close> and
  the hash functions of \<open>hash.c\<close>.  Objects of each struct type lie in a typed store, as the disks and
  partitions do.  A \<open>union\<close> of two pointers is one address.  The walks along the linked lists are
  partial functions: \<open>None\<close> is a walk that never ends.
\<close>

section \<open>The structs\<close>

record cache_table_entry =
  path_hash :: u64
  content_type :: u32
  ct_content :: addr
  refcount :: u16
  ct_flags :: u16
  ct_next :: addr
  ct_prev :: addr

record mount_table_entry =
  mnt_part :: addr
  fs_root_node :: addr
  ct_table_entry :: addr
  fs_bpb :: addr
  mt_next :: addr
  mt_prev :: addr

record vfs_node =
  node_size :: u32
  node_id :: u32
  node_mode :: u16
  user_id :: u16
  dirty_bit :: u32
  access_time :: u32
  modified_time :: u32
  node_content :: addr
  origin_mount_point :: addr
  fs_specific :: u32

record file_struct =
  vfs_node_ptr :: addr
  file_flags :: byte
  file_offset :: u32

record fat16_bpb =
  bytes_per_sect :: u16
  sect_per_clust :: byte
  reserved_sectors :: u16
  fat_count :: byte
  sectors_per_fat :: u16
  root_entry_count :: u16
  fat_lba :: u32
  root_lba :: u32
  data_lba :: u32

definition CTE_MOUNT_PNT :: u32 where [const_defs]: "CTE_MOUNT_PNT = 0x0001"
definition CTE_FILE :: u32 where [const_defs]: "CTE_FILE = 0x0010"
definition CTE_DIR :: u32 where [const_defs]: "CTE_DIR = 0x0100"
definition CTE_ROOT :: u32 where [const_defs]: "CTE_ROOT = 0x1000"

definition file_read :: u16 where [const_defs]: "file_read = 0x1"
definition file_write :: u16 where [const_defs]: "file_write = 0x2"

definition VFS_NODE_ID_MAX :: u32 where [const_defs]: "VFS_NODE_ID_MAX = 10000000"
definition MAX_OPEN_FILE_COUNT :: u32 where [const_defs]: "MAX_OPEN_FILE_COUNT = 100"
definition VFS_NODE_DEPLETION_PANIC :: int where [const_defs]: "VFS_NODE_DEPLETION_PANIC = 34"
definition MOUNT_FAILURE :: int where [const_defs]: "MOUNT_FAILURE = 35"
definition MOUNT_TABLE_FULL :: int where [const_defs]: "MOUNT_TABLE_FULL = 36"
definition FILE_NOT_FOUND :: int where [const_defs]: "FILE_NOT_FOUND = 37"
definition FILE_NOT_MOUNTPOINT :: int where [const_defs]: "FILE_NOT_MOUNTPOINT = 38"
definition RESOURCE_BUSY :: int where [const_defs]: "RESOURCE_BUSY = 39"
definition MORE_THAN_ONE_REFCOUNT :: int where [const_defs]: "MORE_THAN_ONE_REFCOUNT = 44"
definition TRYING_TO_CLOSE_MOUNT_PNT :: int where [const_defs]: "TRYING_TO_CLOSE_MOUNT_PNT = 45"
definition NULL_ARG :: int where [const_defs]: "NULL_ARG = 46"

definition sizeof_cache_table_entry :: u32 where [const_defs]: "sizeof_cache_table_entry = 28"
definition sizeof_mount_table_entry :: u32 where [const_defs]: "sizeof_mount_table_entry = 24"
definition sizeof_vfs_node :: u32 where [const_defs]: "sizeof_vfs_node = 36"
definition sizeof_fat16_bpb :: u32 where [const_defs]: "sizeof_fat16_bpb = 24"

record 'd vfs_state = "'d disk_state" +
  ct_at :: "addr \<Rightarrow> cache_table_entry"
  mt_at :: "addr \<Rightarrow> mount_table_entry"
  node_at :: "addr \<Rightarrow> vfs_node"
  file_at :: "addr \<Rightarrow> file_struct"
  bpb_at :: "addr \<Rightarrow> fat16_bpb"
  VFS_INODE_ID_COUNT :: u32
  CACHE_TABLE_COUNT :: u32
  mount_table_start :: addr
  mount_table_last :: addr
  cache_table_start :: addr
  cache_table_last :: addr

definition upd_ct :: "addr \<Rightarrow> (cache_table_entry \<Rightarrow> cache_table_entry) \<Rightarrow> ('d, 'z) vfs_state_scheme \<Rightarrow> ('d, 'z) vfs_state_scheme" where
  "upd_ct a f s = s\<lparr>ct_at := (ct_at s)(a := f (ct_at s a))\<rparr>"

definition upd_mt :: "addr \<Rightarrow> (mount_table_entry \<Rightarrow> mount_table_entry) \<Rightarrow> ('d, 'z) vfs_state_scheme \<Rightarrow> ('d, 'z) vfs_state_scheme" where
  "upd_mt a f s = s\<lparr>mt_at := (mt_at s)(a := f (mt_at s a))\<rparr>"

definition upd_node :: "addr \<Rightarrow> (vfs_node \<Rightarrow> vfs_node) \<Rightarrow> ('d, 'z) vfs_state_scheme \<Rightarrow> ('d, 'z) vfs_state_scheme" where
  "upd_node a f s = s\<lparr>node_at := (node_at s)(a := f (node_at s a))\<rparr>"

definition upd_file :: "addr \<Rightarrow> (file_struct \<Rightarrow> file_struct) \<Rightarrow> ('d, 'z) vfs_state_scheme \<Rightarrow> ('d, 'z) vfs_state_scheme" where
  "upd_file a f s = s\<lparr>file_at := (file_at s)(a := f (file_at s a))\<rparr>"

definition upd_bpb :: "addr \<Rightarrow> (fat16_bpb \<Rightarrow> fat16_bpb) \<Rightarrow> ('d, 'z) vfs_state_scheme \<Rightarrow> ('d, 'z) vfs_state_scheme" where
  "upd_bpb a f s = s\<lparr>bpb_at := (bpb_at s)(a := f (bpb_at s a))\<rparr>"

section \<open>The operations\<close>

text \<open>Both hash functions of the source ignore the path.\<close>

definition generate_hash :: "mem \<Rightarrow> addr \<Rightarrow> u64" where
  "generate_hash m path = 0"

definition generate_hast_start_end :: "mem \<Rightarrow> addr \<Rightarrow> u32 \<Rightarrow> u32 \<Rightarrow> u64" where
  "generate_hast_start_end m str start end' = 0"

definition generate_vfs_node_id :: "('d, 'z) vfs_state_scheme \<Rightarrow> int \<times> ('d, 'z) vfs_state_scheme" where
  "generate_vfs_node_id s =
     (if VFS_INODE_ID_COUNT s < VFS_NODE_ID_MAX
      then (sint (VFS_INODE_ID_COUNT s + 1), s\<lparr>VFS_INODE_ID_COUNT := VFS_INODE_ID_COUNT s + 1\<rparr>)
      else (- VFS_NODE_DEPLETION_PANIC, s))"

definition it_all_exist_but_one :: "addr \<Rightarrow> addr" where
  "it_all_exist_but_one path = 0"

definition get_fs_specific_cache_table :: "addr \<Rightarrow> ('d, 'z) vfs_state_scheme \<Rightarrow> u32" where
  "get_fs_specific_cache_table ct s =
     (let c = ct_at s ct
      in if content_type c = CTE_MOUNT_PNT then fs_specific (node_at s (fs_root_node (mt_at s (ct_content c))))
         else if content_type c = CTE_FILE \<or> content_type c = CTE_DIR \<or> content_type c = CTE_ROOT
         then fs_specific (node_at s (ct_content c))
         else 0)"

text \<open>
  The position of the last backslash is computed and thrown away: the function ends without a \<open>return\<close>, as the
  empty \<open>vfs_mount\<close>, \<open>vfs_open\<close> and \<open>vfs_close\<close> do.  The value the caller finds is the argument \<open>junk\<close>.
\<close>

partial_function (option) last_head_loop :: "mem \<Rightarrow> addr \<Rightarrow> nat \<Rightarrow> u32 \<Rightarrow> u32 option" where
  "last_head_loop m path i rtn_val =
     (if m (path + of_nat i) = 0 then Some rtn_val
      else last_head_loop m path (i + 1) (if m (path + of_nat i) = 0x5c then of_nat i else rtn_val))"

definition get_me_last_head :: "u32 \<Rightarrow> mem \<Rightarrow> addr \<Rightarrow> u32 option" where
  "get_me_last_head junk m path = map_option (\<lambda>_. junk) (last_head_loop m path 0 0)"

definition vfs_mount :: "int \<Rightarrow> addr \<Rightarrow> addr \<Rightarrow> addr \<Rightarrow> ('d, 'z) vfs_state_scheme \<Rightarrow> int \<times> ('d, 'z) vfs_state_scheme" where
  "vfs_mount junk par path node s = (junk, s)"

definition vfs_open :: "addr \<Rightarrow> addr \<Rightarrow> ('d, 'z) vfs_state_scheme \<Rightarrow> addr \<times> ('d, 'z) vfs_state_scheme" where
  "vfs_open junk path s = (junk, s)"

definition vfs_close :: "int \<Rightarrow> addr \<Rightarrow> ('d, 'z) vfs_state_scheme \<Rightarrow> int \<times> ('d, 'z) vfs_state_scheme" where
  "vfs_close junk file_ptr s = (junk, s)"

section \<open>Frames\<close>

lemma upd_fields [simp]:
  "mem (upd_ct a f1 s) = mem s" "mem (upd_mt a f2 s) = mem s" "mem (upd_node a f3 s) = mem s"
  "mem (upd_file a f4 s) = mem s" "mem (upd_bpb a f5 s) = mem s"
  "dev (upd_ct a f1 s) = dev s" "dev (upd_mt a f2 s) = dev s" "dev (upd_node a f3 s) = dev s"
  "dev (upd_file a f4 s) = dev s" "dev (upd_bpb a f5 s) = dev s"
  "disk_at (upd_ct a f1 s) = disk_at s" "disk_at (upd_mt a f2 s) = disk_at s" "disk_at (upd_node a f3 s) = disk_at s"
  "disk_at (upd_file a f4 s) = disk_at s" "disk_at (upd_bpb a f5 s) = disk_at s"
  "part_at (upd_ct a f1 s) = part_at s" "part_at (upd_mt a f2 s) = part_at s" "part_at (upd_node a f3 s) = part_at s"
  "part_at (upd_file a f4 s) = part_at s" "part_at (upd_bpb a f5 s) = part_at s"
  by (simp_all add: upd_ct_def upd_mt_def upd_node_def upd_file_def upd_bpb_def)

lemma upd_stores [simp]:
  "ct_at (upd_ct a f1 s) = (ct_at s)(a := f1 (ct_at s a))" "ct_at (upd_mt a f2 s) = ct_at s" "ct_at (upd_node a f3 s) = ct_at s"
  "ct_at (upd_file a f4 s) = ct_at s" "ct_at (upd_bpb a f5 s) = ct_at s"
  "mt_at (upd_ct a f1 s) = mt_at s" "mt_at (upd_mt a f2 s) = (mt_at s)(a := f2 (mt_at s a))" "mt_at (upd_node a f3 s) = mt_at s"
  "mt_at (upd_file a f4 s) = mt_at s" "mt_at (upd_bpb a f5 s) = mt_at s"
  "node_at (upd_ct a f1 s) = node_at s" "node_at (upd_mt a f2 s) = node_at s"
  "node_at (upd_node a f3 s) = (node_at s)(a := f3 (node_at s a))"
  "node_at (upd_file a f4 s) = node_at s" "node_at (upd_bpb a f5 s) = node_at s"
  "file_at (upd_ct a f1 s) = file_at s" "file_at (upd_mt a f2 s) = file_at s" "file_at (upd_node a f3 s) = file_at s"
  "file_at (upd_file a f4 s) = (file_at s)(a := f4 (file_at s a))" "file_at (upd_bpb a f5 s) = file_at s"
  "bpb_at (upd_ct a f1 s) = bpb_at s" "bpb_at (upd_mt a f2 s) = bpb_at s" "bpb_at (upd_node a f3 s) = bpb_at s"
  "bpb_at (upd_file a f4 s) = bpb_at s" "bpb_at (upd_bpb a f5 s) = (bpb_at s)(a := f5 (bpb_at s a))"
  by (simp_all add: upd_ct_def upd_mt_def upd_node_def upd_file_def upd_bpb_def)

lemma upd_heap [simp]:
  "mothermary (upd_ct a f1 s) = mothermary s" "mothermary (upd_mt a f2 s) = mothermary s" "mothermary (upd_node a f3 s) = mothermary s"
  "mothermary (upd_file a f4 s) = mothermary s" "mothermary (upd_bpb a f5 s) = mothermary s"
  "kernel_heap (upd_ct a f1 s) = kernel_heap s" "kernel_heap (upd_mt a f2 s) = kernel_heap s" "kernel_heap (upd_node a f3 s) = kernel_heap s"
  "kernel_heap (upd_file a f4 s) = kernel_heap s" "kernel_heap (upd_bpb a f5 s) = kernel_heap s"
  by (simp_all add: upd_ct_def upd_mt_def upd_node_def upd_file_def upd_bpb_def)

lemma upd_globals [simp]:
  "cache_table_start (upd_ct a f1 s) = cache_table_start s" "cache_table_start (upd_mt a f2 s) = cache_table_start s"
  "cache_table_start (upd_node a f3 s) = cache_table_start s" "cache_table_start (upd_bpb a f5 s) = cache_table_start s"
  "cache_table_last (upd_ct a f1 s) = cache_table_last s" "cache_table_last (upd_mt a f2 s) = cache_table_last s"
  "cache_table_last (upd_node a f3 s) = cache_table_last s" "cache_table_last (upd_bpb a f5 s) = cache_table_last s"
  "mount_table_start (upd_ct a f1 s) = mount_table_start s" "mount_table_start (upd_mt a f2 s) = mount_table_start s"
  "mount_table_start (upd_node a f3 s) = mount_table_start s" "mount_table_start (upd_bpb a f5 s) = mount_table_start s"
  "mount_table_last (upd_ct a f1 s) = mount_table_last s" "mount_table_last (upd_mt a f2 s) = mount_table_last s"
  "mount_table_last (upd_node a f3 s) = mount_table_last s" "mount_table_last (upd_bpb a f5 s) = mount_table_last s"
  "CACHE_TABLE_COUNT (upd_ct a f1 s) = CACHE_TABLE_COUNT s" "CACHE_TABLE_COUNT (upd_mt a f2 s) = CACHE_TABLE_COUNT s"
  "CACHE_TABLE_COUNT (upd_node a f3 s) = CACHE_TABLE_COUNT s" "CACHE_TABLE_COUNT (upd_bpb a f5 s) = CACHE_TABLE_COUNT s"
  "VFS_INODE_ID_COUNT (upd_ct a f1 s) = VFS_INODE_ID_COUNT s" "VFS_INODE_ID_COUNT (upd_mt a f2 s) = VFS_INODE_ID_COUNT s"
  "VFS_INODE_ID_COUNT (upd_node a f3 s) = VFS_INODE_ID_COUNT s" "VFS_INODE_ID_COUNT (upd_bpb a f5 s) = VFS_INODE_ID_COUNT s"
  by (simp_all add: upd_ct_def upd_mt_def upd_node_def upd_bpb_def)

lemma client_upd:
  assumes "client s k"
  shows "client (upd_ct a f1 s) k" "client (upd_mt a f2 s) k" "client (upd_node a f3 s) k" "client (upd_file a f4 s) k"
    "client (upd_bpb a f5 s) k"
  by (rule client_same [OF assms]; simp)+

lemma objects_upd:
  assumes "client s k"
  shows "cream_objects (upd_ct a f1 s) = cream_objects s" "cream_objects (upd_mt a f2 s) = cream_objects s"
    "cream_objects (upd_node a f3 s) = cream_objects s" "cream_objects (upd_file a f4 s) = cream_objects s"
    "cream_objects (upd_bpb a f5 s) = cream_objects s"
  by (rule client_same [OF assms]; simp)+

lemma heap_step_vfs:
  assumes "heap_step s s'"
  shows "ct_at s' = ct_at s" "mt_at s' = mt_at s" "node_at s' = node_at s" "file_at s' = file_at s" "bpb_at s' = bpb_at s"
    "cache_table_start s' = cache_table_start s" "cache_table_last s' = cache_table_last s"
    "mount_table_start s' = mount_table_start s" "mount_table_last s' = mount_table_last s"
    "CACHE_TABLE_COUNT s' = CACHE_TABLE_COUNT s" "VFS_INODE_ID_COUNT s' = VFS_INODE_ID_COUNT s"
  using assms by (auto simp: heap_step_def)

lemmas heap_step_simps = heap_step_disk heap_step_vfs

section \<open>Node numbers\<close>

text \<open>
  The counter starts with the initial value \<open>-1\<close> of the source, which is above the limit: no number is ever given.
\<close>

lemma node_ids_depleted:
  "VFS_INODE_ID_COUNT s = - 1 \<Longrightarrow> generate_vfs_node_id s = (- VFS_NODE_DEPLETION_PANIC, s)"
  by (simp add: generate_vfs_node_id_def const_defs)

section \<open>A machine after its start-up\<close>

definition vfs_blank :: "channel \<Rightarrow> channel vfs_state" where
  "vfs_blank d = \<lparr>vedio = (\<lambda>_. 0), cursor_x = 0, cursor_y = 0, mem = (\<lambda>_. 0),
     kernel_heap = \<lparr>table = None, start_addr = 0, end_addr = 0\<rparr>,
     kernel_heap_table = \<lparr>entries = 0, total = 0\<rparr>, mothermary = 0, cur_dir_table = 0, cr0 = 0, cr3 = 0, interrupts = False,
     idt_table = 0x200000, idtr_descriptor = 0x203000, idtr = (0, 0), tick = 0, dev = d,
     disk_at = (\<lambda>_. blank_disk), part_at = (\<lambda>_. \<lparr>f_disk = 0x204000, fs_type = FAT_16_LBA, start_sect = 63, sect_num = 500,
       is_bootable = 0, next_part = 0\<rparr>), motherlobe = replicate DISK_SUPPORT_MAX 0, disk1 = 0x204000, G_BOOT_DRIVE = 0x80,
     ct_at = (\<lambda>_. \<lparr>path_hash = 0, content_type = 0, ct_content = 0, refcount = 0, ct_flags = 0, ct_next = 0, ct_prev = 0\<rparr>),
     mt_at = (\<lambda>_. \<lparr>mnt_part = 0, fs_root_node = 0, ct_table_entry = 0, fs_bpb = 0, mt_next = 0, mt_prev = 0\<rparr>),
     node_at = (\<lambda>_. \<lparr>node_size = 0, node_id = 0, node_mode = 0, user_id = 0, dirty_bit = 0, access_time = 0,
       modified_time = 0, node_content = 0, origin_mount_point = 0, fs_specific = 0\<rparr>),
     file_at = (\<lambda>_. \<lparr>vfs_node_ptr = 0, file_flags = 0, file_offset = 0\<rparr>),
     bpb_at = (\<lambda>_. \<lparr>bytes_per_sect = 0, sect_per_clust = 0, reserved_sectors = 0, fat_count = 0, sectors_per_fat = 0,
       root_entry_count = 0, fat_lba = 0, root_lba = 0, data_lba = 0\<rparr>),
     VFS_INODE_ID_COUNT = - 1, CACHE_TABLE_COUNT = 0, mount_table_start = 0, mount_table_last = 0,
     cache_table_start = 0, cache_table_last = 0\<rparr>"

lemma print_vfs [simp]:
  "ct_at (print cs s) = ct_at s" "mt_at (print cs s) = mt_at s" "node_at (print cs s) = node_at s"
  "file_at (print cs s) = file_at s" "bpb_at (print cs s) = bpb_at s"
  "VFS_INODE_ID_COUNT (print cs s) = VFS_INODE_ID_COUNT s" "CACHE_TABLE_COUNT (print cs s) = CACHE_TABLE_COUNT s"
  "mount_table_start (print cs s) = mount_table_start s" "mount_table_last (print cs s) = mount_table_last s"
  "cache_table_start (print cs s) = cache_table_start s" "cache_table_last (print cs s) = cache_table_last s"
  using print_ext [of cs s] by auto

lemma kheap_init_vfs [simp]:
  "ct_at (kheap_init s) = ct_at s" "mt_at (kheap_init s) = mt_at s" "node_at (kheap_init s) = node_at s"
  "file_at (kheap_init s) = file_at s" "bpb_at (kheap_init s) = bpb_at s"
  "VFS_INODE_ID_COUNT (kheap_init s) = VFS_INODE_ID_COUNT s" "CACHE_TABLE_COUNT (kheap_init s) = CACHE_TABLE_COUNT s"
  "mount_table_start (kheap_init s) = mount_table_start s" "cache_table_start (kheap_init s) = cache_table_start s"
  "cache_table_last (kheap_init s) = cache_table_last s"
  by (simp_all add: kheap_init_def heap_create_def Let_def heap_validate_alignment_def heap_entry_count_def const_defs)

text \<open>\<open>started t\<close> is the machine \<open>t\<close> after the two heaps have been set up.\<close>

definition started :: "('d, 'z) vfs_state_scheme \<Rightarrow> ('d, 'z) vfs_state_scheme" where
  "started t = help_me_mary_mother_of_god (kheap_init t)"

lemma started_keeps [simp]:
  "dev (started t) = dev t" "disk_at (started t) = disk_at t" "part_at (started t) = part_at t" "motherlobe (started t) = motherlobe t"
  "ct_at (started t) = ct_at t" "mt_at (started t) = mt_at t" "node_at (started t) = node_at t" "file_at (started t) = file_at t"
  "bpb_at (started t) = bpb_at t" "VFS_INODE_ID_COUNT (started t) = VFS_INODE_ID_COUNT t"
  "CACHE_TABLE_COUNT (started t) = CACHE_TABLE_COUNT t" "mount_table_start (started t) = mount_table_start t"
  "cache_table_start (started t) = cache_table_start t" "cache_table_last (started t) = cache_table_last t"
proof -
  obtain p u where u: "heap_step (kheap_init t) u" "help_me_mary_mother_of_god (kheap_init t) = u\<lparr>mothermary := p\<rparr>" by (rule help_me_step)
  note h = heap_step_simps [OF u(1)]
  show "dev (started t) = dev t" "disk_at (started t) = disk_at t" "part_at (started t) = part_at t" "motherlobe (started t) = motherlobe t"
    "ct_at (started t) = ct_at t" "mt_at (started t) = mt_at t" "node_at (started t) = node_at t" "file_at (started t) = file_at t"
    "bpb_at (started t) = bpb_at t" "VFS_INODE_ID_COUNT (started t) = VFS_INODE_ID_COUNT t"
    "CACHE_TABLE_COUNT (started t) = CACHE_TABLE_COUNT t" "mount_table_start (started t) = mount_table_start t"
    "cache_table_start (started t) = cache_table_start t" "cache_table_last (started t) = cache_table_last t"
    by (simp_all add: started_def u(2) h)
qed

lemma started_client: "mem t = (\<lambda>_. 0) \<Longrightarrow> client (started t) 124" "mem t = (\<lambda>_. 0) \<Longrightarrow> cream_objects (started t) = {}"
  by (rule boot_client [OF _ started_def]; assumption)+

end
