(* ===== verification/Fat16_Mount.thy ===== *)
theory Fat16_Mount
  imports Vfs
begin

text \<open>
  The first part of \<open>src/kernel/file_syst/fat16.c\<close>: parsing the boot sector of a partition, mounting and
  unmounting, and the searches of the cache table.  No page is protected, so a store through a NULL
  pointer goes to address 0; every struct type has a cell of its own there, and no theorem rests on what is stored in it.
\<close>

section \<open>The boot sector\<close>

definition get_2_bytes :: "mem \<Rightarrow> addr \<Rightarrow> u16" where
  "get_2_bytes m ptr = ucast (push_bit 8 (ucast (m (ptr + 1)) :: u32) OR ucast (m ptr))"

definition get_4_byte :: "mem \<Rightarrow> addr \<Rightarrow> u32" where
  "get_4_byte m ptr = push_bit 24 (ucast (m (ptr + 2))) OR push_bit 16 (ucast (m (ptr + 1)))
     OR push_bit 8 (ucast (m ptr)) OR ucast (m ptr)"

definition min32 :: "u32 \<Rightarrow> u32 \<Rightarrow> u32" where
  "min32 val1 val2 = (if val1 < val2 then val1 else val2)"

definition max32 :: "u32 \<Rightarrow> u32 \<Rightarrow> u32" where
  "max32 val1 val2 = (if val2 < val1 then val1 else val2)"

text \<open>The label \<open>fail\<close>.\<close>

definition parse_fail :: "addr \<Rightarrow> addr \<Rightarrow> ('d, 'z) vfs_state_scheme \<Rightarrow> addr \<times> ('d, 'z) vfs_state_scheme" where
  "parse_fail sect_0_buf bpb_ptr s =
     (let s1 = snd (heap_cream_free sect_0_buf s)
      in (0, if bpb_ptr \<noteq> 0 then snd (heap_cream_free bpb_ptr s1) else s1))"

text \<open>From the test of \<open>sectors_per_fat\<close> on: the addresses of the regions of the partition.\<close>

definition bpb_regions :: "u32 \<Rightarrow> fat16_bpb \<Rightarrow> fat16_bpb" where
  "bpb_regions start b =
     (let fat = start + ucast (reserved_sectors b);
          root = fat + ucast (fat_count b) * ucast (sectors_per_fat b);
          root_dir_count = (ucast (root_entry_count b) * 32 + (ucast (bytes_per_sect b) - 1)) div ucast (bytes_per_sect b)
      in b\<lparr>fat_lba := fat, root_lba := root, data_lba := root + root_dir_count\<rparr>)"

definition parse_partition_fill_bpb_fat16 ::
  "'d port_io \<Rightarrow> addr \<Rightarrow> ('d, 'z) vfs_state_scheme \<Rightarrow> addr \<times> ('d, 'z) vfs_state_scheme" where
  "parse_partition_fill_bpb_fat16 io part s =
     (case heap_cream_malloc 512 s of (buf, s1) \<Rightarrow>
       case read_disk_block io (f_disk (part_at s1 part)) (start_sect (part_at s1 part)) 1 buf s1 of (r, s2) \<Rightarrow>
         if r < 0 then (0, snd (heap_cream_free buf s2))
         else
           case heap_cream_malloc sizeof_fat16_bpb s2 of (p, s3) \<Rightarrow>
             let bps = get_2_bytes (mem s3) (buf + 0x0b);
                 s4 = upd_bpb p (\<lambda>b. b\<lparr>bytes_per_sect := bps\<rparr>) s3
             in if bps \<noteq> 512 \<and> bps \<noteq> 1024 \<and> bps \<noteq> 2048 \<and> bps \<noteq> 4096 then parse_fail buf p s4
             else
               let s5 = upd_bpb p (\<lambda>b. b\<lparr>sect_per_clust := mem s4 (buf + 0x0d)\<rparr>) s4
               in if sect_per_clust (bpb_at s5 p) = 0 then parse_fail buf p s5
               else
                 let s6 = upd_bpb p (\<lambda>b. b\<lparr>reserved_sectors := get_2_bytes (mem s5) (buf + 0xe),
                        fat_count := mem s5 (buf + 0x10)\<rparr>) s5
                 in if fat_count (bpb_at s6 p) = 0 then parse_fail buf p s6
                 else
                   let s7 = upd_bpb p (\<lambda>b. b\<lparr>root_entry_count := get_2_bytes (mem s6) (buf + 0x11),
                          sectors_per_fat := get_2_bytes (mem s6) (buf + 0x16)\<rparr>) s6
                   in if sectors_per_fat (bpb_at s7 p) = 0 then parse_fail buf p s7
                   else (p, snd (heap_cream_free buf (upd_bpb p (bpb_regions (start_sect (part_at s7 part))) s7))))"

definition get_root_specific_fat16 ::
  "'d port_io \<Rightarrow> addr \<Rightarrow> addr \<Rightarrow> ('d, 'z) vfs_state_scheme \<Rightarrow> u32 \<times> ('d, 'z) vfs_state_scheme" where
  "get_root_specific_fat16 io node part s =
     (case parse_partition_fill_bpb_fat16 io part s of (bpb, s1) \<Rightarrow>
       let b = bpb_at s1 bpb
       in (ucast (reserved_sectors b) + ucast (fat_count b) * ucast (sectors_per_fat b), s1))"

section \<open>Searching the cache table\<close>

text \<open>The first entry with a hash, and the last one.\<close>

partial_function (option) first_hash :: "('d, 'z) vfs_state_scheme \<Rightarrow> u64 \<Rightarrow> addr \<Rightarrow> addr option" where
  "first_hash s h i =
     (if i = 0 then Some 0 else if path_hash (ct_at s i) = h then Some i else first_hash s h (ct_next (ct_at s i)))"

partial_function (option) last_hash :: "('d, 'z) vfs_state_scheme \<Rightarrow> u64 \<Rightarrow> addr \<Rightarrow> addr \<Rightarrow> addr option" where
  "last_hash s h found i =
     (if i = 0 then Some found
      else last_hash s h (if path_hash (ct_at s i) = h then i else found) (ct_next (ct_at s i)))"

definition is_present_in_cache_table ::
  "int \<Rightarrow> u64 \<Rightarrow> addr \<Rightarrow> ('d, 'z) vfs_state_scheme \<Rightarrow> (addr \<times> ('d, 'z) vfs_state_scheme) option" where
  "is_present_in_cache_table mode hash path s =
     (if mode = 2 then map_option (\<lambda>e. (e, s)) (last_hash s (generate_hash (mem s) path) 0 (cache_table_start s))
      else if mode = 1 then map_option (\<lambda>e. (e, s)) (last_hash s hash 0 (cache_table_start s))
      else Some (0, print (lit ''fat16.c:illegal call in is_present_in_cache_table'' @ nl) s))"

text \<open>
  The search from the end of a path: \<open>Suc i\<close> stands for the index \<open>i\<close>.  The result is the entry and,
  where one is found, the value stored through \<open>path_offset\<close>.
\<close>

fun last_open_from ::
  "addr \<Rightarrow> nat \<Rightarrow> ('d, 'z) vfs_state_scheme \<Rightarrow> (addr \<times> int option) option" where
  "last_open_from path 0 s = Some (0, None)"
| "last_open_from path (Suc i) s =
     (if mem s (path + of_nat i) = of_char (CHR ''/'') then
        case is_present_in_cache_table 1 (generate_hast_start_end (mem s) path 0 (of_nat i - 1)) 0 s of
          None \<Rightarrow> None
        | Some (k, _) \<Rightarrow> if k \<noteq> 0 then Some (k, Some (int i - 1)) else last_open_from path (i - 1) s
      else last_open_from path i s)"

definition get_last_open :: "addr \<Rightarrow> ('d, 'z) vfs_state_scheme \<Rightarrow> (addr \<times> int option) option" where
  "get_last_open path s =
     (case strlen (mem s) path of None \<Rightarrow> None | Some len \<Rightarrow> last_open_from path (nat (sint len)) s)"

text \<open>The loop of \<open>search_cache_table\<close> has no step to the next entry.\<close>

partial_function (option) search_cache_table_loop :: "u64 \<Rightarrow> addr \<Rightarrow> ('d, 'z) vfs_state_scheme \<Rightarrow> addr option" where
  "search_cache_table_loop hash_val temp s =
     (if temp = 0 then Some 0
      else if path_hash (ct_at s temp) = hash_val then Some temp
      else search_cache_table_loop hash_val temp s)"

definition search_cache_table :: "u64 \<Rightarrow> ('d, 'z) vfs_state_scheme \<Rightarrow> addr option" where
  "search_cache_table hash_val s = search_cache_table_loop hash_val (cache_table_start s) s"

text \<open>\<open>while(i>=0 \&\& path[i]!='/') i--;\<close>\<close>

fun back_to_slash :: "mem \<Rightarrow> addr \<Rightarrow> nat \<Rightarrow> int" where
  "back_to_slash m path 0 = - 1"
| "back_to_slash m path (Suc i) =
     (if m (path + of_nat i) = of_char (CHR ''/'') then int i else back_to_slash m path i)"

partial_function (option) last_dir_loop ::
  "addr \<Rightarrow> ('d, 'z) vfs_state_scheme \<Rightarrow> bool \<Rightarrow> int \<Rightarrow> (byte \<times> u16 option) option" where
  "last_dir_loop path s success i =
     (let j = back_to_slash (mem s) path (nat (i + 1))
      in if j \<le> 0 then Some (0, None)
         else
           case search_cache_table (generate_hast_start_end (mem s) path 0 (of_int (j - 1))) s of
             None \<Rightarrow> None
           | Some e \<Rightarrow>
               if e \<noteq> 0 then
                 Some (0, if success then Some (ucast (get_fs_specific_cache_table e s)) else None)
               else last_dir_loop path s False (j - 1))"

text \<open>The result is the return code and, where it is written, the value stored through \<open>fs_specific\<close>.\<close>

definition get_fs_specific_path_last_dir ::
  "addr \<Rightarrow> ('d, 'z) vfs_state_scheme \<Rightarrow> (byte \<times> u16 option) option" where
  "get_fs_specific_path_last_dir path s =
     (case strlen (mem s) path of None \<Rightarrow> None
      | Some l \<Rightarrow>
          let len = (if mem s (path + l - 1) = of_char (CHR ''/'') then sint l - 2 else sint l - 1)
          in case search_cache_table (generate_hast_start_end (mem s) path 0 (of_int len)) s of
               None \<Rightarrow> None
             | Some e \<Rightarrow>
                 if e \<noteq> 0 then Some (2, Some (ucast (get_fs_specific_cache_table e s)))
                 else last_dir_loop path s True len)"

section \<open>Mounting\<close>

text \<open>The label \<open>fail\<close> of \<open>mount_fat16\<close>.\<close>

definition free_if :: "addr \<Rightarrow> ('d, 'z) vfs_state_scheme \<Rightarrow> ('d, 'z) vfs_state_scheme" where
  "free_if p s = (if p \<noteq> 0 then snd (heap_cream_free p s) else s)"

definition mount_fail ::
  "addr \<Rightarrow> addr \<Rightarrow> addr \<Rightarrow> ('d, 'z) vfs_state_scheme \<Rightarrow> int \<times> ('d, 'z) vfs_state_scheme" where
  "mount_fail mnt_tbl_e bpb r_node s = (- MOUNT_FAILURE, free_if r_node (free_if bpb (free_if mnt_tbl_e s)))"

text \<open>Appending to the two lists.\<close>

definition link_mount :: "addr \<Rightarrow> ('d, 'z) vfs_state_scheme \<Rightarrow> ('d, 'z) vfs_state_scheme" where
  "link_mount e s =
     upd_mt e (\<lambda>k. k\<lparr>mt_next := 0\<rparr>)
       (if mount_table_start s = 0
        then upd_mt e (\<lambda>k. k\<lparr>mt_prev := 0\<rparr>) (s\<lparr>mount_table_start := e, mount_table_last := e\<rparr>)
        else (upd_mt e (\<lambda>k. k\<lparr>mt_prev := mount_table_last s\<rparr>)
               (upd_mt (mount_table_last s) (\<lambda>k. k\<lparr>mt_next := e\<rparr>) s))\<lparr>mount_table_last := e\<rparr>)"

definition link_cache :: "addr \<Rightarrow> ('d, 'z) vfs_state_scheme \<Rightarrow> ('d, 'z) vfs_state_scheme" where
  "link_cache i s =
     upd_ct i (\<lambda>k. k\<lparr>ct_next := 0\<rparr>)
       (if cache_table_start s = 0
        then upd_ct i (\<lambda>k. k\<lparr>ct_prev := 0\<rparr>) (s\<lparr>cache_table_start := i, cache_table_last := i\<rparr>)
        else (upd_ct i (\<lambda>k. k\<lparr>ct_prev := cache_table_last s\<rparr>)
               (upd_ct (cache_table_last s) (\<lambda>k. k\<lparr>ct_next := i\<rparr>) s))\<lparr>cache_table_last := i\<rparr>)"

text \<open>From the assignment of \<open>fs_root_node\<close> on: the node, the cache table entry and its place in the list.\<close>

definition mount_enter ::
  "addr \<Rightarrow> u64 \<Rightarrow> addr \<Rightarrow> addr \<Rightarrow> addr \<Rightarrow> ('d, 'z) vfs_state_scheme \<Rightarrow> int \<times> ('d, 'z) vfs_state_scheme" where
  "mount_enter part hash_value e bpb r_node s =
     (let s1 = upd_mt e (\<lambda>k. k\<lparr>fs_root_node := r_node, mnt_part := part, fs_bpb := bpb\<rparr>) s
      in case generate_vfs_node_id s1 of (nid, s2) \<Rightarrow>
        let b = bpb_at s2 bpb;
            s3 = upd_node r_node (\<lambda>k. k\<lparr>node_id := of_int nid, node_content := e,
                   node_size := ucast (bytes_per_sect b) * (data_lba b - root_lba b),
                   fs_specific := ucast (reserved_sectors b) + ucast (fat_count b) * ucast (sectors_per_fat b)\<rparr>) s2
        in case heap_cream_malloc sizeof_cache_table_entry s3 of (i, s4) \<Rightarrow>
          let s5 = upd_ct i (\<lambda>k. k\<lparr>refcount := 1, content_type := CTE_MOUNT_PNT, ct_content := e, path_hash := hash_value\<rparr>) s4;
              s6 = s5\<lparr>CACHE_TABLE_COUNT := CACHE_TABLE_COUNT s5 + 1\<rparr>;
              s7 = upd_mt e (\<lambda>k. k\<lparr>ct_table_entry := i\<rparr>) s6
          in (0, link_cache i s7))"

text \<open>
  The early jumps to \<open>fail\<close> skip the initialisation of \<open>mnt_tbl_e\<close> and \<open>bpb\<close>; \<open>junk\<close> is what these
  two variables hold until then.
\<close>

definition mount_fat16 ::
  "'d port_io \<Rightarrow> addr \<times> addr \<Rightarrow> addr \<Rightarrow> addr \<Rightarrow> addr \<Rightarrow> ('d, 'z) vfs_state_scheme \<Rightarrow>
    (int \<times> ('d, 'z) vfs_state_scheme) option" where
  "mount_fat16 io junk part path r_node s =
     (if MAX_OPEN_FILE_COUNT \<le> CACHE_TABLE_COUNT s
      then Some (- MOUNT_TABLE_FULL, print (lit ''mount table full'' @ nl) s)
      else
        let hash_value = generate_hash (mem s) path
        in case first_hash s hash_value (cache_table_start s) of None \<Rightarrow> None
        | Some i \<Rightarrow> Some
           (if i \<noteq> 0 then mount_fail (fst junk) (snd junk) r_node (print (lit ''trying to mount on existing path'' @ nl) s)
            else case heap_cream_malloc sizeof_mount_table_entry s of (e, s1) \<Rightarrow>
              if e = 0 then mount_fail 0 (snd junk) r_node s1
              else case parse_partition_fill_bpb_fat16 io part (link_mount e s1) of (bpb, s2) \<Rightarrow>
                if bpb = 0 then mount_fail e 0 r_node s2
                else if r_node = 0 then mount_fail e bpb 0 s2
                else mount_enter part hash_value e bpb r_node s2))"

definition umount_fat16 :: "addr \<Rightarrow> ('d, 'z) vfs_state_scheme \<Rightarrow> (int \<times> ('d, 'z) vfs_state_scheme) option" where
  "umount_fat16 path s =
     (case last_hash s (generate_hash (mem s) path) 0 (cache_table_start s) of None \<Rightarrow> None
      | Some c \<Rightarrow> Some
         (if c = 0 then (- FILE_NOT_FOUND, print (lit ''path not found in cache table'' @ nl) s)
          else if ct_content (ct_at s c) = 0 then (- FILE_NOT_MOUNTPOINT, print (lit ''file open but not a mount point'' @ nl) s)
          else if refcount (ct_at s c) < 1 then (- RESOURCE_BUSY, print (lit ''file is open by another application'' @ nl) s)
          else
            let e = ct_content (ct_at s c);
                c_previous = ct_prev (ct_at s c);
                c_next = ct_next (ct_at s c);
                s1 = upd_ct c_next (\<lambda>k. k\<lparr>ct_prev := c_previous\<rparr>) (upd_ct c_previous (\<lambda>k. k\<lparr>ct_next := c_next\<rparr>) s);
                s2 = snd (heap_cream_free c s1);
                s3 = s2\<lparr>CACHE_TABLE_COUNT := CACHE_TABLE_COUNT s2 - 1\<rparr>;
                s4 = free_if (fs_bpb (mt_at s3 e)) s3;
                s5 = free_if (fs_root_node (mt_at s4 e)) s4;
                previous = mt_prev (mt_at s5 e);
                k_next = mt_next (mt_at s5 e);
                s6 = upd_mt k_next (\<lambda>k. k\<lparr>mt_prev := previous\<rparr>) (upd_mt previous (\<lambda>k. k\<lparr>mt_next := k_next\<rparr>) s5)
            in (0, snd (heap_cream_free e s6))))"

definition get_file_specific_fat16 :: "addr \<Rightarrow> addr \<Rightarrow> addr \<Rightarrow> ('d, 'z) vfs_state_scheme \<Rightarrow> int" where
  "get_file_specific_fat16 parent child name s = 0"

end
