(* ===== verification/Fat16.thy ===== *)
theory Fat16
  imports Fat16_Mount
begin

text \<open>
  The second part of \<open>src/kernel/file_syst/fat16.c\<close>: taking a free cluster, reading and writing a file.
  The results of the sector transfers are ignored, as in the source.  The divisions are those of C
  for a sector size of at least 2, which \<open>parse_partition_fill_bpb_fat16\<close> guarantees.
\<close>

definition SECTOR_SIZE_DISK_GENERAL_BYTES :: u16 where [const_defs]: "SECTOR_SIZE_DISK_GENERAL_BYTES = 512"

text \<open>\<open>(cur_cluster >=0xfff8 )|| (cur_cluster< 0x0002)\<close>: no further cluster.\<close>

definition eoc :: "u16 \<Rightarrow> bool" where
  "eoc c \<longleftrightarrow> 0xfff8 \<le> c \<or> c < 0x0002"

section \<open>Taking a free cluster\<close>

text \<open>The number of entries in a sector, and the transfers of one sector of the table.\<close>

definition half :: "fat16_bpb \<Rightarrow> nat" where
  "half b = unat (bytes_per_sect b) div 2"

definition rd :: "'d port_io \<Rightarrow> addr \<Rightarrow> u32 \<Rightarrow> addr \<Rightarrow> ('d, 'z) vfs_state_scheme \<Rightarrow> ('d, 'z) vfs_state_scheme" where
  "rd io dk lba buf s = snd (read_disk_block io dk lba 1 buf s)"

definition wr :: "'d port_io \<Rightarrow> addr \<Rightarrow> u32 \<Rightarrow> addr \<Rightarrow> ('d, 'z) vfs_state_scheme \<Rightarrow> ('d, 'z) vfs_state_scheme" where
  "wr io dk lba buf s = snd (write_disk_block io dk lba 1 buf s)"

definition set16 :: "addr \<Rightarrow> u32 \<Rightarrow> u16 \<Rightarrow> ('d, 'z) vfs_state_scheme \<Rightarrow> ('d, 'z) vfs_state_scheme" where
  "set16 a j v s = s\<lparr>mem := st16 (mem s) (a + 2 * j) v\<rparr>"

text \<open>
  The loop over the sectors of the first table.  The result is \<open>new_cluster_number\<close>,
  \<open>new_cluster_sector\<close>, \<open>new_sect_offset\<close>, \<open>cur_cluster_sect_no\<close> and the state; \<open>junk\<close> is what the second and the
  fourth of these hold when they are never assigned.
\<close>

fun take_entry ::
  "'d port_io \<Rightarrow> addr \<Rightarrow> fat16_bpb \<Rightarrow> u32 \<Rightarrow> u16 \<Rightarrow> addr \<Rightarrow> u32 \<times> u32 \<Rightarrow> nat list \<Rightarrow> ('d, 'z) vfs_state_scheme \<Rightarrow>
    u16 \<times> u32 \<times> u32 \<times> u32 \<times> ('d, 'z) vfs_state_scheme" where
  "take_entry io dk b start_fat cur buf junk [] s = (0xffff, fst junk, 0xffffffff, snd junk, s)"
| "take_entry io dk b start_fat cur buf junk (i # is) s =
     (let s1 = rd io dk (start_fat + of_nat i) buf s
      in case List.find (\<lambda>j. ld16 (mem s1) (buf + 2 * of_nat j) = 0) [0..<half b] of
           None \<Rightarrow> take_entry io dk b start_fat cur buf junk is s1
         | Some j \<Rightarrow>
             let s2 = set16 buf (of_nat j) 0xffff s1;
                 new = of_nat (i * half b + j);
                 own = unat cur div half b;
                 rest = of_nat (unat cur mod half b)
             in if eoc cur then (new, of_nat i, of_nat j, 0xffff, wr io dk (start_fat + of_nat i) buf s2)
                else if own = i
                then (new, of_nat i, of_nat j, of_nat own, wr io dk (start_fat + of_nat own) buf (set16 buf rest new s2))
                else (new, of_nat i, of_nat j, of_nat own,
                       wr io dk (start_fat + of_nat own) buf (set16 buf rest new
                         (rd io dk (start_fat + of_nat own) buf (wr io dk (start_fat + of_nat i) buf s2)))))"

text \<open>One round of the loop that repeats the changes in the other tables.\<close>

definition mirror_entry ::
  "'d port_io \<Rightarrow> addr \<Rightarrow> fat16_bpb \<Rightarrow> u32 \<Rightarrow> u16 \<Rightarrow> addr \<Rightarrow> u16 \<Rightarrow> u32 \<Rightarrow> u32 \<Rightarrow> u32 \<Rightarrow> nat \<Rightarrow>
    ('d, 'z) vfs_state_scheme \<Rightarrow> ('d, 'z) vfs_state_scheme" where
  "mirror_entry io dk b start_fat cur buf new nsec off own i s =
     (let table = start_fat + of_nat i * ucast (sectors_per_fat b);
          rest = of_nat (unat cur mod half b);
          s1 = set16 buf off 0xffff (rd io dk (table + nsec) buf s)
      in if nsec = own then wr io dk (table + nsec) buf (set16 buf rest new s1)
         else
           let s2 = wr io dk (table + nsec) buf s1
           in if 0xfff8 \<le> own then s2
              else wr io dk (table + own) buf (set16 buf rest new (rd io dk (table + own) buf s2)))"

definition get_free_cluster ::
  "'d port_io \<Rightarrow> u32 \<times> u32 \<Rightarrow> addr \<Rightarrow> addr \<Rightarrow> u32 \<Rightarrow> u16 \<Rightarrow> ('d, 'z) vfs_state_scheme \<Rightarrow> u16 \<times> ('d, 'z) vfs_state_scheme" where
  "get_free_cluster io junk dk bpb start_fat cur s =
     (let b = bpb_at s bpb
      in case heap_cream_malloc (ucast (bytes_per_sect b)) s of (buf, s1) \<Rightarrow>
        case take_entry io dk b start_fat cur buf junk [0..<unat (sectors_per_fat b)] s1 of (new, nsec, off, own, s2) \<Rightarrow>
          let s3 = fold (mirror_entry io dk b start_fat cur buf new nsec off own) [1..<unat (fat_count b)] s2
          in (new, snd (heap_cream_free buf s3)))"

section \<open>The clusters of a file\<close>

text \<open>The bytes of a cluster, and the number of its sectors before the data area.\<close>

definition cluster_size :: "fat16_bpb \<Rightarrow> u32" where
  "cluster_size b = ucast (bytes_per_sect b) * ucast (sect_per_clust b)"

definition data_sectors :: "fat16_bpb \<Rightarrow> u32" where
  "data_sectors b =
     ucast (reserved_sectors b) + ucast (sectors_per_fat b) * ucast (fat_count b) +
       (ucast (root_entry_count b) * 32 + (ucast (bytes_per_sect b) - 1)) div ucast (bytes_per_sect b)"

text \<open>The number of transfers of 512 bytes in a sector.\<close>

definition units :: "fat16_bpb \<Rightarrow> u32" where
  "units b = ucast (bytes_per_sect b div SECTOR_SIZE_DISK_GENERAL_BYTES)"

text \<open>One hop along the table: the entry of \<open>cur\<close>.\<close>

definition fat_hop ::
  "'d port_io \<Rightarrow> addr \<Rightarrow> fat16_bpb \<Rightarrow> u32 \<Rightarrow> addr \<Rightarrow> u16 \<Rightarrow> ('d, 'z) vfs_state_scheme \<Rightarrow> u16 \<times> ('d, 'z) vfs_state_scheme" where
  "fat_hop io dk b start single cur s =
     (let actual_byte_offset = ucast (2 * (ucast cur :: u32)) :: u64;
          sector_to_load = ucast (ucast (reserved_sectors b) + actual_byte_offset div ucast (bytes_per_sect b));
          s1 = snd (read_disk_block io dk (start + sector_to_load) (units b) single s)
      in (ld16 (mem s1) (single + ucast (actual_byte_offset mod ucast (bytes_per_sect b))), s1))"

fun read_hops ::
  "'d port_io \<Rightarrow> addr \<Rightarrow> fat16_bpb \<Rightarrow> u32 \<Rightarrow> addr \<Rightarrow> nat \<Rightarrow> u16 \<Rightarrow> ('d, 'z) vfs_state_scheme \<Rightarrow>
    bool \<times> u16 \<times> ('d, 'z) vfs_state_scheme" where
  "read_hops io dk b start single 0 cur s = (True, cur, s)"
| "read_hops io dk b start single (Suc n) cur s =
     (case fat_hop io dk b start single cur s of (c, s1) \<Rightarrow>
        if eoc c then (False, c, s1) else read_hops io dk b start single n c s1)"

text \<open>Sector \<open>q\<close> of cluster \<open>cur\<close>, and the loops that transfer a whole cluster.\<close>

definition cluster_lba :: "fat16_bpb \<Rightarrow> u32 \<Rightarrow> u16 \<Rightarrow> nat \<Rightarrow> u32" where
  "cluster_lba b start cur q = start + data_sectors b + (ucast cur - 2) * ucast (sect_per_clust b) + of_nat q"

definition read_cluster ::
  "'d port_io \<Rightarrow> addr \<Rightarrow> fat16_bpb \<Rightarrow> u32 \<Rightarrow> addr \<Rightarrow> u16 \<Rightarrow> ('d, 'z) vfs_state_scheme \<Rightarrow> ('d, 'z) vfs_state_scheme" where
  "read_cluster io dk b start cluster_temp cur s =
     fold (\<lambda>q s. snd (read_disk_block io dk (cluster_lba b start cur q) (units b)
             (cluster_temp + of_nat q * ucast (bytes_per_sect b)) s))
       [0..<unat (sect_per_clust b)] s"

definition write_cluster ::
  "'d port_io \<Rightarrow> addr \<Rightarrow> fat16_bpb \<Rightarrow> u32 \<Rightarrow> addr \<Rightarrow> u16 \<Rightarrow> ('d, 'z) vfs_state_scheme \<Rightarrow> ('d, 'z) vfs_state_scheme" where
  "write_cluster io dk b start cluster_temp cur s =
     fold (\<lambda>q s. snd (write_disk_block io dk (cluster_lba b start cur q) (units b)
             (cluster_temp + of_nat q * ucast (bytes_per_sect b)) s))
       [0..<unat (sect_per_clust b)] s"

section \<open>Reading\<close>

text \<open>The loop \<open>while(1)\<close>: the final \<open>buffer_index\<close> and the state.\<close>

partial_function (option) read_loop ::
  "'d port_io \<Rightarrow> addr \<Rightarrow> fat16_bpb \<Rightarrow> u32 \<Rightarrow> addr \<Rightarrow> addr \<Rightarrow> addr \<Rightarrow> u32 \<Rightarrow> u32 \<Rightarrow> u32 \<Rightarrow> u16 \<Rightarrow> u32 \<Rightarrow>
    ('d, 'z) vfs_state_scheme \<Rightarrow> (u32 \<times> ('d, 'z) vfs_state_scheme) option" where
  "read_loop io dk b start single cluster_temp buffer sz cluster_count offset cur buffer_index s =
     (case read_hops io dk b start single (unat cluster_count) cur s of (ok, c, s1) \<Rightarrow>
        if \<not> ok then Some (buffer_index, s1)
        else
          let s2 = read_cluster io dk b start cluster_temp c s1;
              target_size = min32 (sz - buffer_index) (cluster_size b - offset);
              s3 = s2\<lparr>mem := memcpy (mem s2) (buffer + buffer_index) (cluster_temp + offset) target_size\<rparr>
          in if sz \<le> buffer_index + target_size then Some (buffer_index + target_size, s3)
             else read_loop io dk b start single cluster_temp buffer sz 1 0 c (buffer_index + target_size) s3)"

definition read_fat16 ::
  "'d port_io \<Rightarrow> addr \<Rightarrow> addr \<Rightarrow> u32 \<Rightarrow> ('d, 'z) vfs_state_scheme \<Rightarrow> (int \<times> ('d, 'z) vfs_state_scheme) option" where
  "read_fat16 io file_ptr buffer sz s =
     (if sz = 0 \<or> file_ptr = 0 then Some (0, s)
      else
        let f = file_at s file_ptr;
            node = node_at s (vfs_node_ptr f);
            mnt = mt_at s (origin_mount_point node);
            b = bpb_at s (fs_bpb mnt);
            part = part_at s (mnt_part mnt);
            cluster_count = file_offset f div cluster_size b;
            offset_in_cluster = file_offset f mod cluster_size b;
            cur_cluster = ucast (fs_specific node)
        in if eoc cur_cluster then Some (0, s)
        else
          case heap_cream_malloc (ucast (bytes_per_sect b)) s of (single, s1) \<Rightarrow>
          case heap_cream_malloc (cluster_size b) s1 of (cluster_temp, s2) \<Rightarrow>
          case read_loop io (f_disk part) b (start_sect part) single cluster_temp buffer sz cluster_count
                 offset_in_cluster cur_cluster 0 s2 of
            None \<Rightarrow> None
          | Some (n, s3) \<Rightarrow>
              let s4 = snd (heap_cream_free cluster_temp (snd (heap_cream_free single s3)))
              in Some (sint n, upd_file file_ptr (\<lambda>f. f\<lparr>file_offset := file_offset f + n\<rparr>) s4))"

section \<open>Writing\<close>

text \<open>The hops of \<open>write_fat16\<close> take a free cluster where the file ends.\<close>

fun write_hops ::
  "'d port_io \<Rightarrow> u32 \<times> u32 \<Rightarrow> addr \<Rightarrow> addr \<Rightarrow> addr \<Rightarrow> u32 \<Rightarrow> addr \<Rightarrow> nat \<Rightarrow> u16 \<Rightarrow> ('d, 'z) vfs_state_scheme \<Rightarrow>
    u16 \<times> ('d, 'z) vfs_state_scheme" where
  "write_hops io junk dk node bpb start single 0 cur s = (cur, s)"
| "write_hops io junk dk node bpb start single (Suc n) cur s =
     (case fat_hop io dk (bpb_at s bpb) start single cur s of (c, s1) \<Rightarrow>
        if eoc c then
          case get_free_cluster io junk dk bpb (start + ucast (reserved_sectors (bpb_at s1 bpb))) c s1 of (c', s2) \<Rightarrow>
            write_hops io junk dk node bpb start single n c' (upd_node node (\<lambda>k. k\<lparr>dirty_bit := 1\<rparr>) s2)
        else write_hops io junk dk node bpb start single n c s1)"

partial_function (option) write_loop ::
  "'d port_io \<Rightarrow> u32 \<times> u32 \<Rightarrow> addr \<Rightarrow> addr \<Rightarrow> addr \<Rightarrow> u32 \<Rightarrow> addr \<Rightarrow> addr \<Rightarrow> addr \<Rightarrow> addr \<Rightarrow> u32 \<Rightarrow> u32 \<Rightarrow> u32 \<Rightarrow> u16 \<Rightarrow> u32 \<Rightarrow>
    ('d, 'z) vfs_state_scheme \<Rightarrow> (u32 \<times> ('d, 'z) vfs_state_scheme) option" where
  "write_loop io junk dk node bpb start single cluster_temp file_ptr buffer sz cluster_count offset cur buffer_index s =
     (case write_hops io junk dk node bpb start single (unat cluster_count) cur s of (c, s1) \<Rightarrow>
        let b = bpb_at s1 bpb;
            s2 = read_cluster io dk b start cluster_temp c s1;
            target_size = min32 (sz - buffer_index) (cluster_size b - offset);
            s3 = s2\<lparr>mem := memcpy (mem s2) (cluster_temp + offset) (buffer + buffer_index) target_size\<rparr>;
            s4 = write_cluster io dk b start cluster_temp c s3;
            index' = buffer_index + target_size;
            s5 = upd_file file_ptr (\<lambda>f. f\<lparr>file_offset := file_offset f + target_size\<rparr>) s4;
            s6 = upd_node node (\<lambda>k. k\<lparr>node_size := max32 (node_size k) index'\<rparr>) s5
        in if sz \<le> index' then Some (index', s6)
           else write_loop io junk dk node bpb start single cluster_temp file_ptr buffer sz 1 0 c index' s6)"

definition write_fat16 ::
  "'d port_io \<Rightarrow> u32 \<times> u32 \<Rightarrow> addr \<Rightarrow> addr \<Rightarrow> u32 \<Rightarrow> ('d, 'z) vfs_state_scheme \<Rightarrow> (int \<times> ('d, 'z) vfs_state_scheme) option" where
  "write_fat16 io junk file_ptr buffer sz s =
     (if sz = 0 \<or> file_ptr = 0 then Some (0, s)
      else
        let f = file_at s file_ptr;
            node = vfs_node_ptr f;
            mnt = mt_at s (origin_mount_point (node_at s node));
            b = bpb_at s (fs_bpb mnt);
            part = part_at s (mnt_part mnt);
            cluster_count = file_offset f div cluster_size b;
            offset_in_cluster = file_offset f mod cluster_size b;
            cur_cluster = ucast (fs_specific (node_at s node))
        in case
            (if eoc cur_cluster then
               case get_free_cluster io junk (f_disk part) (fs_bpb mnt) (start_sect part + ucast (reserved_sectors b)) cur_cluster s of
                 (c, s1) \<Rightarrow> (c, upd_node node (\<lambda>k. k\<lparr>fs_specific := ucast c, dirty_bit := 1\<rparr>) s1)
             else (cur_cluster, s)) of (c, s1) \<Rightarrow>
          case heap_cream_malloc (ucast (bytes_per_sect b)) s1 of (single, s2) \<Rightarrow>
          case heap_cream_malloc (cluster_size b) s2 of (cluster_temp, s3) \<Rightarrow>
          case write_loop io junk (f_disk part) node (fs_bpb mnt) (start_sect part) single cluster_temp file_ptr buffer sz
                 cluster_count offset_in_cluster c 0 s3 of
            None \<Rightarrow> None
          | Some (n, s4) \<Rightarrow>
              Some (sint n, snd (heap_cream_free cluster_temp (snd (heap_cream_free single s4)))))"

end
