(* ===== verification/Fat16_Read.thy ===== *)
theory Fat16_Read
  imports Fat16
begin

text \<open>
  What \<open>read_fat16\<close> delivers: the clusters of a file are followed in the first table of the volume, and a
  request is answered with the bytes of their concatenation from the offset on.  The volumes have
  sectors of 512 bytes and clusters that the object heap can hold (up to 7 sectors).
\<close>

section \<open>Widening\<close>

declare unat_up [simp]

section \<open>Volumes\<close>

definition fat_start :: "fat16_bpb \<Rightarrow> u32 \<Rightarrow> nat" where
  "fat_start b start = unat start + unat (reserved_sectors b)"

definition data_start :: "fat16_bpb \<Rightarrow> u32 \<Rightarrow> nat" where
  "data_start b start = fat_start b start + unat (sectors_per_fat b) * unat (fat_count b)
     + (unat (root_entry_count b) * 32 + 511) div 512"

text \<open>The entry of a cluster, the bytes of a cluster, and the clusters from \<open>c\<close> on.\<close>

definition fat_next :: "(nat \<Rightarrow> u16 list) \<Rightarrow> fat16_bpb \<Rightarrow> u32 \<Rightarrow> u16 \<Rightarrow> u16" where
  "fat_next sec b start c = sec (fat_start b start + unat c div 256) ! (unat c mod 256)"

definition cluster_data :: "(nat \<Rightarrow> u16 list) \<Rightarrow> fat16_bpb \<Rightarrow> u32 \<Rightarrow> u16 \<Rightarrow> byte list" where
  "cluster_data sec b start c =
     concat (map (\<lambda>q. sector_bytes (sec (data_start b start + (unat c - 2) * unat (sect_per_clust b) + q)))
       [0..<unat (sect_per_clust b)])"

fun chain :: "(u16 \<Rightarrow> u16) \<Rightarrow> u16 \<Rightarrow> u16 list \<Rightarrow> bool" where
  "chain nx c [] \<longleftrightarrow> eoc c"
| "chain nx c (d # ds) \<longleftrightarrow> c = d \<and> \<not> eoc d \<and> chain nx (nx d) ds"

definition volume_ok :: "fat16_bpb \<Rightarrow> bool" where
  "volume_ok b \<longleftrightarrow> bytes_per_sect b = 512 \<and> 0 < unat (sect_per_clust b) \<and> unat (sect_per_clust b) \<le> 7"

definition in_volume :: "fat16_bpb \<Rightarrow> u32 \<Rightarrow> nat \<Rightarrow> u16 \<Rightarrow> bool" where
  "in_volume b start cap c \<longleftrightarrow> fat_start b start + unat c div 256 < cap \<and>
     data_start b start + (unat c - 1) * unat (sect_per_clust b) \<le> cap \<and> cap \<le> 2 ^ 28"

lemma chain_drop: "chain nx c cs \<Longrightarrow> n < length cs \<Longrightarrow> chain nx (cs ! n) (drop n cs)"
  by (induction cs arbitrary: c n; case_tac n) auto

lemma chain_unique: "chain nx c cs \<Longrightarrow> chain nx c ds \<Longrightarrow> cs = ds"
  by (induction cs arbitrary: c ds; case_tac ds) auto

lemma chain_eoc: "chain nx c cs \<Longrightarrow> d \<in> set cs \<Longrightarrow> \<not> eoc d"
  by (induction cs arbitrary: c) auto

section \<open>The arithmetic of the code\<close>

lemma units_1: "bytes_per_sect b = 512 \<Longrightarrow> units b = 1"
  by (simp add: units_def const_defs)

lemma cluster_size_nat: "volume_ok b \<Longrightarrow> unat (cluster_size b) = 512 * unat (sect_per_clust b)"
  by (auto simp: volume_ok_def cluster_size_def unat_word_ariths)

lemma buffer_blocks: "volume_ok b \<Longrightarrow> unat (sect_per_clust b) \<le> 6 \<Longrightarrow> blocks_for 512 + blocks_for (cluster_size b) \<le> 124"
  using cluster_size_nat [of b] by (simp add: blocks_for_nat volume_ok_def)

lemma hop_offset:
  fixes cur :: u16
  shows "unat (ucast (2 * (ucast cur :: u32)) :: u64) = 2 * unat cur"
proof -
  have c: "unat cur < 65536" by (rule unat_u16)
  then have "unat (2 * (ucast cur :: u32)) = 2 * unat cur" by (simp add: unat_word_ariths)
  with c show ?thesis by simp
qed

lemma hop_sector:
  assumes "bytes_per_sect b = 512" and "in_volume b start cap cur"
  shows "unat (start + ucast (ucast (reserved_sectors b) + ucast (2 * (ucast cur :: u32)) div ucast (bytes_per_sect b) :: u64))
    = fat_start b start + unat cur div 256"
proof -
  let ?o = "ucast (2 * (ucast cur :: u32)) :: u64"
  have c: "unat cur < 65536" "unat (reserved_sectors b) < 65536" by (rule unat_u16)+
  have "unat (?o div ucast (bytes_per_sect b)) = 2 * unat cur div 512"
    using hop_offset [of cur] by (simp add: assms(1) unat_div)
  then have q: "unat (?o div ucast (bytes_per_sect b)) = unat cur div 256" by simp
  have "unat cur div 256 < 65536" using c(1) div_le_dividend [of "unat cur" 256] by linarith
  then have "unat (ucast (reserved_sectors b) + ?o div ucast (bytes_per_sect b)) = unat (reserved_sectors b) + unat cur div 256"
    using c(2) by (simp add: unat_plus_if' q)
  then have "unat (ucast (ucast (reserved_sectors b) + ?o div ucast (bytes_per_sect b)) :: u32) = unat (reserved_sectors b) + unat cur div 256"
    using c(2) \<open>unat cur div 256 < 65536\<close> by (simp add: unsigned_ucast_eq take_bit_nat_eq_self)
  then show ?thesis
    using assms(2) by (simp add: unat_plus_if' in_volume_def fat_start_def)
qed

lemma hop_address:
  assumes "bytes_per_sect b = 512"
  shows "ucast ((ucast (2 * (ucast cur :: u32)) :: u64) mod ucast (bytes_per_sect b)) = (2 * of_nat (unat (cur :: u16) mod 256) :: u32)"
proof -
  have "unat ((ucast (2 * (ucast cur :: u32)) :: u64) mod ucast (bytes_per_sect b)) = 2 * unat cur mod 512"
    using hop_offset [of cur] by (simp add: assms unat_mod)
  also have "\<dots> = 2 * (unat cur mod 256)" using mult_mod_right [of 2 "unat cur" 256] by simp
  finally have u: "unat ((ucast (2 * (ucast cur :: u32)) :: u64) mod ucast (bytes_per_sect b)) = 2 * (unat cur mod 256)" .
  have "unat cur mod 256 < 256" by simp
  then show ?thesis
    by (intro word_unat_eq_iff [THEN iffD2]) (simp only: u unsigned_ucast_eq, simp add: unat_word_ariths unat_of_nat32 take_bit_nat_eq_self)
qed

lemma lba_of_cluster:
  assumes v: "volume_ok b" "in_volume b start cap c" "\<not> eoc c" and q: "q < unat (sect_per_clust b)"
  shows "unat (cluster_lba b start c q) = data_start b start + (unat c - 2) * unat (sect_per_clust b) + q"
    and "unat (cluster_lba b start c q) + 1 \<le> cap"
proof -
  have c2: "2 \<le> unat c" using v(3) by (simp add: eoc_def word_less_nat_alt not_less)
  have bps: "bytes_per_sect b = 512" and spc: "unat (sect_per_clust b) \<le> 7" using v(1) by (auto simp: volume_ok_def)
  have cap: "data_start b start + (unat c - 1) * unat (sect_per_clust b) \<le> cap" "cap \<le> 2 ^ 28"
    using v(2) by (auto simp: in_volume_def)
  have lim: "unat (reserved_sectors b) < 65536" "unat (sectors_per_fat b) < 65536" "unat (fat_count b) < 256"
    "unat (root_entry_count b) < 65536" "unat c < 65536"
    by (rule unat_u16 unat_u8)+
  have m: "unat (sectors_per_fat b) * unat (fat_count b) < 2 ^ 24"
    using mult_strict_mono [OF lim(2,3)] by simp
  have "(unat c - 1) * unat (sect_per_clust b) = (unat c - 2) * unat (sect_per_clust b) + unat (sect_per_clust b)"
    using c2 by (cases "unat c") (auto simp: add.commute Suc_diff_le algebra_simps dest: le_Suc_ex)
  with cap q have le: "data_start b start + (unat c - 2) * unat (sect_per_clust b) + q < cap" by linarith
  have "unat (ucast (root_entry_count b) * 32 + (ucast (bytes_per_sect b) - 1) :: u32) = unat (root_entry_count b) * 32 + 511"
    using lim(4) by (simp add: bps unat_word_ariths)
  then have "unat ((ucast (root_entry_count b) * 32 + (ucast (bytes_per_sect b) - 1)) div ucast (bytes_per_sect b) :: u32)
      = (unat (root_entry_count b) * 32 + 511) div 512" by (simp add: bps unat_div)
  moreover have "(unat (root_entry_count b) * 32 + 511) div 512 < 2 ^ 16" using lim(4) by simp
  moreover have "unat (ucast (sectors_per_fat b) * ucast (fat_count b) :: u32) = unat (sectors_per_fat b) * unat (fat_count b)"
    using m by (simp add: unat_word_ariths)
  ultimately have d: "unat (data_sectors b) = unat (reserved_sectors b) + unat (sectors_per_fat b) * unat (fat_count b)
      + (unat (root_entry_count b) * 32 + 511) div 512"
    using m lim(1) by (simp add: data_sectors_def unat_plus_if')
  have "unat ((ucast c - 2) * ucast (sect_per_clust b) :: u32) = (unat c - 2) * unat (sect_per_clust b)"
  proof -
    have "unat (ucast c - 2 :: u32) = unat c - 2" using c2 by (simp add: unat_sub_if')
    moreover have "(unat c - 2) * unat (sect_per_clust b) < 2 ^ 32" using le cap(2) by simp
    ultimately show ?thesis by (simp add: unat_word_ariths)
  qed
  then show "unat (cluster_lba b start c q) = data_start b start + (unat c - 2) * unat (sect_per_clust b) + q"
    using le cap(2) d spc q by (simp add: cluster_lba_def unat_plus_if' unat_of_nat32 data_start_def fat_start_def)
  with le show "unat (cluster_lba b start c q) + 1 \<le> cap" by linarith
qed

section \<open>Transfers\<close>

text \<open>How much one round moves: up to the end of the cluster or of the request.\<close>

lemma part_size:
  assumes t: "t = min32 (sz - bi) (csz - off)" and "off < csz" and "bi < sz"
  shows "unat t = min (unat sz - unat bi) (unat csz - unat off)" and "unat off + unat t \<le> unat csz"
    and "unat bi + unat t \<le> unat sz" and "unat (bi + t) = unat bi + unat t"
    and "sz \<le> bi + t \<Longrightarrow> bi + t = sz \<and> unat t = unat sz - unat bi \<and> unat sz - unat bi \<le> unat csz - unat off"
    and "\<not> sz \<le> bi + t \<Longrightarrow> unat t = unat csz - unat off \<and> unat csz - unat off < unat sz - unat bi"
proof -
  have lt: "unat off < unat csz" "unat bi < unat sz" using assms(2,3) by (simp_all add: word_less_nat_alt)
  show m: "unat t = min (unat sz - unat bi) (unat csz - unat off)"
    using lt by (simp add: t min32_def word_less_nat_alt unat_sub_if' min_def)
  show "unat off + unat t \<le> unat csz" and b: "unat bi + unat t \<le> unat sz" using m lt by linarith+
  show u: "unat (bi + t) = unat bi + unat t" using b unat_lt_2p32 [of sz] by (simp add: unat_plus_if')
  show "sz \<le> bi + t \<Longrightarrow> bi + t = sz \<and> unat t = unat sz - unat bi \<and> unat sz - unat bi \<le> unat csz - unat off"
    using u m b by (auto simp: word_le_nat_alt word_unat_eq_iff)
  show "\<not> sz \<le> bi + t \<Longrightarrow> unat t = unat csz - unat off \<and> unat csz - unat off < unat sz - unat bi"
    using u m by (auto simp: word_le_nat_alt)
qed

text \<open>The part of the buffer that a round works on, and the copy out of the cluster's image at \<open>ct\<close>.\<close>

lemma part_in_buffer: "unat bi + unat t \<le> unat sz \<Longrightarrow> in_range (buffer + bi) (unat t) x \<Longrightarrow> in_range buffer (unat sz) x"
  for bi t sz :: u32
  using in_range_sub [of "unat bi" "unat t" "unat sz" buffer x] unat_lt_2p32 [of sz] by simp

lemma read_patch:
  assumes len: "unat off + unat t \<le> length cs" "length cs \<le> 3584" and bi: "unat bi < unat sz"
    and dis: "ranges_disjoint buffer (unat sz) ct (length cs)"
    and m3: "m3 = memcpy (put_bytes m1 ct cs) (buffer + bi) (ct + off) t"
  shows "m3 = put_bytes (put_bytes m1 ct cs) (buffer + bi) (take (unat t) (drop (unat off) cs))"
proof -
  let ?m2 = "put_bytes m1 ct cs"
  have "bytes_at ?m2 ct (length cs) = cs" using bytes_at_put_bytes [of cs m1 ct] len(2) by simp
  then have "drop (unat off) cs = bytes_at ?m2 (ct + off) (length cs - unat off)"
    using drop_bytes_at [of "unat off" "length cs" ?m2 ct] len(1) by simp
  then have src: "bytes_at ?m2 (ct + off) (unat t) = take (unat t) (drop (unat off) cs)"
    using take_bytes_at [of "unat t" "length cs - unat off" ?m2 "ct + off"] len(1) by simp
  have "in_range buffer (unat sz) (buffer + bi)" using in_range_offset [of "unat bi" buffer "unat sz"] bi unat_lt_2p32 [of bi] by simp
  then have "\<not> in_range ct (length cs) (buffer + bi)" using dis by (auto simp: ranges_disjoint_def)
  moreover have "in_range (ct + off) (unat t) y \<Longrightarrow> in_range ct (length cs) y" for y
    using in_range_sub [of "unat off" "unat t" "length cs" ct y] len by simp
  ultimately have "\<not> in_range (ct + off) (unat t) (buffer + bi)" by blast
  then show ?thesis using memcpy_eq [of "buffer + bi" "ct + off" t ?m2] by (simp add: src in_range_def m3)
qed

lemma chain_entry: "e # es = drop n cs \<Longrightarrow> n < length cs \<and> cs ! n = e \<and> set (e # es) \<subseteq> set cs"
  by (metis drop_all list.distinct(1) not_le Cons_nth_drop_Suc list.inject set_drop_subset)

lemma chain_rest: "chain nx c cs \<Longrightarrow> e # es = drop n cs \<Longrightarrow> chain nx e (e # es)"
  using chain_drop [of nx c cs n] chain_entry [of e es n cs] by simp

lemma put_bytes_chunks:
  assumes "length xs = unat t" and "unat t + length ys \<le> 2 ^ 32" and "m' x = put_bytes m a xs x"
  shows "put_bytes m' (a + t) ys x = put_bytes m a (xs @ ys) x"
proof -
  have "put_bytes m a (xs @ ys) = put_bytes (put_bytes m a xs) (a + t) ys"
    using put_bytes_append [of xs ys m a] assms(1,2) by simp
  then show ?thesis using assms(3) by (simp add: put_bytes_def)
qed

text \<open>Blocks of one length.\<close>

lemma concat_drop_blocks:
  assumes "\<And>c. length (f c) = k"
  shows "drop (n * k) (concat (map f cs)) = concat (map f (drop n cs))"
  by (induction cs arbitrary: n; case_tac n) (simp_all add: assms)

lemma drop_mod_blocks:
  assumes "\<And>c. length (f c) = k"
  shows "drop (i mod k) (concat (map f (drop (i div k) cs))) = drop i (concat (map f cs))"
  unfolding concat_drop_blocks [OF assms, symmetric] drop_drop by simp

section \<open>Two temporary objects\<close>

text \<open>
  Both transfers allocate a buffer for a sector and one for a cluster and release them at the end.
  \<open>temporaries s t c p k q l\<close>: \<open>t\<close> is \<open>s\<close> with the fresh objects \<open>p\<close> of \<open>k\<close> bytes and \<open>q\<close> of \<open>l\<close> bytes.
\<close>

definition temporaries :: "'z cream_state_scheme \<Rightarrow> 'z cream_state_scheme \<Rightarrow> nat \<Rightarrow> addr \<Rightarrow> nat \<Rightarrow> addr \<Rightarrow> nat \<Rightarrow> bool" where
  "temporaries s t c p k q l \<longleftrightarrow> client t c \<and> heap_step s t \<and> p \<noteq> q \<and> ranges_disjoint p k q l \<and>
     cream_objects t = insert (q, l) (insert (p, k) (cream_objects s)) \<and>
     (\<forall>a n. (a, n) \<in> cream_objects s \<longrightarrow> a \<noteq> p \<and> a \<noteq> q \<and> ranges_disjoint a n p k \<and> ranges_disjoint a n q l \<and>
        (\<forall>x. in_range a n x \<longrightarrow> mem t x = mem s x))"

lemma temporaries_malloc:
  assumes "client s (c + 2)" and "sz \<noteq> 0" "sz \<le> TOTAL_BYTES_AVAIL" and "sz' \<noteq> 0" "sz' \<le> TOTAL_BYTES_AVAIL"
    and m: "heap_cream_malloc sz s = (p, s1)" "heap_cream_malloc sz' s1 = (q, t)"
  obtains k l where "unat sz \<le> k" and "unat sz' \<le> l" and "temporaries s t c p k q l"
    and "blocks_for sz + blocks_for sz' \<le> 124 \<Longrightarrow> companions t p q"
proof -
  have cl: "client s (Suc (Suc c))" using assms(1) by simp
  obtain k where a: "client s1 (Suc c)" "heap_step s s1" "unat sz \<le> k" "cream_objects s1 = insert (p, k) (cream_objects s)" "p \<noteq> 0"
    and a': "\<And>b n. (b, n) \<in> cream_objects s \<Longrightarrow> ranges_disjoint p k b n" "p \<notin> fst ` cream_objects s"
      "\<And>b n x. (b, n) \<in> cream_objects s \<Longrightarrow> in_range b n x \<Longrightarrow> mem s1 x = mem s x"
    by (rule client_malloc [OF cl assms(2,3) m(1)]) blast
  obtain l where b: "client t c" "heap_step s1 t" "unat sz' \<le> l" "cream_objects t = insert (q, l) (cream_objects s1)" "q \<noteq> 0"
    and b': "\<And>b n. (b, n) \<in> cream_objects s1 \<Longrightarrow> ranges_disjoint q l b n" "q \<notin> fst ` cream_objects s1"
      "\<And>b n x. (b, n) \<in> cream_objects s1 \<Longrightarrow> in_range b n x \<Longrightarrow> mem t x = mem s1 x"
    by (rule client_malloc [OF a(1) assms(4,5) m(2)]) blast
  have pq: "p \<noteq> q" "ranges_disjoint p k q l" using b'(1) [of p k] b'(2) a(4) ranges_disjoint_sym by auto
  note comp = client_companions [OF a(1) client_lodged [OF cl m(1) a(5)] m(2) b(5) pq(1)]
  have "x \<noteq> p \<and> x \<noteq> q \<and> ranges_disjoint x n p k \<and> ranges_disjoint x n q l" if o: "(x, n) \<in> cream_objects s" for x n
  proof -
    have o1: "(x, n) \<in> cream_objects s1" using o a(4) by simp
    have "x \<noteq> p" "x \<noteq> q" using imageI [OF o, of fst] imageI [OF o1, of fst] a'(2) b'(2) by auto
    then show ?thesis using ranges_disjoint_sym [OF a'(1) [OF o]] ranges_disjoint_sym [OF b'(1) [OF o1]] by simp
  qed
  moreover have "mem t x = mem s x" if "(y, n) \<in> cream_objects s" "in_range y n x" for y n x
    using a'(3) [OF that] b'(3) [of y n x] that a(4) by simp
  ultimately have "temporaries s t c p k q l"
    using pq a(4) b(1,4) heap_step_trans [OF a(2) b(2)] unfolding temporaries_def by simp
  then show thesis by (rule that [OF a(3) b(3) _ comp])
qed

lemma temporaries_apart:
  assumes "temporaries s t c p k q l" and "k' \<le> k" and "l' \<le> l"
    and "(obj, n) \<in> cream_objects s" and "\<And>x. in_range buffer m x \<Longrightarrow> in_range obj n x"
  shows "ranges_disjoint p k' q l'" and "ranges_disjoint buffer m p k'" and "ranges_disjoint buffer m q l'"
proof -
  have t: "ranges_disjoint p k q l" "ranges_disjoint obj n p k" "ranges_disjoint obj n q l"
    using assms(1,4) by (auto simp: temporaries_def)
  show "ranges_disjoint p k' q l'" by (rule ranges_disjoint_mono [OF t(1) assms(2,3)])
  show "ranges_disjoint buffer m p k'" "ranges_disjoint buffer m q l'"
    using ranges_disjoint_mono [OF t(2) order_refl assms(2)] ranges_disjoint_mono [OF t(3) order_refl assms(3)] assms(5)
    unfolding ranges_disjoint_def by blast+
qed

text \<open>Stores to live objects and the release of both.\<close>

lemma temporaries_free:
  assumes tmp: "temporaries s t c p k q l" and w: "\<And>x. mem u x \<noteq> mem t x \<Longrightarrow> \<exists>(a, n) \<in> cream_objects t. in_range a n x"
    and "mothermary u = mothermary t" and "kernel_heap u = kernel_heap t"
    and r: "r = snd (heap_cream_free q (snd (heap_cream_free p u)))"
  shows "client r c" and "heap_step u r" and "cream_objects s \<subseteq> cream_objects r"
    and "\<And>a n x. (a, n) \<in> cream_objects s \<Longrightarrow> in_range a n x \<Longrightarrow> mem r x = mem u x"
    and "companions t p q \<Longrightarrow> cream_objects r = cream_objects s"
proof -
  have objs: "cream_objects t = insert (q, l) (insert (p, k) (cream_objects s))" and t: "client t c" "p \<noteq> q"
    and fresh: "\<And>a n. (a, n) \<in> cream_objects s \<Longrightarrow> a \<noteq> p \<and> a \<noteq> q"
    using tmp by (auto simp: temporaries_def)
  have u: "client u c" "cream_objects u = cream_objects t" "same_pages t u" by (rule client_stores [OF t(1) w assms(3,4)]; assumption)+
  define v where "v = snd (heap_cream_free p u)"
  have "(p, k) \<in> cream_objects u" using u(2) objs by simp
  note f = client_free [OF u(1) this v_def]
  have "(q, l) \<in> cream_objects v" using f(3) u(2) objs t(2) by auto
  note g = client_free [OF f(1) this r [folded v_def]]
  have sv: "(a, n) \<in> cream_objects v" if "(a, n) \<in> cream_objects s" for a n
    using subsetD [OF f(3), of "(a, n)"] that u(2) objs fresh [OF that] by simp
  show "client r c" by (rule g(1))
  show "heap_step u r" by (rule heap_step_trans [OF f(2) g(2)])
  show "cream_objects s \<subseteq> cream_objects r"
  proof (rule subrelI)
    fix a n assume o: "(a, n) \<in> cream_objects s"
    then show "(a, n) \<in> cream_objects r" using subsetD [OF g(3), of "(a, n)"] sv [OF o] fresh [OF o] by simp
  qed
  show "mem r x = mem u x" if "(a, n) \<in> cream_objects s" "in_range a n x" for a n x
    using g(5) [OF sv [OF that(1)] that(2)] f(5) [of a n x] that u(2) objs by simp
  show "cream_objects r = cream_objects s" if "companions t p q"
  proof -
    have "cream_objects r = cream_objects u - {(p, k), (q, l)}"
      unfolding r by (rule client_release_both [OF u(1) _ _ same_pages_companions [OF u(3) that]]) (simp_all add: u(2) objs)
    moreover have "(p, k) \<notin> cream_objects s" "(q, l) \<notin> cream_objects s" using fresh by blast+
    ultimately show ?thesis by (auto simp: u(2) objs)
  qed
qed

lemma temporaries_step: "temporaries s t c p k q l \<Longrightarrow> heap_step s t"
  by (simp add: temporaries_def)

lemma temporaries_keep: "temporaries s t c p k q l \<Longrightarrow> (a, n) \<in> cream_objects s \<Longrightarrow> in_range a n x \<Longrightarrow> mem t x = mem s x"
  by (simp add: temporaries_def)

text \<open>The end of a transfer that has stored \<open>data\<close> in \<open>buffer\<close>, and anything in the temporary objects.\<close>

lemma transfer_done:
  assumes tmp: "temporaries s t c p k q l" and le: "k' \<le> k" "l' \<le> l" and obj: "(obj, n) \<in> cream_objects s"
    and buffer: "\<And>x. in_range buffer m x \<Longrightarrow> in_range obj n x" and data: "length data \<le> m"
    and u: "\<And>x. \<not> in_range p k' x \<Longrightarrow> \<not> in_range q l' x \<Longrightarrow> mem u x = put_bytes (mem t) buffer data x"
    and same: "mothermary u = mothermary t" "kernel_heap u = kernel_heap t"
    and r: "r = snd (heap_cream_free q (snd (heap_cream_free p u)))"
  shows "client r c" and "heap_step u r" and "cream_objects s \<subseteq> cream_objects r"
    and "\<And>a n x. (a, n) \<in> cream_objects s \<Longrightarrow> in_range a n x \<Longrightarrow> mem r x = put_bytes (mem s) buffer data x"
    and "companions t p q \<Longrightarrow> cream_objects r = cream_objects s"
proof -
  have w: "\<exists>(a, n) \<in> cream_objects t. in_range a n x" if "mem u x \<noteq> mem t x" for x
  proof -
    have "in_range p k' x \<or> in_range q l' x \<or> in_range buffer m x"
      using that u [of x] in_range_mono [OF _ data, of buffer x] put_bytes_out [of buffer data x "mem t"] by argo
    then have "in_range p k x \<or> in_range q l x \<or> in_range obj n x" using in_range_mono le buffer by blast
    then show ?thesis using tmp obj by (auto simp: temporaries_def)
  qed
  have f: "client r c" "heap_step u r" "cream_objects s \<subseteq> cream_objects r"
    "\<And>a n x. (a, n) \<in> cream_objects s \<Longrightarrow> in_range a n x \<Longrightarrow> mem r x = mem u x"
    "companions t p q \<Longrightarrow> cream_objects r = cream_objects s"
    by (rule temporaries_free [OF tmp w same r]; assumption)+
  show "client r c" "heap_step u r" "cream_objects s \<subseteq> cream_objects r" by (fact f(1), fact f(2), fact f(3))
  show "companions t p q \<Longrightarrow> cream_objects r = cream_objects s" by (rule f(5))
  show "mem r x = put_bytes (mem s) buffer data x" if o: "(a, n) \<in> cream_objects s" "in_range a n x" for a n x
  proof -
    have "ranges_disjoint a n p k" "ranges_disjoint a n q l" "mem t x = mem s x" using tmp o by (auto simp: temporaries_def)
    then have "mem u x = put_bytes (mem t) buffer data x"
      using o(2) le in_range_mono by (intro u) (auto simp: ranges_disjoint_def)
    then show ?thesis using f(4) [OF o] \<open>mem t x = mem s x\<close> by (simp add: put_bytes_def)
  qed
qed

text \<open>Stored bytes are read back.\<close>

lemma bytes_at_stored:
  assumes "\<And>x. in_range a (length bs) x \<Longrightarrow> m x = put_bytes m' a bs x" and "length bs \<le> 2 ^ 32"
  shows "bytes_at m a (length bs) = bs"
proof -
  have "bytes_at m a (length bs) = bytes_at (put_bytes m' a bs) a (length bs)"
    by (rule bytes_at_cong) (use in_range_offset [of _ a "length bs"] assms in auto)
  then show ?thesis using bytes_at_put_bytes [of bs m' a] assms(2) by simp
qed

context ata_drive
begin

text \<open>The sectors of the drive that a disk object stands for.\<close>

abbreviation sectors :: "('d, 'z) disk_state_scheme \<Rightarrow> addr \<Rightarrow> nat \<Rightarrow> u16 list" where
  "sectors s dk \<equiv> media (dev s) (is_master (disk_at s dk) = 0)"

lemma read_one:
  assumes "inv (dev s)" and "phase (dev s) = Idle" and "attached base drives (disk_at s dk)"
    and "unat lba + 1 \<le> unat (sect_count (disk_at s dk))" and "unat lba + 1 \<le> 2 ^ 28"
  shows "\<exists>d'. snd (read_disk_block io dk lba 1 buf s) =
      s\<lparr>mem := put_bytes (mem s) buf (sector_bytes (sectors s dk (unat lba))), dev := d'\<rparr> \<and>
    inv d' \<and> phase d' = Idle \<and> media d' = media (dev s)"
  using read_disk_block_ok [OF assms(1-3), of lba 1 buf] assms(4,5) by auto

lemma fat_hop_ok:
  assumes drive: "inv (dev s)" "phase (dev s) = Idle" "attached base drives (disk_at s dk)"
    and vol: "volume_ok b" "in_volume b start (unat (sect_count (disk_at s dk))) cur"
  shows "\<exists>m d. fat_hop io dk b start single cur s = (fat_next (sectors s dk) b start cur, s\<lparr>mem := m, dev := d\<rparr>) \<and>
    inv d \<and> phase d = Idle \<and> media d = media (dev s) \<and> (\<forall>x. \<not> in_range single 512 x \<longrightarrow> m x = mem s x)"
proof -
  have bps: "bytes_per_sect b = 512" using vol(1) by (simp add: volume_ok_def)
  define lba :: u32 where "lba = start + ucast (ucast (reserved_sectors b) + ucast (2 * (ucast cur :: u32)) div ucast (bytes_per_sect b) :: u64)"
  have l: "unat lba = fat_start b start + unat cur div 256" unfolding lba_def by (rule hop_sector [OF bps vol(2)])
  have "unat lba + 1 \<le> unat (sect_count (disk_at s dk))" "unat lba + 1 \<le> 2 ^ 28" using vol(2) by (auto simp: l in_volume_def)
  from read_one [OF drive this, of single] obtain d where
    r: "snd (read_disk_block io dk lba 1 single s) =
      s\<lparr>mem := put_bytes (mem s) single (sector_bytes (sectors s dk (unat lba))), dev := d\<rparr>"
    and d: "inv d" "phase d = Idle" "media d = media (dev s)" by blast
  have len: "length (sectors s dk (unat lba)) = 256" by (rule sector_words [OF drive(1)])
  have "fat_hop io dk b start single cur s = (ld16 (put_bytes (mem s) single (sector_bytes (sectors s dk (unat lba))))
      (single + 2 * of_nat (unat cur mod 256)), s\<lparr>mem := put_bytes (mem s) single (sector_bytes (sectors s dk (unat lba))), dev := d\<rparr>)"
    unfolding fat_hop_def Let_def units_1 [OF bps] lba_def [symmetric] r hop_address [OF bps] by simp
  also have "ld16 (put_bytes (mem s) single (sector_bytes (sectors s dk (unat lba)))) (single + 2 * of_nat (unat cur mod 256))
      = fat_next (sectors s dk) b start cur"
    unfolding fat_next_def l [symmetric] by (rule ld16_put_sector [OF len]) simp
  finally show ?thesis
    using d len by (intro exI [of _ "put_bytes (mem s) single (sector_bytes (sectors s dk (unat lba)))"] exI [of _ d])
      (simp add: put_bytes_out)
qed

lemma read_hops_ok:
  assumes "inv (dev s)" and "phase (dev s) = Idle" and "attached base drives (disk_at s dk)" and "volume_ok b"
    and "chain (fat_next (sectors s dk) b start) cur cs" and "cs \<noteq> []"
    and "\<And>c. c \<in> set cs \<Longrightarrow> in_volume b start (unat (sect_count (disk_at s dk))) c"
  shows "\<exists>m d c. read_hops io dk b start single n cur s = (n < length cs, c, s\<lparr>mem := m, dev := d\<rparr>) \<and>
    (n < length cs \<longrightarrow> c = cs ! n) \<and>
    inv d \<and> phase d = Idle \<and> media d = media (dev s) \<and> (\<forall>x. \<not> in_range single 512 x \<longrightarrow> m x = mem s x)"
  using assms
proof (induction n arbitrary: cur cs s)
  case 0
  then show ?case by (cases cs) (auto intro!: exI [of _ "mem s"] exI [of _ "dev s"])
next
  case (Suc n)
  obtain ds where cs: "cs = cur # ds" and ch: "\<not> eoc cur" "chain (fat_next (sectors s dk) b start) (fat_next (sectors s dk) b start cur) ds"
    using Suc.prems(5,6) by (cases cs) auto
  obtain m d where h: "fat_hop io dk b start single cur s = (fat_next (sectors s dk) b start cur, s\<lparr>mem := m, dev := d\<rparr>)"
    and d: "inv d" "phase d = Idle" "media d = media (dev s)" and out: "\<And>x. \<not> in_range single 512 x \<Longrightarrow> m x = mem s x"
    using fat_hop_ok [OF Suc.prems(1-4), of start cur single] Suc.prems(7) [of cur] cs by auto
  show ?case
  proof (cases "ds = []")
    case True
    then have "eoc (fat_next (sectors s dk) b start cur)" using ch by simp
    then show ?thesis using h d out True cs by (auto intro!: exI [of _ m] exI [of _ d])
  next
    case False
    then have ne: "\<not> eoc (fat_next (sectors s dk) b start cur)" using ch(2) by (cases ds) auto
    from Suc.IH [of "s\<lparr>mem := m, dev := d\<rparr>" "fat_next (sectors s dk) b start cur" ds] d ch False Suc.prems(3,4,7) cs
    obtain m' d' c where r: "read_hops io dk b start single n (fat_next (sectors s dk) b start cur) (s\<lparr>mem := m, dev := d\<rparr>)
        = (n < length ds, c, s\<lparr>mem := m', dev := d'\<rparr>)" "n < length ds \<longrightarrow> c = ds ! n"
      "inv d'" "phase d' = Idle" "media d' = media (dev s)" "\<And>x. \<not> in_range single 512 x \<Longrightarrow> m' x = m x"
      by auto
    show ?thesis using h ne r out cs by (auto intro!: exI [of _ m'] exI [of _ d'])
  qed
qed

lemma cluster_sectors_ok:
  assumes "inv (dev s)" and "phase (dev s) = Idle" and "attached base drives (disk_at s dk)" and "volume_ok b"
    and "in_volume b start (unat (sect_count (disk_at s dk))) c" and "\<not> eoc c" and "k \<le> unat (sect_per_clust b)"
  shows "\<exists>d. fold (\<lambda>q s. snd (read_disk_block io dk (cluster_lba b start c q) (units b) (ct + of_nat q * ucast (bytes_per_sect b)) s)) [0..<k] s =
      s\<lparr>mem := put_bytes (mem s) ct (concat (map (\<lambda>q. sector_bytes (sectors s dk
        (data_start b start + (unat c - 2) * unat (sect_per_clust b) + q))) [0..<k])), dev := d\<rparr> \<and>
    inv d \<and> phase d = Idle \<and> media d = media (dev s)"
  using assms(7)
proof (induction k)
  case 0
  then show ?case using assms(1,2) by (intro exI [of _ "dev s"]) simp
next
  case (Suc k)
  have bps: "bytes_per_sect b = 512" and spc: "unat (sect_per_clust b) \<le> 7" using assms(4) by (auto simp: volume_ok_def)
  define data where "data k = concat (map (\<lambda>q. sector_bytes (sectors s dk
        (data_start b start + (unat c - 2) * unat (sect_per_clust b) + q))) [0..<k])" for k
  have len: "length (data k) = 512 * k" for k
    using sector_words [OF assms(1)] by (induction k) (simp_all add: data_def)
  obtain d where d: "fold (\<lambda>q s. snd (read_disk_block io dk (cluster_lba b start c q) (units b) (ct + of_nat q * ucast (bytes_per_sect b)) s)) [0..<k] s =
      s\<lparr>mem := put_bytes (mem s) ct (data k), dev := d\<rparr>" "inv d" "phase d = Idle" "media d = media (dev s)"
    using Suc unfolding data_def by auto
  have q: "k < unat (sect_per_clust b)" using Suc.prems by simp
  note lba = lba_of_cluster [OF assms(4,5,6) q]
  have "unat (cluster_lba b start c k) + 1 \<le> 2 ^ 28" using lba(2) assms(5) by (simp add: in_volume_def)
  with read_one [of "s\<lparr>mem := put_bytes (mem s) ct (data k), dev := d\<rparr>" dk "cluster_lba b start c k" "ct + of_nat k * 512"]
    d assms(3) lba(2)
  obtain d' where d': "snd (read_disk_block io dk (cluster_lba b start c k) 1 (ct + of_nat k * 512) (s\<lparr>mem := put_bytes (mem s) ct (data k), dev := d\<rparr>)) =
      s\<lparr>mem := put_bytes (put_bytes (mem s) ct (data k)) (ct + of_nat k * 512)
        (sector_bytes (sectors s dk (unat (cluster_lba b start c k)))), dev := d'\<rparr>"
    "inv d'" "phase d' = Idle" "media d' = media (dev s)" by auto
  have "put_bytes (put_bytes (mem s) ct (data k)) (ct + of_nat k * 512) (sector_bytes (sectors s dk (unat (cluster_lba b start c k))))
      = put_bytes (mem s) ct (data (Suc k))"
    using put_bytes_append [of "data k" "sector_bytes (sectors s dk (unat (cluster_lba b start c k)))" "mem s" ct]
      len [of k] sector_words [OF assms(1)] Suc.prems spc by (simp add: data_def lba(1) mult.commute)
  then show ?case unfolding data_def [symmetric] using d(1) d' units_1 [OF bps] bps by (intro exI [of _ d']) simp
qed

lemma read_cluster_ok:
  assumes "inv (dev s)" and "phase (dev s) = Idle" and "attached base drives (disk_at s dk)" and "volume_ok b"
    and "in_volume b start (unat (sect_count (disk_at s dk))) c" and "\<not> eoc c"
  shows "\<exists>d. read_cluster io dk b start ct c s =
      s\<lparr>mem := put_bytes (mem s) ct (cluster_data (sectors s dk) b start c), dev := d\<rparr> \<and>
    inv d \<and> phase d = Idle \<and> media d = media (dev s)"
  using cluster_sectors_ok [OF assms order_refl] by (simp add: read_cluster_def cluster_data_def)

lemma length_cluster_data: "inv (dev s) \<Longrightarrow> length (cluster_data (sectors s dk) b start c) = 512 * unat (sect_per_clust b)"
proof -
  assume i: "inv (dev s)"
  have "length (concat (map (\<lambda>q. sector_bytes (sectors s dk (f q))) [0..<k])) = 512 * k" for f :: "nat \<Rightarrow> nat" and k
    using sector_words [OF i] by (induction k) simp_all
  then show ?thesis by (simp add: cluster_data_def)
qed

section \<open>The loop\<close>

text \<open>One round: the walk to cluster \<open>e\<close>, its read and the copy of the part.\<close>

lemma read_round_ok:
  assumes drive: "inv (dev s)" "phase (dev s) = Idle" "attached base drives (disk_at s dk)" and vol: "volume_ok b"
    and ch: "chain (fat_next (sectors s dk) b start) cur cs" "e # es = drop (unat count) cs"
    and inside: "\<And>c. c \<in> set cs \<Longrightarrow> in_volume b start (unat (sect_count (disk_at s dk))) c"
    and off: "off < cluster_size b" and bi: "bi < sz" and dis: "ranges_disjoint buffer (unat sz) ct (unat (cluster_size b))"
    and t: "t = min32 (sz - bi) (cluster_size b - off)"
  shows "\<exists>m d. read_loop io dk b start single ct buffer sz count off cur bi s =
      (if sz \<le> bi + t then Some (bi + t, s\<lparr>mem := m, dev := d\<rparr>)
       else read_loop io dk b start single ct buffer sz 1 0 e (bi + t) (s\<lparr>mem := m, dev := d\<rparr>)) \<and>
    inv d \<and> phase d = Idle \<and> media d = media (dev s) \<and>
    (\<forall>x. \<not> in_range single 512 x \<longrightarrow> \<not> in_range ct (unat (cluster_size b)) x \<longrightarrow>
      m x = put_bytes (mem s) (buffer + bi) (take (unat t) (drop (unat off) (cluster_data (sectors s dk) b start e))) x)"
proof -
  let ?cd = "cluster_data (sectors s dk) b start e"
  have e: "unat count < length cs" "cs ! unat count = e" "e \<in> set cs" using chain_entry [OF ch(2)] by auto
  then have ne: "cs \<noteq> []" by auto
  obtain m1 d1 where h: "read_hops io dk b start single (unat count) cur s = (True, e, s\<lparr>mem := m1, dev := d1\<rparr>)"
    and d1: "inv d1" "phase d1 = Idle" "media d1 = media (dev s)" "\<And>x. \<not> in_range single 512 x \<Longrightarrow> m1 x = mem s x"
    using read_hops_ok [OF drive vol ch(1) ne inside, of single "unat count"] e by auto
  from read_cluster_ok [of "s\<lparr>mem := m1, dev := d1\<rparr>" dk b start e ct] d1 drive(3) vol inside [OF e(3)] chain_eoc [OF ch(1) e(3)]
  obtain d2 where r: "read_cluster io dk b start ct e (s\<lparr>mem := m1, dev := d1\<rparr>) = s\<lparr>mem := put_bytes m1 ct ?cd, dev := d2\<rparr>"
    and d2: "inv d2" "phase d2 = Idle" "media d2 = media (dev s)" by auto
  have len: "length ?cd = unat (cluster_size b)" "length ?cd \<le> 3584"
    using length_cluster_data [OF drive(1)] cluster_size_nat [OF vol] vol by (auto simp: volume_ok_def)
  define m3 where "m3 = memcpy (put_bytes m1 ct ?cd) (buffer + bi) (ct + off) t"
  have "m3 = put_bytes (put_bytes m1 ct ?cd) (buffer + bi) (take (unat t) (drop (unat off) ?cd))"
    by (rule read_patch [OF _ len(2) _ _ m3_def]) (use part_size [OF t off bi] bi dis len(1) in \<open>simp_all add: word_less_nat_alt\<close>)
  then have "m3 x = put_bytes (mem s) (buffer + bi) (take (unat t) (drop (unat off) ?cd)) x"
    if "\<not> in_range single 512 x" "\<not> in_range ct (unat (cluster_size b)) x" for x
    using that d1(4) len(1) by (simp add: put_bytes_def)
  moreover have "read_loop io dk b start single ct buffer sz count off cur bi s =
      (if sz \<le> bi + t then Some (bi + t, s\<lparr>mem := m3, dev := d2\<rparr>)
       else read_loop io dk b start single ct buffer sz 1 0 e (bi + t) (s\<lparr>mem := m3, dev := d2\<rparr>))"
    by (subst read_loop.simps) (simp add: h r t [symmetric] m3_def)
  ultimately show ?thesis using d2 by blast
qed

lemma read_loop_ok:
  assumes "inv (dev s)" and "phase (dev s) = Idle" and "attached base drives (disk_at s dk)" and "volume_ok b"
    and "chain (fat_next (sectors s dk) b start) cur cs" and "cs \<noteq> []"
    and "\<And>c. c \<in> set cs \<Longrightarrow> in_volume b start (unat (sect_count (disk_at s dk))) c"
    and "ds = drop (unat count) cs" and "off < cluster_size b" and "bi < sz"
    and "data = take (unat sz - unat bi) (drop (unat off) (concat (map (cluster_data (sectors s dk) b start) ds)))"
    and dis: "ranges_disjoint single 512 ct (unat (cluster_size b))" "ranges_disjoint buffer (unat sz) single 512"
      "ranges_disjoint buffer (unat sz) ct (unat (cluster_size b))"
  shows "\<exists>m d. read_loop io dk b start single ct buffer sz count off cur bi s = Some (bi + of_nat (length data), s\<lparr>mem := m, dev := d\<rparr>) \<and>
    inv d \<and> phase d = Idle \<and> media d = media (dev s) \<and>
    (\<forall>x. \<not> in_range single 512 x \<longrightarrow> \<not> in_range ct (unat (cluster_size b)) x \<longrightarrow> m x = put_bytes (mem s) (buffer + bi) data x)"
  using assms(1-11)
proof (induction ds arbitrary: cs count off cur bi s data)
  case Nil
  obtain m d c where h: "read_hops io dk b start single (unat count) cur s = (unat count < length cs, c, s\<lparr>mem := m, dev := d\<rparr>)"
    and d: "inv d" "phase d = Idle" "media d = media (dev s)" "\<And>x. \<not> in_range single 512 x \<Longrightarrow> m x = mem s x"
    using read_hops_ok [OF Nil.prems(1-7), of single "unat count"] by auto
  show ?case
    using Nil.prems(8,11) h d by (subst read_loop.simps) (auto intro!: exI [of _ m] exI [of _ d])
next
  case (Cons e es)
  define t where "t = min32 (sz - bi) (cluster_size b - off)"
  define cd where "cd = cluster_data (sectors s dk) b start"
  define part where "part = take (unat t) (drop (unat off) (cd e))"
  note size = part_size [OF t_def Cons.prems(9,10)]
  obtain m3 d2 where step: "read_loop io dk b start single ct buffer sz count off cur bi s =
      (if sz \<le> bi + t then Some (bi + t, s\<lparr>mem := m3, dev := d2\<rparr>)
       else read_loop io dk b start single ct buffer sz 1 0 e (bi + t) (s\<lparr>mem := m3, dev := d2\<rparr>))"
    and d2: "inv d2" "phase d2 = Idle" "media d2 = media (dev s)"
    and m3: "\<And>x. \<not> in_range single 512 x \<Longrightarrow> \<not> in_range ct (unat (cluster_size b)) x \<Longrightarrow> m3 x = put_bytes (mem s) (buffer + bi) part x"
    using read_round_ok [OF Cons.prems(1-5,8,7,9,10) dis(3) t_def, of single] unfolding part_def cd_def by blast
  have len: "length (cd c) = unat (cluster_size b)" for c
    using length_cluster_data [OF Cons.prems(1)] cluster_size_nat [OF Cons.prems(4)] by (simp add: cd_def)
  have lp: "length part = unat t" using size(2) len by (simp add: part_def)
  have data: "data = take (unat sz - unat bi) (drop (unat off) (cd e @ concat (map cd es)))" using Cons.prems(11) by (simp add: cd_def)
  show ?case
  proof (cases "sz \<le> bi + t")
    case True
    then have "unat sz - unat bi = unat t" using size(5) by simp
    then have "data = part" using data len size(2) by (simp add: part_def)
    then show ?thesis using step True d2 m3 lp by (intro exI [of _ m3] exI [of _ d2]) simp
  next
    case False
    define data' where "data' = take (unat sz - unat (bi + t)) (concat (map cd es))"
    have dd: "data = part @ data'" using size(2,4) size(6) [OF False] data len by (simp add: data'_def part_def)
    define s3 where "s3 = s\<lparr>mem := m3, dev := d2\<rparr>"
    have fr: "disk_at s3 = disk_at s" "dev s3 = d2" "sectors s3 dk = sectors s dk" "mem s3 = m3" using d2 by (simp_all add: s3_def)
    have "\<exists>m d. read_loop io dk b start single ct buffer sz 1 0 e (bi + t) s3 = Some (bi + t + of_nat (length data'), s3\<lparr>mem := m, dev := d\<rparr>) \<and>
      inv d \<and> phase d = Idle \<and> media d = media (dev s3) \<and>
      (\<forall>x. \<not> in_range single 512 x \<longrightarrow> \<not> in_range ct (unat (cluster_size b)) x \<longrightarrow> m x = put_bytes (mem s3) (buffer + (bi + t)) data' x)"
    proof (rule Cons.IH)
      show "chain (fat_next (sectors s3 dk) b start) e (e # es)" unfolding fr(3) by (rule chain_rest [OF Cons.prems(5,8)])
      show "in_volume b start (unat (sect_count (disk_at s3 dk))) c" if "c \<in> set (e # es)" for c
        unfolding fr using that Cons.prems(7) chain_entry [OF Cons.prems(8)] by blast
      show "0 < cluster_size b" using Cons.prems(9) by (rule order.strict_trans1 [OF word_zero_le])
      show "bi + t < sz" using False by simp
    qed (use d2 Cons.prems(3,4) fr in \<open>simp_all add: data'_def cd_def\<close>)
    moreover have "put_bytes m3 (buffer + (bi + t)) data' x = put_bytes (mem s) (buffer + bi) data x"
      if x: "\<not> in_range single 512 x" "\<not> in_range ct (unat (cluster_size b)) x" for x
      using put_bytes_chunks [of part t data' m3 x "mem s" "buffer + bi"] lp m3 [OF x] size(3,4) unat_lt_2p32 [of sz]
      by (simp add: dd data'_def add.assoc)
    moreover have "of_nat (length data) = t + (of_nat (length data') :: u32)" by (simp add: dd lp)
    ultimately show ?thesis using step False d2(3) by (auto simp: s3_def fr add.assoc)
  qed
qed

end

section \<open>A whole request\<close>

text \<open>
  \<open>opened\<close>: file \<open>fp\<close> is open on partition object \<open>part\<close> of a volume with parameters \<open>b\<close>, and its first cluster is \<open>cur\<close>.
\<close>

definition opened :: "('d, 'z) vfs_state_scheme \<Rightarrow> addr \<Rightarrow> fat16_bpb \<Rightarrow> partition \<Rightarrow> u16 \<Rightarrow> bool" where
  "opened s fp b part cur \<longleftrightarrow>
     (let node = node_at s (vfs_node_ptr (file_at s fp)); mnt = mt_at s (origin_mount_point node)
      in b = bpb_at s (fs_bpb mnt) \<and> part = part_at s (mnt_part mnt) \<and> cur = ucast (fs_specific node))"

definition advanced :: "('d, 'z) vfs_state_scheme \<Rightarrow> addr \<Rightarrow> nat \<Rightarrow> addr \<Rightarrow> file_struct" where
  "advanced s fp k = (file_at s)(fp := (file_at s fp)\<lparr>file_offset := file_offset (file_at s fp) + of_nat k\<rparr>)"

text \<open>What a request leaves that stores bytes of \<open>buffer\<close> only.\<close>

definition kept :: "('d, 'z) vfs_state_scheme \<Rightarrow> nat \<Rightarrow> addr \<Rightarrow> nat \<Rightarrow> ('d, 'z) vfs_state_scheme \<Rightarrow> bool" where
  "kept s c buffer n s' \<longleftrightarrow> client s' c \<and> cream_objects s \<subseteq> cream_objects s' \<and>
     (\<forall>(a, l) \<in> cream_objects s. \<forall>x. in_range a l x \<longrightarrow> \<not> in_range buffer n x \<longrightarrow> mem s' x = mem s x) \<and>
     disk_at s' = disk_at s \<and> part_at s' = part_at s \<and> ct_at s' = ct_at s \<and> mt_at s' = mt_at s \<and>
     node_at s' = node_at s \<and> bpb_at s' = bpb_at s"

lemma kept_refl: "client s k \<Longrightarrow> c \<le> k \<Longrightarrow> kept s c buffer n s"
  using client_less by (auto simp: kept_def)

lemma advanced_0: "advanced s fp 0 = file_at s"
  by (simp add: advanced_def)

section \<open>Reading with the heap around it\<close>

context ata_drive
begin

lemma read_fat16_ok:
  fixes s :: "('d, 'z) vfs_state_scheme"
  assumes cl: "client s (c + 2)" and drive: "inv (dev s)" "phase (dev s) = Idle" "attached base drives (disk_at s (f_disk part))"
    and op: "opened s fp b part cur" "fp \<noteq> 0" and vol: "volume_ok b"
    and ch: "chain (fat_next (sectors s (f_disk part)) b (start_sect part)) cur cs"
    and inv': "\<And>c. c \<in> set cs \<Longrightarrow> in_volume b (start_sect part) (unat (sect_count (disk_at s (f_disk part)))) c"
    and buf: "(obj, N) \<in> cream_objects s" "\<And>x. in_range buffer (unat n) x \<Longrightarrow> in_range obj N x" and n: "unat n < 2 ^ 31"
    and data: "data = take (unat n) (drop (unat (file_offset (file_at s fp)))
      (concat (map (cluster_data (sectors s (f_disk part)) b (start_sect part)) cs)))"
  shows "\<exists>s'. read_fat16 io fp buffer n s = Some (int (length data), s') \<and> bytes_at (mem s') buffer (length data) = data \<and>
    file_at s' = advanced s fp (length data) \<and> kept s c buffer (unat n) s' \<and>
    (unat (sect_per_clust b) \<le> 6 \<longrightarrow> cream_objects s' = cream_objects s) \<and>
    inv (dev s') \<and> phase (dev s') = Idle \<and> media (dev s') = media (dev s)"
proof (cases "n = 0 \<or> cs = []")
  case True
  then have "data = []" using data by auto
  moreover have "n = 0 \<or> eoc cur" using True ch by auto
  ultimately show ?thesis
    using drive op kept_refl [OF cl, of c buffer "unat n"]
    by (intro exI [of _ s]) (auto simp: read_fat16_def opened_def Let_def advanced_0)
next
  case False
  then have n0: "0 < n" "n \<noteq> 0" and ne: "cs \<noteq> []" by (auto simp: word_gt_0)
  let ?dk = "f_disk part" and ?st = "start_sect part" and ?CS = "unat (cluster_size b)"
  define off where "off = file_offset (file_at s fp)"
  have CS: "0 < ?CS" "?CS \<le> 3584" "cluster_size b \<noteq> 0" "cluster_size b \<le> TOTAL_BYTES_AVAIL" and bps: "bytes_per_sect b = 512"
    using cluster_size_nat [OF vol] vol by (auto simp: volume_ok_def const_defs word_le_nat_alt)
  have "\<not> eoc cur" using ch ne by (cases cs) auto
  obtain single s1 where m1: "heap_cream_malloc 512 s = (single, s1)" by fastforce
  obtain ct s2 where m2: "heap_cream_malloc (cluster_size b) s1 = (ct, s2)" by fastforce
  obtain N1 N2 where N: "512 \<le> N1" "?CS \<le> N2" and tmp: "temporaries s s2 c single N1 ct N2"
    and comp: "blocks_for 512 + blocks_for (cluster_size b) \<le> 124 \<Longrightarrow> companions s2 single ct"
    by (rule temporaries_malloc [OF cl _ _ CS(3,4) m1 m2]) (auto simp: const_defs)
  note hs = heap_step_simps [OF temporaries_step [OF tmp]]
  have dis: "ranges_disjoint single 512 ct ?CS" "ranges_disjoint buffer (unat n) single 512" "ranges_disjoint buffer (unat n) ct ?CS"
    by (rule temporaries_apart [OF tmp N buf(1)]; use buf(2) in blast)+
  define cd where "cd = cluster_data (sectors s ?dk) b ?st"
  have len: "length (cd k) = ?CS" for k using length_cluster_data [OF drive(1)] cluster_size_nat [OF vol] by (simp add: cd_def)
  have offs: "unat (off div cluster_size b) = unat off div ?CS" "unat (off mod cluster_size b) = unat off mod ?CS"
    by (simp_all add: unat_div unat_mod)
  have same: "dev s2 = dev s" "disk_at s2 = disk_at s" using hs by simp_all
  have "\<exists>m d. read_loop io ?dk b ?st single ct buffer n (off div cluster_size b) (off mod cluster_size b) cur 0 s2
      = Some (0 + of_nat (length data), s2\<lparr>mem := m, dev := d\<rparr>) \<and>
      inv d \<and> phase d = Idle \<and> media d = media (dev s2) \<and>
      (\<forall>x. \<not> in_range single 512 x \<longrightarrow> \<not> in_range ct ?CS x \<longrightarrow> m x = put_bytes (mem s2) (buffer + 0) data x)"
  proof (rule read_loop_ok [OF _ _ _ vol _ ne _ refl])
    show "off mod cluster_size b < cluster_size b" using CS(1) by (simp add: word_less_nat_alt offs)
    show "data = take (unat n - unat 0) (drop (unat (off mod cluster_size b)) (concat
        (map (cluster_data (sectors s2 ?dk) b ?st) (drop (unat (off div cluster_size b)) cs))))"
      unfolding offs same cd_def [symmetric] drop_mod_blocks [OF len] using data by (simp add: off_def cd_def)
  qed (use drive ch inv' n0 dis same in simp_all)
  then obtain m d where lp: "read_loop io ?dk b ?st single ct buffer n (off div cluster_size b) (off mod cluster_size b) cur 0 s2
      = Some (of_nat (length data), s2\<lparr>mem := m, dev := d\<rparr>)" "inv d" "phase d = Idle" "media d = media (dev s)"
    and m: "\<And>x. \<not> in_range single 512 x \<Longrightarrow> \<not> in_range ct ?CS x \<Longrightarrow> m x = put_bytes (mem s2) buffer data x"
    using same by auto
  have ld: "length data \<le> unat n" by (simp add: data)
  define s3 where "s3 = s2\<lparr>mem := m, dev := d\<rparr>"
  define s5 where "s5 = snd (heap_cream_free ct (snd (heap_cream_free single s3)))"
  define s6 where "s6 = upd_file fp (\<lambda>f. f\<lparr>file_offset := file_offset f + of_nat (length data)\<rparr>) s5"
  have mm: "\<And>x. \<not> in_range single 512 x \<Longrightarrow> \<not> in_range ct ?CS x \<Longrightarrow> mem s3 x = put_bytes (mem s2) buffer data x" using m by (simp add: s3_def)
  note dn = transfer_done [OF tmp N buf(1) _ ld mm _ _ s5_def]
  have fin: "client s5 c" "heap_step s3 s5" "cream_objects s \<subseteq> cream_objects s5"
    by (rule dn; use buf(2) in \<open>simp add: s3_def\<close>)+
  have m5: "mem s5 x = put_bytes (mem s) buffer data x" if "(a, l) \<in> cream_objects s" "in_range a l x" for a l x
    by (rule dn(4) [OF _ _ _ _ _ that]) (use buf(2) in \<open>simp_all add: s3_def\<close>)
  have all: "cream_objects s5 = cream_objects s" if "unat (sect_per_clust b) \<le> 6"
    by (rule dn(5) [OF _ _ _ _ _ comp [OF buffer_blocks [OF vol that]]]) (use buf(2) in \<open>simp_all add: s3_def\<close>)
  note h5 = heap_step_simps [OF fin(2)]
  have lu: "unat (of_nat (length data) :: u32) = length data" using ld n by (simp add: unat_of_nat32)
  have u: "sint (of_nat (length data) :: u32) = int (length data)"
    using sint_nat [of "of_nat (length data)", unfolded lu] ld n by simp
  have "bytes_at (mem s6) buffer (length data) = data"
    using bytes_at_stored [OF m5 [OF buf(1)]] buf(2) in_range_mono [OF _ ld, of buffer] ld unat_lt_2p32 [of n] by (simp add: s6_def)
  moreover have "file_at s6 = advanced s fp (length data)" using hs h5 by (simp add: s6_def s3_def advanced_def)
  moreover have "kept s c buffer (unat n) s6"
    unfolding kept_def
  proof (intro conjI)
    show "\<forall>(a, l) \<in> cream_objects s. \<forall>x. in_range a l x \<longrightarrow> \<not> in_range buffer (unat n) x \<longrightarrow> mem s6 x = mem s x"
      using m5 in_range_mono [OF _ ld] by (auto simp: s6_def put_bytes_def)
  qed (use client_upd(4) [OF fin(1)] objects_upd(4) [OF fin(1)] fin(3) hs h5 in \<open>simp_all add: s6_def s3_def\<close>)
  moreover have "read_fat16 io fp buffer n s = Some (int (length data), s6)"
    using op n0 \<open>\<not> eoc cur\<close> m1 m2 lp(1) bps u
    by (simp add: read_fat16_def opened_def Let_def off_def s6_def s5_def s3_def)
  moreover have "dev s6 = d" using h5 by (simp add: s6_def s3_def)
  moreover have "cream_objects s6 = cream_objects s" if "unat (sect_per_clust b) \<le> 6"
    using objects_upd(4) [OF fin(1)] all [OF that] by (simp add: s6_def)
  ultimately show ?thesis using lp(2-4) by auto
qed

end

section \<open>Properties\<close>

text \<open>C22: on a volume with sectors of 512 bytes and clusters of at most 7 sectors, a read of a file delivers the bytes of its
  clusters from the offset on, as many as there are; the offset advances and nothing else changes.  With at most 6 sectors
  both buffers are given back: the live objects are those of before.  (With 7 the heap may lose the cluster's buffer, and
  larger clusters do not fit an object.)\<close>

theorem read_fat16_bytes:
  fixes s :: "('d, 'z) vfs_state_scheme"
  assumes "ata_drive io base drives dinv regs media phase pending"
    and "client s (c + 2)" and "dinv (dev s)" and "phase (dev s) = Idle" and "attached base drives (disk_at s (f_disk part))"
    and "opened s fp b part cur" and "fp \<noteq> 0" and "volume_ok b"
    and "sec = media (dev s) (is_master (disk_at s (f_disk part)) = 0)"
    and "chain (fat_next sec b (start_sect part)) cur cs"
    and "\<And>c. c \<in> set cs \<Longrightarrow> in_volume b (start_sect part) (unat (sect_count (disk_at s (f_disk part)))) c"
    and "(obj, N) \<in> cream_objects s" and "\<And>x. in_range buffer (unat n) x \<Longrightarrow> in_range obj N x" and "unat n < 2 ^ 31"
    and "data = take (unat n) (drop (unat (file_offset (file_at s fp))) (concat (map (cluster_data sec b (start_sect part)) cs)))"
  shows "\<exists>s'. read_fat16 io fp buffer n s = Some (int (length data), s') \<and> bytes_at (mem s') buffer (length data) = data \<and>
    file_at s' = advanced s fp (length data) \<and> kept s c buffer (unat n) s' \<and>
    (unat (sect_per_clust b) \<le> 6 \<longrightarrow> cream_objects s' = cream_objects s) \<and> media (dev s') = media (dev s)"
  using ata_drive.read_fat16_ok [OF assms(1-8) assms(10) [unfolded assms(9)] assms(11-14) assms(15) [unfolded assms(9)]] by blast

text \<open>
  A volume at sector 63 with clusters of two sectors; the file has the clusters 2 and 5.  Data sector \<open>n\<close> holds the
  word \<open>n\<close> throughout.
\<close>

definition demo_bpb :: fat16_bpb where
  "demo_bpb = \<lparr>bytes_per_sect = 512, sect_per_clust = 2, reserved_sectors = 1, fat_count = 1, sectors_per_fat = 1,
     root_entry_count = 16, fat_lba = 64, root_lba = 65, data_lba = 66\<rparr>"

definition demo_channel :: channel where
  "demo_channel = blank_channel\<lparr>ch_media := \<lambda>_ n. if n = 64 then (replicate 256 0)[2 := 5, 5 := 0xffff] else replicate 256 (of_nat n)\<rparr>"

definition demo_state :: "channel vfs_state" where
  "demo_state = started ((vfs_blank demo_channel)\<lparr>
     bpb_at := \<lambda>_. demo_bpb,
     node_at := (\<lambda>_. (node_at (vfs_blank demo_channel) 0)\<lparr>fs_specific := 2, node_size := 1500\<rparr>),
     file_at := (\<lambda>_. \<lparr>vfs_node_ptr = 0x400000, file_flags = 1, file_offset = 1000\<rparr>)\<rparr>)"

lemma demo_channel_inv: "ch_inv demo_channel" "ch_phase demo_channel = Idle"
  by (simp_all add: demo_channel_def blank_channel_def ch_inv_def)

lemma demo_fields:
  "dev demo_state = demo_channel" "disk_at demo_state p = blank_disk"
  "part_at demo_state p = \<lparr>f_disk = 0x204000, fs_type = FAT_16_LBA, start_sect = 63, sect_num = 500, is_bootable = 0, next_part = 0\<rparr>"
  "bpb_at demo_state p = demo_bpb" "fs_specific (node_at demo_state p) = 2"
  "file_at demo_state p = \<lparr>vfs_node_ptr = 0x400000, file_flags = 1, file_offset = 1000\<rparr>"
  by (simp_all add: demo_state_def vfs_blank_def)

lemma demo_client: "client demo_state 124" "cream_objects demo_state = {}"
  unfolding demo_state_def by (rule started_client; simp add: vfs_blank_def)+

definition demo_part :: partition where
  "demo_part = \<lparr>f_disk = 0x204000, fs_type = FAT_16_LBA, start_sect = 63, sect_num = 500, is_bootable = 0, next_part = 0\<rparr>"

lemma demo_sectors:
  "volume_ok demo_bpb"
  "chain (fat_next (ch_media demo_channel False) demo_bpb 63) 2 [2, 5]"
  "length (cluster_data (ch_media demo_channel False) demo_bpb 63 k) = 1024"
proof -
  have "fat_next (ch_media demo_channel False) demo_bpb 63 2 = 5" "fat_next (ch_media demo_channel False) demo_bpb 63 5 = 0xffff"
    by (simp_all add: fat_next_def fat_start_def demo_bpb_def demo_channel_def)
  then show "chain (fat_next (ch_media demo_channel False) demo_bpb 63) 2 [2, 5]" by (simp add: eoc_def)
  show "volume_ok demo_bpb" by (simp add: volume_ok_def demo_bpb_def)
  then show "length (cluster_data (ch_media demo_channel False) demo_bpb 63 k) = 1024"
    using pio.length_cluster_data [of demo_state 0 demo_bpb 63 k] demo_channel_inv
    by (simp add: demo_fields demo_bpb_def)
qed

text \<open>What a state reached from \<open>demo_state\<close> by heap operations still says of the file.\<close>

lemma demo_file:
  assumes "heap_step demo_state s"
  shows "opened s 0x500000 demo_bpb demo_part 2" "dev s = demo_channel" "disk_at s p = blank_disk"
    "file_at s p = \<lparr>vfs_node_ptr = 0x400000, file_flags = 1, file_offset = 1000\<rparr>"
    "k \<in> {2, 5} \<Longrightarrow> in_volume demo_bpb (start_sect demo_part) (unat (sect_count (disk_at s (f_disk demo_part)))) k"
proof -
  note f = demo_fields heap_step_simps [OF assms]
  show "dev s = demo_channel" "disk_at s p = blank_disk"
    "file_at s p = \<lparr>vfs_node_ptr = 0x400000, file_flags = 1, file_offset = 1000\<rparr>"
    by (simp_all add: f)
  show "k \<in> {2, 5} \<Longrightarrow> in_volume demo_bpb (start_sect demo_part) (unat (sect_count (disk_at s (f_disk demo_part)))) k"
    by (auto simp: in_volume_def fat_start_def data_start_def demo_bpb_def demo_part_def f)
  have "ucast (2 :: u32) = (2 :: u16)" by simp
  then show "opened s 0x500000 demo_bpb demo_part 2" by (simp add: opened_def f demo_part_def Let_def)
qed

lemma read_fat16_bytes_witness:
  "\<exists>s'. read_fat16 ch_io 0x500000 (fst (heap_cream_malloc 100 demo_state)) 100 (snd (heap_cream_malloc 100 demo_state)) = Some (100, s')"
proof -
  obtain a s where m: "heap_cream_malloc 100 demo_state = (a, s)" by fastforce
  have "client demo_state (Suc 123)" using demo_client by simp
  then obtain N where o: "client s 123" "heap_step demo_state s" "100 \<le> N" "cream_objects s = insert (a, N) (cream_objects demo_state)"
    by (rule client_malloc [OF _ _ _ m]) (auto simp: const_defs)
  note f = demo_file [OF o(2)]
  have cl: "client s (121 + 2)" using o(1) by simp
  define sec where "sec = ch_media demo_channel False"
  have sec: "sec = ch_media (dev s) (is_master (disk_at s (f_disk demo_part)) = 0)" by (simp add: sec_def f)
  have ch: "chain (fat_next sec demo_bpb (start_sect demo_part)) 2 [2, 5]" using demo_sectors(2) by (simp add: sec_def demo_part_def)
  define data where "data = take (unat (100 :: u32)) (drop (unat (file_offset (file_at s 0x500000)))
    (concat (map (cluster_data sec demo_bpb (start_sect demo_part)) [2, 5])))"
  have len: "length data = 100" using demo_sectors(3) by (simp add: data_def f sec_def demo_part_def)
  have "\<exists>s'. read_fat16 ch_io 0x500000 a 100 s = Some (int (length data), s') \<and> bytes_at (mem s') a (length data) = data \<and>
    file_at s' = advanced s 0x500000 (length data) \<and> kept s 121 a (unat (100 :: u32)) s' \<and>
    (unat (sect_per_clust demo_bpb) \<le> 6 \<longrightarrow> cream_objects s' = cream_objects s) \<and> ch_media (dev s') = ch_media (dev s)"
    by (rule read_fat16_bytes [OF pio.ata_drive_axioms cl _ _ _ f(1) _ demo_sectors(1) sec ch f(5), of a N])
      (use o(3,4) demo_channel_inv in \<open>auto simp: f data_def intro: in_range_mono\<close>)
  then show ?thesis by (auto simp: m len)
qed

end
