(* ===== verification/Fat16_Dir.thy ===== *)
theory Fat16_Dir
  imports Fat16
begin

text \<open>
  The third part of \<open>src/kernel/file_syst/fat16.c\<close>: names, directory entries, opening and closing;
  and what \<open>set_fname\<close> does to memory.
\<close>

section \<open>Names\<close>

text \<open>
  The first loop of \<open>set_fname\<close> runs to the end of the name; it does not end when neither a slash nor a null byte occurs
  in the memory.  The second one moves its own limit: \<open>j\<close> and \<open>i\<close> advance together, and the comparison \<open>j < i\<close> of the two
  \<open>int\<close> fails only when \<open>i\<close> has wrapped around.
\<close>

partial_function (option) name_end :: "mem \<Rightarrow> addr \<Rightarrow> u32 \<Rightarrow> u32 option" where
  "name_end m path i =
     (if m (path + i) \<noteq> of_char (CHR ''/'') \<and> m (path + i) \<noteq> 0 then name_end m path (i + 1) else Some i)"

lemma sint_Suc:
  fixes i :: u32
  shows "sint i \<noteq> 2 ^ 31 - 1 \<Longrightarrow> sint (i + 1) = sint i + 1" and "sint i = 2 ^ 31 - 1 \<Longrightarrow> sint (i + 1) = - (2 ^ 31)"
proof -
  have b: "- (2 ^ 31) \<le> sint i" "sint i < 2 ^ 31" using sint_ge [of i] sint_lt [of i] by simp_all
  have e: "sint (i + 1) = signed_take_bit 31 (sint i + 1)" by (simp add: sint_word_ariths)
  show "sint i \<noteq> 2 ^ 31 - 1 \<Longrightarrow> sint (i + 1) = sint i + 1" using b unfolding e by (intro signed_take_bit_int_eq_self) auto
  show "sint i = 2 ^ 31 - 1 \<Longrightarrow> sint (i + 1) = - (2 ^ 31)" unfolding e by (simp add: signed_take_bit_eq_if_negative)
qed

function name_copy :: "mem \<Rightarrow> addr \<Rightarrow> addr \<Rightarrow> u32 \<Rightarrow> u32 \<Rightarrow> u32 \<times> u32 \<times> mem" where
  "name_copy m path f_name j i =
     (if sint j < sint i then name_copy (st8 m (f_name + j) (m (path + i))) path f_name (j + 1) (i + 1)
      else (j, i, m))"
  by pat_completeness auto
termination
proof (relation "measure (\<lambda>(m, path, f_name, j, i). if sint j < sint i then nat (2 ^ 31 - sint i) else 0)")
  fix m path f_name and j i :: u32
  assume lt: "sint j < sint i"
  have b: "- (2 ^ 31) \<le> sint (j + 1)" "sint i < 2 ^ 31" using sint_ge [of "j + 1"] sint_lt [of i] by simp_all
  show "((st8 m (f_name + j) (m (path + i)), path, f_name, j + 1, i + 1), m, path, f_name, j, i)
    \<in> measure (\<lambda>(m, path, f_name, j, i). if sint j < sint i then nat (2 ^ 31 - sint i) else 0)"
    using lt b sint_Suc [of i] by (cases "sint i = 2 ^ 31 - 1") auto
qed simp

declare name_copy.simps [simp del]

definition set_fname :: "addr \<Rightarrow> addr \<Rightarrow> int \<Rightarrow> u32 \<Rightarrow> mem \<Rightarrow> (int \<times> mem) option" where
  "set_fname path f_name start sz m =
     (let m1 = fold (\<lambda>i m. st8 m (f_name + of_nat i) 0) [0..<unat sz] m
      in case name_end m1 path (of_int start) of None \<Rightarrow> None
         | Some i \<Rightarrow> (case name_copy m1 path f_name (of_int start) i of (j, i', m2) \<Rightarrow> Some (sint (i' - 1), st8 m2 (f_name + j) 0)))"

section \<open>Directories\<close>

definition FAT16_DIRENT_SIZE :: u32 where [const_defs]: "FAT16_DIRENT_SIZE = 32"
definition FILE_NAME_LEN_MAX :: u32 where [const_defs]: "FILE_NAME_LEN_MAX = 8"

definition get_cluster_size :: "addr \<Rightarrow> ('d, 'z) vfs_state_scheme \<Rightarrow> u32" where
  "get_cluster_size node s = cluster_size (bpb_at s (fs_bpb (mt_at s (origin_mount_point (node_at s node)))))"

text \<open>The node of a directory entry in the cache table; \<open>None\<close> is an early return.\<close>

definition dir_node :: "addr \<Rightarrow> ('d, 'z) vfs_state_scheme \<Rightarrow> addr option" where
  "dir_node ct s =
     (let c = ct_at s ct
      in if content_type c = CTE_FILE then None
         else if content_type c = CTE_MOUNT_PNT \<or> content_type c = CTE_ROOT then Some (fs_root_node (mt_at s (ct_content c)))
         else if content_type c = CTE_DIR then Some (ct_content c)
         else None)"

definition get_origing_mnt_tbl_ent :: "addr \<Rightarrow> ('d, 'z) vfs_state_scheme \<Rightarrow> addr" where
  "get_origing_mnt_tbl_ent ct s = (case dir_node ct s of None \<Rightarrow> 0 | Some node \<Rightarrow> origin_mount_point (node_at s node))"

text \<open>The first of \<open>n\<close> entries at \<open>target\<close> whose name agrees in 8 characters.\<close>

fun match_entry :: "mem \<Rightarrow> addr \<Rightarrow> addr \<Rightarrow> nat \<Rightarrow> addr option" where
  "match_entry m target f_name 0 = None"
| "match_entry m target f_name (Suc n) =
     (if strncmp m target f_name FILE_NAME_LEN_MAX = 0 then Some target
      else match_entry m (target + FAT16_DIRENT_SIZE) f_name n)"

text \<open>The loop over the clusters; \<open>file_ptr\<close> is the address of the local of that name.\<close>

fun match_clusters ::
  "'d port_io \<Rightarrow> addr \<Rightarrow> addr \<Rightarrow> addr \<Rightarrow> addr \<Rightarrow> u32 \<Rightarrow> nat \<Rightarrow> ('d, 'z) vfs_state_scheme \<Rightarrow>
    (addr \<times> ('d, 'z) vfs_state_scheme) option" where
  "match_clusters io file_ptr buffer f_name fill_val csize 0 s = Some (0, s)"
| "match_clusters io file_ptr buffer f_name fill_val csize (Suc n) s =
     (case read_fat16 io file_ptr buffer csize s of None \<Rightarrow> None
      | Some (r, s1) \<Rightarrow>
          if r = 0 then Some (0, s1)
          else case match_entry (mem s1) buffer f_name (unat (csize div FAT16_DIRENT_SIZE)) of
            Some t \<Rightarrow> Some (t, s1\<lparr>mem := memcpy (mem s1) fill_val t FAT16_DIRENT_SIZE\<rparr>)
          | None \<Rightarrow> match_clusters io file_ptr buffer f_name fill_val csize n s1)"

definition read_cluster_find_match ::
  "'d port_io \<Rightarrow> addr \<Rightarrow> addr \<Rightarrow> addr \<Rightarrow> addr \<Rightarrow> ('d, 'z) vfs_state_scheme \<Rightarrow> (addr \<times> ('d, 'z) vfs_state_scheme) option" where
  "read_cluster_find_match io file_ptr ct f_name fill_val s =
     (case dir_node ct s of None \<Rightarrow> Some (0, s)
      | Some node \<Rightarrow>
          let s1 = upd_file file_ptr (\<lambda>f. f\<lparr>vfs_node_ptr := node, file_offset := 0, file_flags := 1\<rparr>) s;
              csize = get_cluster_size node s1
          in case heap_cream_malloc csize s1 of (buffer, s2) \<Rightarrow>
            if buffer = 0 then Some (0, s2)
            else case match_clusters io file_ptr buffer f_name fill_val csize
                   (nat (sint (node_size (node_at s2 node) div csize))) s2 of
              None \<Rightarrow> None
            | Some (r, s3) \<Rightarrow> Some (r, snd (heap_cream_free buffer s3)))"

section \<open>Opening and closing\<close>

definition fat16_sub_open_file ::
  "addr \<Rightarrow> addr \<Rightarrow> int \<Rightarrow> addr \<Rightarrow> ('d, 'z) vfs_state_scheme \<Rightarrow> addr \<times> ('d, 'z) vfs_state_scheme" where
  "fat16_sub_open_file dir_ent path offset origin s =
     (case heap_cream_malloc sizeof_cache_table_entry s of (ct, s1) \<Rightarrow>
        if ct = 0 then (0, s1)
        else
          let s2 = upd_ct ct (\<lambda>k. k\<lparr>path_hash := generate_hast_start_end (mem s1) path 0 (of_int offset),
                     content_type := if mem s1 (dir_ent + 11) AND 0x10 \<noteq> 0 then CTE_DIR else CTE_FILE\<rparr>) s1
          in case heap_cream_malloc sizeof_vfs_node s2 of (node, s3) \<Rightarrow>
            if node = 0 then (0, snd (heap_cream_free ct s3))
            else
              let s4 = upd_ct ct (\<lambda>k. k\<lparr>ct_content := node, refcount := 1,
                         ct_flags := if mem s3 (dir_ent + 11) AND 0x01 = 0 then file_read OR file_write else file_read,
                         ct_next := 0\<rparr>) s3;
                  s5 = upd_ct (cache_table_last s4) (\<lambda>k. k\<lparr>ct_next := ct\<rparr>) s4;
                  s6 = (upd_ct ct (\<lambda>k. k\<lparr>ct_prev := cache_table_last s5\<rparr>) s5)\<lparr>cache_table_last := ct\<rparr>;
                  s7 = upd_node node (\<lambda>k. k\<lparr>fs_specific := ucast (ld16 (mem s6) (dir_ent + 26)),
                         node_size := ld32 (mem s6) (dir_ent + 28), node_content := ct, origin_mount_point := origin\<rparr>) s6
              in case generate_vfs_node_id s7 of (nid, s8) \<Rightarrow>
                   (ct, upd_node node (\<lambda>k. k\<lparr>node_id := of_int nid, node_mode := ct_flags (ct_at s8 ct)\<rparr>) s8))"

definition fat16_sub_close_file :: "addr \<Rightarrow> ('d, 'z) vfs_state_scheme \<Rightarrow> int \<times> ('d, 'z) vfs_state_scheme" where
  "fat16_sub_close_file ct s =
     (if ct = 0 then (- NULL_ARG, s)
      else if 1 < refcount (ct_at s ct) then (- MORE_THAN_ONE_REFCOUNT, s)
      else if content_type (ct_at s ct) = CTE_MOUNT_PNT then (- TRYING_TO_CLOSE_MOUNT_PNT, s)
      else
        let node = ct_content (ct_at s ct);
            temp = ct_next (ct_at s ct);
            s1 = upd_ct (ct_prev (ct_at s ct)) (\<lambda>k. k\<lparr>ct_next := temp\<rparr>) s;
            s2 = upd_ct temp (\<lambda>k. k\<lparr>ct_prev := ct_prev (ct_at s1 ct)\<rparr>) s1
        in (0, free_if node (snd (heap_cream_free ct s2))))"

definition delete_file_fat16 :: "addr \<Rightarrow> ('d, 'z) vfs_state_scheme \<Rightarrow> int" where
  "delete_file_fat16 path s = 0"

section \<open>What set\_fname does\<close>

lemma name_end_component:
  assumes "\<And>k. k < n \<Longrightarrow> m (path + i + of_nat k) \<noteq> 0 \<and> m (path + i + of_nat k) \<noteq> of_char (CHR ''/'')"
    and "m (path + i + of_nat n) = 0 \<or> m (path + i + of_nat n) = of_char (CHR ''/'')"
  shows "name_end m path i = Some (i + of_nat n)"
  using assms
proof (induction n arbitrary: i)
  case 0
  then show ?case by (subst name_end.simps) auto
next
  case (Suc n)
  have "name_end m path (i + 1) = Some (i + 1 + of_nat n)"
    using Suc.prems(1) [of "Suc _"] Suc.prems(2) by (intro Suc.IH) (auto simp: add.assoc)
  moreover have "m (path + i) \<noteq> of_char (CHR ''/'') \<and> m (path + i) \<noteq> 0" using Suc.prems(1) [of 0] by simp
  ultimately show ?case by (subst name_end.simps) (simp add: add.assoc)
qed

text \<open>Once begun, the copy runs until \<open>i\<close> wraps around.\<close>

lemma name_copy_runs:
  assumes "sint j < sint i"
  shows "name_copy m path f_name j i = (j + of_nat (nat (2 ^ 31 - sint i)), i + of_nat (nat (2 ^ 31 - sint i)),
    fold (\<lambda>k m. st8 m (f_name + j + of_nat k) (m (path + i + of_nat k))) [0..<nat (2 ^ 31 - sint i)] m)"
  using assms
proof (induction m path f_name j i rule: name_copy.induct)
  case (1 m path f_name j i)
  let ?m = "st8 m (f_name + j) (m (path + i))"
  have b: "- (2 ^ 31) \<le> sint (j + 1)" "sint i < 2 ^ 31" "sint j + 1 < 2 ^ 31" using sint_ge [of "j + 1"] sint_lt [of i] "1.prems" by simp_all
  have step: "name_copy m path f_name j i = name_copy ?m path f_name (j + 1) (i + 1)"
    using "1.prems" by (simp add: name_copy.simps [of m path f_name j i])
  show ?case
  proof (cases "sint i = 2 ^ 31 - 1")
    case True
    then have "name_copy ?m path f_name (j + 1) (i + 1) = (j + 1, i + 1, ?m)"
      using b sint_Suc(2) [OF True] by (simp add: name_copy.simps [of ?m path f_name "j + 1"])
    then show ?thesis using step True by simp
  next
    case False
    define L where "L = nat (2 ^ 31 - sint (i + 1))"
    have L: "nat (2 ^ 31 - sint i) = Suc L" using sint_Suc(1) [OF False] b(2) by (simp add: L_def)
    have "sint j \<noteq> 2 ^ 31 - 1" using b(3) by simp
    then have "sint (j + 1) < sint (i + 1)" using sint_Suc(1) [of j] sint_Suc(1) [OF False] "1.prems" by simp
    from "1.IH" [OF "1.prems" this, folded L_def]
    have "name_copy m path f_name j i = (j + 1 + of_nat L, i + 1 + of_nat L,
      fold (\<lambda>k m. st8 m (f_name + (j + 1) + of_nat k) (m (path + (i + 1) + of_nat k))) [0..<L] ?m)" using step by simp
    moreover have "fold g [0..<Suc L] m = fold (\<lambda>k. g (Suc k)) [0..<L] (g 0 m)" for g :: "nat \<Rightarrow> mem \<Rightarrow> mem"
      by (simp add: upt_conv_Cons map_Suc_upt [symmetric] fold_map comp_def del: upt_Suc)
    ultimately show ?thesis unfolding L by (simp add: add.assoc del: upt_Suc)
  qed
qed

lemma sint_of_nat: "n < 2 ^ 31 \<Longrightarrow> sint (of_nat n :: u32) = int n"
proof -
  assume "n < 2 ^ 31"
  then have "unat (of_nat n :: u32) = n" by (simp add: unat_of_nat32)
  with \<open>n < 2 ^ 31\<close> show ?thesis using sint_nat [of "of_nat n"] by simp
qed

section \<open>Properties\<close>

text \<open>C37: for a component of at least one character \<open>set_fname\<close> does not copy the component.  It copies what is behind the
  component, and goes on until the index wraps around: from \<open>f_name + start\<close> on almost 2 GB are overwritten with the bytes
  from the end of the component on, and the result is the largest \<open>int\<close> instead of the index of the last character.  (The
  bytes it finds and copies are assumed to lie outside the part it overwrites before it reads them.)\<close>

theorem set_fname_overruns:
  assumes "n \<noteq> 0" and "start + n < 2 ^ 31"
    and "\<And>k. k < n \<Longrightarrow> m (path + of_nat (start + k)) \<noteq> 0 \<and> m (path + of_nat (start + k)) \<noteq> of_char (CHR ''/'')"
    and "m (path + of_nat (start + n)) = 0 \<or> m (path + of_nat (start + n)) = of_char (CHR ''/'')"
    and "ranges_disjoint f_name (unat sz) (path + of_nat start) (Suc n)"
    and "2 ^ 31 - (start + n) \<le> unat (f_name - (path + of_nat n))"
    and m1: "m1 = put_bytes m f_name (replicate (unat sz) 0)"
  shows "set_fname path f_name (int start) sz m = Some (2 ^ 31 - 1,
    put_bytes m1 (f_name + of_nat start) (bytes_at m1 (path + of_nat (start + n)) (2 ^ 31 - (start + n)) @ [0]))"
proof -
  define L where "L = 2 ^ 31 - (start + n)"
  let ?d = "f_name + of_nat start :: addr" and ?s = "path + of_nat (start + n) :: addr"
  have L: "L \<noteq> 0" "start + n + L = 2 ^ 31" "L \<le> 2 ^ 32" using assms(2) by (simp_all add: L_def)
  have same: "m1 (path + of_nat (start + k)) = m (path + of_nat (start + k))" if "k \<le> n" for k
  proof -
    have "in_range (path + of_nat start) (Suc n) (path + of_nat start + of_nat k)" using that assms(2) by (intro in_range_offset [THEN iffD2]) auto
    then show ?thesis using assms(5) by (auto simp: m1 ranges_disjoint_def add.assoc intro!: put_bytes_out)
  qed
  have ne: "name_end m1 path (of_nat start) = Some (of_nat start + of_nat n)"
    by (rule name_end_component) (use same assms(3,4) in \<open>auto simp: add.assoc\<close>)
  have si: "sint (of_nat start :: u32) = int start" "sint (of_nat start + of_nat n :: u32) = int (start + n)"
    using sint_of_nat [of start] sint_of_nat [of "start + n"] assms(2) by simp_all
  then have lt: "sint (of_nat start :: u32) < sint (of_nat start + of_nat n :: u32)" using assms(1) by simp
  have N: "nat (2 ^ 31 - sint (of_nat start + of_nat n :: u32)) = L" unfolding si L_def by simp
  have cp: "fold (\<lambda>k m. st8 m (?d + of_nat k) (m (?s + of_nat k))) [0..<L] m1 = put_bytes m1 ?d (bytes_at m1 ?s L)"
    by (rule memcpy_fold [OF L(3)]) (use assms(6) in \<open>simp add: L_def algebra_simps\<close>)
  have "of_nat start + of_nat n + of_nat L = (of_nat (start + n + L) :: u32)" by simp
  then have i: "sint (of_nat start + of_nat n + of_nat L - 1 :: u32) = 2 ^ 31 - 1" unfolding L(2) by simp
  have "st8 (put_bytes m1 ?d (bytes_at m1 ?s L)) (?d + of_nat L) 0 = put_bytes m1 ?d (bytes_at m1 ?s L @ [0])"
    using put_bytes_snoc [of "bytes_at m1 ?s L" m1 ?d 0] assms(2) by (simp add: L_def)
  then show ?thesis
    using name_copy_runs [OF lt, of m1 path f_name, unfolded N] cp i
    unfolding L_def [symmetric] set_fname_def m1 memset_fold [OF order_less_imp_le [OF unat_lt_2p32]] Let_def of_int_of_nat_eq ne [unfolded m1]
    by (simp add: add.assoc del: upt_Suc)
qed

lemma set_fname_overruns_witness:
  "\<exists>m'. set_fname 0x2000 0x1000 0 13 (put_bytes (\<lambda>_. 0) 0x2000 (lit ''a/b'')) = Some (2 ^ 31 - 1, m') \<and> m' 0x1001 = of_char (CHR ''b'')"
proof -
  let ?m = "put_bytes (\<lambda>_. 0) 0x2000 (lit ''a/b'') :: mem"
  define m1 where "m1 = put_bytes ?m 0x1000 (replicate (unat (13 :: u32)) 0)"
  have at: "?m 0x2000 = of_char (CHR ''a'')" "?m 0x2001 = of_char (CHR ''/'')" "?m 0x2002 = of_char (CHR ''b'')"
    by (simp_all add: lit_def put_bytes_Cons st8_apply)
  have "m1 0x2002 = of_char (CHR ''b'')" using at(3) by (simp add: m1_def in_range_def put_bytes_out)
  moreover have "set_fname 0x2000 0x1000 (int 0) 13 ?m = Some (2 ^ 31 - 1,
    put_bytes m1 (0x1000 + of_nat 0) (bytes_at m1 (0x2000 + of_nat (0 + 1)) (2 ^ 31 - (0 + 1)) @ [0]))"
    by (rule set_fname_overruns [where n = 1]) (use at in \<open>auto simp: m1_def intro!: ranges_disjoint_nat\<close>)
  moreover have "put_bytes m1 0x1000 (bytes_at m1 0x2001 (2 ^ 31 - 1) @ [0]) 0x1001 = m1 0x2002"
    by (simp add: put_bytes_def in_range_def nth_append)
  ultimately show ?thesis by simp
qed

end
