(* ===== verification/Fat16_Tables.thy ===== *)
theory Fat16_Tables
  imports Fat16_Read Fat16_Dir
begin

text \<open>
  What parsing a boot sector delivers, against a specification of its fields and regions over natural numbers; what mounting,
  opening and closing do to the tables of the file-system layer; and the searches that never end.
\<close>

section \<open>The boot sector\<close>

text \<open>
  The parameters a boot sector \<open>b\<close> gives for a partition that begins at \<open>start\<close>.  The regions of the volume follow one
  another: the reserved sectors, the tables, the root directory (32 bytes an entry, rounded up to whole sectors) and the
  data; their first sectors are computed without bound and stored in 32 bits.
\<close>

definition bpb_of :: "byte list \<Rightarrow> u32 \<Rightarrow> fat16_bpb option" where
  "bpb_of b start =
     (let bps = unat (le16 b 11); fats = unat start + unat (le16 b 14); root = fats + unat (b ! 16) * unat (le16 b 22);
          data = root + (32 * unat (le16 b 17) + (bps - 1)) div bps
      in if bps \<notin> {512, 1024, 2048, 4096} \<or> b ! 13 = 0 \<or> b ! 16 = 0 \<or> le16 b 22 = 0 then None
         else Some \<lparr>bytes_per_sect = le16 b 11, sect_per_clust = b ! 13, reserved_sectors = le16 b 14, fat_count = b ! 16,
           sectors_per_fat = le16 b 22, root_entry_count = le16 b 17,
           fat_lba = of_nat fats, root_lba = of_nat root, data_lba = of_nat data\<rparr>)"

text \<open>The code computes in 32 bits throughout; only the rounded-up quotient needs an argument.\<close>

lemma root_sectors:
  fixes bps root :: u16
  assumes "bps \<noteq> 0"
  shows "(ucast root * 32 + (ucast bps - 1)) div ucast bps = (of_nat ((32 * unat root + (unat bps - 1)) div unat bps) :: u32)"
proof -
  have lim: "unat root < 65536" "unat bps < 65536" "1 \<le> unat bps" using assms unat_u16 unat_gt_0 [of bps] by (auto simp: Suc_le_eq)
  have b: "unat (ucast bps - 1 :: u32) = unat bps - 1" using lim by (simp add: unat_sub_if')
  have r: "unat (ucast root * 32 :: u32) = 32 * unat root" using lim by (simp add: unat_word_ariths)
  have "unat (ucast root * 32 + (ucast bps - 1) :: u32) = 32 * unat root + (unat bps - 1)"
    using lim by (simp add: unat_plus_if' b r)
  then have "unat ((ucast root * 32 + (ucast bps - 1)) div ucast bps :: u32) = (32 * unat root + (unat bps - 1)) div unat bps"
    by (simp add: unat_div)
  from this [symmetric] show ?thesis by simp
qed

lemma bpb_of_eq:
  "bpb_of b start =
     (if le16 b 11 \<notin> {512, 1024, 2048, 4096} \<or> b ! 13 = 0 \<or> b ! 16 = 0 \<or> le16 b 22 = 0 then None
      else Some (bpb_regions start \<lparr>bytes_per_sect = le16 b 11, sect_per_clust = b ! 13, reserved_sectors = le16 b 14,
        fat_count = b ! 16, sectors_per_fat = le16 b 22, root_entry_count = le16 b 17, fat_lba = 0, root_lba = 0, data_lba = 0\<rparr>))"
proof -
  have bps: "unat (le16 b 11) \<in> {512, 1024, 2048, 4096} \<longleftrightarrow> le16 b 11 \<in> {512, 1024, 2048, 4096}"
    by (simp add: word_unat_eq_iff)
  show ?thesis
  proof (cases "le16 b 11 \<in> {512, 1024, 2048, 4096}")
    case True
    then have "le16 b 11 \<noteq> 0" by auto
    from root_sectors [OF this, of "le16 b 17"] show ?thesis
      unfolding bpb_of_def Let_def bps by (simp add: bpb_regions_def Let_def)
  next
    case False
    then show ?thesis unfolding bpb_of_def Let_def bps by simp
  qed
qed

lemma ucast_of_nat_16: "ucast (of_nat n :: u32) = (of_nat n :: u16)"
  by (rule word_unat_eq_iff [THEN iffD2]) (simp add: unsigned_ucast_eq unsigned_of_nat)

lemma get_2_bytes_le16:
  assumes "bytes_at m p 512 = b" and "i < 511"
  shows "get_2_bytes m (p + of_nat i) = le16 b i"
proof -
  have b: "m (p + of_nat i) = b ! i" "m (p + of_nat i + 1) = b ! (i + 1)"
    using nth_bytes_at [of i 512 m p] nth_bytes_at [of "i + 1" 512 m p] assms by (simp_all add: add.assoc add.commute [of 1])
  let ?h = "ucast (b ! (i + 1)) :: u32" and ?l = "ucast (b ! i) :: u32"
  have "push_bit 8 ?h AND ?l = 0" by (rule bit_word_eqI) (auto simp: bit_simps dest!: byte_bit)
  then have "push_bit 8 ?h OR ?l = push_bit 8 ?h + ?l" by (simp add: disjunctive_add_eq_or)
  also have "\<dots> = of_nat (unat (b ! i) + 256 * unat (b ! (i + 1)))"
    by (simp add: push_bit_eq_mult)
  finally show ?thesis unfolding get_2_bytes_def b le16_def by (simp only: ucast_of_nat_16)
qed

lemma upd_bpb_twice: "upd_bpb a f (upd_bpb a g t) = upd_bpb a (\<lambda>k. f (g k)) t"
  by (simp add: upd_bpb_def)

lemma bpb_filled:
  "k\<lparr>bytes_per_sect := v1, sect_per_clust := v2, reserved_sectors := v3, fat_count := v4, root_entry_count := v5,
     sectors_per_fat := v6, fat_lba := v7, root_lba := v8, data_lba := v9\<rparr> =
   \<lparr>bytes_per_sect = v1, sect_per_clust = v2, reserved_sectors = v3, fat_count = v4, sectors_per_fat = v6,
     root_entry_count = v5, fat_lba = v7, root_lba = v8, data_lba = v9\<rparr>"
  by (cases k) simp

lemma parse_body:
  assumes m1: "heap_cream_malloc 512 s = (buf, s1)"
    and rd: "read_disk_block io (f_disk (part_at s1 part)) (start_sect (part_at s1 part)) 1 buf s1 = (0, s2)"
    and m2: "heap_cream_malloc sizeof_fat16_bpb s2 = (p, s3)" and b: "bytes_at (mem s3) buf 512 = b"
  shows "\<exists>f. parse_partition_fill_bpb_fat16 io part s =
    (case bpb_of b (start_sect (part_at s3 part)) of None \<Rightarrow> parse_fail buf p (upd_bpb p f s3)
     | Some r \<Rightarrow> (p, snd (heap_cream_free buf (upd_bpb p (\<lambda>_. r) s3))))"
proof -
  have w: "get_2_bytes (mem s3) (buf + 0x0b) = le16 b 11" "get_2_bytes (mem s3) (buf + 0xe) = le16 b 14"
    "get_2_bytes (mem s3) (buf + 0x11) = le16 b 17" "get_2_bytes (mem s3) (buf + 0x16) = le16 b 22"
    using get_2_bytes_le16 [OF b, of 11] get_2_bytes_le16 [OF b, of 14] get_2_bytes_le16 [OF b, of 17] get_2_bytes_le16 [OF b, of 22]
    by simp_all
  have y: "mem s3 (buf + 0x0d) = b ! 13" "mem s3 (buf + 0x10) = b ! 16"
    using nth_bytes_at [of 13 512 "mem s3" buf] nth_bytes_at [of 16 512 "mem s3" buf] by (simp_all add: b)
  consider "le16 b 11 \<notin> {512, 1024, 2048, 4096}" | "le16 b 11 \<in> {512, 1024, 2048, 4096}" "b ! 13 = 0"
    | "le16 b 11 \<in> {512, 1024, 2048, 4096}" "b ! 13 \<noteq> 0" "b ! 16 = 0"
    | "le16 b 11 \<in> {512, 1024, 2048, 4096}" "b ! 13 \<noteq> 0" "b ! 16 \<noteq> 0" "le16 b 22 = 0"
    | "le16 b 11 \<in> {512, 1024, 2048, 4096}" "b ! 13 \<noteq> 0" "b ! 16 \<noteq> 0" "le16 b 22 \<noteq> 0" by blast
  then show ?thesis
  proof cases
    case 5
    then show ?thesis
      unfolding parse_partition_fill_bpb_fat16_def
      by (auto simp: m1 rd m2 w y upd_bpb_twice Let_def bpb_of_eq bpb_regions_def bpb_filled)
  qed (unfold parse_partition_fill_bpb_fat16_def, auto simp: m1 rd m2 w y upd_bpb_twice Let_def bpb_of_eq intro!: exI)
qed

text \<open>
  What parsing leaves: the live objects, their bytes and the tables as before, and on success exactly one more object, which
  carries the parameters.
\<close>

definition parsed ::
  "('d, 'z) vfs_state_scheme \<Rightarrow> nat \<Rightarrow> fat16_bpb option \<Rightarrow> addr \<Rightarrow> ('d, 'z) vfs_state_scheme \<Rightarrow> bool" where
  "parsed s c r p s' \<longleftrightarrow>
     (case r of None \<Rightarrow> p = 0 \<and> cream_objects s' = cream_objects s
      | Some v \<Rightarrow> p \<noteq> 0 \<and> bpb_at s' p = v \<and> p \<notin> fst ` cream_objects s \<and>
          (\<exists>n\<ge>24. cream_objects s' = insert (p, n) (cream_objects s))) \<and>
     client s' c \<and>
     (\<forall>(a, l) \<in> cream_objects s. \<forall>x. in_range a l x \<longrightarrow> mem s' x = mem s x) \<and>
     (\<forall>a \<in> fst ` cream_objects s. bpb_at s' a = bpb_at s a) \<and>
     disk_at s' = disk_at s \<and> part_at s' = part_at s \<and> ct_at s' = ct_at s \<and> mt_at s' = mt_at s \<and>
     node_at s' = node_at s \<and> file_at s' = file_at s \<and> cache_table_start s' = cache_table_start s \<and>
     cache_table_last s' = cache_table_last s \<and> mount_table_start s' = mount_table_start s \<and>
     mount_table_last s' = mount_table_last s \<and> CACHE_TABLE_COUNT s' = CACHE_TABLE_COUNT s \<and>
     VFS_INODE_ID_COUNT s' = VFS_INODE_ID_COUNT s"

context ata_drive
begin

text \<open>Up to the checks: the sector is in the new object \<open>buf\<close>, and \<open>q\<close> is the object for the parameters.\<close>

lemma parse_start:
  fixes s :: "('d, 'z) vfs_state_scheme"
  assumes cl: "client s (c + 2)" and drive: "inv (dev s)" "phase (dev s) = Idle" "attached base drives (disk_at s (f_disk (part_at s part)))"
    and lba: "unat (start_sect (part_at s part)) + 1 \<le> unat (sect_count (disk_at s (f_disk (part_at s part))))"
      "unat (start_sect (part_at s part)) + 1 \<le> 2 ^ 28"
    and b: "b = sector_bytes (sectors s (f_disk (part_at s part)) (unat (start_sect (part_at s part))))"
  obtains buf N1 q N2 s3 d f where "parse_partition_fill_bpb_fat16 io part s = (case bpb_of b (start_sect (part_at s part)) of
       None \<Rightarrow> parse_fail buf q (upd_bpb q f s3) | Some r \<Rightarrow> (q, snd (heap_cream_free buf (upd_bpb q (\<lambda>_. r) s3))))"
    and "client s3 c" and "cream_objects s3 = insert (q, N2) (insert (buf, N1) (cream_objects s))"
    and "buf \<notin> fst ` cream_objects s" "q \<notin> fst ` cream_objects s" "q \<noteq> buf" "q \<noteq> 0" "24 \<le> N2" and "companions s3 buf q"
    and "\<And>a l x. (a, l) \<in> cream_objects s \<Longrightarrow> in_range a l x \<Longrightarrow> mem s3 x = mem s x"
    and "heap_step (s\<lparr>dev := d\<rparr>) s3" and "inv d" "phase d = Idle" "media d = media (dev s)"
proof -
  obtain buf s1 where m1: "heap_cream_malloc 512 s = (buf, s1)" by fastforce
  have cl': "client s (Suc (Suc c))" using cl by simp
  obtain N1 where a: "client s1 (Suc c)" "heap_step s s1" "512 \<le> N1"
    "cream_objects s1 = insert (buf, N1) (cream_objects s)" "buf \<noteq> 0"
    and k1: "\<And>b l x. (b, l) \<in> cream_objects s \<Longrightarrow> in_range b l x \<Longrightarrow> mem s1 x = mem s x"
    and ap1: "\<And>b l. (b, l) \<in> cream_objects s \<Longrightarrow> ranges_disjoint buf N1 b l" "buf \<notin> fst ` cream_objects s"
    by (rule client_malloc [OF cl' _ _ m1]) (auto simp: const_defs)
  note h1 = heap_step_simps [OF a(2)]
  have "0 < unat (1 :: u32)" "unat (1 :: u32) \<le> 256" by simp_all
  from read_disk_block_ok [OF _ _ _ _ _ this, of s1 "f_disk (part_at s1 part)" "start_sect (part_at s1 part)" buf] drive lba h1
  obtain d where rd: "read_disk_block io (f_disk (part_at s1 part)) (start_sect (part_at s1 part)) 1 buf s1
      = (0, s1\<lparr>mem := put_bytes (mem s1) buf b, dev := d\<rparr>)"
    and d: "inv d" "phase d = Idle" "media d = media (dev s)" by (auto simp: b)
  define s2 where "s2 = s1\<lparr>mem := put_bytes (mem s1) buf b, dev := d\<rparr>"
  have len: "length b = 512" using drive(1) by (simp add: b sector_words)
  have bN: "(buf, N1) \<in> cream_objects s1" using a(4) by simp
  have out: "mem s2 x = mem s1 x" if "\<not> in_range buf N1 x" for x
    using that a(3) len in_range_mono [of buf 512 x N1] by (auto simp: s2_def intro!: put_bytes_out)
  have c2: "client s2 (Suc c)" "cream_objects s2 = cream_objects s1" "same_pages s1 s2"
    by (rule client_store [OF a(1) bN out]; simp add: s2_def)+
  obtain q s3 where m2: "heap_cream_malloc sizeof_fat16_bpb s2 = (q, s3)" by fastforce
  obtain N2 where e: "q \<noteq> 0" "client s3 c" "heap_step s2 s3" "24 \<le> N2"
    "cream_objects s3 = insert (q, N2) (cream_objects s2)"
    and k3: "\<And>b l x. (b, l) \<in> cream_objects s2 \<Longrightarrow> in_range b l x \<Longrightarrow> mem s3 x = mem s2 x" and q: "q \<notin> fst ` cream_objects s2"
    by (rule client_malloc [OF c2(1) _ _ m2]) (auto simp: const_defs)
  have lodged: "lodged s2 buf (blocks_for 512)" by (rule same_pages_lodged [OF c2(3) client_lodged [OF cl' m1 a(5)]])
  have "buf \<noteq> q" using q c2(2) a(4) by auto
  then have comp: "companions s3 buf q" by (intro client_companions [OF c2(1) lodged m2 e(1)]) (simp_all add: blocks_for_nat const_defs)
  have keep: "mem s3 x = mem s x" if "(a, l) \<in> cream_objects s" "in_range a l x" for a l x
  proof -
    have "\<not> in_range buf N1 x" using ap1(1) [OF that(1)] that(2) by (auto simp: ranges_disjoint_def)
    then show ?thesis using k3 [of a l x] k1 [OF that] out that c2(2) a(4) by simp
  qed
  have "mem s3 x = put_bytes (mem s1) buf b x" if "in_range buf (length b) x" for x
    using k3 [of buf N1 x] that bN c2(2) in_range_mono [OF _ a(3), of buf x] len by (simp add: s2_def)
  then have "bytes_at (mem s3) buf 512 = b" using bytes_at_stored [of buf b "mem s3" "mem s1"] len by simp
  note pb = parse_body [OF m1 rd [folded s2_def] m2 this]
  have "part_at s3 = part_at s" using h1 heap_step_simps [OF e(3)] by (simp add: s2_def)
  then obtain f where "parse_partition_fill_bpb_fat16 io part s = (case bpb_of b (start_sect (part_at s part)) of
       None \<Rightarrow> parse_fail buf q (upd_bpb q f s3) | Some r \<Rightarrow> (q, snd (heap_cream_free buf (upd_bpb q (\<lambda>_. r) s3))))"
    using pb by auto
  moreover have "heap_step (s\<lparr>dev := d\<rparr>) s3" using a(2) e(3) by (clarsimp simp: heap_step_def s2_def) (intro exI, rule refl)
  moreover have "q \<noteq> buf" "q \<notin> fst ` cream_objects s" using q c2(2) a(4) by auto
  ultimately show thesis using that e(1,2,4,5) c2(2) a(4) ap1(2) comp keep d by auto
qed

lemma parse_ok:
  fixes s :: "('d, 'z) vfs_state_scheme"
  assumes cl: "client s (c + 2)" and drive: "inv (dev s)" "phase (dev s) = Idle" "attached base drives (disk_at s (f_disk (part_at s part)))"
    and lba: "unat (start_sect (part_at s part)) + 1 \<le> unat (sect_count (disk_at s (f_disk (part_at s part))))"
      "unat (start_sect (part_at s part)) + 1 \<le> 2 ^ 28"
    and b: "b = sector_bytes (sectors s (f_disk (part_at s part)) (unat (start_sect (part_at s part))))"
    and r: "parse_partition_fill_bpb_fat16 io part s = (p, s')"
  shows "parsed s c (bpb_of b (start_sect (part_at s part))) p s'" and "inv (dev s')" and "phase (dev s') = Idle" and "media (dev s') = media (dev s)"
proof -
  obtain buf N1 q N2 s3 d f where pb: "parse_partition_fill_bpb_fat16 io part s = (case bpb_of b (start_sect (part_at s part)) of
       None \<Rightarrow> parse_fail buf q (upd_bpb q f s3) | Some r \<Rightarrow> (q, snd (heap_cream_free buf (upd_bpb q (\<lambda>_. r) s3))))"
    and st: "client s3 c" "cream_objects s3 = insert (q, N2) (insert (buf, N1) (cream_objects s))"
    and qb: "buf \<notin> fst ` cream_objects s" "q \<notin> fst ` cream_objects s" "q \<noteq> buf" "q \<noteq> 0" "24 \<le> N2" and comp: "companions s3 buf q"
    and keep: "\<And>a l x. (a, l) \<in> cream_objects s \<Longrightarrow> in_range a l x \<Longrightarrow> mem s3 x = mem s x"
    and h: "heap_step (s\<lparr>dev := d\<rparr>) s3" and d: "inv d" "phase d = Idle" "media d = media (dev s)"
    by (rule parse_start [OF cl drive lba b]) blast
  note h4 = heap_step_simps [OF h]
  define s4 where "s4 g = upd_bpb q g s3" for g
  have c4: "client (s4 g) c" "cream_objects (s4 g) = insert (q, N2) (insert (buf, N1) (cream_objects s))" for g
    using client_upd(5) [OF st(1)] objects_upd(5) [OF st(1)] st(2) by (simp_all add: s4_def)
  have nin: "(buf, k) \<notin> cream_objects s" "(q, k) \<notin> cream_objects s" for k
    using qb imageI [of "(buf, k)" "cream_objects s" fst] imageI [of "(q, k)" "cream_objects s" fst] by auto
  have comp4: "companions (s4 g) buf q" for g
    by (rule same_pages_companions [OF client_same(3) [OF st(1)] comp]) (simp_all add: s4_def)
  define s5 where "s5 g = snd (heap_cream_free buf (s4 g))" for g
  have o4: "(buf, N1) \<in> cream_objects (s4 g)" "(q, N2) \<in> cream_objects (s4 g)" for g using c4(2) by simp_all
  note f5 = client_free [OF c4(1) o4(1) s5_def]
  have o5: "cream_objects (s5 g) = insert (q, N2) (cream_objects s)" for g
    using client_release [OF c4(1) o4(1) companions_reached [OF comp4], of g] c4(2) [of g] nin qb(3) by (auto simp: s5_def)
  have m5: "mem (s5 g) x = mem s x" if "(a, l) \<in> cream_objects s" "in_range a l x" for a l x g
    using f5(5) [of a l g x] keep [OF that] that c4(2) [of g] by (simp add: s4_def)
  note h5 = heap_step_simps [OF f5(2)]
  have bp: "bpb_at (s4 g) x = bpb_at s x" if "x \<in> fst ` cream_objects s" for x g
  proof -
    have "x \<noteq> q" using that qb(2) by blast
    then show ?thesis by (simp add: s4_def h4)
  qed
  have "parsed s c (bpb_of b (start_sect (part_at s part))) p s' \<and> dev s' = d"
  proof (cases "bpb_of b (start_sect (part_at s part))")
    case (Some v)
    then have res: "p = q" "s' = s5 (\<lambda>_. v)" using pb r by (simp_all add: s5_def s4_def)
    show ?thesis
      unfolding parsed_def Some option.case
    proof (intro conjI)
      show "\<exists>n\<ge>24. cream_objects s' = insert (p, n) (cream_objects s)" using o5 qb(5) unfolding res by blast
      show "\<forall>(a, l) \<in> cream_objects s. \<forall>x. in_range a l x \<longrightarrow> mem s' x = mem s x" using m5 by (auto simp: res)
      show "\<forall>a \<in> fst ` cream_objects s. bpb_at s' a = bpb_at s a" using bp h5 by (simp add: res)
      show "bpb_at s' p = v" using h5 by (simp add: res s4_def)
    qed (use qb f5(1) h5 h4 in \<open>simp_all add: res s4_def\<close>)
  next
    case None
    define s6 where "s6 = snd (heap_cream_free q (s5 f))"
    have o6: "(q, N2) \<in> cream_objects (s5 f)" using o5 by blast
    have all: "cream_objects s6 = cream_objects s"
      using client_release_both [OF c4(1) o4 comp4, of f] c4(2) [of f] nin by (auto simp: s6_def s5_def)
    note f6 = client_free [OF f5(1) o6 s6_def]
    note h6 = heap_step_simps [OF f6(2)]
    have res: "p = 0" "s' = s6" using pb r None qb(4) by (simp_all add: parse_fail_def Let_def s6_def s5_def s4_def)
    show ?thesis
      unfolding parsed_def None option.case
    proof (intro conjI)
      show "cream_objects s' = cream_objects s" unfolding res by (rule all)
      show "\<forall>(a, l) \<in> cream_objects s. \<forall>x. in_range a l x \<longrightarrow> mem s' x = mem s x"
        using m5 f6(5) o5 [of f] by (fastforce simp: res)
      show "\<forall>a \<in> fst ` cream_objects s. bpb_at s' a = bpb_at s a" using bp h5 h6 by (simp add: res)
    qed (use f6(1) h5 h6 h4 in \<open>simp_all add: res s4_def\<close>)
  qed
  then show "parsed s c (bpb_of b (start_sect (part_at s part))) p s'" "inv (dev s')" "phase (dev s') = Idle" "media (dev s') = media (dev s)"
    using d by simp_all
qed

end

section \<open>Mounting\<close>

lemma link_mount_fields [simp]:
  "mem (link_mount e s) = mem s" "dev (link_mount e s) = dev s" "disk_at (link_mount e s) = disk_at s" "part_at (link_mount e s) = part_at s"
  "ct_at (link_mount e s) = ct_at s" "node_at (link_mount e s) = node_at s" "bpb_at (link_mount e s) = bpb_at s"
  "mothermary (link_mount e s) = mothermary s" "kernel_heap (link_mount e s) = kernel_heap s"
  "cache_table_start (link_mount e s) = cache_table_start s" "cache_table_last (link_mount e s) = cache_table_last s"
  "CACHE_TABLE_COUNT (link_mount e s) = CACHE_TABLE_COUNT s" "VFS_INODE_ID_COUNT (link_mount e s) = VFS_INODE_ID_COUNT s"
  "mount_table_last (link_mount e s) = e"
  by (simp_all add: link_mount_def upd_mt_def)

lemma link_cache_fields [simp]:
  "mem (link_cache e s) = mem s" "dev (link_cache e s) = dev s" "disk_at (link_cache e s) = disk_at s" "part_at (link_cache e s) = part_at s"
  "mt_at (link_cache e s) = mt_at s" "node_at (link_cache e s) = node_at s" "bpb_at (link_cache e s) = bpb_at s"
  "mothermary (link_cache e s) = mothermary s" "kernel_heap (link_cache e s) = kernel_heap s"
  "mount_table_start (link_cache e s) = mount_table_start s" "mount_table_last (link_cache e s) = mount_table_last s"
  "CACHE_TABLE_COUNT (link_cache e s) = CACHE_TABLE_COUNT s" "VFS_INODE_ID_COUNT (link_cache e s) = VFS_INODE_ID_COUNT s"
  "cache_table_last (link_cache e s) = e"
  by (simp_all add: link_cache_def upd_ct_def)

lemma link_first_mount:
  "mount_table_start s = 0 \<Longrightarrow> mount_table_start (link_mount e s) = e"
  "mount_table_start s = 0 \<Longrightarrow> mt_at (link_mount e s) = (mt_at s)(e := (mt_at s e)\<lparr>mt_prev := 0, mt_next := 0\<rparr>)"
  by (simp_all add: link_mount_def upd_mt_def)

lemma link_first_cache:
  "cache_table_start s = 0 \<Longrightarrow> cache_table_start (link_cache e s) = e"
  "cache_table_start s = 0 \<Longrightarrow> ct_at (link_cache e s) = (ct_at s)(e := (ct_at s e)\<lparr>ct_prev := 0, ct_next := 0\<rparr>)"
  by (simp_all add: link_cache_def upd_ct_def)

text \<open>A machine on which entry \<open>i\<close> of the cache table is the only one, a mount point of partition \<open>part\<close> at node \<open>r\<close>.\<close>

definition mounted :: "('d, 'z) vfs_state_scheme \<Rightarrow> addr \<Rightarrow> addr \<Rightarrow> fat16_bpb \<Rightarrow> addr \<Rightarrow> bool" where
  "mounted s part r v i \<longleftrightarrow>
     (let c = ct_at s i; e = ct_content c; t = mt_at s e
      in i \<noteq> 0 \<and> cache_table_start s = i \<and> cache_table_last s = i \<and> CACHE_TABLE_COUNT s = 1 \<and>
         path_hash c = 0 \<and> content_type c = CTE_MOUNT_PNT \<and> refcount c = 1 \<and> ct_next c = 0 \<and> ct_prev c = 0 \<and>
         e \<noteq> 0 \<and> mount_table_start s = e \<and> mount_table_last s = e \<and> mt_next t = 0 \<and> mt_prev t = 0 \<and>
         mnt_part t = part \<and> fs_root_node t = r \<and> ct_table_entry t = i \<and> fs_bpb t \<noteq> 0 \<and> bpb_at s (fs_bpb t) = v \<and>
         node_content (node_at s r) = e \<and> node_id (node_at s r) = of_int (- VFS_NODE_DEPLETION_PANIC) \<and>
         node_size (node_at s r) = ucast (bytes_per_sect v) * (data_lba v - root_lba v) \<and>
         fs_specific (node_at s r) = ucast (reserved_sectors v) + ucast (fat_count v) * ucast (sectors_per_fat v))"

context ata_drive
begin

lemma mount_ok:
  fixes s :: "('d, 'z) vfs_state_scheme"
  assumes cl: "client s (c + 4)" and drive: "inv (dev s)" "phase (dev s) = Idle" "attached base drives (disk_at s (f_disk (part_at s part)))"
    and lba: "unat (start_sect (part_at s part)) + 1 \<le> unat (sect_count (disk_at s (f_disk (part_at s part))))"
      "unat (start_sect (part_at s part)) + 1 \<le> 2 ^ 28"
    and v: "bpb_of (sector_bytes (sectors s (f_disk (part_at s part)) (unat (start_sect (part_at s part))))) (start_sect (part_at s part)) = Some v"
    and empty: "cache_table_start s = 0" "mount_table_start s = 0" "CACHE_TABLE_COUNT s = 0" "VFS_INODE_ID_COUNT s = - 1"
    and r: "r \<noteq> 0"
  shows "\<exists>i s'. mount_fat16 io junk part path r s = Some (0, s') \<and> mounted s' part r v i \<and> client s' c \<and>
    cream_objects s \<subseteq> cream_objects s' \<and> inv (dev s') \<and> phase (dev s') = Idle \<and> media (dev s') = media (dev s)"
proof -
  have cl': "client s (Suc (c + 3))" using cl by (simp add: add.commute)
  obtain e s1 where m1: "heap_cream_malloc sizeof_mount_table_entry s = (e, s1)" by fastforce
  obtain N1 where a: "e \<noteq> 0" "client s1 (c + 3)" "heap_step s s1" "24 \<le> N1" "cream_objects s1 = insert (e, N1) (cream_objects s)"
    by (rule client_malloc [OF cl' _ _ m1]) (auto simp: const_defs)
  note h1 = heap_step_simps [OF a(3)]
  define t where "t = link_mount e s1"
  have ct: "client t (c + 1 + 2)" "cream_objects t = cream_objects s1"
    using client_same [OF a(2), of t] by (simp_all add: t_def numeral_3_eq_3 add.assoc)
  obtain p s2 where ps: "parse_partition_fill_bpb_fat16 io part t = (p, s2)" by fastforce
  have tf: "dev t = dev s" "disk_at t = disk_at s" "part_at t = part_at s" "bpb_at t = bpb_at s" "cache_table_start t = 0"
    "mount_table_start t = e" "mount_table_last t = e" "CACHE_TABLE_COUNT t = 0" "VFS_INODE_ID_COUNT t = - 1"
    "mt_next (mt_at t e) = 0" "mt_prev (mt_at t e) = 0"
    using h1 empty link_first_mount [of s1 e] by (simp_all add: t_def)
  have pd: "parsed t (c + 1) (Some v) p s2" and dv: "inv (dev s2)" "phase (dev s2) = Idle" "media (dev s2) = media (dev s)"
    using parse_ok [OF ct(1) _ _ _ _ _ refl ps] drive lba v tf by simp_all
  then have p: "p \<noteq> 0" "bpb_at s2 p = v" "client s2 (Suc c)" "cream_objects t \<subseteq> cream_objects s2"
    and s2: "mt_at s2 = mt_at t" "node_at s2 = node_at t" "cache_table_start s2 = 0" "mount_table_start s2 = e" "mount_table_last s2 = e"
      "CACHE_TABLE_COUNT s2 = 0" "VFS_INODE_ID_COUNT s2 = - 1"
    by (auto simp: parsed_def tf)
  define s3 where "s3 = upd_mt e (\<lambda>k. k\<lparr>fs_root_node := r, mnt_part := part, fs_bpb := p\<rparr>) s2"
  define s4 where "s4 = upd_node r (\<lambda>k. k\<lparr>node_id := of_int (- VFS_NODE_DEPLETION_PANIC), node_content := e,
                   node_size := ucast (bytes_per_sect v) * (data_lba v - root_lba v),
                   fs_specific := ucast (reserved_sectors v) + ucast (fat_count v) * ucast (sectors_per_fat v)\<rparr>) s3"
  have c4: "client s4 (Suc c)" "cream_objects s4 = cream_objects s2"
    using client_upd(2) [OF p(3)] objects_upd(2) [OF p(3)] client_upd(3) objects_upd(3) by (metis s3_def s4_def)+
  obtain i s5 where m5: "heap_cream_malloc sizeof_cache_table_entry s4 = (i, s5)" by fastforce
  obtain N5 where b: "i \<noteq> 0" "client s5 c" "heap_step s4 s5" "28 \<le> N5" "cream_objects s5 = insert (i, N5) (cream_objects s4)"
    by (rule client_malloc [OF c4(1) _ _ m5]) (auto simp: const_defs)
  note h5 = heap_step_simps [OF b(3)]
  define s6 where "s6 = upd_ct i (\<lambda>k. k\<lparr>refcount := 1, content_type := CTE_MOUNT_PNT, ct_content := e, path_hash := 0\<rparr>) s5"
  define s7 where "s7 = upd_mt e (\<lambda>k. k\<lparr>ct_table_entry := i\<rparr>) (s6\<lparr>CACHE_TABLE_COUNT := CACHE_TABLE_COUNT s6 + 1\<rparr>)"
  have gid: "generate_vfs_node_id s3 = (- VFS_NODE_DEPLETION_PANIC, s3)"
    using s2 by (intro node_ids_depleted) (simp add: s3_def)
  have bp: "bpb_at s3 p = v" using p(2) by (simp add: s3_def)
  have "mount_enter part 0 e p r s2 = (0, link_cache i s7)"
    unfolding mount_enter_def Let_def s3_def [symmetric] gid prod.case bp s4_def [symmetric] m5 s6_def [symmetric] s7_def [symmetric] by simp
  then have res: "mount_fat16 io junk part path r s = Some (0, link_cache i s7)"
    using a(1) p(1) r m1 ps empty by (simp add: mount_fat16_def first_hash.simps generate_hash_def t_def const_defs)
  have f7: "cache_table_start s7 = 0" "mount_table_start s7 = e" "mount_table_last s7 = e" "CACHE_TABLE_COUNT s7 = 1"
    using h5 s2 by (simp_all add: s7_def s6_def s4_def s3_def)
  have "mounted (link_cache i s7) part r v i"
    using f7 link_first_cache [of s7 i] h5 s2 tf a(1) b(1) p(1,2)
    by (simp add: mounted_def Let_def s7_def s6_def s4_def s3_def)
  moreover have "client (link_cache i s7) c" "cream_objects (link_cache i s7) = cream_objects s5"
    by (rule client_same [OF b(2)]; simp add: s7_def s6_def)+
  moreover have "cream_objects s \<subseteq> cream_objects s5" using a(5) ct(2) p(4) c4(2) b(5) by auto
  moreover have "dev (link_cache i s7) = dev s2" using h5 by (simp add: s7_def s6_def s4_def s3_def)
  ultimately show ?thesis using res dv by (intro exI [of _ i] exI [of _ "link_cache i s7"]) simp
qed

end

text \<open>While the first entry of the cache table has the hash 0, which is the hash of every path, nothing can be mounted.\<close>

lemma mount_refused:
  assumes "cache_table_start s \<noteq> 0" and "path_hash (ct_at s (cache_table_start s)) = 0" and "CACHE_TABLE_COUNT s < MAX_OPEN_FILE_COUNT"
  shows "mount_fat16 io junk part path r s =
    Some (mount_fail (fst junk) (snd junk) r (print (lit ''trying to mount on existing path'' @ nl) s))"
  using assms by (simp add: mount_fat16_def generate_hash_def first_hash.simps linorder_not_le [symmetric])

lemma free_if_fields [simp]:
  "ct_at (free_if p s) = ct_at s" "mt_at (free_if p s) = mt_at s" "cache_table_start (free_if p s) = cache_table_start s"
  "CACHE_TABLE_COUNT (free_if p s) = CACHE_TABLE_COUNT s"
  using heap_step_simps [OF heap_step_free [of s p]] by (simp_all add: free_if_def)

lemma heap_free_fields [simp]:
  "ct_at (snd (heap_cream_free p s)) = ct_at s" "mt_at (snd (heap_cream_free p s)) = mt_at s"
  "cache_table_start (snd (heap_cream_free p s)) = cache_table_start s"
  "CACHE_TABLE_COUNT (snd (heap_cream_free p s)) = CACHE_TABLE_COUNT s"
  using heap_step_simps [OF heap_step_free [of s p]] by simp_all

lemma mount_fail_fields:
  "mount_fail e p r s = (- MOUNT_FAILURE, s') \<Longrightarrow> ct_at s' = ct_at s \<and> cache_table_start s' = cache_table_start s \<and>
     CACHE_TABLE_COUNT s' = CACHE_TABLE_COUNT s"
  by (auto simp: mount_fail_def)

section \<open>Searches that never end\<close>

lemma search_cache_table_loop_stuck:
  "temp \<noteq> 0 \<Longrightarrow> path_hash (ct_at s temp) \<noteq> h \<Longrightarrow> search_cache_table_loop h temp s = None"
proof (rule ccontr)
  assume a: "temp \<noteq> 0" "path_hash (ct_at s temp) \<noteq> h" "search_cache_table_loop h temp s \<noteq> None"
  then obtain e where "search_cache_table_loop h temp s = Some e" by blast
  then have "temp = 0 \<or> path_hash (ct_at s temp) = h"
  proof (induction rule: search_cache_table_loop.raw_induct [rotated 1, consumes 1, case_names step])
    case (step loop h temp s e)
    then show ?case by (auto split: if_splits)
  qed
  then show False using a by blast
qed

section \<open>Properties\<close>

text \<open>C25: parsing the boot sector of a partition yields the parameters and the first sectors of the regions that the sector
  describes, in one new object, or null for a sector with a field the code rejects; either way the sector's buffer is given
  back, and all other objects, their bytes and the tables of the layer stay.\<close>

theorem parse_boot_sector:
  fixes s :: "('d, 'z) vfs_state_scheme"
  assumes "ata_drive io base drives dinv regs media phase pending"
    and "client s (c + 2)" and "dinv (dev s)" and "phase (dev s) = Idle" and "attached base drives (disk_at s (f_disk (part_at s part)))"
    and "unat (start_sect (part_at s part)) + 1 \<le> unat (sect_count (disk_at s (f_disk (part_at s part))))"
    and "unat (start_sect (part_at s part)) + 1 \<le> 2 ^ 28"
    and "b = sector_bytes (media (dev s) (is_master (disk_at s (f_disk (part_at s part))) = 0) (unat (start_sect (part_at s part))))"
    and "parse_partition_fill_bpb_fat16 io part s = (p, s')"
  shows "parsed s c (bpb_of b (start_sect (part_at s part))) p s'"
  by (rule ata_drive.parse_ok(1) [OF assms])

definition boot_sector :: "byte list" where
  "boot_sector = replicate 11 0 @ [0, 2, 2, 1, 0, 1, 16, 0, 0, 0, 0, 1, 0] @ replicate 488 0"

definition boot_channel :: channel where
  "boot_channel = blank_channel\<lparr>ch_media := \<lambda>_ _. words_at (put_bytes (\<lambda>_. 0) 0 boot_sector) 0 256\<rparr>"

definition boot_state :: "channel vfs_state" where
  "boot_state = started (vfs_blank boot_channel)"

lemma boot_channel_inv: "ch_inv boot_channel" "ch_phase boot_channel = Idle"
  by (simp_all add: boot_channel_def blank_channel_def ch_inv_def)

lemma boot_channel_sector: "sector_bytes (ch_media boot_channel sl n) = boot_sector"
  using bytes_at_put_bytes [of boot_sector "\<lambda>_. 0" 0]
  by (simp add: boot_channel_def sector_bytes_words_at boot_sector_def)

lemma boot_sector_bpb: "bpb_of boot_sector 63 = Some demo_bpb"
  by (simp add: bpb_of_def le16_def boot_sector_def nth_append bpb_regions_def demo_bpb_def)

lemma boot_fields:
  "dev boot_state = boot_channel" "disk_at boot_state p = blank_disk"
  "part_at boot_state p = \<lparr>f_disk = 0x204000, fs_type = FAT_16_LBA, start_sect = 63, sect_num = 500, is_bootable = 0, next_part = 0\<rparr>"
  "cache_table_start boot_state = 0" "mount_table_start boot_state = 0" "CACHE_TABLE_COUNT boot_state = 0"
  "VFS_INODE_ID_COUNT boot_state = - 1"
  by (simp_all add: boot_state_def vfs_blank_def)

lemma boot_state_client: "client boot_state 124" "cream_objects boot_state = {}"
  unfolding boot_state_def by (rule started_client; simp add: vfs_blank_def)+

lemma parse_boot_sector_witness:
  "bpb_at (snd (parse_partition_fill_bpb_fat16 ch_io 0x300000 boot_state))
    (fst (parse_partition_fill_bpb_fat16 ch_io 0x300000 boot_state)) = demo_bpb"
proof -
  have "client boot_state (122 + 2)" using boot_state_client by simp
  from parse_boot_sector [OF pio.ata_drive_axioms this, of "0x300000" boot_sector] show ?thesis
    by (auto simp: boot_fields boot_channel_inv boot_channel_sector boot_sector_bpb parsed_def)
qed

text \<open>C26: the first mount enters the volume in both tables.\<close>

theorem mount_fat16_mounts:
  fixes s :: "('d, 'z) vfs_state_scheme"
  assumes "ata_drive io base drives dinv regs media phase pending"
    and "client s (c + 4)" and "dinv (dev s)" and "phase (dev s) = Idle" and "attached base drives (disk_at s (f_disk (part_at s part)))"
    and "unat (start_sect (part_at s part)) + 1 \<le> unat (sect_count (disk_at s (f_disk (part_at s part))))"
    and "unat (start_sect (part_at s part)) + 1 \<le> 2 ^ 28"
    and "bpb_of (sector_bytes (media (dev s) (is_master (disk_at s (f_disk (part_at s part))) = 0) (unat (start_sect (part_at s part)))))
      (start_sect (part_at s part)) = Some v"
    and "cache_table_start s = 0" and "mount_table_start s = 0" and "CACHE_TABLE_COUNT s = 0" and "VFS_INODE_ID_COUNT s = - 1"
    and "r \<noteq> 0"
  shows "\<exists>i s'. mount_fat16 io junk part path r s = Some (0, s') \<and> mounted s' part r v i \<and> client s' c \<and>
    cream_objects s \<subseteq> cream_objects s' \<and> media (dev s') = media (dev s)"
  using ata_drive.mount_ok [OF assms, of junk path] by blast

lemma mount_fat16_mounts_witness:
  "\<exists>i s'. mount_fat16 ch_io (0, 0) 0x300000 0x310000 0x320000 boot_state = Some (0, s') \<and> mounted s' 0x300000 0x320000 demo_bpb i"
proof -
  have "client boot_state (120 + 4)" using boot_state_client by simp
  from mount_fat16_mounts [OF pio.ata_drive_axioms this, of "0x300000" demo_bpb "0x320000" "(0, 0)" "0x310000"] show ?thesis
    by (auto simp: boot_fields boot_channel_inv boot_channel_sector boot_sector_bpb)
qed

text \<open>A search for a hash that the first entry does not have never returns.\<close>

theorem search_cache_table_hangs:
  assumes "cache_table_start s \<noteq> 0" and "path_hash (ct_at s (cache_table_start s)) \<noteq> hash_val"
  shows "search_cache_table hash_val s = None"
  unfolding search_cache_table_def by (rule search_cache_table_loop_stuck [OF assms])

lemma search_cache_table_hangs_witness: "search_cache_table 1 (boot_state\<lparr>cache_table_start := 0x400000\<rparr>) = None"
  by (rule search_cache_table_hangs) (simp_all add: boot_state_def vfs_blank_def)

end
