(* ===== verification/Fat16_Runs.thy ===== *)
theory Fat16_Runs
  imports Fat16_Tables Step_Runs
begin

text \<open>
  The mount and cache tables as a state machine: what any sequence of calls of \<open>mount_fat16\<close> and \<open>umount_fat16\<close> can do
  after the first volume has been mounted.
\<close>

section \<open>The calls\<close>

datatype volume_call = Mount addr addr addr | Umount addr

text \<open>An event is a call and its result; a mount may find anything in its uninitialised variables.\<close>

inductive volume_step ::
  "'d port_io \<Rightarrow> ('d, 'z) vfs_state_scheme \<Rightarrow> volume_call \<times> int \<Rightarrow> ('d, 'z) vfs_state_scheme \<Rightarrow> bool" for io where
  mount: "mount_fat16 io junk part path r s = Some (v, s') \<Longrightarrow> volume_step io s (Mount part path r, v) s'"
| umount: "umount_fat16 path s = Some (v, s') \<Longrightarrow> volume_step io s (Umount path, v) s'"

inductive_cases mount_stepE: "volume_step io s (Mount part path r, v) s'"
inductive_cases umount_stepE: "volume_step io s (Umount path, v) s'"

fun is_umount :: "volume_call \<times> int \<Rightarrow> bool" where
  "is_umount (Umount path, v) \<longleftrightarrow> True"
| "is_umount (Mount part path r, v) \<longleftrightarrow> False"

definition umounts :: "(volume_call \<times> int) list \<Rightarrow> nat" where
  "umounts cs = length (filter is_umount cs)"

lemma umounts_simps [simp]:
  "umounts [] = 0" "umounts ((Umount path, v) # cs) = Suc (umounts cs)" "umounts ((Mount part path r, v) # cs) = umounts cs"
  by (simp_all add: umounts_def)

section \<open>One entry for ever\<close>

text \<open>The cache table consists of the entry \<open>i\<close>, which has the hash of every path.\<close>

definition stuck_at :: "addr \<Rightarrow> ('d, 'z) vfs_state_scheme \<Rightarrow> bool" where
  "stuck_at i s \<longleftrightarrow> i \<noteq> 0 \<and> cache_table_start s = i \<and> path_hash (ct_at s i) = 0 \<and> ct_next (ct_at s i) = 0 \<and> ct_prev (ct_at s i) = 0 \<and>
     ct_content (ct_at s i) \<noteq> 0 \<and> refcount (ct_at s i) = 1"

lemma mounted_stuck: "mounted s part r v i \<Longrightarrow> stuck_at i s"
  by (simp add: mounted_def stuck_at_def Let_def)

lemma mount_full: "\<not> CACHE_TABLE_COUNT s < MAX_OPEN_FILE_COUNT \<Longrightarrow>
    mount_fat16 io junk part path r s = Some (- MOUNT_TABLE_FULL, print (lit ''mount table full'' @ nl) s)"
  by (simp add: mount_fat16_def linorder_not_less)

lemma mount_stuck:
  assumes st: "stuck_at i s" and m: "mount_fat16 io junk part path r s = Some (v, s')"
  shows "stuck_at i s' \<and> CACHE_TABLE_COUNT s' = CACHE_TABLE_COUNT s \<and> v \<in> {- MOUNT_FAILURE, - MOUNT_TABLE_FULL}"
proof (cases "CACHE_TABLE_COUNT s < MAX_OPEN_FILE_COUNT")
  case True
  have "mount_fail (fst junk) (snd junk) r (print (lit ''trying to mount on existing path'' @ nl) s) = (v, s')"
    using m mount_refused [of s io junk part path r] st True by (simp add: stuck_at_def)
  then show ?thesis using st mount_fail_fields [of "fst junk" "snd junk" r "print (lit ''trying to mount on existing path'' @ nl) s" s']
    by (auto simp: mount_fail_def stuck_at_def)
next
  case False
  then have "v = - MOUNT_TABLE_FULL" "s' = print (lit ''mount table full'' @ nl) s" using m mount_full [OF False, of io junk part path r] by simp_all
  then show ?thesis using st by (simp add: stuck_at_def)
qed

lemma umount_stuck:
  assumes st: "stuck_at i s" and u: "umount_fat16 path s = Some (v, s')"
  shows "stuck_at i s' \<and> CACHE_TABLE_COUNT s' = CACHE_TABLE_COUNT s - 1 \<and> v = 0"
proof -
  have "last_hash s (generate_hash (mem s) path) 0 i = Some i"
    using st by (simp add: stuck_at_def last_hash.simps [of s _ _ i] last_hash.simps [of s _ i 0] generate_hash_def)
  then show ?thesis using st u by (auto simp: stuck_at_def umount_fat16_def Let_def)
qed

lemma calls_return:
  assumes "stuck_at i s"
  shows "mount_fat16 io junk part path r s \<noteq> None" and "umount_fat16 path s \<noteq> None"
proof -
  note s = assms [unfolded stuck_at_def]
  show "mount_fat16 io junk part path r s \<noteq> None" using s mount_refused [of s io junk part path r]
      mount_full [of s io junk part path r] by (cases "CACHE_TABLE_COUNT s < MAX_OPEN_FILE_COUNT") auto
  have "last_hash s (generate_hash (mem s) path) 0 i = Some i"
    using s by (simp add: last_hash.simps [of s _ _ i] last_hash.simps [of s _ i 0] generate_hash_def)
  then show "umount_fat16 path s \<noteq> None" using s by (simp add: umount_fat16_def Let_def)
qed

lemma volume_run_stuck:
  "run (volume_step io) s cs s' \<Longrightarrow> stuck_at i s \<Longrightarrow>
    stuck_at i s' \<and> CACHE_TABLE_COUNT s' = CACHE_TABLE_COUNT s - of_nat (umounts cs) \<and>
    (\<forall>(c, v) \<in> set cs. case c of Mount _ _ _ \<Rightarrow> v \<in> {- MOUNT_FAILURE, - MOUNT_TABLE_FULL} | Umount _ \<Rightarrow> v = 0)"
proof (induction rule: run.induct)
  case (go s e s' es s'')
  obtain c v where e: "e = (c, v)" by fastforce
  show ?case
  proof (cases c)
    case (Mount part path r)
    then show ?thesis using go mount_stuck [of i s] unfolding e by (fastforce elim!: mount_stepE)
  next
    case (Umount path)
    then show ?thesis using go umount_stuck [of i s] unfolding e by (fastforce elim!: umount_stepE)
  qed
qed simp

section \<open>Properties\<close>

text \<open>C27: whatever sequence of mounts and unmounts follows the first mount: every mount fails, every unmount reports success
  although at most the first has something to unmount, the table keeps its first entry and its count goes down with each
  unmount (below zero from the second on), and every call returns.\<close>

theorem volumes_mount_once:
  assumes "mounted s part r v i" and "run (volume_step io) s cs s'"
  shows "(\<forall>(c, v) \<in> set cs. case c of Mount _ _ _ \<Rightarrow> v \<in> {- MOUNT_FAILURE, - MOUNT_TABLE_FULL} | Umount _ \<Rightarrow> v = 0) \<and>
    cache_table_start s' = i \<and> CACHE_TABLE_COUNT s' = 1 - of_nat (umounts cs) \<and>
    (\<forall>junk part path r. mount_fat16 io junk part path r s' \<noteq> None \<and> umount_fat16 path s' \<noteq> None)"
proof -
  have c: "CACHE_TABLE_COUNT s = 1" using assms(1) by (simp add: mounted_def Let_def)
  note st = volume_run_stuck [OF assms(2) mounted_stuck [OF assms(1)], unfolded c]
  then have "cache_table_start s' = i" by (simp add: stuck_at_def)
  moreover have "\<forall>junk part path r. mount_fat16 io junk part path r s' \<noteq> None \<and> umount_fat16 path s' \<noteq> None"
    using calls_return [OF conjunct1 [OF st]] by blast
  ultimately show ?thesis using st by blast
qed

lemma volumes_mount_once_witness:
  "\<exists>s s' v. mount_fat16 ch_io (0, 0) 0x300000 0x310000 0x320000 boot_state = Some (0, s) \<and>
    run (volume_step ch_io) s [(Umount 0x310000, 0), (Umount 0x310000, 0), (Mount 0x330000 0x340000 0x350000, v)] s' \<and>
    v \<noteq> 0 \<and> CACHE_TABLE_COUNT s' = - 1"
proof -
  have "client boot_state (120 + 4)" using boot_state_client by simp
  from ata_drive.mount_ok [OF pio.ata_drive_axioms this, of "0x300000" demo_bpb "0x320000" "(0, 0)" "0x310000"]
  obtain i s where m: "mount_fat16 ch_io (0, 0) 0x300000 0x310000 0x320000 boot_state = Some (0, s)" "mounted s 0x300000 0x320000 demo_bpb i"
    by (auto simp: boot_fields boot_channel_inv boot_channel_sector boot_sector_bpb)
  note st = mounted_stuck [OF m(2)]
  obtain s1 where u1: "umount_fat16 0x310000 s = Some (0, s1)" "stuck_at i s1"
    using calls_return(2) [OF st] umount_stuck [OF st] by (metis not_None_eq surj_pair)
  obtain s2 where u2: "umount_fat16 0x310000 s1 = Some (0, s2)" "stuck_at i s2"
    using calls_return(2) [OF u1(2)] umount_stuck [OF u1(2)] by (metis not_None_eq surj_pair)
  obtain v s3 where m3: "mount_fat16 ch_io (0, 0) 0x330000 0x340000 0x350000 s2 = Some (v, s3)"
    using calls_return(1) [OF u2(2)] by (metis not_None_eq surj_pair)
  have r: "run (volume_step ch_io) s [(Umount 0x310000, 0), (Umount 0x310000, 0), (Mount 0x330000 0x340000 0x350000, v)] s3"
    using volume_step.umount [OF u1(1)] volume_step.umount [OF u2(1)] volume_step.mount [OF m3] by auto
  note once = volumes_mount_once [OF m(2) r]
  then have "v \<noteq> 0" by (auto simp: const_defs)
  moreover have "CACHE_TABLE_COUNT s3 = - 1" using once by simp
  ultimately show ?thesis using m(1) r by blast
qed

end
