(* ===== verification/Fat16_Create.thy ===== *)
theory Fat16_Create
  imports Fat16_Tables
begin

text \<open>
  The fourth part of \<open>src/kernel/file_syst/fat16.c\<close>: \<open>create_file_fat16\<close>.  The arrays \<open>f_name\<close> and \<open>dir_ent\<close>, the
  \<open>struct file\<close> of this function and the one of \<open>read_cluster_find_match\<close> are locals: their addresses are
  arguments, with the contents that memory and store hold there.  The other uninitialised locals are
  arguments too, and so is \<open>COULD_NOT_FIND_CACHE_TABLE_ENTRY\<close>, which no file of the source defines.
\<close>

section \<open>The operation\<close>

definition F_NAME_LEN :: u32 where [const_defs]: "F_NAME_LEN = 13"
definition NON_EXISTENT_PATH :: int where [const_defs]: "NON_EXISTENT_PATH = 42"
definition PATH_ALREADY_EXISTS :: int where [const_defs]: "PATH_ALREADY_EXISTS = 43"
definition FAILED_TO_GET_FREE_CLUSTER :: int where [const_defs]: "FAILED_TO_GET_FREE_CLUSTER = 46"
definition FAILED_TO_WRITE_TO_PARENT :: int where [const_defs]: "FAILED_TO_WRITE_TO_PARENT = 47"

record create_locals =
  l_f_name :: addr
  l_dir_ent :: addr
  l_temp_file :: addr
  l_file_ptr :: addr
  l_junk :: "u32 \<times> u32"
  l_rtn_val :: int
  l_not_found :: int

text \<open>The fields of the new directory entry that do not depend on its cluster.\<close>

definition fill_dir_ent :: "addr \<Rightarrow> addr \<Rightarrow> mem \<Rightarrow> mem" where
  "fill_dir_ent dir_ent f_name m =
     (let m1 = strncpy m dir_ent f_name FILE_NAME_LEN_MAX;
          m2 = strncpy m1 (dir_ent + FILE_NAME_LEN_MAX) (f_name + (FILE_NAME_LEN_MAX + 1)) (F_NAME_LEN - FILE_NAME_LEN_MAX);
          m3 = st16 (st16 (st16 m2 (dir_ent + 24) get_date_fat16) (dir_ent + 18) get_date_fat16) (dir_ent + 16) get_date_fat16;
          m4 = st16 (st16 m3 (dir_ent + 14) get_time_fat16) (dir_ent + 22) get_time_fat16
      in st8 (st8 m4 (dir_ent + 20) 0) (dir_ent + 21) 0)"

text \<open>
  A round of the inner loop up to the write into the parent: \<open>Inl\<close> is \<open>goto exit\<close> with its result, \<open>Inr\<close> the mount
  table entry of the parent; \<open>None\<close> a write that never ends.
\<close>

definition create_entry ::
  "'d port_io \<Rightarrow> create_locals \<Rightarrow> addr \<Rightarrow> ('d, 'z) vfs_state_scheme \<Rightarrow> ((int + addr) \<times> ('d, 'z) vfs_state_scheme) option" where
  "create_entry io L cur_file s =
     (let s1 = s\<lparr>mem := fill_dir_ent (l_dir_ent L) (l_f_name L) (mem s)\<rparr>;
          origin = get_origing_mnt_tbl_ent cur_file s1
      in if origin = 0 then Some (Inl (- l_not_found L), s1)
      else
        let mnt = mt_at s1 origin;
            part = part_at s1 (mnt_part mnt)
        in case get_free_cluster io (l_junk L) (f_disk part) (fs_bpb mnt) (start_sect part) 0xfff8 s1 of (temp, s2) \<Rightarrow>
          if 0xfff8 \<le> temp \<or> temp < 2 then Some (Inl (- FAILED_TO_GET_FREE_CLUSTER), s2)
          else
            let s3 = s2\<lparr>mem := st16 (st16 (mem s2) (l_dir_ent L + 26) temp) (l_dir_ent L + 28) 0\<rparr>;
                c = ct_at s3 cur_file;
                node = (if content_type c = CTE_MOUNT_PNT then fs_root_node (mt_at s3 (ct_content c)) else ct_content c);
                s4 = upd_file (l_temp_file L) (\<lambda>f. f\<lparr>file_flags := ucast file_write, vfs_node_ptr := node\<rparr>) s3
            in case write_fat16 io (l_junk L) (l_temp_file L) (l_dir_ent L) FAT16_DIRENT_SIZE s4 of
              None \<Rightarrow> None
            | Some (r, s5) \<Rightarrow> if r < 0 then Some (Inl (- FAILED_TO_WRITE_TO_PARENT), s5) else Some (Inr origin, s5))"

text \<open>The start of the next name behind the one that ends at \<open>name_end\<close>; the sum is an \<open>int\<close> of 32 bits.\<close>

definition next_start :: "mem \<Rightarrow> addr \<Rightarrow> int \<Rightarrow> int \<Rightarrow> int" where
  "next_start m path cur_name_end start =
     (if m (path + of_int cur_name_end) \<noteq> 0 \<and> m (path + of_int (cur_name_end + 1)) \<noteq> 0
      then sint (of_int (cur_name_end + 1) :: u32) else start)"

text \<open>The inner loop: the value of \<open>rtn_val\<close>, of \<open>cur_file\<close> and the state at its end.\<close>

partial_function (option) create_loop ::
  "'d port_io \<Rightarrow> create_locals \<Rightarrow> addr \<Rightarrow> int \<Rightarrow> addr \<Rightarrow> int \<Rightarrow> int \<Rightarrow> ('d, 'z) vfs_state_scheme \<Rightarrow>
    (int \<times> addr \<times> ('d, 'z) vfs_state_scheme) option" where
  "create_loop io L path path_last cur_file start cur_name_end s =
     (case create_entry io L cur_file s of
        None \<Rightarrow> None
      | Some (Inl r, s1) \<Rightarrow> Some (r, cur_file, s1)
      | Some (Inr origin, s1) \<Rightarrow>
          let s2 = snd (fat16_sub_close_file cur_file s1)
          in if cur_name_end = path_last then Some (0, cur_file, s2)
          else case fat16_sub_open_file (l_dir_ent L) path (cur_name_end - 1) origin s2 of (child, s3) \<Rightarrow>
            let start' = next_start (mem s3) path cur_name_end start
            in case set_fname path (l_f_name L) start' F_NAME_LEN (mem s3) of
              None \<Rightarrow> None
            | Some (cur_name_end', m) \<Rightarrow>
                let s4 = upd_file (l_temp_file L) (\<lambda>f. f\<lparr>file_offset := 0\<rparr>) (s3\<lparr>mem := m\<rparr>)
                in if cur_name_end' \<le> path_last then create_loop io L path path_last child start' cur_name_end' s4
                   else Some (l_rtn_val L, child, s4))"

text \<open>
  The outer loop, with \<open>dir_ent_location\<close> of the round before; the result adds \<open>is_first\<close>.
\<close>

partial_function (option) create_walk ::
  "'d port_io \<Rightarrow> create_locals \<Rightarrow> addr \<Rightarrow> int \<Rightarrow> addr \<Rightarrow> int \<Rightarrow> bool \<Rightarrow> addr \<Rightarrow> ('d, 'z) vfs_state_scheme \<Rightarrow>
    (int \<times> bool \<times> addr \<times> ('d, 'z) vfs_state_scheme) option" where
  "create_walk io L path path_last cur_file start is_first dir_ent_prev s =
     (case set_fname path (l_f_name L) start F_NAME_LEN (mem s) of
        None \<Rightarrow> None
      | Some (cur_name_end, m) \<Rightarrow>
          (case read_cluster_find_match io (l_file_ptr L) cur_file (l_f_name L) (l_dir_ent L) (s\<lparr>mem := m\<rparr>) of
             None \<Rightarrow> None
           | Some (dir_ent_location, s1) \<Rightarrow>
               if dir_ent_location \<noteq> 0 then
                 if cur_name_end = path_last then Some (- PATH_ALREADY_EXISTS, is_first, cur_file, s1)
                 else if mem s1 (l_dir_ent L + 11) AND 0x10 = 0 then Some (- NON_EXISTENT_PATH, is_first, cur_file, s1)
                 else
                   let origin = get_origing_mnt_tbl_ent cur_file s1;
                       s2 = (if is_first then s1 else snd (fat16_sub_close_file cur_file s1))
                   in case fat16_sub_open_file (l_dir_ent L) path (cur_name_end - 1) origin s2 of (child, s3) \<Rightarrow>
                     create_walk io L path path_last child (next_start (mem s3) path cur_name_end start) False dir_ent_location s3
               else
                 let s2 = (if dir_ent_prev \<noteq> 0
                           then upd_file (l_temp_file L) (\<lambda>f. f\<lparr>file_offset := ucast (ld16 (mem s1) (dir_ent_prev + 28))\<rparr>) s1 else s1)
                 in case create_loop io L path path_last cur_file start cur_name_end s2 of
                   None \<Rightarrow> None
                 | Some (r, child, s3) \<Rightarrow> Some (r, is_first, child, s3)))"

definition create_file_fat16 ::
  "'d port_io \<Rightarrow> create_locals \<Rightarrow> addr \<Rightarrow> byte \<Rightarrow> ('d, 'z) vfs_state_scheme \<Rightarrow> (int \<times> ('d, 'z) vfs_state_scheme) option" where
  "create_file_fat16 io L path ty s =
     (case strlen (mem s) path of None \<Rightarrow> None
      | Some len \<Rightarrow>
          let path_last = (if mem s (path + (len - 1)) = of_char (CHR ''/'') then sint (len - 1) else sint len)
          in case get_last_open path s of None \<Rightarrow> None
          | Some (cur_file, offset) \<Rightarrow>
              if content_type (ct_at s cur_file) = CTE_FILE then Some (- NON_EXISTENT_PATH, s)
              else case create_walk io L path path_last cur_file (case offset of None \<Rightarrow> 0 | Some i \<Rightarrow> i) True 0 s of
                None \<Rightarrow> None
              | Some (r, is_first, child, s1) \<Rightarrow>
                  Some (r, if \<not> is_first \<and> child \<noteq> 0 then snd (fat16_sub_close_file child s1) else s1))"

section \<open>What it does\<close>

text \<open>The search for an open entry ends at the last slash, because every hash is the same.\<close>

lemma last_open_from_slash:
  assumes "mem s (path + of_nat p) = of_char (CHR ''/'')" and "last_hash s 0 0 (cache_table_start s) = Some k" and "k \<noteq> 0"
    and "\<And>i. p < i \<Longrightarrow> i < n \<Longrightarrow> mem s (path + of_nat i) \<noteq> of_char (CHR ''/'')" and "p < n"
  shows "last_open_from path n s = Some (k, Some (int p - 1))"
  using assms(4,5)
proof (induction n)
  case (Suc n)
  show ?case
  proof (cases "n = p")
    case True
    then show ?thesis using assms(1-3) by (simp add: is_present_in_cache_table_def generate_hast_start_end_def)
  next
    case False
    with Suc have "p < n" "mem s (path + of_nat n) \<noteq> of_char (CHR ''/'')" by auto
    then show ?thesis using Suc by simp
  qed
qed simp

text \<open>For a path \<open>parent/name\<close> whose open entry is a file the answer is \<open>NON_EXISTENT_PATH\<close>.  (Otherwise the walk begins with
  \<open>set_fname\<close>, see \<open>set_fname_overruns\<close> in theory \<open>Fat16_Dir\<close>.)\<close>

lemma create_file_below_file:
  assumes "cstr (mem s) path (parent @ [c, of_char (CHR ''/'')] @ name)"
    and "of_char (CHR ''/'') \<notin> set name" and "length parent + length name < 2 ^ 31 - 2"
    and "last_hash s 0 0 (cache_table_start s) = Some k" and "k \<noteq> 0" and "content_type (ct_at s k) = CTE_FILE"
  shows "create_file_fat16 io L path ty s = Some (- NON_EXISTENT_PATH, s)"
proof -
  define str where "str = parent @ [c, of_char (CHR ''/'')] @ name"
  have n: "length str = length parent + length name + 2" by (simp add: str_def)
  let ?p = "length parent"
  note at = cstr_nth [OF assms(1) [folded str_def]]
  have len: "strlen (mem s) path = Some (of_nat (length str))" using strlen_cstr [OF assms(1) [folded str_def]] .
  have sl: "sint (of_nat (length str) :: u32) = int (length str)" by (rule sint_of_nat) (use assms(3) n in simp)
  have slash: "mem s (path + of_nat (Suc ?p)) = of_char (CHR ''/'')" using at [of "Suc ?p"] by (auto simp: nth_append str_def)
  have rest: "mem s (path + of_nat i) \<noteq> of_char (CHR ''/'')" if "Suc ?p < i" "i < length str" for i
  proof -
    have "str ! i = name ! (i - ?p - 2)" using that by (auto simp: nth_append nth_Cons' str_def)
    moreover have "i - ?p - 2 < length name" using that n by simp
    ultimately show ?thesis using at [OF that(2)] assms(2) nth_mem [of "i - ?p - 2" name] by metis
  qed
  have "get_last_open path s = Some (k, Some (int ?p))"
  proof -
    have "last_open_from path (length str) s = Some (k, Some (int (Suc ?p) - 1))"
      by (rule last_open_from_slash [OF slash assms(4,5) rest]) (use n in simp_all)
    then show ?thesis by (simp only: get_last_open_def len sl option.case nat_int) simp
  qed
  then show ?thesis using assms(6) by (simp add: create_file_fat16_def len Let_def)
qed

end
