(* ===== verification/Fat16_Write.thy ===== *)
theory Fat16_Write
  imports Fat16_Read
begin

text \<open>
  What \<open>write_fat16\<close> does to a file that has its clusters already: exactly the bytes of the request are replaced in
  the concatenation of the clusters, the table and all other sectors stay, and a read at the same
  offset gives the bytes back.
\<close>

section \<open>Replacing bytes\<close>

definition splice :: "'a list \<Rightarrow> nat \<Rightarrow> 'a list \<Rightarrow> 'a list" where
  "splice xs i ys = take i xs @ ys @ drop (i + length ys) xs"

lemma length_splice [simp]: "i + length ys \<le> length xs \<Longrightarrow> length (splice xs i ys) = length xs"
  by (simp add: splice_def)

lemma splice_Nil [simp]: "splice xs i [] = xs"
  by (simp add: splice_def)

lemma splice_within: "i + length ys \<le> length xs \<Longrightarrow> splice (xs @ zs) i ys = splice xs i ys @ zs"
  by (simp add: splice_def)

lemma splice_across:
  assumes "i \<le> length xs"
  shows "splice (xs @ zs) i ys = splice xs i (take (length xs - i) ys) @ splice zs 0 (drop (length xs - i) ys)"
proof (cases "length ys \<le> length xs - i")
  case False
  then have "splice xs i (take (length xs - i) ys) @ splice zs 0 (drop (length xs - i) ys)
    = take i xs @ (take (length xs - i) ys @ drop (length xs - i) ys) @ drop (i + length ys - length xs) zs"
    using assms by (simp add: splice_def add.commute del: append_take_drop_id)
  then show ?thesis using False assms by (simp add: splice_def)
qed (use assms in \<open>simp add: splice_def\<close>)

lemma splice_skip: "splice (xs @ zs) (length xs + i) ys = xs @ splice zs i ys"
  by (simp add: splice_def)

lemma splice_read: "i + length ys \<le> length xs \<Longrightarrow> take (length ys) (drop i (splice xs i ys)) = ys"
  by (simp add: splice_def)

lemma bytes_at_splice:
  assumes "i + length ys \<le> n" and "n \<le> 2 ^ 32"
  shows "bytes_at (put_bytes m (a + of_nat i) ys) a n = splice (bytes_at m a n) i ys"
proof (rule nth_equalityI)
  show "length (bytes_at (put_bytes m (a + of_nat i) ys) a n) = length (splice (bytes_at m a n) i ys)"
    using assms(1) by simp
  fix k assume "k < length (bytes_at (put_bytes m (a + of_nat i) ys) a n)"
  then have k: "k < n" by simp
  have "in_range (a + of_nat i) (length ys) (a + of_nat k) \<longleftrightarrow> i \<le> k \<and> k < i + length ys"
  proof
    assume "in_range (a + of_nat i) (length ys) (a + of_nat k)"
    then obtain j where j: "j < length ys" "a + of_nat k = a + of_nat i + of_nat j" by (rule in_rangeE)
    then have "(of_nat k :: u32) = of_nat (i + j)" by simp
    then have "k = i + j" using of_nat_eq_iff32 [of k "i + j"] k j(1) assms by simp
    then show "i \<le> k \<and> k < i + length ys" using j(1) by simp
  next
    assume ik: "i \<le> k \<and> k < i + length ys"
    then have "a + of_nat k = (a + of_nat i) + (of_nat (k - i) :: u32)" by (simp add: of_nat_diff)
    then show "in_range (a + of_nat i) (length ys) (a + of_nat k)"
      using in_range_offset [of "k - i" "a + of_nat i" "length ys"] ik k assms(2) by auto
  qed
  moreover have "put_bytes m (a + of_nat i) ys (a + of_nat k) = ys ! (k - i)" if "i \<le> k" "k < i + length ys"
  proof -
    have "a + of_nat k = (a + of_nat i) + (of_nat (k - i) :: u32)" using that(1) by (simp add: of_nat_diff)
    then show ?thesis using put_bytes_in [of "k - i" ys m "a + of_nat i"] that k assms(2) by simp
  qed
  ultimately show "bytes_at (put_bytes m (a + of_nat i) ys) a n ! k = splice (bytes_at m a n) i ys ! k"
    using k assms(1) by (auto simp: splice_def nth_append put_bytes_out)
qed

section \<open>Clusters\<close>

definition cluster_at :: "fat16_bpb \<Rightarrow> u32 \<Rightarrow> u16 \<Rightarrow> nat" where
  "cluster_at b start c = data_start b start + (unat c - 2) * unat (sect_per_clust b)"

definition cluster_sectors :: "fat16_bpb \<Rightarrow> u32 \<Rightarrow> u16 \<Rightarrow> nat set" where
  "cluster_sectors b start c = {cluster_at b start c..<cluster_at b start c + unat (sect_per_clust b)}"

text \<open>The entry of the cluster lies in the first table.\<close>

definition in_table :: "fat16_bpb \<Rightarrow> u16 \<Rightarrow> bool" where
  "in_table b c \<longleftrightarrow> fat_count b \<noteq> 0 \<and> unat c div 256 < unat (sectors_per_fat b)"

lemma cluster_data_sectors:
  "cluster_data sec b start c =
    sector_bytes (concat (map sec [cluster_at b start c..<cluster_at b start c + unat (sect_per_clust b)]))"
proof -
  have "sector_bytes (concat (map sec [l..<l + n])) = concat (map (\<lambda>q. sector_bytes (sec (l + q))) [0..<n])" for l n
    by (induction n) (simp_all add: sector_bytes_append, simp add: sector_bytes_def)
  then show ?thesis by (simp add: cluster_data_def cluster_at_def)
qed

lemma cluster_data_put:
  "length xs = unat (sect_per_clust b) \<Longrightarrow>
    cluster_data (put_sectors f (cluster_at b start c) xs) b start c = sector_bytes (concat xs)"
  using put_sectors_read [of f "cluster_at b start c" xs] by (simp add: cluster_data_sectors)

lemma cluster_data_cong:
  "(\<And>l. l \<in> cluster_sectors b start c \<Longrightarrow> g l = f l) \<Longrightarrow> cluster_data g b start c = cluster_data f b start c"
  unfolding cluster_data_sectors by (intro arg_cong [where f = "\<lambda>x. sector_bytes (concat x)"] map_cong) (auto simp: cluster_sectors_def)

lemma cluster_sectors_disjoint:
  assumes "\<not> eoc c" and "\<not> eoc d" and "c \<noteq> d" and "l \<in> cluster_sectors b start c"
  shows "l \<notin> cluster_sectors b start d"
proof
  assume d: "l \<in> cluster_sectors b start d"
  define k where "k = unat (sect_per_clust b)"
  have "(l - data_start b start) div k = unat e - 2" if e: "l \<in> cluster_sectors b start e" for e
  proof -
    have k: "0 < k" using e by (auto simp: cluster_sectors_def k_def)
    obtain q where q: "l - data_start b start = (unat e - 2) * k + q" "q < k"
    proof
      show "l - data_start b start = (unat e - 2) * k + (l - cluster_at b start e)" "l - cluster_at b start e < k"
        using e by (auto simp: cluster_sectors_def cluster_at_def k_def)
    qed
    show ?thesis using q k by simp
  qed
  from this [OF assms(4)] this [OF d] have "unat c - 2 = unat d - 2" by simp
  moreover have "2 \<le> unat c" "2 \<le> unat d" using assms(1,2) by (simp_all add: eoc_def word_less_nat_alt not_less)
  ultimately have "unat c = unat d" by linarith
  then show False using assms(3) by (simp add: word_unat_eq_iff)
qed

lemma fat_sector_outside:
  assumes "in_table b c"
  shows "fat_start b start + unat c div 256 < data_start b start"
proof -
  have "0 < unat (fat_count b)" using assms by (simp add: in_table_def unat_gt_0)
  then have "unat (sectors_per_fat b) \<le> unat (sectors_per_fat b) * unat (fat_count b)" by simp
  then show ?thesis using assms unfolding in_table_def data_start_def by linarith
qed

lemma fat_next_cong:
  assumes "in_table b c" and "\<And>l. l < data_start b start \<Longrightarrow> g l = f l"
  shows "fat_next g b start c = fat_next f b start c"
  using assms(2) [OF fat_sector_outside [OF assms(1)]] by (simp add: fat_next_def)

lemma chain_cong: "chain nx c cs \<Longrightarrow> (\<And>d. d \<in> set cs \<Longrightarrow> ny d = nx d) \<Longrightarrow> chain ny c cs"
  by (induction cs arbitrary: c) auto

lemma chain_distinct: "chain nx c cs \<Longrightarrow> distinct cs"
proof (induction cs arbitrary: c)
  case (Cons d ds)
  have "d \<notin> set ds"
  proof
    assume "d \<in> set ds"
    then obtain n where n: "n < length ds" "ds ! n = d" by (auto simp: in_set_conv_nth)
    have "chain nx d (d # ds)" "chain nx d (drop n ds)"
      using Cons.prems chain_drop [of nx "nx d" ds n] n by auto
    from chain_unique [OF this] have "length (d # ds) = length (drop n ds)" by simp
    then show False by simp
  qed
  then show ?case using Cons by auto
qed simp

section \<open>The transfers of a write\<close>

context ata_drive
begin

lemma write_one:
  assumes "inv (dev s)" and "phase (dev s) = Idle" and "attached base drives (disk_at s dk)"
    and "unat lba + 1 \<le> unat (sect_count (disk_at s dk))" and "unat lba + 1 \<le> 2 ^ 28"
  shows "\<exists>d. snd (write_disk_block io dk lba 1 buf s) = s\<lparr>dev := d\<rparr> \<and> inv d \<and> phase d = Idle \<and>
    media d = (media (dev s))(is_master (disk_at s dk) = 0 :=
      put_sectors (sectors s dk) (unat lba) (word_sectors (mem s) buf 1))"
  using write_disk_block_ok [OF assms(1-3), of lba 1 buf] assms(4,5) by auto

lemma put_word_sectors_Suc:
  "put_sectors (put_sectors f l (word_sectors m a k)) (l + k) (word_sectors m (a + 512 * of_nat k) 1)
    = put_sectors f l (word_sectors m a (Suc k))"
  by (auto simp: put_sectors_def word_sectors_def fun_eq_iff nth_append)

lemma write_sectors_cluster_ok:
  assumes "inv (dev s)" and "phase (dev s) = Idle" and "attached base drives (disk_at s dk)" and "volume_ok b"
    and "in_volume b start (unat (sect_count (disk_at s dk))) c" and "\<not> eoc c" and "k \<le> unat (sect_per_clust b)"
  shows "\<exists>d. fold (\<lambda>q s. snd (write_disk_block io dk (cluster_lba b start c q) (units b) (ct + of_nat q * ucast (bytes_per_sect b)) s)) [0..<k] s =
      s\<lparr>dev := d\<rparr> \<and> inv d \<and> phase d = Idle \<and>
    media d = (media (dev s))(is_master (disk_at s dk) = 0 :=
      put_sectors (sectors s dk) (cluster_at b start c) (word_sectors (mem s) ct k))"
  using assms(7)
proof (induction k)
  case 0
  then show ?case using assms(1,2) by (intro exI [of _ "dev s"]) (simp add: word_sectors_def)
next
  case (Suc k)
  have bps: "bytes_per_sect b = 512" using assms(4) by (auto simp: volume_ok_def)
  obtain d where d: "fold (\<lambda>q s. snd (write_disk_block io dk (cluster_lba b start c q) (units b) (ct + of_nat q * ucast (bytes_per_sect b)) s)) [0..<k] s =
      s\<lparr>dev := d\<rparr>" "inv d" "phase d = Idle" "media d = (media (dev s))(is_master (disk_at s dk) = 0 :=
      put_sectors (sectors s dk) (cluster_at b start c) (word_sectors (mem s) ct k))"
    using Suc.IH [OF Suc_leD [OF Suc.prems]] by blast
  have q: "k < unat (sect_per_clust b)" using Suc.prems by simp
  note lba = lba_of_cluster [OF assms(4,5,6) q]
  have "unat (cluster_lba b start c k) + 1 \<le> 2 ^ 28" using lba(2) assms(5) by (simp add: in_volume_def)
  with write_one [of "s\<lparr>dev := d\<rparr>" dk "cluster_lba b start c k" "ct + 512 * of_nat k"] d(2,3) assms(3) lba(2)
  obtain d' where d': "snd (write_disk_block io dk (cluster_lba b start c k) 1 (ct + 512 * of_nat k) (s\<lparr>dev := d\<rparr>)) = s\<lparr>dev := d'\<rparr>"
    "inv d'" "phase d' = Idle" "media d' = (media d)(is_master (disk_at s dk) = 0 :=
      put_sectors (media d (is_master (disk_at s dk) = 0)) (unat (cluster_lba b start c k)) (word_sectors (mem s) (ct + 512 * of_nat k) 1))"
    by auto
  have "media d' = (media (dev s))(is_master (disk_at s dk) = 0 :=
      put_sectors (sectors s dk) (cluster_at b start c) (word_sectors (mem s) ct (Suc k)))"
    using put_word_sectors_Suc [of "sectors s dk" "cluster_at b start c" "mem s" ct k]
    by (simp add: d'(4) d(4) lba(1) cluster_at_def)
  then show ?case using d(1) d' units_1 [OF bps] bps by (intro exI [of _ d']) (simp add: mult.commute)
qed

lemma write_cluster_ok:
  assumes "inv (dev s)" and "phase (dev s) = Idle" and "attached base drives (disk_at s dk)" and "volume_ok b"
    and "in_volume b start (unat (sect_count (disk_at s dk))) c" and "\<not> eoc c"
  obtains d where "write_cluster io dk b start ct c s = s\<lparr>dev := d\<rparr>" and "inv d" and "phase d = Idle"
    and "\<And>sl. (sl \<longleftrightarrow> is_master (disk_at s dk) \<noteq> 0) \<Longrightarrow> media d sl = media (dev s) sl"
    and "\<And>l. l \<notin> cluster_sectors b start c \<Longrightarrow> media d (is_master (disk_at s dk) = 0) l = sectors s dk l"
    and "cluster_data (media d (is_master (disk_at s dk) = 0)) b start c = bytes_at (mem s) ct (512 * unat (sect_per_clust b))"
proof -
  obtain d where d: "write_cluster io dk b start ct c s = s\<lparr>dev := d\<rparr>" "inv d" "phase d = Idle"
    "media d = (media (dev s))(is_master (disk_at s dk) = 0 :=
      put_sectors (sectors s dk) (cluster_at b start c) (word_sectors (mem s) ct (unat (sect_per_clust b))))"
    using write_sectors_cluster_ok [OF assms order_refl, of ct] unfolding write_cluster_def by blast
  have "cluster_data (media d (is_master (disk_at s dk) = 0)) b start c = bytes_at (mem s) ct (512 * unat (sect_per_clust b))"
    by (simp add: d(4) cluster_data_put sector_bytes_word_sectors)
  then show thesis
    using d by (intro that [OF d(1-3)]) (auto simp: d(4) cluster_sectors_def put_sectors_def)
qed

lemma write_hops_ok:
  assumes "inv (dev s)" and "phase (dev s) = Idle" and "attached base drives (disk_at s dk)" and "volume_ok b"
    and "chain (fat_next (sectors s dk) b start) cur cs" and "n < length cs" and "b = bpb_at s bpb"
    and "\<And>c. c \<in> set cs \<Longrightarrow> in_volume b start (unat (sect_count (disk_at s dk))) c"
  shows "\<exists>m d. write_hops io junk dk node bpb start single n cur s = (cs ! n, s\<lparr>mem := m, dev := d\<rparr>) \<and>
    inv d \<and> phase d = Idle \<and> media d = media (dev s) \<and> (\<forall>x. \<not> in_range single 512 x \<longrightarrow> m x = mem s x)"
  using assms
proof (induction n arbitrary: cur cs s)
  case 0
  then show ?case by (cases cs) (auto intro!: exI [of _ "mem s"] exI [of _ "dev s"])
next
  case (Suc n)
  obtain ds where cs: "cs = cur # ds" and ch: "\<not> eoc cur" "chain (fat_next (sectors s dk) b start) (fat_next (sectors s dk) b start cur) ds"
    using Suc.prems(5,6) by (cases cs) auto
  obtain m d where h: "fat_hop io dk b start single cur s = (fat_next (sectors s dk) b start cur, s\<lparr>mem := m, dev := d\<rparr>)"
    and d: "inv d" "phase d = Idle" "media d = media (dev s)" and out: "\<And>x. \<not> in_range single 512 x \<Longrightarrow> m x = mem s x"
    using fat_hop_ok [OF Suc.prems(1-4), of start cur single] Suc.prems(8) [of cur] cs by auto
  have ne: "\<not> eoc (fat_next (sectors s dk) b start cur)" using ch(2) Suc.prems(6) cs by (cases ds) auto
  from Suc.IH [of "s\<lparr>mem := m, dev := d\<rparr>" "fat_next (sectors s dk) b start cur" ds] d ch Suc.prems(3,4,6,7,8) cs
  obtain m' d' where r: "write_hops io junk dk node bpb start single n (fat_next (sectors s dk) b start cur) (s\<lparr>mem := m, dev := d\<rparr>)
      = (ds ! n, s\<lparr>mem := m', dev := d'\<rparr>)"
    "inv d'" "phase d' = Idle" "media d' = media (dev s)" "\<And>x. \<not> in_range single 512 x \<Longrightarrow> m' x = m x"
    by auto
  show ?case using h ne r out cs Suc.prems(7) by (auto intro!: exI [of _ m'] exI [of _ d'])
qed

end

text \<open>A write to the clusters of \<open>D\<close> keeps the other clusters, and the table.\<close>

lemma cluster_data_elsewhere:
  assumes out: "\<And>l. (\<forall>d \<in> D. l \<notin> cluster_sectors b start d) \<Longrightarrow> sec' l = sec l"
    and "\<not> eoc c" and D: "\<And>d. d \<in> D \<Longrightarrow> \<not> eoc d \<and> d \<noteq> c"
  shows "cluster_data sec' b start c = cluster_data sec b start c"
proof (rule cluster_data_cong)
  fix l assume l: "l \<in> cluster_sectors b start c"
  show "sec' l = sec l"
  proof (rule out, rule ballI)
    fix d assume "d \<in> D"
    then show "l \<notin> cluster_sectors b start d" using cluster_sectors_disjoint [OF _ _ _ l, of d] D assms(2) by auto
  qed
qed

lemma chain_outside:
  assumes ch: "chain (fat_next sec b start) cur cs" and tab: "\<And>c. c \<in> set cs \<Longrightarrow> in_table b c"
    and out: "\<forall>l. (\<forall>c \<in> D. l \<notin> cluster_sectors b start c) \<longrightarrow> sec' l = sec l"
  shows "chain (fat_next sec' b start) cur cs"
proof (rule chain_cong [OF ch])
  fix c assume "c \<in> set cs"
  moreover have "sec' l = sec l" if "l < data_start b start" for l
    using out that by (auto simp: cluster_sectors_def cluster_at_def)
  ultimately show "fat_next sec' b start c = fat_next sec b start c" by (intro fat_next_cong tab)
qed

section \<open>The loop\<close>

text \<open>\<open>wrote\<close>: the file has advanced by \<open>k\<close> bytes and its size is at least \<open>i\<close>; tables, disks and heap globals are as before.\<close>

definition wrote :: "('d, 'z) vfs_state_scheme \<Rightarrow> addr \<Rightarrow> addr \<Rightarrow> nat \<Rightarrow> u32 \<Rightarrow> ('d, 'z) vfs_state_scheme \<Rightarrow> bool" where
  "wrote s fp node k i s' \<longleftrightarrow> file_at s' = advanced s fp k \<and>
     node_at s' = (node_at s)(node := (node_at s node)\<lparr>node_size := max32 (node_size (node_at s node)) i\<rparr>) \<and>
     disk_at s' = disk_at s \<and> part_at s' = part_at s \<and> ct_at s' = ct_at s \<and> mt_at s' = mt_at s \<and>
     bpb_at s' = bpb_at s \<and> mothermary s' = mothermary s \<and> kernel_heap s' = kernel_heap s"

lemma max32_max32: "i \<le> j \<Longrightarrow> max32 (max32 a i) j = max32 a j"
  by (auto simp: max32_def)

lemma wrote_trans: "wrote s fp node k i s' \<Longrightarrow> wrote s' fp node l j s'' \<Longrightarrow> i \<le> j \<Longrightarrow> wrote s fp node (k + l) j s''"
  by (simp add: wrote_def advanced_def max32_max32 add.assoc)

text \<open>The buffer of the request stays when bytes of the temporary objects change.\<close>

lemma buffer_part:
  assumes dis: "ranges_disjoint buffer sz single 512" "ranges_disjoint buffer sz ct l"
    and same: "\<And>x. \<not> in_range single 512 x \<Longrightarrow> \<not> in_range ct l x \<Longrightarrow> m' x = m x" and "i + k \<le> sz" "sz \<le> 2 ^ 32"
  shows "bytes_at m' (buffer + of_nat i) k = bytes_at m (buffer + of_nat i) k"
proof (rule bytes_at_cong)
  fix j assume "j < k"
  then have "in_range buffer sz (buffer + of_nat i + of_nat j)"
    using in_range_offset [of "i + j" buffer sz] assms(4,5) by (simp add: add.assoc)
  then show "m' (buffer + of_nat i + of_nat j) = m (buffer + of_nat i + of_nat j)"
    using dis same by (auto simp: ranges_disjoint_def)
qed

text \<open>The copy of a part of the buffer into the cluster's image at \<open>ct\<close>.\<close>

lemma write_patch:
  fixes off bi t sz :: u32
  assumes dis: "ranges_disjoint buffer (unat sz) single 512" "ranges_disjoint buffer (unat sz) ct (length cs)"
    and m1: "\<And>x. \<not> in_range single 512 x \<Longrightarrow> m1 x = m x" and len: "length cs \<le> 3584"
    and le: "unat off + unat t \<le> length cs" "unat bi + unat t \<le> unat sz" and off: "unat off < length cs"
    and part: "part = bytes_at m (buffer + bi) (unat t)"
    and m3: "m3 = memcpy (put_bytes m1 ct cs) (ct + off) (buffer + bi) t"
  shows "bytes_at m3 ct (length cs) = splice cs (unat off) part"
    and "\<And>x. \<not> in_range single 512 x \<Longrightarrow> \<not> in_range ct (length cs) x \<Longrightarrow> m3 x = m x"
proof -
  let ?m2 = "put_bytes m1 ct cs"
  have m2: "?m2 x = m x" if "\<not> in_range single 512 x" "\<not> in_range ct (length cs) x" for x
    using that m1 by (simp add: put_bytes_out)
  have src: "bytes_at ?m2 (buffer + bi) (unat t) = part"
  proof -
    have "bytes_at ?m2 (buffer + of_nat (unat bi)) (unat t) = bytes_at m (buffer + of_nat (unat bi)) (unat t)"
      by (rule buffer_part [OF dis m2]) (use le(2) unat_lt_2p32 [of sz] in simp_all)
    then show ?thesis by (simp add: part)
  qed
  have "in_range ct (length cs) (ct + off)" using in_range_offset [of "unat off" ct "length cs"] off unat_lt_2p32 [of off] by simp
  then have "\<not> in_range (buffer + bi) (unat t) (ct + off)"
    using part_in_buffer [OF le(2), of buffer "ct + off"] dis(2) by (auto simp: ranges_disjoint_def)
  then have eq: "m3 = put_bytes ?m2 (ct + of_nat (unat off)) part"
    using memcpy_eq [of "ct + off" "buffer + bi" t ?m2] by (simp add: src in_range_def m3)
  have lp: "length part = unat t" by (simp add: part)
  show "bytes_at m3 ct (length cs) = splice cs (unat off) part"
    using bytes_at_splice [of "unat off" part "length cs" ?m2 ct] bytes_at_put_bytes [of cs m1 ct] le(1) len lp by (simp add: eq)
  show "m3 x = m x" if "\<not> in_range single 512 x" "\<not> in_range ct (length cs) x" for x
  proof -
    have "\<not> in_range (ct + of_nat (unat off)) (length part) x" using that(2) in_range_sub [OF le(1), of ct x] len lp by auto
    from put_bytes_out [OF this] show ?thesis unfolding eq by (simp only: m2 [OF that])
  qed
qed

context ata_drive
begin

text \<open>One round: the walk to cluster \<open>e\<close>, its read, the copy of the part and the write back.\<close>

lemma write_round_ok:
  fixes s :: "('d, 'z) vfs_state_scheme"
  assumes drive: "inv (dev s)" "phase (dev s) = Idle" "attached base drives (disk_at s dk)" and vol: "volume_ok b"
    and ch: "chain (fat_next (sectors s dk) b start) cur cs" "e # es = drop (unat count) cs" and bpb: "b = bpb_at s bpb"
    and inside: "\<And>c. c \<in> set cs \<Longrightarrow> in_volume b start (unat (sect_count (disk_at s dk))) c"
    and off: "off < cluster_size b" and bi: "bi < sz"
    and dis: "ranges_disjoint buffer (unat sz) single 512" "ranges_disjoint buffer (unat sz) ct (unat (cluster_size b))"
    and t: "t = min32 (sz - bi) (cluster_size b - off)" and part: "part = bytes_at (mem s) (buffer + bi) (unat t)"
  obtains s' where "write_loop io junk dk node bpb start single ct fp buffer sz count off cur bi s =
      (if sz \<le> bi + t then Some (bi + t, s') else write_loop io junk dk node bpb start single ct fp buffer sz 1 0 e (bi + t) s')"
    and "inv (dev s')" and "phase (dev s') = Idle" and "wrote s fp node (unat t) (bi + t) s'"
    and "\<And>x. \<not> in_range single 512 x \<Longrightarrow> \<not> in_range ct (unat (cluster_size b)) x \<Longrightarrow> mem s' x = mem s x"
    and "\<And>sl. (sl \<longleftrightarrow> is_master (disk_at s dk) \<noteq> 0) \<Longrightarrow> media (dev s') sl = media (dev s) sl"
    and "\<And>l. l \<notin> cluster_sectors b start e \<Longrightarrow> sectors s' dk l = sectors s dk l"
    and "cluster_data (sectors s' dk) b start e = splice (cluster_data (sectors s dk) b start e) (unat off) part"
proof -
  let ?cd = "cluster_data (sectors s dk) b start e"
  have e: "unat count < length cs" "cs ! unat count = e" "e \<in> set cs" using chain_entry [OF ch(2)] by auto
  have ne: "\<not> eoc e" by (rule chain_eoc [OF ch(1) e(3)])
  obtain m1 d1 where h: "write_hops io junk dk node bpb start single (unat count) cur s = (e, s\<lparr>mem := m1, dev := d1\<rparr>)"
    and d1: "inv d1" "phase d1 = Idle" "media d1 = media (dev s)" and m1: "\<And>x. \<not> in_range single 512 x \<Longrightarrow> m1 x = mem s x"
    using write_hops_ok [OF drive vol ch(1) e(1) bpb inside, of junk node single] e by auto
  from read_cluster_ok [of "s\<lparr>mem := m1, dev := d1\<rparr>" dk b start e ct] d1 drive(3) vol ne inside [OF e(3)]
  obtain d2 where r: "read_cluster io dk b start ct e (s\<lparr>mem := m1, dev := d1\<rparr>) = s\<lparr>mem := put_bytes m1 ct ?cd, dev := d2\<rparr>"
    and d2: "inv d2" "phase d2 = Idle" "media d2 = media (dev s)" by auto
  have len: "length ?cd = unat (cluster_size b)" "length ?cd \<le> 3584" "length ?cd = 512 * unat (sect_per_clust b)"
    using length_cluster_data [OF drive(1)] cluster_size_nat [OF vol] vol by (auto simp: volume_ok_def)
  define m3 where "m3 = memcpy (put_bytes m1 ct ?cd) (ct + off) (buffer + bi) t"
  note size = part_size [OF t off bi]
  have le: "unat off + unat t \<le> length ?cd" and off': "unat off < length ?cd"
    using size(2) off by (simp_all add: len(1) word_less_nat_alt)
  have m3: "bytes_at m3 ct (length ?cd) = splice ?cd (unat off) part"
    "\<And>x. \<not> in_range single 512 x \<Longrightarrow> \<not> in_range ct (length ?cd) x \<Longrightarrow> m3 x = mem s x"
    by (rule write_patch [OF dis(1) dis(2) [folded len(1)] m1 len(2) le size(3) off' part m3_def]; assumption)+
  obtain d3 where w: "write_cluster io dk b start ct e (s\<lparr>mem := m3, dev := d2\<rparr>) = s\<lparr>mem := m3, dev := d3\<rparr>"
    and d3: "inv d3" "phase d3 = Idle" "\<And>sl. (sl \<longleftrightarrow> is_master (disk_at s dk) \<noteq> 0) \<Longrightarrow> media d3 sl = media (dev s) sl"
      "\<And>l. l \<notin> cluster_sectors b start e \<Longrightarrow> media d3 (is_master (disk_at s dk) = 0) l = sectors s dk l"
      "cluster_data (media d3 (is_master (disk_at s dk) = 0)) b start e = bytes_at m3 ct (length ?cd)"
    by (rule write_cluster_ok [of "s\<lparr>mem := m3, dev := d2\<rparr>" dk b start e ct])
      (use d2 drive(3) vol ne inside [OF e(3)] len(3) in auto)
  define s3 where "s3 = upd_node node (\<lambda>k. k\<lparr>node_size := max32 (node_size k) (bi + t)\<rparr>)
    (upd_file fp (\<lambda>f. f\<lparr>file_offset := file_offset f + t\<rparr>) (s\<lparr>mem := m3, dev := d3\<rparr>))"
  have step: "write_loop io junk dk node bpb start single ct fp buffer sz count off cur bi s =
      (if sz \<le> bi + t then Some (bi + t, s3) else write_loop io junk dk node bpb start single ct fp buffer sz 1 0 e (bi + t) s3)"
    by (subst write_loop.simps) (simp add: h r bpb [symmetric] t [symmetric] m3_def [symmetric] w s3_def Let_def)
  have s3: "mem s3 = m3" "dev s3 = d3" "disk_at s3 = disk_at s" "wrote s fp node (unat t) (bi + t) s3"
    by (simp_all add: s3_def wrote_def advanced_def)
  show thesis
  proof (rule that [OF step])
    show "mem s3 x = mem s x" if "\<not> in_range single 512 x" "\<not> in_range ct (unat (cluster_size b)) x" for x
      using m3(2) that by (simp add: s3(1) len(1))
    show "media (dev s3) sl = media (dev s) sl" if "sl \<longleftrightarrow> is_master (disk_at s dk) \<noteq> 0" for sl
      unfolding s3(2) using that by (rule d3(3))
  qed (simp_all add: s3 d3(1,2,4,5) m3(1))
qed

lemma write_loop_ok:
  fixes s :: "('d, 'z) vfs_state_scheme"
  assumes "inv (dev s)" and "phase (dev s) = Idle" and "attached base drives (disk_at s dk)" and vol: "volume_ok b"
    and "chain (fat_next (sectors s dk) b start) cur cs" and "b = bpb_at s bpb"
    and "\<And>c. c \<in> set cs \<Longrightarrow> in_volume b start (unat (sect_count (disk_at s dk))) c"
    and "\<And>c. c \<in> set cs \<Longrightarrow> in_table b c"
    and "ds = drop (unat count) cs" and "ds \<noteq> []" and "off < cluster_size b" and "bi < sz"
    and "data = bytes_at (mem s) (buffer + bi) (unat sz - unat bi)"
    and "unat off + length data \<le> unat (cluster_size b) * length ds"
    and dis: "ranges_disjoint single 512 ct (unat (cluster_size b))" "ranges_disjoint buffer (unat sz) single 512"
      "ranges_disjoint buffer (unat sz) ct (unat (cluster_size b))"
  shows "\<exists>s'. write_loop io junk dk node bpb start single ct fp buffer sz count off cur bi s = Some (sz, s') \<and>
    inv (dev s') \<and> phase (dev s') = Idle \<and> wrote s fp node (length data) sz s' \<and>
    (\<forall>x. \<not> in_range single 512 x \<longrightarrow> \<not> in_range ct (unat (cluster_size b)) x \<longrightarrow> mem s' x = mem s x) \<and>
    (\<forall>sl. (sl \<longleftrightarrow> is_master (disk_at s dk) \<noteq> 0) \<longrightarrow> media (dev s') sl = media (dev s) sl) \<and>
    (\<forall>l. (\<forall>c \<in> set ds. l \<notin> cluster_sectors b start c) \<longrightarrow> sectors s' dk l = sectors s dk l) \<and>
    concat (map (cluster_data (sectors s' dk) b start) ds) =
      splice (concat (map (cluster_data (sectors s dk) b start) ds)) (unat off) data"
  using assms(1-3,5-14)
proof (induction ds arbitrary: cs count off cur bi s data)
  case Nil
  then show ?case by simp
next
  case (Cons e es)
  let ?CS = "unat (cluster_size b)" and ?ma = "is_master (disk_at s dk)"
  define t where "t = min32 (sz - bi) (cluster_size b - off)"
  define part where "part = bytes_at (mem s) (buffer + bi) (unat t)"
  define sec where "sec = sectors s dk"
  define cd where "cd = cluster_data sec b start"
  note size = part_size [OF t_def Cons.prems(10,11)]
  have mem_es: "set (e # es) \<subseteq> set cs" using chain_entry [OF Cons.prems(8)] by blast
  have ne: "\<not> eoc c" if "c \<in> set (e # es)" for c using chain_eoc [OF Cons.prems(4)] that mem_es by blast
  have dist: "distinct (e # es)" using chain_distinct [OF Cons.prems(4)] Cons.prems(8) distinct_drop [of cs "unat count"] by simp
  obtain s3 where step: "write_loop io junk dk node bpb start single ct fp buffer sz count off cur bi s =
      (if sz \<le> bi + t then Some (bi + t, s3) else write_loop io junk dk node bpb start single ct fp buffer sz 1 0 e (bi + t) s3)"
    and dr: "inv (dev s3)" "phase (dev s3) = Idle" and wr: "wrote s fp node (unat t) (bi + t) s3"
    and m3: "\<And>x. \<not> in_range single 512 x \<Longrightarrow> \<not> in_range ct ?CS x \<Longrightarrow> mem s3 x = mem s x"
    and med: "\<And>sl. (sl \<longleftrightarrow> ?ma \<noteq> 0) \<Longrightarrow> media (dev s3) sl = media (dev s) sl"
    and sec3: "\<And>l. l \<notin> cluster_sectors b start e \<Longrightarrow> sectors s3 dk l = sec l"
    and cde: "cluster_data (sectors s3 dk) b start e = splice (cd e) (unat off) part"
    unfolding cd_def sec_def
    by (rule write_round_ok [OF Cons.prems(1-3) vol Cons.prems(4,8,5,6,10,11) dis(2,3) t_def part_def]) blast+
  have len: "length (cd c) = ?CS" for c
    using length_cluster_data [OF Cons.prems(1)] cluster_size_nat [OF vol] by (simp add: cd_def sec_def)
  define rest where "rest = concat (map cd es)"
  have "cluster_data (sectors s3 dk) b start c = cd c" if "c \<in> set es" for c
    unfolding cd_def by (rule cluster_data_elsewhere [where D = "{e}"]) (use sec3 ne dist that in auto)
  then have rest3: "concat (map (cluster_data (sectors s3 dk) b start) es) = rest"
    unfolding rest_def by (intro arg_cong [where f = concat] map_cong refl)
  have all: "concat (map (cluster_data sec b start) (e # es)) = cd e @ rest" by (simp add: rest_def cd_def)
  have ld: "length data = unat sz - unat bi" by (simp add: Cons.prems(12))
  have td: "take (unat t) data = part"
    using take_bytes_at [of "unat t" "unat sz - unat bi" "mem s" "buffer + bi"] size(1) by (simp add: Cons.prems(12) part_def)
  show ?case
  proof (cases "sz \<le> bi + t")
    case True
    then have tt: "unat t = length data" "bi + t = sz" using size(5) ld by auto
    then have "concat (map (cluster_data (sectors s3 dk) b start) (e # es)) = splice (cd e @ rest) (unat off) data"
      using splice_within [of "unat off" data "cd e" rest] cde td size(2) len rest3 by simp
    then show ?thesis
      using step tt dr wr m3 med sec3 unfolding sec_def [symmetric] all by (intro exI [of _ s3]) simp
  next
    case False
    note tt = size(6) [OF False]
    define data' where "data' = drop (unat t) data"
    have d': "length data' = unat sz - unat (bi + t)" by (simp add: data'_def ld size(4))
    have fr: "disk_at s3 = disk_at s" "bpb_at s3 = bpb_at s" using wr by (simp_all add: wrote_def)
    have "\<exists>s'. write_loop io junk dk node bpb start single ct fp buffer sz 1 0 e (bi + t) s3 = Some (sz, s') \<and>
      inv (dev s') \<and> phase (dev s') = Idle \<and> wrote s3 fp node (length data') sz s' \<and>
      (\<forall>x. \<not> in_range single 512 x \<longrightarrow> \<not> in_range ct ?CS x \<longrightarrow> mem s' x = mem s3 x) \<and>
      (\<forall>sl. (sl \<longleftrightarrow> is_master (disk_at s3 dk) \<noteq> 0) \<longrightarrow> media (dev s') sl = media (dev s3) sl) \<and>
      (\<forall>l. (\<forall>c \<in> set es. l \<notin> cluster_sectors b start c) \<longrightarrow> sectors s' dk l = sectors s3 dk l) \<and>
      concat (map (cluster_data (sectors s' dk) b start) es) =
        splice (concat (map (cluster_data (sectors s3 dk) b start) es)) (unat (0 :: u32)) data'"
    proof (rule Cons.IH)
      show "chain (fat_next (sectors s3 dk) b start) e (e # es)"
        by (rule chain_outside [where D = "{e}", OF chain_rest [OF Cons.prems(4,8)]])
          (use Cons.prems(7) mem_es sec3 in \<open>auto simp: sec_def\<close>)
      show "in_volume b start (unat (sect_count (disk_at s3 dk))) c" "in_table b c" if "c \<in> set (e # es)" for c
        unfolding fr using Cons.prems(6,7) mem_es that by blast+
      have "length data \<le> ?CS * length es + unat t" using Cons.prems(13) tt size(2) by simp
      then show *: "unat (0 :: u32) + length data' \<le> ?CS * length es" by (simp add: data'_def)
      have "unat t < length data" using ld tt by linarith
      then have "0 < length data'" by (simp add: data'_def)
      then show "es \<noteq> []" using * by (cases es) auto
      have "data' = bytes_at (mem s) (buffer + of_nat (unat bi + unat t)) (unat sz - (unat bi + unat t))"
        using drop_bytes_at [of "unat t" "unat sz - unat bi" "mem s" "buffer + bi"] size(3)
        by (simp add: data'_def Cons.prems(12) add.assoc)
      also have "\<dots> = bytes_at (mem s3) (buffer + of_nat (unat bi + unat t)) (unat sz - (unat bi + unat t))"
        by (rule buffer_part [OF dis(2,3), symmetric]) (use m3 size(3) unat_lt_2p32 [of sz] in simp_all)
      finally show "data' = bytes_at (mem s3) (buffer + (bi + t)) (unat sz - unat (bi + t))" by (simp add: size(4))
      show "0 < cluster_size b" using Cons.prems(10) by (rule order.strict_trans1 [OF word_zero_le])
      show "bi + t < sz" using False by simp
    qed (use dr Cons.prems(3,5) fr in simp_all)
    then obtain s' where ih: "write_loop io junk dk node bpb start single ct fp buffer sz 1 0 e (bi + t) s3 = Some (sz, s')"
      "inv (dev s')" "phase (dev s') = Idle" "wrote s3 fp node (length data') sz s'"
      and m': "\<forall>x. \<not> in_range single 512 x \<longrightarrow> \<not> in_range ct ?CS x \<longrightarrow> mem s' x = mem s3 x"
      and med': "\<forall>sl. (sl \<longleftrightarrow> ?ma \<noteq> 0) \<longrightarrow> media (dev s') sl = media (dev s3) sl"
      and sec': "\<forall>l. (\<forall>c \<in> set es. l \<notin> cluster_sectors b start c) \<longrightarrow> sectors s' dk l = sectors s3 dk l"
      and cd': "concat (map (cluster_data (sectors s' dk) b start) es) = splice rest 0 data'"
      unfolding rest3 unfolding fr by auto
    have "wrote s fp node (length data) sz s'"
    proof -
      have "unat t \<le> length data" using ld tt by linarith
      then show ?thesis using wrote_trans [OF wr ih(4)] False by (simp add: data'_def)
    qed
    moreover have "cluster_data (sectors s' dk) b start e = cluster_data (sectors s3 dk) b start e"
      by (rule cluster_data_elsewhere [where D = "set es"]) (use sec' ne dist in auto)
    then have "concat (map (cluster_data (sectors s' dk) b start) (e # es)) = splice (cd e @ rest) (unat off) data"
      using splice_across [of "unat off" "cd e" rest data] size(2) tt len cde cd' td by (simp add: data'_def)
    ultimately show ?thesis
      using step False ih(1-3) m3 m' med med' sec3 sec' unfolding sec_def [symmetric] all by (intro exI [of _ s']) simp
  qed
qed

end

section \<open>A whole request\<close>

text \<open>
  \<open>written\<close>: the client's view after a write of \<open>k\<close> bytes to the file at \<open>fp\<close>.  Live objects keep their bytes; the
  offset has advanced, and the size of the node is at least \<open>k\<close> (the source does not add the offset).
\<close>

definition written :: "('d, 'z) vfs_state_scheme \<Rightarrow> nat \<Rightarrow> addr \<Rightarrow> nat \<Rightarrow> ('d, 'z) vfs_state_scheme \<Rightarrow> bool" where
  "written s c fp k s' \<longleftrightarrow> client s' c \<and> cream_objects s \<subseteq> cream_objects s' \<and>
     (\<forall>(a, l) \<in> cream_objects s. \<forall>x. in_range a l x \<longrightarrow> mem s' x = mem s x) \<and>
     wrote s fp (vfs_node_ptr (file_at s fp)) k (of_nat k) s'"

text \<open>Replacing bytes of the blocks from the one of the offset on.\<close>

lemma mod_room:
  fixes i j k l :: nat
  assumes "i + j \<le> k * l" and "0 < j" and "0 < k"
  shows "i mod k + j \<le> k * (l - i div k)" and "i div k < l"
proof -
  have "i div k * k + i mod k = i" by simp
  then have "k * (i div k) + (i mod k + j) \<le> k * l" using assms(1) by (simp add: mult.commute)
  then show "i mod k + j \<le> k * (l - i div k)" unfolding diff_mult_distrib2 by linarith
  then show "i div k < l" using assms(2) by (cases "i div k < l") auto
qed

lemma splice_drop_blocks:
  assumes "\<And>c. length (f c) = k" and "\<And>c. c \<in> set (take n cs) \<Longrightarrow> g c = f c" and "n = i div k" and "n < length cs"
    and "concat (map g (drop n cs)) = splice (concat (map f (drop n cs))) (i mod k) ys"
  shows "concat (map g cs) = splice (concat (map f cs)) i ys"
proof -
  define pre where "pre = concat (map f (take n cs))"
  have sp: "concat (map h cs) = concat (map h (take n cs)) @ concat (map h (drop n cs))" for h
    by (simp add: concat_append [symmetric] map_append [symmetric] del: concat_append map_append)
  have "length (concat (map f xs)) = k * length xs" for xs by (induction xs) (simp_all add: assms(1))
  then have pre: "length pre + i mod k = i" using assms(3,4) by (simp add: pre_def min_def)
  have "concat (map g (take n cs)) = pre" unfolding pre_def by (intro arg_cong [where f = concat] map_cong refl assms(2))
  then have "concat (map g cs) = pre @ splice (concat (map f (drop n cs))) (i mod k) ys" by (simp add: sp assms(5))
  also have "\<dots> = splice (pre @ concat (map f (drop n cs))) (length pre + i mod k) ys" by (simp only: splice_skip)
  finally show ?thesis by (simp only: pre sp pre_def [symmetric])
qed

context ata_drive
begin

lemma write_fat16_ok:
  fixes s :: "('d, 'z) vfs_state_scheme"
  assumes cl: "client s (c + 2)" and drive: "inv (dev s)" "phase (dev s) = Idle" "attached base drives (disk_at s (f_disk part))"
    and op: "opened s fp b part cur" "fp \<noteq> 0" and vol: "volume_ok b"
    and ch: "chain (fat_next (sectors s (f_disk part)) b (start_sect part)) cur cs"
    and inv': "\<And>c. c \<in> set cs \<Longrightarrow> in_volume b (start_sect part) (unat (sect_count (disk_at s (f_disk part)))) c"
    and tab: "\<And>c. c \<in> set cs \<Longrightarrow> in_table b c"
    and buf: "(obj, N) \<in> cream_objects s" "\<And>x. in_range buffer (unat n) x \<Longrightarrow> in_range obj N x" and n: "n \<noteq> 0" "unat n < 2 ^ 31"
    and room: "unat (file_offset (file_at s fp)) + unat n \<le> unat (cluster_size b) * length cs"
    and data: "data = bytes_at (mem s) buffer (unat n)"
  shows "\<exists>s'. write_fat16 io junk fp buffer n s = Some (int (unat n), s') \<and> written s c fp (unat n) s' \<and>
    (unat (sect_per_clust b) \<le> 6 \<longrightarrow> cream_objects s' = cream_objects s) \<and>
    inv (dev s') \<and> phase (dev s') = Idle \<and>
    (\<forall>sl. (sl \<longleftrightarrow> is_master (disk_at s (f_disk part)) \<noteq> 0) \<longrightarrow> media (dev s') sl = media (dev s) sl) \<and>
    (\<forall>l. (\<forall>c \<in> set cs. l \<notin> cluster_sectors b (start_sect part) c) \<longrightarrow> sectors s' (f_disk part) l = sectors s (f_disk part) l) \<and>
    concat (map (cluster_data (sectors s' (f_disk part)) b (start_sect part)) cs) =
      splice (concat (map (cluster_data (sectors s (f_disk part)) b (start_sect part)) cs)) (unat (file_offset (file_at s fp))) data"
proof -
  let ?dk = "f_disk part" and ?st = "start_sect part" and ?CS = "unat (cluster_size b)" and ?node = "vfs_node_ptr (file_at s fp)"
  define bpb where "bpb = fs_bpb (mt_at s (origin_mount_point (node_at s ?node)))"
  define off where "off = file_offset (file_at s fp)"
  define sec where "sec = sectors s ?dk"
  define ds where "ds = drop (unat (off div cluster_size b)) cs"
  have CS: "0 < ?CS" "?CS \<le> 3584" "cluster_size b \<noteq> 0" "cluster_size b \<le> TOTAL_BYTES_AVAIL" and bps: "bytes_per_sect b = 512"
    using cluster_size_nat [OF vol] vol by (auto simp: volume_ok_def const_defs word_le_nat_alt)
  have n0: "0 < n" "0 < unat n" using n(1) by (auto simp: word_gt_0 unat_gt_0)
  have len: "length data = unat n" by (simp add: data)
  have nc: "\<not> eoc cur" using ch room n0(2) by (cases cs) auto
  have offs: "unat (off div cluster_size b) = unat off div ?CS" "unat (off mod cluster_size b) = unat off mod ?CS"
    by (simp_all add: unat_div unat_mod)
  have room': "unat off mod ?CS + unat n \<le> ?CS * length ds" "ds \<noteq> []"
    using mod_room [OF room [folded off_def] n0(2) CS(1)] by (auto simp: ds_def offs)
  obtain single s1 where m1: "heap_cream_malloc 512 s = (single, s1)" by fastforce
  obtain ct s2 where m2: "heap_cream_malloc (cluster_size b) s1 = (ct, s2)" by fastforce
  obtain N1 N2 where N: "512 \<le> N1" "?CS \<le> N2" and tmp: "temporaries s s2 c single N1 ct N2"
    and comp: "blocks_for 512 + blocks_for (cluster_size b) \<le> 124 \<Longrightarrow> companions s2 single ct"
    by (rule temporaries_malloc [OF cl _ _ CS(3,4) m1 m2]) (auto simp: const_defs)
  note hs = heap_step_simps [OF temporaries_step [OF tmp]]
  have dis: "ranges_disjoint single 512 ct ?CS" "ranges_disjoint buffer (unat n) single 512" "ranges_disjoint buffer (unat n) ct ?CS"
    by (rule temporaries_apart [OF tmp N buf(1)]; use buf(2) in blast)+
  have same: "dev s2 = dev s" "disk_at s2 = disk_at s" "bpb_at s2 = bpb_at s" using hs by simp_all
  have data2: "data = bytes_at (mem s2) buffer (unat n)"
    unfolding data
    by (rule bytes_at_cong) (use temporaries_keep [OF tmp buf(1)] buf(2) in_range_offset [of _ buffer "unat n"] unat_lt_2p32 [of n] in auto)
  have "\<exists>s'. write_loop io junk ?dk ?node bpb ?st single ct fp buffer n (off div cluster_size b) (off mod cluster_size b) cur 0 s2 = Some (n, s') \<and>
    inv (dev s') \<and> phase (dev s') = Idle \<and> wrote s2 fp ?node (length data) n s' \<and>
    (\<forall>x. \<not> in_range single 512 x \<longrightarrow> \<not> in_range ct ?CS x \<longrightarrow> mem s' x = mem s2 x) \<and>
    (\<forall>sl. (sl \<longleftrightarrow> is_master (disk_at s2 ?dk) \<noteq> 0) \<longrightarrow> media (dev s') sl = media (dev s2) sl) \<and>
    (\<forall>l. (\<forall>c \<in> set ds. l \<notin> cluster_sectors b ?st c) \<longrightarrow> sectors s' ?dk l = sectors s2 ?dk l) \<and>
    concat (map (cluster_data (sectors s' ?dk) b ?st) ds) =
      splice (concat (map (cluster_data (sectors s2 ?dk) b ?st) ds)) (unat (off mod cluster_size b)) data"
  proof (rule write_loop_ok [OF _ _ _ vol _ _ _ _ ds_def room'(2)])
    show "off mod cluster_size b < cluster_size b" using CS(1) by (simp add: word_less_nat_alt offs)
    show "b = bpb_at s2 bpb" using op by (simp add: opened_def Let_def bpb_def same)
    show "unat (off mod cluster_size b) + length data \<le> ?CS * length ds" using room'(1) by (simp add: offs len)
  qed (use drive ch inv' tab n0 dis data2 in \<open>simp_all add: same\<close>)
  then obtain s3 where lp: "write_loop io junk ?dk ?node bpb ?st single ct fp buffer n
        (off div cluster_size b) (off mod cluster_size b) cur 0 s2 = Some (n, s3)"
    "inv (dev s3)" "phase (dev s3) = Idle" and wr: "wrote s2 fp ?node (unat n) n s3"
    and m: "\<forall>x. \<not> in_range single 512 x \<longrightarrow> \<not> in_range ct ?CS x \<longrightarrow> mem s3 x = mem s2 x"
    and med: "\<forall>sl. (sl \<longleftrightarrow> is_master (disk_at s ?dk) \<noteq> 0) \<longrightarrow> media (dev s3) sl = media (dev s) sl"
    and sec3: "\<forall>l. (\<forall>c \<in> set ds. l \<notin> cluster_sectors b ?st c) \<longrightarrow> sectors s3 ?dk l = sec l"
    and cd3: "concat (map (cluster_data (sectors s3 ?dk) b ?st) ds) = splice (concat (map (cluster_data sec b ?st) ds)) (unat off mod ?CS) data"
    unfolding same offs sec_def [symmetric] len by blast
  define s5 where "s5 = snd (heap_cream_free ct (snd (heap_cream_free single s3)))"
  have fin: "client s5 c" "heap_step s3 s5" "cream_objects s \<subseteq> cream_objects s5"
    and m5: "\<And>a l x. (a, l) \<in> cream_objects s \<Longrightarrow> in_range a l x \<Longrightarrow> mem s5 x = mem s x"
    and all: "companions s2 single ct \<Longrightarrow> cream_objects s5 = cream_objects s"
    by (rule transfer_done [OF tmp N buf(1) _ _ _ _ _ s5_def, of buffer "unat n" "[]", unfolded put_bytes_Nil]; use buf(2) m wr in \<open>simp add: wrote_def\<close>)+
  note h5 = heap_step_simps [OF fin(2)]
  have "written s c fp (unat n) s5"
    unfolding written_def
  proof (intro conjI)
    show "\<forall>(a, l) \<in> cream_objects s. \<forall>x. in_range a l x \<longrightarrow> mem s5 x = mem s x" using m5 by blast
    show "wrote s fp ?node (unat n) (of_nat (unat n)) s5" using wr hs h5 by (simp add: wrote_def advanced_def)
  qed (use fin in simp_all)
  moreover have "write_fat16 io junk fp buffer n s = Some (int (unat n), s5)"
    using op n nc m1 m2 lp(1) bps sint_nat [OF n(2)]
    by (simp add: write_fat16_def opened_def Let_def off_def s5_def bpb_def)
  moreover have "concat (map (cluster_data (sectors s3 ?dk) b ?st) cs) = splice (concat (map (cluster_data sec b ?st) cs)) (unat off) data"
  proof (rule splice_drop_blocks [where n = "unat off div ?CS"])
    show "length (cluster_data sec b ?st c) = ?CS" for c
      using length_cluster_data [OF drive(1)] cluster_size_nat [OF vol] by (simp add: sec_def)
    show "cluster_data (sectors s3 ?dk) b ?st c = cluster_data sec b ?st c" if c: "c \<in> set (take (unat off div ?CS) cs)" for c
    proof (rule cluster_data_elsewhere [where D = "set ds"])
      show "\<not> eoc c" using chain_eoc [OF ch in_set_takeD [OF c]] .
      show "\<not> eoc d \<and> d \<noteq> c" if "d \<in> set ds" for d
        using chain_distinct [OF ch] c that set_take_disj_set_drop_if_distinct [of cs "unat off div ?CS" "unat off div ?CS"]
          chain_eoc [OF ch in_set_dropD [of d]] by (auto simp: ds_def offs)
    qed (use sec3 in blast)
  qed (use cd3 room' in \<open>simp_all add: ds_def offs\<close>)
  moreover have "sectors s3 ?dk l = sec l" if "\<forall>c \<in> set cs. l \<notin> cluster_sectors b ?st c" for l
    using sec3 that in_set_dropD unfolding ds_def by fast
  moreover have "dev s5 = dev s3" "disk_at s5 = disk_at s3" "disk_at s3 = disk_at s" using h5 wr hs by (simp_all add: wrote_def)
  moreover have "cream_objects s5 = cream_objects s" if "unat (sect_per_clust b) \<le> 6" by (rule all [OF comp [OF buffer_blocks [OF vol that]]])
  ultimately show ?thesis using lp(2,3) med unfolding sec_def off_def by (intro exI [of _ s5]) simp
qed

end

section \<open>Reading back\<close>

definition file_bytes :: "(nat \<Rightarrow> u16 list) \<Rightarrow> fat16_bpb \<Rightarrow> u32 \<Rightarrow> u16 list \<Rightarrow> byte list" where
  "file_bytes sec b start cs = concat (map (cluster_data sec b start) cs)"

text \<open>The file at \<open>fp\<close> moved back to offset \<open>off\<close>.\<close>

definition rewind :: "addr \<Rightarrow> u32 \<Rightarrow> ('d, 'z) vfs_state_scheme \<Rightarrow> ('d, 'z) vfs_state_scheme" where
  "rewind fp off s = upd_file fp (\<lambda>f. f\<lparr>file_offset := off\<rparr>) s"

lemma written_opened:
  "written s c fp k s' \<Longrightarrow> opened s fp b part cur \<Longrightarrow> opened (rewind fp off s') fp b part cur"
  by (auto simp: written_def wrote_def opened_def Let_def rewind_def advanced_def)

context ata_drive
begin

lemma length_file_bytes: "inv (dev s) \<Longrightarrow> volume_ok b \<Longrightarrow> length (file_bytes (sectors s dk) b start cs) = unat (cluster_size b) * length cs"
  by (induction cs) (simp_all add: file_bytes_def length_cluster_data cluster_size_nat)

lemma write_then_read:
  fixes s :: "('d, 'z) vfs_state_scheme"
  assumes cl: "client s (c + 4)" and drive: "inv (dev s)" "phase (dev s) = Idle" "attached base drives (disk_at s (f_disk part))"
    and op: "opened s fp b part cur" "fp \<noteq> 0" and vol: "volume_ok b"
    and ch: "chain (fat_next (sectors s (f_disk part)) b (start_sect part)) cur cs"
    and inv': "\<And>c. c \<in> set cs \<Longrightarrow> in_volume b (start_sect part) (unat (sect_count (disk_at s (f_disk part)))) c"
    and tab: "\<And>c. c \<in> set cs \<Longrightarrow> in_table b c"
    and src: "(obj, N) \<in> cream_objects s" "\<And>x. in_range buffer (unat n) x \<Longrightarrow> in_range obj N x"
    and dst: "(obj', N') \<in> cream_objects s" "\<And>x. in_range buffer' (unat n) x \<Longrightarrow> in_range obj' N' x"
    and n: "n \<noteq> 0" "unat n < 2 ^ 31"
    and room: "unat (file_offset (file_at s fp)) + unat n \<le> unat (cluster_size b) * length cs"
  shows "\<exists>s' s''. write_fat16 io junk fp buffer n s = Some (int (unat n), s') \<and>
    read_fat16 io fp buffer' n (rewind fp (file_offset (file_at s fp)) s') = Some (int (unat n), s'') \<and>
    bytes_at (mem s'') buffer' (unat n) = bytes_at (mem s) buffer (unat n)"
proof -
  let ?dk = "f_disk part" and ?st = "start_sect part" and ?off = "file_offset (file_at s fp)"
  define data where "data = bytes_at (mem s) buffer (unat n)"
  have "client s ((c + 2) + 2)" using cl by (simp add: eval_nat_numeral)
  from write_fat16_ok [OF this drive op vol ch inv' tab src n room data_def, where junk = junk]
  obtain s' where w: "write_fat16 io junk fp buffer n s = Some (int (unat n), s')"
    and wr: "written s (c + 2) fp (unat n) s'" and d: "inv (dev s')" "phase (dev s') = Idle"
    and out: "\<forall>l. (\<forall>c \<in> set cs. l \<notin> cluster_sectors b ?st c) \<longrightarrow> sectors s' ?dk l = sectors s ?dk l"
    and cd: "file_bytes (sectors s' ?dk) b ?st cs = splice (file_bytes (sectors s ?dk) b ?st cs) (unat ?off) data"
    unfolding file_bytes_def by (auto simp: written_def wrote_def)
  define t where "t = rewind fp ?off s'"
  have dk: "disk_at s' = disk_at s" using wr by (simp add: written_def wrote_def)
  have t: "client t (c + 2)" "cream_objects s \<subseteq> cream_objects t" "dev t = dev s'" "disk_at t = disk_at s" "mem t = mem s'"
    "file_offset (file_at t fp) = ?off"
    using wr client_upd(4) [of s' "c + 2"] objects_upd(4) [of s' "c + 2"]
    by (auto simp: t_def rewind_def written_def wrote_def)
  have data: "data = take (unat n) (drop (unat (file_offset (file_at t fp))) (concat (map (cluster_data (sectors t ?dk) b ?st) cs)))"
    using splice_read [of "unat ?off" data "file_bytes (sectors s ?dk) b ?st cs"] room
      length_file_bytes [OF drive(1) vol, of ?dk ?st cs]
    unfolding t by (simp add: cd [unfolded file_bytes_def dk] data_def file_bytes_def)
  have "\<exists>s''. read_fat16 io fp buffer' n t = Some (int (length data), s'') \<and> bytes_at (mem s'') buffer' (length data) = data \<and>
    file_at s'' = advanced t fp (length data) \<and> kept t c buffer' (unat n) s'' \<and>
    (unat (sect_per_clust b) \<le> 6 \<longrightarrow> cream_objects s'' = cream_objects t) \<and> inv (dev s'') \<and> phase (dev s'') = Idle \<and> media (dev s'') = media (dev t)"
  proof (rule read_fat16_ok [OF t(1) _ _ _ _ op(2) vol _ _ _ _ n(2) data])
    show "opened t fp b part cur" unfolding t_def by (rule written_opened [OF wr op(1)])
    show "chain (fat_next (sectors t ?dk) b ?st) cur cs"
      using chain_outside [OF ch tab out] by (simp add: t dk)
    show "(obj', N') \<in> cream_objects t" using t(2) dst(1) by blast
  qed (use d drive(3) inv' dst(2) in \<open>simp_all add: t\<close>)
  then show ?thesis using w by (auto simp: data_def t_def)
qed

end

section \<open>Properties\<close>

text \<open>C28: on a volume with sectors of 512 bytes and clusters of at most 7 sectors, a write that stays inside the clusters a file
  already has replaces exactly the bytes of the request in the concatenation of the clusters; the chain, every other sector
  and the other drive stay, the live objects keep their bytes, and with at most 6 sectors per cluster both buffers are given
  back.  (A write beyond the last cluster is C32.)\<close>

theorem write_fat16_bytes:
  fixes s :: "('d, 'z) vfs_state_scheme"
  assumes "ata_drive io base drives dinv regs media phase pending"
    and "client s (c + 2)" and "dinv (dev s)" and "phase (dev s) = Idle" and "attached base drives (disk_at s (f_disk part))"
    and "opened s fp b part cur" and "fp \<noteq> 0" and "volume_ok b"
    and sl: "sl \<longleftrightarrow> is_master (disk_at s (f_disk part)) = 0"
    and "chain (fat_next (media (dev s) sl) b (start_sect part)) cur cs"
    and "\<And>c. c \<in> set cs \<Longrightarrow> in_volume b (start_sect part) (unat (sect_count (disk_at s (f_disk part)))) c"
    and "\<And>c. c \<in> set cs \<Longrightarrow> in_table b c"
    and "(obj, N) \<in> cream_objects s" and "\<And>x. in_range buffer (unat n) x \<Longrightarrow> in_range obj N x" and "n \<noteq> 0" and "unat n < 2 ^ 31"
    and "unat (file_offset (file_at s fp)) + unat n \<le> unat (cluster_size b) * length cs"
  shows "\<exists>s'. write_fat16 io junk fp buffer n s = Some (int (unat n), s') \<and> written s c fp (unat n) s' \<and>
    (unat (sect_per_clust b) \<le> 6 \<longrightarrow> cream_objects s' = cream_objects s) \<and>
    chain (fat_next (media (dev s') sl) b (start_sect part)) cur cs \<and>
    file_bytes (media (dev s') sl) b (start_sect part) cs =
      splice (file_bytes (media (dev s) sl) b (start_sect part) cs) (unat (file_offset (file_at s fp))) (bytes_at (mem s) buffer (unat n)) \<and>
    (\<forall>l. (\<forall>c \<in> set cs. l \<notin> cluster_sectors b (start_sect part) c) \<longrightarrow> media (dev s') sl l = media (dev s) sl l) \<and>
    media (dev s') (\<not> sl) = media (dev s) (\<not> sl)"
proof -
  let ?ma = "is_master (disk_at s (f_disk part)) = 0" and ?st = "start_sect part"
  obtain s' where s': "write_fat16 io junk fp buffer n s = Some (int (unat n), s')" and wr: "written s c fp (unat n) s'"
    and all: "unat (sect_per_clust b) \<le> 6 \<longrightarrow> cream_objects s' = cream_objects s"
    and med: "\<forall>sl. (sl \<longleftrightarrow> is_master (disk_at s (f_disk part)) \<noteq> 0) \<longrightarrow> media (dev s') sl = media (dev s) sl"
    and out0: "\<forall>l. (\<forall>c \<in> set cs. l \<notin> cluster_sectors b ?st c) \<longrightarrow>
      media (dev s') (is_master (disk_at s' (f_disk part)) = 0) l = media (dev s) ?ma l"
    and cd0: "concat (map (cluster_data (media (dev s') (is_master (disk_at s' (f_disk part)) = 0)) b ?st) cs) =
      splice (concat (map (cluster_data (media (dev s) ?ma) b ?st) cs)) (unat (file_offset (file_at s fp))) (bytes_at (mem s) buffer (unat n))"
    using ata_drive.write_fat16_ok [OF assms(1-8) assms(10) [unfolded sl] assms(11-17) refl, where junk = junk] by blast
  have dk: "disk_at s' = disk_at s" using wr by (simp add: written_def wrote_def)
  note out = out0 [unfolded dk, folded sl]
  show ?thesis
  proof (intro exI conjI)
    show "chain (fat_next (media (dev s') sl) b ?st) cur cs" by (rule chain_outside [OF assms(10,12) out])
    show "media (dev s') (\<not> sl) = media (dev s) (\<not> sl)" using med sl by blast
  qed (fact s' wr all out cd0 [unfolded dk, folded sl file_bytes_def])+
qed

lemma demo_table: "k \<in> {2, 5} \<Longrightarrow> in_table demo_bpb k"
  by (auto simp: in_table_def demo_bpb_def)

lemma write_fat16_bytes_witness:
  "\<exists>s'. write_fat16 ch_io (0, 0) 0x500000 (fst (heap_cream_malloc 100 demo_state)) 100 (snd (heap_cream_malloc 100 demo_state)) = Some (100, s')"
proof -
  obtain a s where m: "heap_cream_malloc 100 demo_state = (a, s)" by fastforce
  have "client demo_state (Suc 123)" using demo_client by simp
  then obtain N where o: "client s 123" "heap_step demo_state s" "100 \<le> N" "cream_objects s = insert (a, N) (cream_objects demo_state)"
    by (rule client_malloc [OF _ _ _ m]) (auto simp: const_defs)
  note f = demo_file [OF o(2)]
  have cl: "client s (121 + 2)" using o(1) by simp
  define sl where "sl \<longleftrightarrow> is_master (disk_at s (f_disk demo_part)) = 0"
  have ch: "chain (fat_next (ch_media (dev s) sl) demo_bpb (start_sect demo_part)) 2 [2, 5]"
    using demo_sectors(2) by (simp add: sl_def f demo_part_def)
  have "\<exists>s'. write_fat16 ch_io (0, 0) 0x500000 a 100 s = Some (int (unat (100 :: u32)), s') \<and> written s 121 0x500000 (unat (100 :: u32)) s' \<and>
    (unat (sect_per_clust demo_bpb) \<le> 6 \<longrightarrow> cream_objects s' = cream_objects s) \<and>
    chain (fat_next (ch_media (dev s') sl) demo_bpb (start_sect demo_part)) 2 [2, 5] \<and>
    file_bytes (ch_media (dev s') sl) demo_bpb (start_sect demo_part) [2, 5] =
      splice (file_bytes (ch_media (dev s) sl) demo_bpb (start_sect demo_part) [2, 5])
        (unat (file_offset (file_at s 0x500000))) (bytes_at (mem s) a (unat (100 :: u32))) \<and>
    (\<forall>l. (\<forall>c \<in> set [2, 5]. l \<notin> cluster_sectors demo_bpb (start_sect demo_part) c) \<longrightarrow> ch_media (dev s') sl l = ch_media (dev s) sl l) \<and>
    ch_media (dev s') (\<not> sl) = ch_media (dev s) (\<not> sl)"
    by (rule write_fat16_bytes [OF pio.ata_drive_axioms cl _ _ _ f(1) _ demo_sectors(1) sl_def ch f(5) demo_table, of a N])
      (use o(3,4) demo_channel_inv in \<open>auto simp: f demo_bpb_def cluster_size_def intro: in_range_mono\<close>)
  then show ?thesis by (auto simp: m)
qed

text \<open>C29: on a volume with sectors of 512 bytes and clusters of at most 7 sectors, what is written inside the clusters a file
  already has is read back at the same offset, into any object of the heap.\<close>

theorem write_fat16_read_back:
  fixes s :: "('d, 'z) vfs_state_scheme"
  assumes "ata_drive io base drives dinv regs media phase pending"
    and "client s (c + 4)" and "dinv (dev s)" and "phase (dev s) = Idle" and "attached base drives (disk_at s (f_disk part))"
    and "opened s fp b part cur" and "fp \<noteq> 0" and "volume_ok b"
    and "chain (fat_next (media (dev s) (is_master (disk_at s (f_disk part)) = 0)) b (start_sect part)) cur cs"
    and "\<And>c. c \<in> set cs \<Longrightarrow> in_volume b (start_sect part) (unat (sect_count (disk_at s (f_disk part)))) c"
    and "\<And>c. c \<in> set cs \<Longrightarrow> in_table b c"
    and "(obj, N) \<in> cream_objects s" and "\<And>x. in_range buffer (unat n) x \<Longrightarrow> in_range obj N x"
    and "(obj', N') \<in> cream_objects s" and "\<And>x. in_range buffer' (unat n) x \<Longrightarrow> in_range obj' N' x"
    and "n \<noteq> 0" and "unat n < 2 ^ 31"
    and "unat (file_offset (file_at s fp)) + unat n \<le> unat (cluster_size b) * length cs"
  shows "\<exists>s' s''. write_fat16 io junk fp buffer n s = Some (int (unat n), s') \<and>
    read_fat16 io fp buffer' n (rewind fp (file_offset (file_at s fp)) s') = Some (int (unat n), s'') \<and>
    bytes_at (mem s'') buffer' (unat n) = bytes_at (mem s) buffer (unat n)"
  using ata_drive.write_then_read [OF assms] by blast

text \<open>One object is written to the file and read back into another.\<close>

lemma write_fat16_read_back_witness:
  "\<exists>a b (s :: channel vfs_state) s' s''. write_fat16 ch_io (0, 0) 0x500000 a 100 s = Some (100, s') \<and>
    read_fat16 ch_io 0x500000 b 100 (rewind 0x500000 1000 s') = Some (100, s'') \<and> bytes_at (mem s'') b 100 = bytes_at (mem s) a 100"
proof -
  obtain a s0 where m: "heap_cream_malloc 100 demo_state = (a, s0)" by fastforce
  obtain b s where m': "heap_cream_malloc 100 s0 = (b, s)" by fastforce
  have "client demo_state (Suc 123)" using demo_client by simp
  then obtain N where o: "client s0 123" "heap_step demo_state s0" "100 \<le> N" "cream_objects s0 = insert (a, N) (cream_objects demo_state)"
    by (rule client_malloc [OF _ _ _ m]) (auto simp: const_defs)
  have "client s0 (Suc 122)" using o(1) by simp
  then obtain N' where o': "client s 122" "heap_step s0 s" "100 \<le> N'" "cream_objects s = insert (b, N') (cream_objects s0)"
    by (rule client_malloc [OF _ _ _ m']) (auto simp: const_defs)
  note f = demo_file [OF heap_step_trans [OF o(2) o'(2)]]
  have cl: "client s (118 + 4)" using o'(1) by simp
  have ch: "chain (fat_next (ch_media (dev s) (is_master (disk_at s (f_disk demo_part)) = 0)) demo_bpb (start_sect demo_part)) 2 [2, 5]"
    using demo_sectors(2) by (simp add: f demo_part_def)
  have "\<exists>s' s''. write_fat16 ch_io (0, 0) 0x500000 a 100 s = Some (int (unat (100 :: u32)), s') \<and>
    read_fat16 ch_io 0x500000 b 100 (rewind 0x500000 (file_offset (file_at s 0x500000)) s') = Some (int (unat (100 :: u32)), s'') \<and>
    bytes_at (mem s'') b (unat (100 :: u32)) = bytes_at (mem s) a (unat (100 :: u32))"
    by (rule write_fat16_read_back [OF pio.ata_drive_axioms cl _ _ _ f(1) _ demo_sectors(1) ch f(5) demo_table, where obj = a and N = N and obj' = b and N' = N'])
      (use o(3,4) o'(3,4) demo_channel_inv in \<open>auto simp: f demo_bpb_def cluster_size_def intro: in_range_mono\<close>)
  then show ?thesis unfolding f by (simp del: ex_simps) blast
qed

end
