(* ===== verification/Fat16_Alloc.thy ===== *)
theory Fat16_Alloc
  imports Fat16_Write
begin

text \<open>
  What \<open>get_free_cluster\<close> does to the tables of a volume with sectors of 512 bytes: the first free entry of the first
  table gets the end mark, the entry of the last cluster of a file gets its number, and every other table
  gets the same two changes.
\<close>

section \<open>Tables on the medium\<close>

text \<open>The table of \<open>n\<close> sectors at \<open>l\<close>, and the sectors with entry \<open>k\<close> of the table at \<open>l\<close> changed.\<close>

definition fat_table :: "(nat \<Rightarrow> u16 list) \<Rightarrow> nat \<Rightarrow> nat \<Rightarrow> u16 list" where
  "fat_table f l n = concat (map f [l..<l + n])"

definition put_entry :: "nat \<Rightarrow> nat \<Rightarrow> u16 \<Rightarrow> (nat \<Rightarrow> u16 list) \<Rightarrow> nat \<Rightarrow> u16 list" where
  "put_entry l k v f = f(l + k div 256 := (f (l + k div 256))[k mod 256 := v])"

text \<open>What taking the cluster \<open>new\<close> makes of a table, and of the sectors of the table at \<open>l\<close>.\<close>

definition link_table :: "u16 \<Rightarrow> nat \<Rightarrow> u16 list \<Rightarrow> u16 list" where
  "link_table cur new tab = (if eoc cur then tab[new := 0xffff] else tab[new := 0xffff, unat cur := of_nat new])"

definition link_sectors :: "u16 \<Rightarrow> nat \<Rightarrow> nat \<Rightarrow> (nat \<Rightarrow> u16 list) \<Rightarrow> nat \<Rightarrow> u16 list" where
  "link_sectors cur new l f =
     (let g = put_entry l new 0xffff f in if eoc cur then g else put_entry l (unat cur) (of_nat new) g)"

lemma length_fat_table: "(\<And>x. length (f x) = 256) \<Longrightarrow> length (fat_table f l n) = 256 * n"
  by (induction n) (simp_all add: fat_table_def)

lemma nth_fat_table:
  assumes "\<And>x. length (f x) = 256" and "k < 256 * n"
  shows "fat_table f l n ! k = f (l + k div 256) ! (k mod 256)"
  using assms(2)
proof (induction n)
  case (Suc n)
  have *: "fat_table f l (Suc n) = fat_table f l n @ f (l + n)" by (simp add: fat_table_def)
  show ?case
  proof (cases "k < 256 * n")
    case False
    then have d: "k div 256 = n" using Suc.prems by (simp add: div_nat_eqI)
    then have "k mod 256 = k - 256 * n" by (simp add: minus_mult_div_eq_mod [symmetric])
    with d show ?thesis using False by (simp add: * nth_append length_fat_table assms(1))
  qed (use Suc in \<open>simp add: * nth_append length_fat_table assms(1)\<close>)
qed simp

lemma length_put_entry: "(\<And>x. length (f x) = 256) \<Longrightarrow> length (put_entry l k v f x) = 256"
  by (simp add: put_entry_def)

lemma length_link_sectors: "(\<And>x. length (f x) = 256) \<Longrightarrow> length (link_sectors cur new l f x) = 256"
  by (simp add: link_sectors_def Let_def length_put_entry)

lemma put_entry_other: "k < 256 * n \<Longrightarrow> x < l \<or> l + n \<le> x \<Longrightarrow> put_entry l k v f x = f x"
  by (auto simp: put_entry_def)

lemma put_entry_table:
  assumes "\<And>x. length (f x) = 256" and "k < 256 * n"
  shows "fat_table (put_entry l k v f) l n = (fat_table f l n)[k := v]"
proof (rule nth_equalityI)
  fix i assume "i < length (fat_table (put_entry l k v f) l n)"
  then have i: "i < 256 * n" by (simp add: length_fat_table length_put_entry assms(1))
  have "i = k \<longleftrightarrow> i div 256 = k div 256 \<and> i mod 256 = k mod 256" by (metis mult_div_mod_eq)
  then show "fat_table (put_entry l k v f) l n ! i = (fat_table f l n)[k := v] ! i"
    using i assms by (auto simp: nth_fat_table length_put_entry length_fat_table nth_list_update put_entry_def)
qed (simp add: length_fat_table length_put_entry assms(1))

lemma link_sectors_other:
  "new < 256 * n \<Longrightarrow> eoc cur \<or> unat cur < 256 * n \<Longrightarrow> x < l \<or> l + n \<le> x \<Longrightarrow> link_sectors cur new l f x = f x"
  by (auto simp: link_sectors_def Let_def put_entry_other)

lemma link_sectors_table:
  "(\<And>x. length (f x) = 256) \<Longrightarrow> new < 256 * n \<Longrightarrow> eoc cur \<or> unat cur < 256 * n \<Longrightarrow>
    fat_table (link_sectors cur new l f) l n = link_table cur new (fat_table f l n)"
  by (auto simp: link_sectors_def link_table_def Let_def put_entry_table length_put_entry)

text \<open>All tables of a volume.\<close>

definition link_all :: "u16 \<Rightarrow> nat \<Rightarrow> nat \<Rightarrow> nat \<Rightarrow> nat \<Rightarrow> (nat \<Rightarrow> u16 list) \<Rightarrow> nat \<Rightarrow> u16 list" where
  "link_all cur new l n count f = fold (\<lambda>i. link_sectors cur new (l + i * n)) [0..<count] f"

lemma link_all_Suc: "link_all cur new l n (Suc k) f = link_sectors cur new (l + k * n) (link_all cur new l n k f)"
  by (simp add: link_all_def)

lemma length_link_all: "(\<And>x. length (f x) = 256) \<Longrightarrow> length (link_all cur new l n k f x) = 256"
  by (induction k arbitrary: x) (simp_all add: link_all_Suc length_link_sectors, simp add: link_all_def)

lemma link_all_other:
  assumes "new < 256 * n" and "eoc cur \<or> unat cur < 256 * n" and "x < l \<or> l + k * n \<le> x"
  shows "link_all cur new l n k f x = f x"
  using assms(3) by (induction k) (auto simp: link_all_Suc link_sectors_other [OF assms(1,2)], auto simp: link_all_def)

lemma fat_table_cong: "(\<And>x. l \<le> x \<Longrightarrow> x < l + n \<Longrightarrow> g x = f x) \<Longrightarrow> fat_table g l n = fat_table f l n"
  by (auto simp: fat_table_def intro!: arg_cong [where f = concat])

lemma link_all_table:
  assumes len: "\<And>x. length (f x) = 256" and "new < 256 * n" and "eoc cur \<or> unat cur < 256 * n" and "i < k"
  shows "fat_table (link_all cur new l n k f) (l + i * n) n = link_table cur new (fat_table f (l + i * n) n)"
  using assms(4)
proof (induction k)
  case (Suc k)
  show ?case
  proof (cases "i = k")
    case True
    have "fat_table (link_all cur new l n k f) (l + k * n) n = fat_table f (l + k * n) n"
      by (rule fat_table_cong) (simp add: link_all_other [OF assms(2,3)])
    then show ?thesis using True assms(2,3) len by (simp add: link_all_Suc link_sectors_table length_link_all)
  next
    case False
    then have "i < k" using Suc.prems by simp
    then have "i * n + n \<le> k * n" using mult_le_mono1 [of "Suc i" k n] by simp
    then have "fat_table (link_all cur new l n (Suc k) f) (l + i * n) n = fat_table (link_all cur new l n k f) (l + i * n) n"
      by (intro fat_table_cong) (simp add: link_all_Suc link_sectors_other [OF assms(2,3)])
    then show ?thesis using Suc.IH [OF \<open>i < k\<close>] by simp
  qed
qed simp

section \<open>The words of the buffer\<close>

lemma words_at_set:
  assumes "j < n" and "n \<le> 2 ^ 30"
  shows "words_at (st16 m (a + 2 * of_nat j) v) a n = (words_at m a n)[j := v]"
proof (rule nth_equalityI)
  fix i assume "i < length (words_at (st16 m (a + 2 * of_nat j) v) a n)"
  then have i: "i < n" by simp
  show "words_at (st16 m (a + 2 * of_nat j) v) a n ! i = (words_at m a n)[j := v] ! i"
  proof (cases "i = j")
    case False
    have "ld16 (st16 m (a + 2 * of_nat j) v) (a + 2 * of_nat i) = ld16 m (a + 2 * of_nat i)"
    proof (rule ld16_cong, rule st16_out)
      fix x assume x: "in_range (a + 2 * of_nat i) 2 x"
      have off: "unat ((a + 2 * of_nat k + of_nat e) - a) = 2 * k + e" if "k < n" "e < 2" for k e
        using that assms(2) unat_of_nat32 [of "2 * k + e"] by simp
      show "\<not> in_range (a + 2 * of_nat j) 2 x"
      proof
        assume "in_range (a + 2 * of_nat j) 2 x"
        then obtain e where e: "e < 2" "x = a + 2 * of_nat j + of_nat e" by (rule in_rangeE)
        obtain e' where e': "e' < 2" "x = a + 2 * of_nat i + of_nat e'" by (rule in_rangeE [OF x])
        have "2 * j + e = 2 * i + e'" using off [OF assms(1) e(1)] off [OF i e'(1)] e(2) e'(2) by metis
        then show False using e(1) e'(1) False by arith
      qed
    qed
    then show ?thesis using i False by (simp add: words_at_def)
  qed (use i in \<open>simp add: words_at_def\<close>)
qed simp

lemma find_words_at:
  "List.find (\<lambda>j. ld16 m (a + 2 * of_nat j) = 0) [0..<n] = List.find (\<lambda>j. words_at m a n ! j = 0) [0..<n]"
  by (intro find_cong refl) (simp add: words_at_def)

lemma find_first:
  assumes "j < n" and "P j" and "\<And>i. i < j \<Longrightarrow> \<not> P i"
  shows "List.find P [0..<n] = Some j"
  using assms by (auto simp: find_Some_iff intro!: exI [of _ j])

text \<open>The tables start at sector \<open>start_fat\<close> of a disk of \<open>cap\<close> sectors and have at most 256 sectors each, because the
  numbers of clusters have 16 bits; they hold the entry of the cluster \<open>cur\<close>, if it is one.\<close>

definition tables_at :: "fat16_bpb \<Rightarrow> u32 \<Rightarrow> u32 \<Rightarrow> u16 \<Rightarrow> bool" where
  "tables_at b start_fat cap cur \<longleftrightarrow> bytes_per_sect b = 512 \<and> unat (sectors_per_fat b) \<le> 256 \<and>
     unat start_fat + unat (fat_count b) * unat (sectors_per_fat b) \<le> min (unat cap) (2 ^ 28) \<and>
     (eoc cur \<or> unat cur < 256 * unat (sectors_per_fat b))"

text \<open>The first free entry of the table of \<open>n\<close> sectors at \<open>l\<close>.\<close>

definition free_at :: "(nat \<Rightarrow> u16 list) \<Rightarrow> nat \<Rightarrow> nat \<Rightarrow> nat \<Rightarrow> bool" where
  "free_at f l n new \<longleftrightarrow> new < 256 * n \<and> fat_table f l n ! new = 0 \<and> (\<forall>k < new. fat_table f l n ! k \<noteq> 0)"

section \<open>The transfers of sectors of a table\<close>

context ata_drive
begin

text \<open>
  \<open>buffered s dk buf f s'\<close>: since \<open>s\<close> only the 512 bytes at \<open>buf\<close> and the sectors of the disk have changed, and
  the sectors are \<open>f\<close> now.
\<close>

definition buffered :: "('d, 'z) vfs_state_scheme \<Rightarrow> addr \<Rightarrow> addr \<Rightarrow> (nat \<Rightarrow> u16 list) \<Rightarrow> ('d, 'z) vfs_state_scheme \<Rightarrow> bool" where
  "buffered s dk buf f s' \<longleftrightarrow> (\<exists>m d. s' = s\<lparr>mem := m, dev := d\<rparr> \<and> inv d \<and> phase d = Idle \<and>
     media d = (media (dev s))(is_master (disk_at s dk) = 0 := f) \<and> (\<forall>x. \<not> in_range buf 512 x \<longrightarrow> m x = mem s x))"

lemma buffered_start: "inv (dev s) \<Longrightarrow> phase (dev s) = Idle \<Longrightarrow> buffered s dk buf (sectors s dk) s"
  unfolding buffered_def by (intro exI [of _ "mem s"] exI [of _ "dev s"]) simp

lemma buffered_length: "buffered s dk buf f s' \<Longrightarrow> length (f x) = 256"
  unfolding buffered_def by (metis fun_upd_same sector_words)

lemma buffered_rd:
  assumes "buffered s dk buf f s'" and "attached base drives (disk_at s dk)"
    and "unat lba + 1 \<le> unat (sect_count (disk_at s dk))" and "unat lba + 1 \<le> 2 ^ 28"
  shows "buffered s dk buf f (rd io dk lba buf s')" and "words_at (mem (rd io dk lba buf s')) buf 256 = f (unat lba)"
proof -
  obtain m d where s': "s' = s\<lparr>mem := m, dev := d\<rparr>" "inv d" "phase d = Idle"
    "media d = (media (dev s))(is_master (disk_at s dk) = 0 := f)" "\<And>x. \<not> in_range buf 512 x \<Longrightarrow> m x = mem s x"
    using assms(1) unfolding buffered_def by blast
  obtain d' where d': "rd io dk lba buf s' = s\<lparr>mem := put_bytes m buf (sector_bytes (f (unat lba))), dev := d'\<rparr>"
    "inv d'" "phase d' = Idle" "media d' = media d"
    using read_one [of s' dk lba buf] assms(2-4) s'(2-4) by (auto simp: s'(1) rd_def)
  have len: "length (f (unat lba)) = 256" by (rule buffered_length [OF assms(1)])
  show "buffered s dk buf f (rd io dk lba buf s')"
    unfolding buffered_def using d' s'(4,5) len
    by (intro exI [of _ "put_bytes m buf (sector_bytes (f (unat lba)))"] exI [of _ d']) (simp add: put_bytes_out)
  show "words_at (mem (rd io dk lba buf s')) buf 256 = f (unat lba)"
    using words_at_put_bytes [of "f (unat lba)" m buf] len by (simp add: d'(1))
qed

lemma buffered_set:
  assumes "buffered s dk buf f s'" and "j < 256"
  shows "buffered s dk buf f (set16 buf (of_nat j) v s')"
    and "words_at (mem (set16 buf (of_nat j) v s')) buf 256 = (words_at (mem s') buf 256)[j := v]"
proof -
  obtain m d where s': "s' = s\<lparr>mem := m, dev := d\<rparr>" "inv d" "phase d = Idle"
    "media d = (media (dev s))(is_master (disk_at s dk) = 0 := f)" "\<And>x. \<not> in_range buf 512 x \<Longrightarrow> m x = mem s x"
    using assms(1) unfolding buffered_def by blast
  have "st16 m (buf + 2 * of_nat j) v x = mem s x" if "\<not> in_range buf 512 x" for x
  proof -
    have "\<not> in_range (buf + of_nat (2 * j)) 2 x" using in_range_sub [of "2 * j" 2 512 buf x] assms(2) that by auto
    then show ?thesis using s'(5) [OF that] by (simp add: st16_out)
  qed
  then show "buffered s dk buf f (set16 buf (of_nat j) v s')"
    unfolding buffered_def using s' by (intro exI [of _ "st16 m (buf + 2 * of_nat j) v"] exI [of _ d]) (simp add: set16_def)
  show "words_at (mem (set16 buf (of_nat j) v s')) buf 256 = (words_at (mem s') buf 256)[j := v]"
    using words_at_set [OF assms(2)] by (simp add: set16_def)
qed

lemma buffered_wr:
  assumes "buffered s dk buf f s'" and "attached base drives (disk_at s dk)"
    and "unat lba + 1 \<le> unat (sect_count (disk_at s dk))" and "unat lba + 1 \<le> 2 ^ 28"
  shows "buffered s dk buf (f(unat lba := words_at (mem s') buf 256)) (wr io dk lba buf s')"
proof -
  obtain m d where s': "s' = s\<lparr>mem := m, dev := d\<rparr>" "inv d" "phase d = Idle"
    "media d = (media (dev s))(is_master (disk_at s dk) = 0 := f)" "\<And>x. \<not> in_range buf 512 x \<Longrightarrow> m x = mem s x"
    using assms(1) unfolding buffered_def by blast
  have "word_sectors m buf 1 = [words_at m buf 256]" by (simp add: word_sectors_def)
  moreover have "put_sectors f l [ws] = f(l := ws)" for l ws by (simp add: put_sectors_Cons [symmetric])
  ultimately obtain d' where "wr io dk lba buf s' = s\<lparr>mem := m, dev := d'\<rparr>" "inv d'" "phase d' = Idle"
    "media d' = (media d)(is_master (disk_at s dk) = 0 := f(unat lba := words_at m buf 256))"
    using write_one [of s' dk lba buf] assms(2-4) s'(2-4) by (auto simp: s'(1) wr_def)
  then show ?thesis
    unfolding buffered_def using s'(4,5) by (intro exI [of _ m] exI [of _ d']) (simp add: s'(1))
qed

text \<open>Reading a sector, changing one or two entries in it, and writing it.\<close>

lemma buffered_entries:
  assumes "buffered s dk buf f s'" and "attached base drives (disk_at s dk)"
    and lba: "unat lba = l + k div 256" "unat lba + 1 \<le> unat (sect_count (disk_at s dk))" "unat lba + 1 \<le> 2 ^ 28"
  shows "buffered s dk buf (put_entry l k v f) (wr io dk lba buf (set16 buf (of_nat (k mod 256)) v (rd io dk lba buf s')))"
    and "k' div 256 = k div 256 \<Longrightarrow> buffered s dk buf (put_entry l k' v' (put_entry l k v f))
      (wr io dk lba buf (set16 buf (of_nat (k' mod 256)) v' (set16 buf (of_nat (k mod 256)) v (rd io dk lba buf s'))))"
proof -
  note r = buffered_rd [OF assms(1,2) lba(2,3)]
  have less: "k mod 256 < 256" "k' mod 256 < 256" by simp_all
  note w = buffered_set [OF r(1) less(1), where v = v, unfolded r(2)]
  note w' = buffered_set [OF w(1) less(2), where v = v', unfolded w(2)]
  show "buffered s dk buf (put_entry l k v f) (wr io dk lba buf (set16 buf (of_nat (k mod 256)) v (rd io dk lba buf s')))"
    using buffered_wr [OF w(1) assms(2) lba(2,3)] by (simp add: w(2) put_entry_def lba(1) del: fun_upd_apply)
  show "buffered s dk buf (put_entry l k' v' (put_entry l k v f))
      (wr io dk lba buf (set16 buf (of_nat (k' mod 256)) v' (set16 buf (of_nat (k mod 256)) v (rd io dk lba buf s'))))"
    if "k' div 256 = k div 256"
    using buffered_wr [OF w'(1) assms(2) lba(2,3)] that by (simp add: w'(2) put_entry_def lba(1))
qed

lemma table_sector:
  fixes start_fat :: u32
  assumes "i < count" and "k < n" and "n \<le> 256" and "count \<le> 256" and "unat start_fat + count * n \<le> cap" and "cap \<le> 2 ^ 28"
  shows "unat (start_fat + of_nat i * of_nat n + of_nat k) = unat start_fat + i * n + k"
    and "unat (start_fat + of_nat i * of_nat n + of_nat k) + 1 \<le> cap"
proof -
  have "i * n + n \<le> count * n" using mult_le_mono1 [of "Suc i" count n] assms(1) by simp
  then have b: "unat start_fat + (i * n + k) + 1 \<le> cap" using assms(2,5) by linarith
  have "unat (start_fat + of_nat (i * n + k)) = unat start_fat + (i * n + k)"
    using b assms(6) unat_of_nat32 [of "i * n + k"] by (simp add: unat_plus_if')
  then show "unat (start_fat + of_nat i * of_nat n + of_nat k) = unat start_fat + i * n + k" by (simp add: add.assoc)
  with b show "unat (start_fat + of_nat i * of_nat n + of_nat k) + 1 \<le> cap" by simp
qed

lemma tables_sector:
  assumes "tables_at b start_fat cap cur" and "i < unat (fat_count b)" and "k < unat (sectors_per_fat b)"
  shows "unat (start_fat + of_nat i * ucast (sectors_per_fat b) + of_nat k) = unat start_fat + i * unat (sectors_per_fat b) + k"
    and "unat (start_fat + of_nat i * ucast (sectors_per_fat b) + of_nat k) + 1 \<le> unat cap"
    and "unat (start_fat + of_nat i * ucast (sectors_per_fat b) + of_nat k) + 1 \<le> 2 ^ 28"
proof -
  have c: "unat (fat_count b) \<le> 256" using unat_u8 [of "fat_count b"] by simp
  have n: "ucast (sectors_per_fat b) = (of_nat (unat (sectors_per_fat b)) :: u32)" by simp
  note t = table_sector [OF assms(2,3) _ c, of start_fat "min (unat cap) (2 ^ 28)", folded n]
  have le: "unat (sectors_per_fat b) \<le> 256" "unat start_fat + unat (fat_count b) * unat (sectors_per_fat b) \<le> min (unat cap) (2 ^ 28)"
    using assms(1) by (simp_all add: tables_at_def)
  show "unat (start_fat + of_nat i * ucast (sectors_per_fat b) + of_nat k) = unat start_fat + i * unat (sectors_per_fat b) + k"
    and "unat (start_fat + of_nat i * ucast (sectors_per_fat b) + of_nat k) + 1 \<le> unat cap"
    and "unat (start_fat + of_nat i * ucast (sectors_per_fat b) + of_nat k) + 1 \<le> 2 ^ 28"
    using t [OF le] by simp_all
qed

lemma take_entry_skip:
  assumes "buffered s dk buf f s'" and "attached base drives (disk_at s dk)"
    and tab: "tables_at b start_fat (sect_count (disk_at s dk)) cur" "fat_count b \<noteq> 0"
    and i: "i < unat (sectors_per_fat b)" and full: "0 \<notin> set (f (unat start_fat + i))"
  obtains s'' where "\<And>is. take_entry io dk b start_fat cur buf junk (i # is) s' = take_entry io dk b start_fat cur buf junk is s''"
    and "buffered s dk buf f s''"
proof -
  have half: "half b = 256" using tab(1) by (simp add: half_def tables_at_def)
  have "0 < unat (fat_count b)" using tab(2) by (simp add: unat_gt_0)
  note sect = tables_sector [OF tab(1) this i, unfolded semiring_1_class.of_nat_0 mult_zero_left add_0_right]
  define s1 where "s1 = rd io dk (start_fat + of_nat i) buf s'"
  note r = buffered_rd [OF assms(1,2) sect(2,3), folded s1_def, unfolded sect(1)]
  have "length (f (unat start_fat + i)) = 256" by (rule buffered_length [OF assms(1)])
  then have "List.find (\<lambda>k. ld16 (mem s1) (buf + 2 * of_nat k) = 0) [0..<256] = None"
    using find_words_at [of "mem s1" buf 256] full
    by (auto simp: r(2) find_None_iff in_set_conv_nth simp del: upt_rec_numeral)
  then show thesis using that [OF _ r(1)] by (simp add: s1_def [symmetric] half Let_def del: upt_rec_numeral)
qed

lemma take_entry_full:
  assumes "buffered s dk buf f s'" and "attached base drives (disk_at s dk)"
    and "tables_at b start_fat (sect_count (disk_at s dk)) cur" and "fat_count b \<noteq> 0"
    and "\<And>i. i \<in> set is' \<Longrightarrow> i < unat (sectors_per_fat b) \<and> 0 \<notin> set (f (unat start_fat + i))"
  shows "\<exists>s''. take_entry io dk b start_fat cur buf junk is' s' = (0xffff, fst junk, 0xffffffff, snd junk, s'') \<and> buffered s dk buf f s''"
  using assms(1,5)
proof (induction is' arbitrary: s')
  case (Cons i js)
  have "i < unat (sectors_per_fat b)" "0 \<notin> set (f (unat start_fat + i))" using Cons.prems(2) by simp_all
  from take_entry_skip [OF Cons.prems(1) assms(2-4) this] obtain s1 where
    "take_entry io dk b start_fat cur buf junk (i # js) s' = take_entry io dk b start_fat cur buf junk js s1" "buffered s dk buf f s1"
    by metis
  then show ?case using Cons.IH [of s1] Cons.prems(2) by simp
qed simp

lemma take_entry_ok:
  assumes "buffered s dk buf f s'" and base: "attached base drives (disk_at s dk)"
    and tab: "tables_at b start_fat (sect_count (disk_at s dk)) cur" "fat_count b \<noteq> 0"
    and q: "q < unat (sectors_per_fat b)"
    and before: "\<And>i. i \<in> set pre \<Longrightarrow> i < unat (sectors_per_fat b) \<and> 0 \<notin> set (f (unat start_fat + i))"
    and j: "j < 256" "f (unat start_fat + q) ! j = 0" "\<And>i. i < j \<Longrightarrow> f (unat start_fat + q) ! i \<noteq> 0"
  shows "\<exists>s''. take_entry io dk b start_fat cur buf junk (pre @ q # rest) s' =
      (of_nat (256 * q + j), of_nat q, of_nat j, if eoc cur then 0xffff else of_nat (unat cur div 256), s'') \<and>
    buffered s dk buf (link_sectors cur (256 * q + j) (unat start_fat) f) s''"
  using assms(1) before
proof (induction pre arbitrary: s')
  have half: "half b = 256" using tab(1) by (simp add: half_def tables_at_def)
  have "0 < unat (fat_count b)" using tab(2) by (simp add: unat_gt_0)
  note sect = tables_sector [OF tab(1) this, unfolded semiring_1_class.of_nat_0 mult_zero_left add_0_right]
  {
    case Nil
    let ?l = "unat start_fat" and ?own = "unat cur div 256"
    define new where "new = 256 * q + j"
    have nq: "new div 256 = q" "new mod 256 = j" using j(1) by (simp_all add: new_def)
    define s1 where "s1 = rd io dk (start_fat + of_nat q) buf s'"
    define s2 where "s2 = set16 buf (of_nat j) 0xffff s1"
    have "words_at (mem s1) buf 256 = f (?l + q)"
      unfolding s1_def using buffered_rd(2) [OF Nil(1) base sect(2,3) [OF q]] by (simp only: sect(1) [OF q])
    then have step: "List.find (\<lambda>i. ld16 (mem s1) (buf + 2 * of_nat i) = 0) [0..<256] = Some j"
      using find_words_at [of "mem s1" buf 256] j by (simp add: find_first del: upt_rec_numeral)
    have n: "of_nat (q * half b + j) = (of_nat new :: u16)" by (simp add: half new_def mult.commute)
    have res: "take_entry io dk b start_fat cur buf junk ([] @ q # rest) s' =
        (if eoc cur then (of_nat new, of_nat q, of_nat j, 0xffff, wr io dk (start_fat + of_nat q) buf s2)
         else if ?own = q
         then (of_nat new, of_nat q, of_nat j, of_nat ?own, wr io dk (start_fat + of_nat ?own) buf (set16 buf (of_nat (unat cur mod 256)) (of_nat new) s2))
         else (of_nat new, of_nat q, of_nat j, of_nat ?own,
                wr io dk (start_fat + of_nat ?own) buf (set16 buf (of_nat (unat cur mod 256)) (of_nat new)
                  (rd io dk (start_fat + of_nat ?own) buf (wr io dk (start_fat + of_nat q) buf s2)))))"
      by (simp only: append_Nil take_entry.simps Let_def half step s1_def [symmetric] s2_def [symmetric] option.case n [unfolded half])
    note e = buffered_entries [OF Nil(1) base _ sect(2,3) [OF q], of ?l new, unfolded nq sect(1) [OF q], OF refl,
      where v = "0xffff", folded s1_def, folded s2_def]
    show ?case
    proof (cases "eoc cur")
      case False
      then have own: "?own < unat (sectors_per_fat b)" using tab(1) by (simp add: tables_at_def less_mult_imp_div_less mult.commute)
      show ?thesis
      proof (cases "?own = q")
        case True
        then show ?thesis using False e(2) [of "unat cur" "of_nat new"] unfolding res new_def [symmetric]
          by (simp add: link_sectors_def)
      next
        case other: False
        note e' = buffered_entries(1) [OF e(1) base _ sect(2,3) [OF own], of ?l "unat cur", unfolded sect(1) [OF own], OF refl, where v = "of_nat new"]
        show ?thesis using False other e' unfolding res new_def [symmetric] by (simp add: link_sectors_def)
      qed
    next
      case True
      then show ?thesis using e(1) unfolding res new_def [symmetric] by (simp add: link_sectors_def)
    qed
  next
    case (Cons i pre)
    have "i < unat (sectors_per_fat b)" "0 \<notin> set (f (unat start_fat + i))" using Cons.prems(2) by simp_all
    from take_entry_skip [OF Cons.prems(1) base tab this] obtain s1 where
      "take_entry io dk b start_fat cur buf junk (i # pre @ q # rest) s' = take_entry io dk b start_fat cur buf junk (pre @ q # rest) s1"
      "buffered s dk buf f s1" by metis
    then show ?case using Cons.IH [of s1] Cons.prems(2) by simp
  }
qed

lemma mirror_entry_ok:
  assumes "buffered s dk buf f s'" and base: "attached base drives (disk_at s dk)"
    and tab: "tables_at b start_fat (sect_count (disk_at s dk)) cur" and i: "i < unat (fat_count b)"
    and q: "q < unat (sectors_per_fat b)" and j: "j < 256"
  shows "buffered s dk buf (link_sectors cur (256 * q + j) (unat start_fat + i * unat (sectors_per_fat b)) f)
    (mirror_entry io dk b start_fat cur buf (of_nat (256 * q + j)) (of_nat q) (of_nat j)
      (if eoc cur then 0xffff else of_nat (unat cur div 256)) i s')"
proof -
  let ?own = "unat cur div 256" and ?l = "unat start_fat + i * unat (sectors_per_fat b)"
  define new where "new = 256 * q + j"
  have nq: "new div 256 = q" "new mod 256 = j" using j by (simp_all add: new_def)
  have half: "half b = 256" and n: "unat (sectors_per_fat b) \<le> 256" using tab by (simp_all add: half_def tables_at_def)
  note sect = tables_sector [OF tab i]
  note e = buffered_entries [OF assms(1) base _ sect(2,3) [OF q], of ?l new, unfolded nq sect(1) [OF q], OF refl, where v = "0xffff"]
  have uq: "unat (of_nat q :: u32) = q" using q n by (simp add: unat_of_nat32)
  show ?thesis
  proof (cases "eoc cur")
    case True
    have "of_nat q \<noteq> (0xffff :: u32)" using uq q n by auto
    then show ?thesis using e(1) True by (simp add: mirror_entry_def new_def [symmetric] half Let_def link_sectors_def)
  next
    case False
    then have own: "?own < unat (sectors_per_fat b)" using tab by (simp add: tables_at_def less_mult_imp_div_less mult.commute)
    have uo: "unat (of_nat ?own :: u32) = ?own" using own n by (simp add: unat_of_nat32)
    have small: "\<not> 0xfff8 \<le> (of_nat ?own :: u32)" using own n uo by (simp add: word_le_nat_alt)
    have eq: "(of_nat q :: u32) = of_nat ?own \<longleftrightarrow> ?own = q" using uq uo by metis
    show ?thesis
    proof (cases "?own = q")
      case True
      then show ?thesis using False e(2) [of "unat cur" "of_nat new"]
        by (simp add: mirror_entry_def new_def [symmetric] half Let_def link_sectors_def)
    next
      case other: False
      note e' = buffered_entries(1) [OF e(1) base _ sect(2,3) [OF own], of ?l "unat cur", unfolded sect(1) [OF own], OF refl, where v = "of_nat new"]
      show ?thesis using False other e' small eq by (simp add: mirror_entry_def new_def [symmetric] half Let_def link_sectors_def)
    qed
  qed
qed

lemma mirror_all_ok:
  assumes "buffered s dk buf (link_all cur (256 * q + j) (unat start_fat) (unat (sectors_per_fat b)) 1 f) s'"
    and "attached base drives (disk_at s dk)" and "tables_at b start_fat (sect_count (disk_at s dk)) cur"
    and "q < unat (sectors_per_fat b)" and "j < 256" and "1 \<le> k" and "k \<le> unat (fat_count b)"
  shows "buffered s dk buf (link_all cur (256 * q + j) (unat start_fat) (unat (sectors_per_fat b)) k f)
    (fold (mirror_entry io dk b start_fat cur buf (of_nat (256 * q + j)) (of_nat q) (of_nat j)
      (if eoc cur then 0xffff else of_nat (unat cur div 256))) [1..<k] s')"
  using assms(6,7)
proof (induction k rule: dec_induct)
  case (step k)
  then have k: "k < unat (fat_count b)" by simp
  show ?case using mirror_entry_ok [OF step.IH assms(2,3) k assms(4,5)] k step.hyps(1) by (simp add: link_all_Suc)
qed (use assms(1) in simp)

text \<open>The sector buffer: taken from the heap at the start and given back at the end.\<close>

lemma sector_buffer:
  fixes s :: "('d, 'z) vfs_state_scheme"
  assumes cl: "client s (Suc c)" and drive: "inv (dev s)" "phase (dev s) = Idle" and m: "heap_cream_malloc 512 s = (buf, s1)"
  shows "buffered s1 dk buf (sectors s dk) s1" and "disk_at s1 = disk_at s"
    and "buffered s1 dk buf g s3 \<Longrightarrow> s4 = snd (heap_cream_free buf s3) \<Longrightarrow> kept s c 0 0 s4 \<and> cream_objects s4 = cream_objects s \<and> file_at s4 = file_at s \<and>
      inv (dev s4) \<and> phase (dev s4) = Idle \<and> media (dev s4) = (media (dev s))(is_master (disk_at s dk) = 0 := g)"
proof -
  obtain N where a: "client s1 c" "heap_step s s1" "512 \<le> N" "cream_objects s1 = insert (buf, N) (cream_objects s)" "buf \<noteq> 0"
    and k1: "\<And>b l x. (b, l) \<in> cream_objects s \<Longrightarrow> in_range b l x \<Longrightarrow> mem s1 x = mem s x"
    and ap: "\<And>b l. (b, l) \<in> cream_objects s \<Longrightarrow> ranges_disjoint buf N b l" "buf \<notin> fst ` cream_objects s"
    by (rule client_malloc [OF cl _ _ m]) (auto simp: const_defs)
  note hs = heap_step_simps [OF a(2)]
  have same: "dev s1 = dev s" "disk_at s1 = disk_at s" using hs by simp_all
  show "disk_at s1 = disk_at s" by (fact same)
  show "buffered s1 dk buf (sectors s dk) s1" using buffered_start [of s1 dk buf] drive same by simp
  assume g: "buffered s1 dk buf g s3" and s4: "s4 = snd (heap_cream_free buf s3)"
  from g obtain m' d where s3: "s3 = s1\<lparr>mem := m', dev := d\<rparr>" "inv d" "phase d = Idle"
    "media d = (media (dev s))(is_master (disk_at s dk) = 0 := g)" "\<And>x. \<not> in_range buf 512 x \<Longrightarrow> m' x = mem s1 x"
    unfolding buffered_def same by blast
  have o1: "(buf, N) \<in> cream_objects s1" using a(4) by simp
  have out: "mem s3 x = mem s1 x" if "\<not> in_range buf N x" for x using that s3(5) in_range_mono [OF _ a(3), of buf x] by (auto simp: s3(1))
  have "mothermary s3 = mothermary s1" "kernel_heap s3 = kernel_heap s1" by (simp_all add: s3(1))
  note c3 = client_store [OF a(1) o1 out this]
  have o3: "(buf, N) \<in> cream_objects s3" using o1 c3(2) by simp
  note f4 = client_free [OF c3(1) o3 s4] and h4 = heap_step_simps [OF client_free(2) [OF c3(1) o3 s4]]
  have nin: "(buf, k) \<notin> cream_objects s" for k using ap(2) imageI [of "(buf, k)" "cream_objects s" fst] by auto
  have objs: "cream_objects s \<subseteq> cream_objects s4" using f4(3) c3(2) a(4) nin by blast
  have "mem s4 x = mem s x" if o: "(b, l) \<in> cream_objects s" "in_range b l x" for b l x
  proof -
    have "(b, l) \<in> cream_objects s3" using o(1) c3(2) a(4) by simp
    then have "mem s4 x = mem s3 x" using f4(5) o(2) by blast
    also have "\<dots> = mem s1 x" using ap(1) [OF o(1)] o(2) by (intro out) (auto simp: ranges_disjoint_def)
    finally show ?thesis using k1 [OF o] by simp
  qed
  then have "kept s c 0 0 s4" unfolding kept_def using f4(1) objs hs h4 by (auto simp: s3(1))
  moreover have "cream_objects s4 = cream_objects s"
  proof -
    have "lodged s3 buf (blocks_for 512)" by (rule same_pages_lodged [OF c3(3) client_lodged [OF cl m a(5)]])
    then have "cream_objects s4 = cream_objects s3 - {(buf, N)}" unfolding s4 by (intro client_release [OF c3(1) o3] lodged_reached)
    then show ?thesis using nin by (auto simp: c3(2) a(4))
  qed
  ultimately show "kept s c 0 0 s4 \<and> cream_objects s4 = cream_objects s \<and> file_at s4 = file_at s \<and>
      inv (dev s4) \<and> phase (dev s4) = Idle \<and> media (dev s4) = (media (dev s))(is_master (disk_at s dk) = 0 := g)"
    using s3(2-4) hs h4 by (simp add: s3(1))
qed

lemma get_free_cluster_ok:
  fixes s :: "('d, 'z) vfs_state_scheme"
  assumes cl: "client s (Suc c)" and drive: "inv (dev s)" "phase (dev s) = Idle" "attached base drives (disk_at s dk)"
    and b: "b = bpb_at s bpb" "fat_count b \<noteq> 0" and tab: "tables_at b start_fat (sect_count (disk_at s dk)) cur"
    and free: "free_at (sectors s dk) (unat start_fat) (unat (sectors_per_fat b)) new"
  shows "\<exists>s'. get_free_cluster io junk dk bpb start_fat cur s = (of_nat new, s') \<and> kept s c 0 0 s' \<and> cream_objects s' = cream_objects s \<and> file_at s' = file_at s \<and>
    inv (dev s') \<and> phase (dev s') = Idle \<and> media (dev s') = (media (dev s))(is_master (disk_at s dk) = 0 :=
      link_all cur new (unat start_fat) (unat (sectors_per_fat b)) (unat (fat_count b)) (sectors s dk))"
proof -
  let ?l = "unat start_fat" and ?n = "unat (sectors_per_fat b)" and ?f = "sectors s dk"
  obtain buf s1 where m: "heap_cream_malloc 512 s = (buf, s1)" by fastforce
  note sb = sector_buffer [OF cl drive(1,2) m]
  define q j where "q = new div 256" and "j = new mod 256"
  have new: "new = 256 * q + j" "j < 256" by (simp_all add: q_def j_def)
  have q: "q < ?n" using free by (simp add: q_def free_at_def less_mult_imp_div_less mult.commute)
  have len: "length (?f x) = 256" for x by (rule sector_words [OF drive(1)])
  have ent: "?f (?l + i) ! e = fat_table ?f ?l ?n ! (256 * i + e)" if "i < ?n" "e < 256" for i e
    using nth_fat_table [where f = ?f and k = "256 * i + e" and n = ?n and l = ?l] len that by simp
  have split: "[0..<?n] = [0..<q] @ q # [Suc q..<?n]" using q by (metis le_add1 plus_nat.add_0 upt_add_eq_append upt_conv_Cons le_add_diff_inverse less_imp_le)
  have "0 \<notin> set (?f (?l + i))" if "i < q" for i
  proof
    assume "0 \<in> set (?f (?l + i))"
    then obtain e where "e < 256" "?f (?l + i) ! e = 0" using len by (auto simp: in_set_conv_nth)
    moreover from this(1) have "256 * i + e < new" using that by (simp add: new(1))
    ultimately show False using ent [of i e] that q free by (simp add: free_at_def)
  qed
  note pre = this
  have at_j: "?f (?l + q) ! j = 0" "\<And>i. i < j \<Longrightarrow> ?f (?l + q) ! i \<noteq> 0"
    using ent [OF q] new free by (simp_all add: free_at_def)
  from sb(1) have "\<exists>s''. take_entry io dk b start_fat cur buf junk ([0..<q] @ q # [Suc q..<?n]) s1 =
      (of_nat (256 * q + j), of_nat q, of_nat j, if eoc cur then 0xffff else of_nat (unat cur div 256), s'') \<and>
    buffered s1 dk buf (link_sectors cur (256 * q + j) ?l ?f) s''"
    by (rule take_entry_ok) (use drive tab b(2) q new pre at_j sb(2) in simp_all)
  then obtain s2 where t: "take_entry io dk b start_fat cur buf junk [0..<?n] s1 =
      (of_nat new, of_nat q, of_nat j, if eoc cur then 0xffff else of_nat (unat cur div 256), s2)"
    and s2: "buffered s1 dk buf (link_sectors cur new ?l ?f) s2"
    unfolding split new(1) by blast
  define s3 where "s3 = fold (mirror_entry io dk b start_fat cur buf (of_nat new) (of_nat q) (of_nat j)
      (if eoc cur then 0xffff else of_nat (unat cur div 256))) [1..<unat (fat_count b)] s2"
  have "buffered s1 dk buf (link_all cur new ?l ?n (unat (fat_count b)) ?f) s3"
    unfolding s3_def new(1)
  proof (rule mirror_all_ok)
    show "buffered s1 dk buf (link_all cur (256 * q + j) ?l ?n 1 ?f) s2" using s2 by (simp add: link_all_def new(1))
    show "1 \<le> unat (fat_count b)" using b(2) unat_gt_0 [of "fat_count b"] by simp
  qed (use drive tab q new sb(2) in simp_all)
  note fr = sb(3) [OF this refl]
  have "bytes_per_sect b = 512" using tab by (simp add: tables_at_def)
  then have "get_free_cluster io junk dk bpb start_fat cur s = (of_nat new, snd (heap_cream_free buf s3))"
    using m t by (simp add: get_free_cluster_def b(1) [symmetric] s3_def)
  then show ?thesis using fr by blast
qed

text \<open>A volume without a free cluster and with one table: the end mark is the result, and no sector changes.\<close>

lemma get_free_cluster_full_ok:
  fixes s :: "('d, 'z) vfs_state_scheme"
  assumes cl: "client s (Suc c)" and drive: "inv (dev s)" "phase (dev s) = Idle" "attached base drives (disk_at s dk)"
    and b: "b = bpb_at s bpb" "fat_count b = 1" and tab: "tables_at b start_fat (sect_count (disk_at s dk)) cur"
    and full: "0 \<notin> set (fat_table (sectors s dk) (unat start_fat) (unat (sectors_per_fat b)))"
  shows "\<exists>s'. get_free_cluster io junk dk bpb start_fat cur s = (0xffff, s') \<and> kept s c 0 0 s' \<and> cream_objects s' = cream_objects s \<and> file_at s' = file_at s \<and>
    inv (dev s') \<and> phase (dev s') = Idle \<and> media (dev s') = media (dev s)"
proof -
  obtain buf s1 where m: "heap_cream_malloc 512 s = (buf, s1)" by fastforce
  note sb = sector_buffer [OF cl drive(1,2) m]
  have "i < unat (sectors_per_fat b) \<and> 0 \<notin> set (sectors s dk (unat start_fat + i))" if "i \<in> set [0..<unat (sectors_per_fat b)]" for i
    using that full by (auto simp: fat_table_def)
  with sb(1) obtain s2 where t: "take_entry io dk b start_fat cur buf junk [0..<unat (sectors_per_fat b)] s1 =
      (0xffff, fst junk, 0xffffffff, snd junk, s2)" and s2: "buffered s1 dk buf (sectors s dk) s2"
    using take_entry_full [where s = s1 and s' = s1] drive(3) tab b(2) sb(2) by (metis zero_neq_one)
  have "bytes_per_sect b = 512" using tab by (simp add: tables_at_def)
  then have "get_free_cluster io junk dk bpb start_fat cur s = (0xffff, snd (heap_cream_free buf s2))"
    using m t b(2) by (simp add: get_free_cluster_def b(1) [symmetric])
  then show ?thesis using sb(3) [OF s2 refl] by auto
qed

end

section \<open>Chains\<close>

lemma fat_next_table:
  "(\<And>x. length (f x) = 256) \<Longrightarrow> unat c < 256 * n \<Longrightarrow> fat_next f b start c = fat_table f (fat_start b start) n ! unat c"
  by (simp add: fat_next_def nth_fat_table)

lemma link_all_next:
  assumes len: "\<And>x. length (f x) = 256" and new: "new < 256 * n" "n \<le> 256" and cur: "eoc cur \<or> unat cur < 256 * n"
    and c: "unat c < 256 * n" and "k \<noteq> 0"
  shows "fat_next (link_all cur new (fat_start b start) n k f) b start c =
    (if \<not> eoc cur \<and> c = cur then of_nat new else if c = of_nat new then 0xffff else fat_next f b start c)"
proof -
  have un: "unat (of_nat new :: u16) = new" using new by (simp add: unat_of_nat16)
  have t: "fat_table (link_all cur new (fat_start b start) n k f) (fat_start b start) n = link_table cur new (fat_table f (fat_start b start) n)"
    using link_all_table [OF len new(1) cur, of 0 k "fat_start b start"] assms(6) by simp
  have "c = d \<longleftrightarrow> unat c = unat d" for d :: u16 by (rule word_unat_eq_iff)
  note eq = this
  show ?thesis
    unfolding fat_next_table [OF len c] fat_next_table [OF length_link_all [OF len] c] t eq un
    using c new(1) by (auto simp: link_table_def nth_list_update length_fat_table [OF len])
qed

lemma chain_inner: "chain nx c (cs @ [d]) \<Longrightarrow> x \<in> set cs \<Longrightarrow> \<not> eoc (nx x)"
proof (induction cs arbitrary: c)
  case (Cons e es)
  then have "chain nx (nx e) (es @ [d])" by simp
  then show ?case using Cons by (cases es) auto
qed simp

lemma chain_extend:
  assumes "chain nx c (cs @ [d])" and "\<And>x. x \<in> set cs \<Longrightarrow> ny x = nx x" and "ny d = e" and "\<not> eoc e" and "eoc (ny e)"
  shows "chain ny c (cs @ [d, e])"
  using assms(1,2) by (induction cs arbitrary: c) (use assms(3-5) in auto)

lemma link_all_chain:
  fixes n :: nat
  assumes len: "\<And>x. length (f x) = 256" and new: "new < 256 * n" "n \<le> 256" "\<not> eoc (of_nat new)" and k: "k \<noteq> 0"
    and free: "fat_next f b start (of_nat new) = 0"
    and ch: "chain (fat_next f b start) c (cs @ [cur])" "\<And>x. x \<in> set (cs @ [cur]) \<Longrightarrow> unat x < 256 * n"
    and last: "fat_next f b start cur \<noteq> 0"
  shows "of_nat new \<notin> set (cs @ [cur])"
    and "chain (fat_next (link_all cur new (fat_start b start) n k f) b start) c (cs @ [cur, of_nat new])"
proof -
  have un: "unat (of_nat new :: u16) = new" using new by (simp add: unat_of_nat16)
  have cur: "\<not> eoc cur" "unat cur < 256 * n" "cur \<notin> set cs"
    using chain_eoc [OF ch(1)] ch(2) chain_distinct [OF ch(1)] by auto
  note nx = link_all_next [where f = f and new = new and n = n and cur = cur and k = k and b = b and start = start, OF len new(1,2) _ _ k]
  have "of_nat new \<notin> set cs" using chain_inner [OF ch(1)] free by (force simp: eoc_def)
  then show notin: "of_nat new \<notin> set (cs @ [cur])" using free last by auto
  show "chain (fat_next (link_all cur new (fat_start b start) n k f) b start) c (cs @ [cur, of_nat new])"
  proof (rule chain_extend [OF ch(1)])
    fix x assume x: "x \<in> set cs"
    then have "unat x < 256 * n" "x \<noteq> cur" "x \<noteq> of_nat new" using ch(2) cur notin by auto
    then show "fat_next (link_all cur new (fat_start b start) n k f) b start x = fat_next f b start x" using nx cur by simp
  qed (use nx new cur un notin in \<open>auto simp: eoc_def\<close>)
qed

section \<open>A chain that is not extended\<close>

text \<open>
  \<open>write_hops\<close> at the end of a chain: it calls \<open>get_free_cluster\<close> with the end mark it has just read instead of
  the cluster that holds it.
\<close>

lemma link_all_unlinked:
  assumes len: "\<And>x. length (f x) = 256" and new: "new < 256 * n" "n \<le> 256" and e: "eoc e" and k: "k \<noteq> 0"
    and free: "fat_next f b start (of_nat new) = 0"
    and ch: "chain (fat_next f b start) c (cs @ [cur])" "\<And>x. x \<in> set (cs @ [cur]) \<Longrightarrow> unat x < 256 * n"
    and last: "fat_next f b start cur \<noteq> 0"
  shows "of_nat new \<notin> set (cs @ [cur])"
    and "chain (fat_next (link_all e new (fat_start b start) n k f) b start) c (cs @ [cur])"
    and "fat_next (link_all e new (fat_start b start) n k f) b start (of_nat new) = 0xffff"
proof -
  have un: "unat (of_nat new :: u16) = new" using new by (simp add: unat_of_nat16)
  note nx = link_all_next [where f = f and new = new and n = n and cur = e and k = k and b = b and start = start, OF len new _ _ k]
  show "fat_next (link_all e new (fat_start b start) n k f) b start (of_nat new) = 0xffff" using nx e new un by simp
  have "of_nat new \<notin> set cs" using chain_inner [OF ch(1)] free by (force simp: eoc_def)
  then show notin: "of_nat new \<notin> set (cs @ [cur])" using free last by auto
  show "chain (fat_next (link_all e new (fat_start b start) n k f) b start) c (cs @ [cur])"
  proof (rule chain_cong [OF ch(1)])
    fix x assume x: "x \<in> set (cs @ [cur])"
    then have "unat x < 256 * n" "x \<noteq> of_nat new" using ch(2) notin by auto
    then show "fat_next (link_all e new (fat_start b start) n k f) b start x = fat_next f b start x" using nx e by simp
  qed
qed

lemma tables_before_data: "fat_start b start + unat (fat_count b) * unat (sectors_per_fat b) \<le> data_start b start"
  by (simp add: data_start_def mult.commute)

lemma link_all_data:
  assumes "new < 256 * unat (sectors_per_fat b)" and "eoc cur \<or> unat cur < 256 * unat (sectors_per_fat b)"
  shows "cluster_data (link_all cur new (fat_start b start) (unat (sectors_per_fat b)) (unat (fat_count b)) f) b start c = cluster_data f b start c"
proof (rule cluster_data_cong)
  fix x assume "x \<in> cluster_sectors b start c"
  then have "fat_start b start + unat (fat_count b) * unat (sectors_per_fat b) \<le> x"
    using tables_before_data [of b start] by (simp add: cluster_sectors_def cluster_at_def)
  then show "link_all cur new (fat_start b start) (unat (sectors_per_fat b)) (unat (fat_count b)) f x = f x"
    using link_all_other [OF assms] by simp
qed

lemma free_at_next:
  "free_at f (fat_start b start) n new \<Longrightarrow> n \<le> 256 \<Longrightarrow> (\<And>x. length (f x) = 256) \<Longrightarrow> fat_next f b start (of_nat new) = 0"
  by (subst fat_next_table [where n = n]) (auto simp: free_at_def unat_of_nat16)

context ata_drive
begin

lemma write_hops_append:
  fixes s :: "('d, 'z) vfs_state_scheme"
  assumes cl: "client s (Suc c)" and drive: "inv (dev s)" "phase (dev s) = Idle" "attached base drives (disk_at s dk)"
    and b: "b = bpb_at s bpb" "fat_count b \<noteq> 0" "volume_ok b" and n: "unat (sectors_per_fat b) \<le> 256"
    and tab: "data_start b start \<le> unat (sect_count (disk_at s dk))"
    and cur: "in_volume b start (unat (sect_count (disk_at s dk))) cur" and e: "0xfff8 \<le> fat_next (sectors s dk) b start cur"
    and obj: "(single, N) \<in> cream_objects s" "512 \<le> N"
    and free: "free_at (sectors s dk) (fat_start b start) (unat (sectors_per_fat b)) new"
  shows "\<exists>s'. write_hops io junk dk node bpb start single 1 cur s = (of_nat new, s') \<and>
    media (dev s') (is_master (disk_at s dk) = 0) = link_all (fat_next (sectors s dk) b start cur) new (fat_start b start) (unat (sectors_per_fat b)) (unat (fat_count b)) (sectors s dk)"
proof -
  let ?e = "fat_next (sectors s dk) b start cur" and ?cap = "sect_count (disk_at s dk)"
  have eoc: "eoc ?e" using e by (simp add: eoc_def)
  obtain m d where h: "fat_hop io dk b start single cur s = (?e, s\<lparr>mem := m, dev := d\<rparr>)"
    and d: "inv d" "phase d = Idle" "media d = media (dev s)" "\<And>x. \<not> in_range single 512 x \<Longrightarrow> m x = mem s x"
    using fat_hop_ok [OF drive b(3) cur] by blast
  define s1 where "s1 = s\<lparr>mem := m, dev := d\<rparr>"
  have out: "mem s1 x = mem s x" if "\<not> in_range single N x" for x
    using d(4) [of x] in_range_mono [of single 512 x N] obj(2) that by (auto simp: s1_def)
  have "mothermary s1 = mothermary s" "kernel_heap s1 = kernel_heap s" by (simp_all add: s1_def)
  note c1 = client_store [OF cl obj(1) out this]
  have fl: "fat_start b start < 2 ^ 28" "fat_start b start = unat (start + ucast (reserved_sectors b))"
    using cur by (auto simp: in_volume_def fat_start_def unat_plus_if')
  have cap: "unat ?cap \<le> 2 ^ 28" using cur by (simp add: in_volume_def)
  have t: "tables_at b (start + ucast (reserved_sectors b)) (sect_count (disk_at s1 dk)) ?e"
    using b(3) n tab cap eoc tables_before_data [of b start] by (simp add: tables_at_def volume_ok_def fl(2) [symmetric] s1_def)
  have "\<exists>s'. get_free_cluster io junk dk bpb (start + ucast (reserved_sectors b)) ?e s1 = (of_nat new, s') \<and> kept s1 c 0 0 s' \<and>
    cream_objects s' = cream_objects s1 \<and> file_at s' = file_at s1 \<and> inv (dev s') \<and> phase (dev s') = Idle \<and> media (dev s') = (media (dev s1))(is_master (disk_at s1 dk) = 0 :=
      link_all ?e new (unat (start + ucast (reserved_sectors b))) (unat (sectors_per_fat b)) (unat (fat_count b)) (sectors s1 dk))"
    by (rule get_free_cluster_ok [OF c1(1) _ _ _ _ b(2) t])
      (use d drive(3) free in \<open>simp_all add: s1_def fl(2) [symmetric] b(1) [symmetric]\<close>)
  then obtain s' where g: "get_free_cluster io junk dk bpb (start + ucast (reserved_sectors b)) ?e s1 = (of_nat new, s')" "disk_at s' = disk_at s"
    "media (dev s') = (media (dev s1))(is_master (disk_at s1 dk) = 0 :=
      link_all ?e new (unat (start + ucast (reserved_sectors b))) (unat (sectors_per_fat b)) (unat (fat_count b)) (sectors s1 dk))"
    by (auto simp: kept_def s1_def)
  have "write_hops io junk dk node bpb start single (Suc 0) cur s = (of_nat new, upd_node node (\<lambda>k. k\<lparr>dirty_bit := 1\<rparr>) s')"
    using h g(1) eoc b(1) by (simp add: s1_def)
  then show ?thesis using g(2,3) d(3) by (simp add: fl(2) s1_def)
qed

end

section \<open>A volume\<close>

text \<open>
  A volume with two tables of a sector each, in which a file has the clusters 2 and 5 and cluster 3 is the first free one.
\<close>

definition alloc_bpb :: fat16_bpb where
  "alloc_bpb = demo_bpb\<lparr>fat_count := 2\<rparr>"

definition alloc_sector :: "u16 list" where
  "alloc_sector = [0xfff8, 0xffff, 5, 0, 0, 0xffff] @ replicate 250 0"

definition alloc_channel :: channel where
  "alloc_channel = blank_channel\<lparr>ch_media := \<lambda>_ n. if n = 64 \<or> n = 65 then alloc_sector else replicate 256 (of_nat n)\<rparr>"

definition alloc_state :: "channel vfs_state" where
  "alloc_state = started ((vfs_blank alloc_channel)\<lparr>bpb_at := \<lambda>_. alloc_bpb\<rparr>)"

lemma alloc_fields:
  "dev alloc_state = alloc_channel" "disk_at alloc_state p = blank_disk" "bpb_at alloc_state p = alloc_bpb"
  "client alloc_state 124" "cream_objects alloc_state = {}" "ch_inv alloc_channel" "ch_phase alloc_channel = Idle"
  unfolding alloc_state_def by (simp add: vfs_blank_def, simp add: vfs_blank_def, simp, (rule started_client; simp add: vfs_blank_def)+,
    simp_all add: alloc_channel_def alloc_sector_def blank_channel_def ch_inv_def)

lemma alloc_volume:
  "tables_at alloc_bpb 64 1000 5" "volume_ok alloc_bpb" "fat_start alloc_bpb 63 = 64"
  "x \<in> {2, 5} \<Longrightarrow> in_table alloc_bpb x" "in_volume alloc_bpb 63 1000 5" "data_start alloc_bpb 63 \<le> 1000"
  by (auto simp: tables_at_def alloc_bpb_def demo_bpb_def volume_ok_def fat_start_def in_table_def in_volume_def data_start_def)

lemma alloc_table:
  "fat_table (ch_media alloc_channel False) 64 1 = alloc_sector" "fat_table (ch_media alloc_channel False) 65 1 = alloc_sector"
  "free_at (ch_media alloc_channel False) 64 1 3"
proof -
  show t: "fat_table (ch_media alloc_channel False) 64 1 = alloc_sector" "fat_table (ch_media alloc_channel False) 65 1 = alloc_sector"
    by (simp_all add: fat_table_def alloc_channel_def)
  show "free_at (ch_media alloc_channel False) 64 1 3" unfolding free_at_def t by (auto simp: alloc_sector_def nth_Cons')
qed

lemma alloc_chain:
  "chain (fat_next (ch_media alloc_channel False) alloc_bpb 63) 2 [2, 5]"
  "fat_next (ch_media alloc_channel False) alloc_bpb 63 5 = 0xffff"
  by (simp_all add: fat_next_def alloc_volume(3) alloc_channel_def alloc_sector_def eoc_def)

section \<open>Properties\<close>

text \<open>C30: taking a free cluster finds the first free entry of the table; in every table of the volume it gives this entry the end
  mark and the entry of the last cluster the new number, and it changes no other sector of either drive; the live objects of the heap
  are those of before, with their bytes.\<close>

theorem get_free_cluster_marks:
  fixes s :: "('d, 'z) vfs_state_scheme"
  assumes "ata_drive io base drives dinv regs media phase pending"
    and "client s (Suc c)" and "dinv (dev s)" and "phase (dev s) = Idle" and "attached base drives (disk_at s dk)"
    and "b = bpb_at s bpb" and "fat_count b \<noteq> 0" and "tables_at b start_fat (sect_count (disk_at s dk)) cur"
    and sl: "sl \<longleftrightarrow> is_master (disk_at s dk) = 0" and n: "n = unat (sectors_per_fat b)"
    and "free_at (media (dev s) sl) (unat start_fat) n new"
  shows "\<exists>s'. get_free_cluster io junk dk bpb start_fat cur s = (of_nat new, s') \<and> kept s c 0 0 s' \<and> cream_objects s' = cream_objects s \<and>
    (\<forall>i < unat (fat_count b). fat_table (media (dev s') sl) (unat start_fat + i * n) n =
      link_table cur new (fat_table (media (dev s) sl) (unat start_fat + i * n) n)) \<and>
    (\<forall>x. x < unat start_fat \<or> unat start_fat + unat (fat_count b) * n \<le> x \<longrightarrow> media (dev s') sl x = media (dev s) sl x) \<and>
    media (dev s') (\<not> sl) = media (dev s) (\<not> sl)"
proof -
  let ?f = "media (dev s) sl" and ?l = "unat start_fat"
  obtain s' where s': "get_free_cluster io junk dk bpb start_fat cur s = (of_nat new, s')" "kept s c 0 0 s'"
    "cream_objects s' = cream_objects s"
    and med: "media (dev s') = (media (dev s))(sl := link_all cur new ?l n (unat (fat_count b)) ?f)"
    using ata_drive.get_free_cluster_ok [OF assms(1-8) assms(11) [unfolded sl n], where junk = junk] unfolding sl n by blast
  have len: "length (?f x) = 256" for x by (rule ata_drive.sector_words [OF assms(1,3)])
  have new: "new < 256 * n" and cur: "eoc cur \<or> unat cur < 256 * n" using assms(8,11) by (simp_all add: free_at_def tables_at_def n)
  have "fat_table (media (dev s') sl) (?l + i * n) n = link_table cur new (fat_table ?f (?l + i * n) n)" if "i < unat (fat_count b)" for i
    using link_all_table [where f = ?f, OF len new cur that, of ?l] by (simp add: med)
  moreover have "media (dev s') sl x = ?f x" if "x < ?l \<or> ?l + unat (fat_count b) * n \<le> x" for x
    using link_all_other [OF new cur that] by (simp add: med)
  ultimately show ?thesis using s' by (intro exI [of _ s']) (auto simp: med)
qed

lemma get_free_cluster_marks_witness:
  "\<exists>s'. get_free_cluster ch_io (0, 0) 0x204000 0x600000 64 5 alloc_state = (3, s') \<and>
    fat_table (ch_media (dev s') False) 65 1 = alloc_sector[3 := 0xffff, 5 := 3]"
proof -
  have cl: "client alloc_state (Suc 123)" using alloc_fields by simp
  have b: "alloc_bpb = bpb_at alloc_state 0x600000" by (simp add: alloc_fields)
  have sl: "False \<longleftrightarrow> is_master (disk_at alloc_state 0x204000) = 0" by (simp add: alloc_fields blank_disk_def)
  have n: "1 = unat (sectors_per_fat alloc_bpb)" by (simp add: alloc_bpb_def demo_bpb_def)
  have tab: "tables_at alloc_bpb 64 (sect_count (disk_at alloc_state 0x204000)) 5"
    using alloc_volume(1) by (simp add: alloc_fields blank_disk_def)
  from get_free_cluster_marks [OF pio.ata_drive_axioms cl _ _ _ b _ tab sl n, where new = 3 and junk = "(0, 0)"]
  show ?thesis using alloc_table
    by (auto simp: alloc_fields alloc_bpb_def demo_bpb_def blank_disk_def link_table_def eoc_def dest: spec [of _ 1])
qed

text \<open>On a full volume with one table the end mark is the result and no sector changes.\<close>

theorem get_free_cluster_full:
  fixes s :: "('d, 'z) vfs_state_scheme"
  assumes "ata_drive io base drives dinv regs media phase pending"
    and "client s (Suc c)" and "dinv (dev s)" and "phase (dev s) = Idle" and "attached base drives (disk_at s dk)"
    and "b = bpb_at s bpb" and "fat_count b = 1" and "tables_at b start_fat (sect_count (disk_at s dk)) cur"
    and "0 \<notin> set (fat_table (media (dev s) (is_master (disk_at s dk) = 0)) (unat start_fat) (unat (sectors_per_fat b)))"
  shows "\<exists>s'. get_free_cluster io junk dk bpb start_fat cur s = (0xffff, s') \<and> media (dev s') = media (dev s)"
  using ata_drive.get_free_cluster_full_ok [OF assms] by blast

text \<open>C31: taking a free cluster for a file extends its chain and its contents by this cluster; the contents of all clusters and the
  chains of all other files stay.\<close>

theorem get_free_cluster_extends_chain:
  fixes s :: "('d, 'z) vfs_state_scheme"
  assumes "ata_drive io base drives dinv regs media phase pending"
    and "client s (Suc c)" and "dinv (dev s)" and "phase (dev s) = Idle" and "attached base drives (disk_at s dk)"
    and "b = bpb_at s bpb" and "fat_count b \<noteq> 0" and "tables_at b start_fat (sect_count (disk_at s dk)) cur"
    and sl: "sl \<longleftrightarrow> is_master (disk_at s dk) = 0" and start: "unat start_fat = fat_start b start"
    and free: "free_at (media (dev s) sl) (unat start_fat) (unat (sectors_per_fat b)) new" and "\<not> eoc (of_nat new)"
    and ch: "chain (fat_next (media (dev s) sl) b start) first (cs @ [cur])"
    and tab: "\<And>x. x \<in> set (cs @ [cur]) \<Longrightarrow> in_table b x" and "fat_next (media (dev s) sl) b start cur \<noteq> 0"
  shows "\<exists>s'. get_free_cluster io junk dk bpb start_fat cur s = (of_nat new, s') \<and>
    chain (fat_next (media (dev s') sl) b start) first (cs @ [cur, of_nat new]) \<and>
    file_bytes (media (dev s') sl) b start (cs @ [cur, of_nat new]) =
      file_bytes (media (dev s) sl) b start (cs @ [cur]) @ cluster_data (media (dev s) sl) b start (of_nat new) \<and>
    (\<forall>d ds. chain (fat_next (media (dev s) sl) b start) d ds \<longrightarrow> cur \<notin> set ds \<longrightarrow>
      (\<forall>x \<in> set ds. in_table b x \<and> fat_next (media (dev s) sl) b start x \<noteq> 0) \<longrightarrow>
      chain (fat_next (media (dev s') sl) b start) d ds \<and> file_bytes (media (dev s') sl) b start ds = file_bytes (media (dev s) sl) b start ds)"
proof -
  let ?f = "media (dev s) sl" and ?n = "unat (sectors_per_fat b)" and ?g = "link_all cur new (fat_start b start) (unat (sectors_per_fat b)) (unat (fat_count b)) (media (dev s) sl)"
  obtain s' where s': "get_free_cluster io junk dk bpb start_fat cur s = (of_nat new, s')"
    and "media (dev s') = (media (dev s))(sl := link_all cur new (unat start_fat) ?n (unat (fat_count b)) ?f)"
    using ata_drive.get_free_cluster_ok [OF assms(1-8) free [unfolded sl], where junk = junk] unfolding sl by blast
  then have med: "media (dev s') sl = ?g" by (simp add: start)
  have len: "length (?f x) = 256" for x by (rule ata_drive.sector_words [OF assms(1,3)])
  have n: "?n \<le> 256" and cur: "eoc cur \<or> unat cur < 256 * ?n" and new: "new < 256 * ?n"
    using assms(8) free by (simp_all add: tables_at_def free_at_def)
  have k: "unat (fat_count b) \<noteq> 0" using assms(7) by (simp add: unat_eq_zero)
  have lim: "in_table b x \<Longrightarrow> unat x < 256 * ?n" for x by (auto simp: in_table_def)
  have zero: "fat_next ?f b start (of_nat new) = 0" by (rule free_at_next [OF free [unfolded start] n len])
  have data: "cluster_data ?g b start = cluster_data ?f b start" by (rule ext) (rule link_all_data [OF new cur])
  note l = link_all_chain [where f = ?f, OF len new n assms(12) k zero ch lim [OF tab] assms(15)]
  have bytes: "file_bytes ?g b start ds = file_bytes ?f b start ds" for ds by (simp add: file_bytes_def data)
  have other: "chain (fat_next ?g b start) d ds"
    if d: "chain (fat_next ?f b start) d ds" "cur \<notin> set ds" "\<forall>x \<in> set ds. in_table b x \<and> fat_next ?f b start x \<noteq> 0" for d ds
  proof (rule chain_cong [OF d(1)])
    fix x assume "x \<in> set ds"
    then have "unat x < 256 * ?n" "x \<noteq> cur" "x \<noteq> of_nat new" using d(2,3) lim zero by auto
    then show "fat_next ?g b start x = fat_next ?f b start x" using link_all_next [where f = ?f, OF len new n cur _ k] by simp
  qed
  show ?thesis
    using s' l(2) other by (intro exI [of _ s']) (auto simp: med bytes, simp add: file_bytes_def)
qed

lemma get_free_cluster_extends_chain_witness:
  "\<exists>s'. get_free_cluster ch_io (0, 0) 0x204000 0x600000 64 5 alloc_state = (3, s') \<and>
    chain (fat_next (ch_media (dev s') False) alloc_bpb 63) 2 [2, 5, 3]"
proof -
  have cl: "client alloc_state (Suc 123)" using alloc_fields by simp
  have b: "alloc_bpb = bpb_at alloc_state 0x600000" by (simp add: alloc_fields)
  have sl: "False \<longleftrightarrow> is_master (disk_at alloc_state 0x204000) = 0" by (simp add: alloc_fields blank_disk_def)
  have tab: "tables_at alloc_bpb 64 (sect_count (disk_at alloc_state 0x204000)) 5"
    using alloc_volume(1) by (simp add: alloc_fields blank_disk_def)
  from get_free_cluster_extends_chain [OF pio.ata_drive_axioms cl _ _ _ b _ tab sl, where new = 3 and junk = "(0, 0)" and cs = "[2]" and start = 63 and first = 2]
  show ?thesis using alloc_table alloc_chain alloc_volume
    by (simp add: alloc_fields blank_disk_def eoc_def) (auto simp: alloc_bpb_def demo_bpb_def)
qed

text \<open>C32: a hop beyond the last cluster of a file, as of a write behind its end, takes the first free cluster out of the table, but does
  not append it: the chain of the file is the same as before, and the new cluster is marked as used without being on it.\<close>

theorem write_hops_loses_cluster:
  fixes s :: "('d, 'z) vfs_state_scheme"
  assumes "ata_drive io base drives dinv regs media phase pending"
    and "client s (Suc c)" and "dinv (dev s)" and "phase (dev s) = Idle" and "attached base drives (disk_at s dk)"
    and "b = bpb_at s bpb" and "fat_count b \<noteq> 0" and "volume_ok b" and "unat (sectors_per_fat b) \<le> 256"
    and "data_start b start \<le> unat (sect_count (disk_at s dk))"
    and "in_volume b start (unat (sect_count (disk_at s dk))) cur"
    and sl: "sl \<longleftrightarrow> is_master (disk_at s dk) = 0"
    and last: "0xfff8 \<le> fat_next (media (dev s) sl) b start cur"
    and "(single, N) \<in> cream_objects s" and "512 \<le> N"
    and free: "free_at (media (dev s) sl) (fat_start b start) (unat (sectors_per_fat b)) new"
    and ch: "chain (fat_next (media (dev s) sl) b start) first (cs @ [cur])"
    and tab: "\<And>x. x \<in> set (cs @ [cur]) \<Longrightarrow> in_table b x"
  shows "\<exists>s'. write_hops io junk dk node bpb start single 1 cur s = (of_nat new, s') \<and>
    chain (fat_next (media (dev s') sl) b start) first (cs @ [cur]) \<and> of_nat new \<notin> set (cs @ [cur]) \<and>
    fat_next (media (dev s) sl) b start (of_nat new) = 0 \<and> fat_next (media (dev s') sl) b start (of_nat new) = 0xffff"
proof -
  let ?f = "media (dev s) sl" and ?n = "unat (sectors_per_fat b)"
  let ?e = "fat_next ?f b start cur"
  obtain s' where s': "write_hops io junk dk node bpb start single 1 cur s = (of_nat new, s')"
    and med: "media (dev s') sl = link_all ?e new (fat_start b start) ?n (unat (fat_count b)) ?f"
    using ata_drive.write_hops_append [OF assms(1-11) last [unfolded sl] assms(14,15) free [unfolded sl], where junk = junk and node = node]
    unfolding sl by blast
  have len: "length (?f x) = 256" for x by (rule ata_drive.sector_words [OF assms(1,3)])
  have new: "new < 256 * ?n" using free by (simp add: free_at_def)
  have k: "unat (fat_count b) \<noteq> 0" using assms(7) by (simp add: unat_eq_zero)
  have lim: "in_table b x \<Longrightarrow> unat x < 256 * ?n" for x by (auto simp: in_table_def)
  have zero: "fat_next ?f b start (of_nat new) = 0" by (rule free_at_next [OF free assms(9) len])
  have e: "eoc ?e" "?e \<noteq> 0" using last by (auto simp: eoc_def)
  show ?thesis using link_all_unlinked [where f = ?f, OF len new assms(9) e(1) k zero ch lim [OF tab] e(2)] s' zero
    by (intro exI [of _ s']) (simp add: med)
qed

lemma write_hops_loses_cluster_witness:
  "\<exists>(s :: channel vfs_state) single s'. write_hops ch_io (0, 0) 0x204000 0x400000 0x600000 63 single 1 5 s = (3, s') \<and>
    chain (fat_next (ch_media (dev s') False) alloc_bpb 63) 2 [2, 5]"
proof -
  obtain a s where m: "heap_cream_malloc 512 alloc_state = (a, s)" by fastforce
  have "client alloc_state (Suc 123)" using alloc_fields by simp
  then obtain N where o: "client s 123" "heap_step alloc_state s" "512 \<le> N" "cream_objects s = insert (a, N) (cream_objects alloc_state)"
    by (rule client_malloc [OF _ _ _ m]) (auto simp: const_defs)
  note f = alloc_fields heap_step_simps [OF o(2)]
  have cl: "client s (Suc 122)" using o(1) by simp
  have b: "alloc_bpb = bpb_at s 0x600000" by (simp add: f)
  have sl: "False \<longleftrightarrow> is_master (disk_at s 0x204000) = 0" by (simp add: f blank_disk_def)
  have obj: "(a, N) \<in> cream_objects s" using o(4) by simp
  from write_hops_loses_cluster [OF pio.ata_drive_axioms cl _ _ _ b _ alloc_volume(2) _ _ _ sl _ obj o(3),
    where new = 3 and junk = "(0, 0)" and cs = "[2]" and start = 63 and first = 2 and cur = 5 and node = "0x400000"]
  show ?thesis using alloc_table alloc_chain alloc_volume
    by (simp add: f blank_disk_def del: write_hops.simps) (auto simp: alloc_bpb_def demo_bpb_def simp del: write_hops.simps)
qed

end
