(* ===== verification/Start_Up.thy ===== *)
theory Start_Up
  imports Partitions
begin

text \<open>
  The start of the kernel, \<open>kernel_main\<close> of \<open>src/kernel/kernel.c\<close>: the order in which the components are
  initialised, what they leave to each other, and that the start-up ends on every device.
\<close>

section \<open>The code\<close>

record 'd kernel_state = "'d disk_state" +
  G_ROOT_DRIVE :: byte
  G_ROOT_PART :: byte

text \<open>\<open>enable_interrupts\<close> is the assembly routine with \<open>sti\<close>.\<close>

definition enable_interrupts :: "('d, 'z) kernel_state_scheme \<Rightarrow> ('d, 'z) kernel_state_scheme" where
  "enable_interrupts s = s\<lparr>interrupts := True\<rparr>"

text \<open>\<open>kernel_main\<close> up to the set-up of the object heap; the arguments \<open>sr0\<close> to \<open>isr_x\<close> are the handler addresses.\<close>

definition kernel_setup ::
  "'d port_io \<Rightarrow> addr \<Rightarrow> addr \<Rightarrow> addr \<Rightarrow> addr \<Rightarrow> byte \<Rightarrow> byte \<Rightarrow> byte \<Rightarrow> ('d, 'z) kernel_state_scheme \<Rightarrow> ('d, 'z) kernel_state_scheme" where
  "kernel_setup io sr0 sr20 sr21 isr_x boot_drive root_drive root_partitions s =
     (let s1 = clear_screen (s\<lparr>G_BOOT_DRIVE := boot_drive, G_ROOT_DRIVE := root_drive, G_ROOT_PART := root_partitions\<rparr>);
          s2 = kheap_init (print (lit ([CHR 9, CHR 9] @ ''GENESIS-32 '') @ nl @ lit ''kernel loaded successfully.'' @ nl) s1);
          s3 = idt_init sr0 sr20 sr21 isr_x (print (lit ''kernel heap setup initalized....'' @ nl) s2);
          s4 = upd_dev (fold (\<lambda>(p, v). outb_p io p v) (pit_init 100)) (print (lit ''interrupt table loaded .....'' @ nl) s3)
      in case create_32_dir_table (PAGING_PRESENT OR READ_AND_WRITE) (print (lit ''set pit to a safe 100hz'') s4) of
           (directory_table, s5) \<Rightarrow>
             let s6 = set_dir_table directory_table (print (lit ''directory table for 4gb set....'' @ nl) s5);
                 s7 = enable_paging (print (lit ''directory table loaded......'' @ nl) s6)
             in help_me_mary_mother_of_god (print (lit ''paging enabled...'' @ nl) s7))"

definition kernel_main ::
  "'d port_io \<Rightarrow> addr \<Rightarrow> addr \<Rightarrow> addr \<Rightarrow> addr \<Rightarrow> byte \<Rightarrow> byte \<Rightarrow> byte \<Rightarrow> ('d, 'z) kernel_state_scheme \<Rightarrow>
    ('d, 'z) kernel_state_scheme option" where
  "kernel_main io sr0 sr20 sr21 isr_x boot_drive root_drive root_partitions s =
     (let s1 = kernel_setup io sr0 sr20 sr21 isr_x boot_drive root_drive root_partitions s;
          s2 = disk_search_and_init io (print (lit ''searching for disks....'' @ nl) s1);
          s3 = disk_debug_print (print (lit ''printing info obtained'' @ nl @ nl) s2);
          s4 = scan_part_all_disks io (print (lit ''searching for partitions..'' @ nl) s3)
      in map_option (\<lambda>s5. print (lit ''interrupts enabled....'' @ nl) (enable_interrupts s5)) (partition_debug s4))"

section \<open>Transfers on any device\<close>

lemma in_words_Suc: "in_words io p (Suc n) a st =
  (case in_words io p n a st of (m, d) \<Rightarrow> case in16_p io p d of (w, d1) \<Rightarrow> (st16 m (a + 2 * of_nat n) w, d1))"
  by (simp add: in_words_def)

lemma in_words_out: "n \<le> 2 ^ 31 \<Longrightarrow> \<not> in_range a (2 * n) x \<Longrightarrow> in_words io p n a (m, d) = (m', d') \<Longrightarrow> m' x = m x"
proof (induction n arbitrary: m' d')
  case 0
  then show ?case by (simp add: in_words_def)
next
  case (Suc n)
  obtain m1 d1 where w: "in_words io p n a (m, d) = (m1, d1)" by fastforce
  have nin: "\<not> in_range (a + 2 * of_nat n) 2 x"
    using in_range_sub [of "2 * n" 2 "2 * Suc n" a x] Suc.prems(1,2) by auto
  have "m1 x = m x" using Suc.IH [OF _ _ w] Suc.prems in_range_mono [of a "2 * n" x "2 * Suc n"] by auto
  moreover have "m' x = m1 x" using Suc.prems(3) w st16_out [OF nin] by (auto simp: in_words_Suc split: prod.splits)
  ultimately show ?case by simp
qed

lemma read_sectors_out: "n \<le> 2 ^ 23 \<Longrightarrow> \<not> in_range cur (512 * n) x \<Longrightarrow> read_sectors io base n cur (m, d) = (r, m', d') \<Longrightarrow> m' x = m x"
proof (induction n arbitrary: cur m d)
  case (Suc n)
  have out: "\<not> in_range cur (2 * 256) x" "\<not> in_range (cur + 512) (512 * n) x"
    using Suc.prems(1,2) in_range_mono [of cur 512 x "512 * Suc n"] in_range_sub [of 512 "512 * n" "512 * Suc n" cur x] by auto
  obtain ok d1 where w: "wait_while (not_data_ready io (base + 7)) ATA_WAIT d = (ok, d1)" by fastforce
  obtain e d2 where e: "status_error io (base + 7) d1 = (e, d2)" by fastforce
  obtain m1 d3 where i: "in_words io base 256 cur (m, d2) = (m1, d3)" by fastforce
  have "m1 x = m x" by (rule in_words_out [OF _ out(1) i]) simp
  then show ?case
    using Suc.IH [OF _ out(2), of m1 d3] Suc.prems w e i
    by (cases ok; cases e) (auto simp: SECTOR_SIZE_DISK_GENERAL_WORD_def)
qed simp

lemma dev_only: "s\<lparr>dev := d\<rparr> = s\<lparr>mem := mem s, dev := d\<rparr>"
  by (cases s) simp

lemma read_disk_block_any:
  assumes "read_disk_block io p lba n buf s = (r, s')" and "unat n \<le> 2 ^ 23"
  obtains m d where "s' = s\<lparr>mem := m, dev := d\<rparr>" and "\<And>x. \<not> in_range buf (512 * unat n) x \<Longrightarrow> m x = mem s x"
proof -
  define base where "base = base_data_port (disk_at s p)"
  obtain a1 d1 where w1: "wait_while (busy io (base + 7)) ATA_WAIT (select_drive io (disk_at s p) lba (dev s)) = (a1, d1)" by fastforce
  obtain a2 d2 where w2: "wait_while (busy io (base + 7)) ATA_WAIT (set_registers io base lba n d1) = (a2, d2)" by fastforce
  obtain a3 d3 where w3: "wait_while (busy io (base + 7)) ATA_WAIT (outb_p io (base + 7) 0x20 d2) = (a3, d3)" by fastforce
  obtain r4 m d where rs: "read_sectors io base (unat n) buf (mem s, d3) = (r4, m, d)" by (metis prod_cases3)
  have "s' = s \<or> (\<exists>d. s' = s\<lparr>dev := d\<rparr>) \<or> s' = s\<lparr>mem := m, dev := d\<rparr>"
    using assms(1) by (auto simp: read_disk_block_def base_def [symmetric] Let_def w1 w2 w3 rs split: if_splits bool.splits)
  moreover have "m x = mem s x" if "\<not> in_range buf (512 * unat n) x" for x
    by (rule read_sectors_out [OF assms(2) that rs])
  moreover have "s = s\<lparr>mem := mem s, dev := dev s\<rparr>" by simp
  ultimately show thesis using that [where m = m and d = d] that [where m = "mem s"] dev_only by metis
qed

lemma get_disk_info_any:
  assumes "s' = get_disk_info io p command buf s"
  obtains m d where "s' = s\<lparr>mem := m, dev := d\<rparr>" and "\<And>x. \<not> in_range buf 512 x \<Longrightarrow> m x = mem s x"
proof -
  define k where "k = disk_at s p"
  obtain a1 d1 where w1: "wait_while_dec (busy io (command_status_port k)) ATA_WAIT
      (inb_times io (base_data_port k + 6) 4 (outb_p io (head k) (drive_head k) (outb_p io (control_port k) 0 (dev s)))) = (a1, d1)" by fastforce
  obtain a2 d2 where w2: "wait_while_dec (busy_or_no_data io (command_status_port k)) ATA_WAIT
      (outb_p io (command_status_port k) command d1) = (a2, d2)" by fastforce
  obtain m d where rs: "in_words io (base_data_port k) 256 buf (mem s, d2) = (m, d)" by fastforce
  have "(\<exists>d. s' = s\<lparr>dev := d\<rparr>) \<or> s' = s\<lparr>mem := m, dev := d\<rparr>"
    unfolding assms by (auto simp: get_disk_info_def k_def [symmetric] Let_def w1 w2 rs split: bool.splits)
  moreover have "m x = mem s x" if "\<not> in_range buf 512 x" for x
    by (rule in_words_out [OF _ _ rs]) (use that in simp_all)
  ultimately show thesis using that [where m = m and d = d] that [where m = "mem s"] dev_only by metis
qed

section \<open>The set-up\<close>

lemma page_in_heap:
  assumes "in_range (page_addr q) 4096 x" and "q < kheap_pages"
  shows "in_range KHEAP_START (unat KHEAP_SIZE_BYTES) x"
proof -
  have "in_range (KHEAP_START + of_nat (q * 4096)) 4096 x" using assms(1) by (simp add: page_addr_def KHEAP_BLOCK_SIZE_def)
  then show ?thesis
    using in_range_sub [of "q * 4096" 4096 "unat KHEAP_SIZE_BYTES" KHEAP_START x] assms(2)
    by (simp add: kheap_pages_def KHEAP_SIZE_BYTES_def)
qed

text \<open>The object heap on a kernel heap whose free pages are clear.\<close>

lemma help_me_setup:
  assumes inv: "kheap_inv s" and zero: "\<And>q x. page_free s q \<Longrightarrow> in_range (page_addr q) 4096 x \<Longrightarrow> mem s x = 0"
    and free: "k + 1 \<le> free_count s" "k \<le> 124" and s': "s' = help_me_mary_mother_of_god s"
  obtains q where "client s' k" and "cream_objects s' = {}" and "page_free s q"
    and "\<And>x. \<not> in_range KHEAP_TABLE kheap_pages x \<Longrightarrow> x \<noteq> page_addr q \<Longrightarrow> mem s' x = mem s x"
proof -
  have p1: "pages_for 1 = 1" by (simp add: pages_for_nat)
  obtain q0 where "page_free s q0" using free_count_pos [of s] free by auto
  then have f: "kheap_find s 1 \<noteq> None" by (rule kheap_find_some [OF inv])
  obtain p u where z: "kzalloc 1 s = (p, u)" by fastforce
  have p: "p \<noteq> 0" using kzalloc_NullD(1) [of s 1 u] z f inv by (auto simp: p1 kheap_inv_def)
  obtain q where q: "p = page_addr q" "new_run 1 s q u" "kheap_find s 1 = Some q"
    and out: "\<And>x. \<not> in_range KHEAP_TABLE kheap_pages x \<Longrightarrow> \<not> in_range p (unat (1 :: u32)) x \<Longrightarrow> mem u x = mem s x"
    using kzalloc_new_run [OF inv z p] p1 by metis
  have e: "s' = u\<lparr>mothermary := p\<rparr>" using z by (simp add: s' help_me_mary_mother_of_god_def)
  have run: "q + 1 \<le> kheap_pages" "kheap_runs u = insert (q, 1) (kheap_runs s)"
    "\<And>j n. (j, n) \<in> kheap_runs s \<Longrightarrow> q + 1 \<le> j \<or> j + n \<le> q" using q(2) by (auto simp: new_run_def p1)
  have qf: "page_free s q" unfolding page_free_def using run(1,3) by fastforce
  have "clean s"
    unfolding clean_def empty_table_nth
  proof (intro allI impI)
    fix r i assume r: "page_free s r" "i < (124 :: nat)"
    then have "in_range (page_addr r) 4096 (page_addr r + of_nat i)" using in_range_offset [of i "page_addr r" 4096] by simp
    then show "mem s (page_addr r + of_nat i) = 0" by (rule zero [OF r(1)])
  qed
  then have ok: "cream_ok s' q Map.empty"
    using help_me_mary_mother_of_god_ok [OF inv _ _ q(3) s'] zero in_range_mono [where k = 4096 and n = 496] by auto
  have "kheap_runs s' = insert (q, 1) (kheap_runs s)" using run(2) by (simp add: e kheap_runs_def kheap_tbl_def)
  then have "free_set s' = {r. page_free s r} - {q}" using page_frees_insert [of s' q s] by (simp add: free_set_def)
  then have "k \<le> card (free_set s')" using free(1) qf page_frees_finite [of s] by (simp add: free_count_def)
  moreover have "empty_slots s' = {..<124}" using ok by (auto simp: empty_slots_def cream_ok_def slots_are_def)
  ultimately have "client s' k" using ok free(2) by (auto simp: client_def cream_inv_def room_def)
  moreover have "cream_objects s' = {}" using cream_live_eq [OF ok] by (simp add: cream_objects_def live_blocks_def)
  ultimately show thesis
    using qf out that [of q] by (simp add: e q(1) in_range_Suc)
qed


text \<open>A page table depends on the block table and the heap's descriptor only.\<close>

lemma same_pages:
  assumes "\<And>x. in_range KHEAP_TABLE kheap_pages x \<Longrightarrow> mem s' x = mem s x" and "kernel_heap s' = kernel_heap s"
  shows "kheap_inv s' = kheap_inv s" and "kheap_runs s' = kheap_runs s" and "page_free s' q = page_free s q"
    and "free_count s' = free_count s"
proof -
  have [simp]: "kheap_tbl s' = kheap_tbl s" by (rule kheap_tbl_frame) (rule assms(1))
  show "kheap_inv s' = kheap_inv s" by (simp add: kheap_inv_def kheap_ready_def assms(2))
  show r: "kheap_runs s' = kheap_runs s" by (simp add: kheap_runs_def)
  show "page_free s' q = page_free s q" for q by (simp add: page_free_def r)
  then show "free_count s' = free_count s" by (simp add: free_count_def)
qed

text \<open>
  The image the boot loader leaves: the heap's region is clear, and the linker has put the interrupt table and its
  descriptor outside it and outside the block table at 0x7e00.
\<close>

definition heap_bytes :: "addr \<Rightarrow> bool" where
  "heap_bytes x \<longleftrightarrow> in_range KHEAP_START (unat KHEAP_SIZE_BYTES) x \<or> in_range KHEAP_TABLE kheap_pages x"

definition idt_bytes :: "'z idt_state_scheme \<Rightarrow> addr \<Rightarrow> bool" where
  "idt_bytes s x \<longleftrightarrow> in_range (idt_table s) 4096 x \<or> in_range (idtr_descriptor s) 6 x"

definition image_ok :: "'z idt_state_scheme \<Rightarrow> bool" where
  "image_ok s \<longleftrightarrow> ranges_disjoint (idt_table s) 4096 (idtr_descriptor s) 6 \<and>
     (\<forall>x. idt_bytes s x \<longrightarrow> \<not> heap_bytes x) \<and>
     (\<forall>x. in_range KHEAP_START (unat KHEAP_SIZE_BYTES) x \<longrightarrow> mem s x = 0)"

lemma page_heap_bytes: "in_range (page_addr q) 4096 x \<Longrightarrow> q < kheap_pages \<Longrightarrow> heap_bytes x"
  by (simp add: heap_bytes_def page_in_heap)

lemma kheap_init_idt [simp]:
  "idt_table (kheap_init s) = idt_table s" "idtr_descriptor (kheap_init s) = idtr_descriptor s"
  by (simp_all add: kheap_init_def heap_create_def Let_def heap_validate_alignment_def heap_entry_count_def const_defs)

lemma kheap_init_out: "\<not> in_range KHEAP_TABLE kheap_pages x \<Longrightarrow> mem (kheap_init s) x = mem s x"
  by (simp add: kheap_init_mem put_bytes_out)

text \<open>The first half: heap and interrupt table.\<close>

lemma heap_and_idt:
  assumes "image_ok s" and "t = kheap_init s" and "t' = idt_init sr0 sr20 sr21 isr_x (print cs t)"
  shows "kheap_inv t'" and "free_count t' = 25600" and "page_free t' q = (q < kheap_pages)"
    and "\<And>q x. page_free t' q \<Longrightarrow> in_range (page_addr q) 4096 x \<Longrightarrow> mem t' x = 0"
    and "idtr t' = (4095, idt_table s)" and "idt_table t' = idt_table s" and "idtr_descriptor t' = idtr_descriptor s"
    and "\<And>i. i < 512 \<Longrightarrow> gate (mem t') (idt_table s) i = vector_gate sr0 sr20 sr21 isr_x i"
proof -
  have st: "idt_step (print cs t) t'" unfolding assms(3) by (rule idt_init_step)
  then have f: "kernel_heap t' = kernel_heap t" "idt_table t' = idt_table s" "idtr_descriptor t' = idtr_descriptor s"
    by (auto simp: idt_step_def assms(2))
  have out: "mem t' x = mem t x" if "heap_bytes x" for x
  proof -
    have n: "\<not> idt_bytes s x" using assms(1) that by (auto simp: image_ok_def)
    show ?thesis
      using idt_init_ok(2) [OF assms(3), of x] n by (simp add: idt_bytes_def assms(2))
  qed
  have fr: "mem t' x = mem t x" if "in_range KHEAP_TABLE kheap_pages x" for x using out that by (simp add: heap_bytes_def)
  note sp = same_pages [OF fr f(1)]
  have init: "kheap_inv t" "kheap_runs t = {}" using kheap_init_inv assms(2) by auto
  then show "kheap_inv t'" by (simp add: sp)
  show "free_count t' = 25600" using free_count_init [of s] by (simp add: sp assms(2))
  show free: "page_free t' q = (q < kheap_pages)" for q by (simp add: sp) (simp add: page_free_def init)
  show "mem t' x = 0" if "page_free t' q" "in_range (page_addr q) 4096 x" for q x
  proof -
    have q: "q < kheap_pages" using that(1) free by blast
    have "\<not> in_range KHEAP_TABLE kheap_pages x" using page_apart_table [OF q] that(2) by blast
    then have "mem t' x = mem s x" using out [OF page_heap_bytes [OF that(2) q]] by (simp add: assms(2) kheap_init_out)
    then show ?thesis using assms(1) page_in_heap [OF that(2) q] by (simp add: image_ok_def)
  qed
  have "ranges_disjoint (idt_table (print cs t)) 4096 (idtr_descriptor (print cs t)) 6"
    using assms(1) by (simp add: image_ok_def assms(2))
  from idt_init_ok(3) [OF assms(3) this] show "idtr t' = (4095, idt_table s)" by (simp add: assms(2))
  show "gate (mem t') (idt_table s) i = vector_gate sr0 sr20 sr21 isr_x i" if "i < 512" for i
    using idt_init_ok(1) [OF assms(3) that] by (simp add: assms(2))
  show "idt_table t' = idt_table s" "idtr_descriptor t' = idtr_descriptor s" by (fact f)+
qed

text \<open>The second half: paging and the object heap.\<close>

lemma print_paging [simp]:
  "cr0 (print cs s) = cr0 s" "cr3 (print cs s) = cr3 s" "cur_dir_table (print cs s) = cur_dir_table s"
  using print_ext [of cs s] by auto

lemma gate_table_cong: "i < 512 \<Longrightarrow> (\<And>x. in_range t 4096 x \<Longrightarrow> m x = m' x) \<Longrightarrow> gate m t i = gate m' t i"
proof -
  assume i: "i < 512" and same: "\<And>x. in_range t 4096 x \<Longrightarrow> m x = m' x"
  let ?g = "gate_at t i"
  have "m (?g + of_nat k) = m' (?g + of_nat k)" if "k < 8" for k
  proof (rule same)
    have "in_range ?g 8 (?g + of_nat k)" using that in_range_offset [of k ?g 8] by simp
    then show "in_range t 4096 (?g + of_nat k)" by (rule gate_range(1) [OF _ i])
  qed
  from this [of 0] this [of 1] this [of 2] this [of 3] this [of 5] this [of 6] this [of 7]
  show ?thesis by (simp add: gate_def Let_def ld16_def add.assoc)
qed

lemma mapped_cong:
  assumes "mapped flags (page_addr pd) P n m" and "n \<le> 1024"
    and "\<And>x. in_range (page_addr pd) 4096 x \<Longrightarrow> m' x = m x"
    and "\<And>i x. i < n \<Longrightarrow> in_range (page_addr (P i)) 4096 x \<Longrightarrow> m' x = m x"
  shows "mapped flags (page_addr pd) P n m'"
proof -
  have "ld32 m' (word_at (page_addr pd) i) = ld32 m (word_at (page_addr pd) i)" if "i < n" for i
    by (rule ld32_word_at_cong [of "page_addr pd" 1024]) (use that assms(2,3) in auto)
  moreover have "ld32 m' (word_at (page_addr (P i)) j) = ld32 m (word_at (page_addr (P i)) j)" if "i < n" "j < 1024" for i j
    by (rule ld32_word_at_cong [of "page_addr (P i)" 1024]) (use that assms(4) in auto)
  ultimately show ?thesis using assms(1) by (simp add: mapped_def)
qed

text \<open>\<open>paged s\<close>: the processor translates through a directory that maps every address to itself.\<close>

definition paged :: "'z paging_state_scheme \<Rightarrow> bool" where
  "paged s \<longleftrightarrow> bit (cr0 s) 31 \<and> cr3 s = cur_dir_table s \<and> (\<forall>va. translate (mem s) (cr3 s) va = Some va)"

definition pages_clear :: "'z kheap_state_scheme \<Rightarrow> bool" where
  "pages_clear s \<longleftrightarrow> (\<forall>q x. page_free s q \<longrightarrow> in_range (page_addr q) 4096 x \<longrightarrow> mem s x = 0)"

lemma paging_and_objects:
  assumes inv: "kheap_inv s" and free: "1150 \<le> free_count s"
    and zero: "pages_clear s"
    and d: "create_32_dir_table flags s = (d, s1)"
    and s2: "s2 = enable_paging (print cs (set_dir_table d (print cs' s1)))"
    and s': "s' = help_me_mary_mother_of_god (print cs'' s2)"
  shows "client s' 124" and "cream_objects s' = {}" and "paged s'"
    and "\<And>x. \<not> heap_bytes x \<Longrightarrow> mem s' x = mem s x" and "\<exists>u p. heap_step (print cs'' s2) u \<and> s' = u\<lparr>mothermary := p\<rparr>"
proof -
  obtain pd P where d': "d = page_addr pd" and ok: "tables_ok s1 pd P 1024" and map: "mapped flags (page_addr pd) P 1024 (mem s1)"
    and e1: "s1 = s\<lparr>mem := mem s1\<rparr>" and c1: "free_count s1 = free_count s - 1025" and taken: "only_taken {} s s1"
    by (rule create_32_dir_table_ok [OF inv _, of flags]) (use free d in auto)
  let ?t = "print cs'' s2"
  have m2: "mem s2 = mem s1" "kernel_heap s2 = kernel_heap s1"
    by (simp_all add: s2 enable_paging_def enable_paging_asm_def set_dir_table_def load_dir_table_def)
  have sp: "kheap_inv ?t = kheap_inv s1" "kheap_runs ?t = kheap_runs s1" "page_free ?t q = page_free s1 q"
    "free_count ?t = free_count s1" for q
    by (rule same_pages; simp add: m2)+
  have inv2: "kheap_inv ?t" using ok by (simp add: sp tables_ok_def)
  have z1: "mem ?t x = 0" if q: "page_free ?t q" "in_range (page_addr q) 4096 x" for q x
  proof -
    have q1: "page_free s1 q" using q(1) by (simp add: sp)
    then have q0: "page_free s q" "q < kheap_pages" using taken by (auto simp: only_taken_def page_free_def)
    have "\<not> in_range (page_addr r) 4096 x" if r: "page_free s r" "\<not> page_free s1 r" for r
    proof -
      have "r < kheap_pages" "r \<noteq> q" using r q1 by (auto simp: page_free_def)
      then show ?thesis using pages_apart [of q r 4096 4096] q(2) q0(2) by (auto simp: ranges_disjoint_def)
    qed
    moreover have "\<not> in_range KHEAP_TABLE kheap_pages x" using page_apart_table [OF q0(2)] q(2) by blast
    ultimately have "mem s1 x = mem s x" using taken by (simp add: only_taken_def)
    then show ?thesis using zero q0(1) q(2) by (simp add: m2 pages_clear_def)
  qed
  obtain q where q: "client s' 124" "cream_objects s' = {}" "page_free ?t q"
    and out: "\<And>x. \<not> in_range KHEAP_TABLE kheap_pages x \<Longrightarrow> x \<noteq> page_addr q \<Longrightarrow> mem s' x = mem ?t x"
    by (rule help_me_setup [OF inv2 z1 _ _ s', where k = 124]) (use free c1 in \<open>auto simp: sp\<close>)
  show "client s' 124" "cream_objects s' = {}" by (fact q)+
  obtain p u where u: "heap_step ?t u" "s' = u\<lparr>mothermary := p\<rparr>" using help_me_step [of ?t] s' by metis
  then show "\<exists>u p. heap_step ?t u \<and> s' = u\<lparr>mothermary := p\<rparr>" by blast
  have qb: "q < kheap_pages" using q(3) by (simp add: page_free_def)
  have run: "mem s' x = mem s1 x" if r: "(r, 1) \<in> kheap_runs s1" "in_range (page_addr r) 4096 x" for r x
  proof -
    have rb: "r < kheap_pages" "r \<noteq> q" using run_page(1) [OF r(1)] q(3) r(1) not_page_free by (auto simp: sp)
    have "\<not> in_range (page_addr r) 4096 (page_addr q)"
      using pages_apart [OF rb(1) qb rb(2), of 4096 4096] in_range_self [of 4096 "page_addr q"] by (auto simp: ranges_disjoint_def)
    then have "x \<noteq> page_addr q" using r(2) by blast
    then show ?thesis using out page_apart_table [OF rb(1)] r(2) by (simp add: m2) blast
  qed
  have runs: "(pd, 1) \<in> kheap_runs s1" "\<And>i. i < 1024 \<Longrightarrow> (P i, 1) \<in> kheap_runs s1" using ok by (auto simp: tables_ok_def)
  have "mapped flags (page_addr pd) P 1024 (mem s')"
    by (rule mapped_cong [OF map]) (use run runs in auto)
  then have "translate (mem s') (page_addr pd) va = Some va" for va
    by (rule mapped_translate) (use runs run_page(1) in auto)
  moreover have "bit (cr0 s') 31" "cr3 s' = page_addr pd" "cur_dir_table s' = page_addr pd"
    using u(1) by (auto simp: heap_step_def u(2) s2 enable_paging_def enable_paging_asm_def set_dir_table_def load_dir_table_def
      d' bit_simps)
  ultimately show "paged s'" by (simp add: paged_def)
  show "mem s' x = mem s x" if x: "\<not> heap_bytes x" for x
  proof -
    have np: "\<not> in_range (page_addr r) 4096 x" if "r < kheap_pages" for r using page_heap_bytes x that by blast
    have "x \<noteq> page_addr q" using np [OF qb] in_range_self [of 4096 "page_addr q"] by auto
    then have "mem s' x = mem s1 x" using out x by (simp add: heap_bytes_def m2)
    also have "\<dots> = mem s x" using taken x np by (simp add: only_taken_def heap_bytes_def page_free_def)
    finally show ?thesis .
  qed
qed

text \<open>The disks are out of reach of console, heap and interrupt table.\<close>

lemma print_boot_drive [simp]: "G_BOOT_DRIVE (print cs s) = G_BOOT_DRIVE s"
  using print_ext [of cs s] by auto

lemma idt_init_disks [simp]:
  "dev (idt_init sr0 sr20 sr21 isr_x s) = dev s" "disk1 (idt_init sr0 sr20 sr21 isr_x s) = disk1 s"
  "motherlobe (idt_init sr0 sr20 sr21 isr_x s) = motherlobe s" "G_BOOT_DRIVE (idt_init sr0 sr20 sr21 isr_x s) = G_BOOT_DRIVE s"
  using idt_init_step [of s sr0 sr20 sr21 isr_x] by (auto simp: idt_step_def)

lemma clear_screen_disks [simp]:
  "dev (clear_screen s) = dev s" "disk1 (clear_screen s) = disk1 s" "motherlobe (clear_screen s) = motherlobe s"
  "G_BOOT_DRIVE (clear_screen s) = G_BOOT_DRIVE s"
  by (simp_all add: clear_screen_def Let_def)

lemma kheap_init_disks [simp]:
  "dev (kheap_init s) = dev s" "disk1 (kheap_init s) = disk1 s" "motherlobe (kheap_init s) = motherlobe s"
  "G_BOOT_DRIVE (kheap_init s) = G_BOOT_DRIVE s"
  by (simp_all add: kheap_init_def heap_create_def Let_def heap_validate_alignment_def heap_entry_count_def const_defs)

lemma kernel_setup_ok:
  assumes image: "image_ok s" and s': "s' = kernel_setup io sr0 sr20 sr21 isr_x boot root parts s"
  shows "client s' 124" and "cream_objects s' = {}" and "paged s'"
    and "idtr s' = (4095, idt_table s)"
    and "\<And>i. i < 512 \<Longrightarrow> gate (mem s') (idt_table s) i = vector_gate sr0 sr20 sr21 isr_x i"
    and "dev s' = fold (\<lambda>(p, v). outb_p io p v) (pit_init 100) (dev s)" and "disk1 s' = disk1 s" and "motherlobe s' = motherlobe s"
    and "G_BOOT_DRIVE s' = boot"
proof -
  let ?a = "print (lit ([CHR 9, CHR 9] @ ''GENESIS-32 '') @ nl @ lit ''kernel loaded successfully.'' @ nl)
    (clear_screen (s\<lparr>G_BOOT_DRIVE := boot, G_ROOT_DRIVE := root, G_ROOT_PART := parts\<rparr>))"
  let ?i = "idt_init sr0 sr20 sr21 isr_x (print (lit ''kernel heap setup initalized....'' @ nl) (kheap_init ?a))"
  let ?f = "print (lit ''set pit to a safe 100hz'') (upd_dev (fold (\<lambda>(p, v). outb_p io p v) (pit_init 100))
    (print (lit ''interrupt table loaded .....'' @ nl) ?i))"
  obtain d g where g: "create_32_dir_table (PAGING_PRESENT OR READ_AND_WRITE) ?f = (d, g)" by fastforce
  let ?h = "enable_paging (print (lit ''directory table loaded......'' @ nl)
    (set_dir_table d (print (lit ''directory table for 4gb set....'' @ nl) g)))"
  have e: "s' = help_me_mary_mother_of_god (print (lit ''paging enabled...'' @ nl) ?h)"
    unfolding s' kernel_setup_def Let_def g prod.case by (rule refl)
  have a: "idt_table ?a = idt_table s" "idtr_descriptor ?a = idtr_descriptor s" "mem ?a = mem s"
    by (simp_all add: clear_screen_def Let_def)
  have "image_ok ?a" using image unfolding image_ok_def idt_bytes_def a .
  note i = heap_and_idt [OF this refl refl, where ?sr0.0 = sr0 and ?sr20.0 = sr20 and ?sr21.0 = sr21 and isr_x = isr_x
      and cs = "lit ''kernel heap setup initalized....'' @ nl", unfolded a]
  have f: "mem ?f = mem ?i" "kernel_heap ?f = kernel_heap ?i" "idtr ?f = idtr ?i" by (simp_all add: upd_dev_def)
  have sp: "kheap_inv ?f" "free_count ?f = 25600" "\<And>q. page_free ?f q = page_free ?i q"
    using same_pages [of ?f ?i] f i(1,2) by simp_all
  have z: "pages_clear ?f" using i(4) unfolding pages_clear_def sp(3) f by blast
  have fr: "1150 \<le> free_count ?f" by (simp only: sp(2))
  note po = paging_and_objects [OF sp(1) fr z g refl e]
  show "client s' 124" "cream_objects s' = {}" "paged s'" by (fact po)+
  obtain pd m where gm: "g = ?f\<lparr>mem := m\<rparr>" using create_32_dir_table_ok [OF sp(1), of "PAGING_PRESENT OR READ_AND_WRITE"] fr g by auto
  show "idtr s' = (4095, idt_table s)"
    using po(5) i(5) by (auto simp: heap_step_def enable_paging_def enable_paging_asm_def set_dir_table_def load_dir_table_def gm upd_dev_def)
  show "gate (mem s') (idt_table s) k = vector_gate sr0 sr20 sr21 isr_x k" if k: "k < 512" for k
  proof -
    have "mem s' x = mem ?i x" if "in_range (idt_table s) 4096 x" for x
      using po(4) [of x, unfolded f] image that by (auto simp: image_ok_def idt_bytes_def)
    then have "gate (mem s') (idt_table s) k = gate (mem ?i) (idt_table s) k" by (rule gate_table_cong [OF k])
    then show ?thesis using i(8) [OF k] by simp
  qed
  obtain u p where u: "heap_step (print (lit ''paging enabled...'' @ nl) ?h) u" "s' = u\<lparr>mothermary := p\<rparr>" using po(5) by blast
  show "dev s' = fold (\<lambda>(p, v). outb_p io p v) (pit_init 100) (dev s)" "disk1 s' = disk1 s" "motherlobe s' = motherlobe s"
    "G_BOOT_DRIVE s' = boot"
    using u(1) by (auto simp: u(2) heap_step_def enable_paging_def enable_paging_asm_def set_dir_table_def load_dir_table_def gm upd_dev_def)
qed

section \<open>The search for disks on any device\<close>

lemma client_same_heap:
  "same_heap s s' \<Longrightarrow> client s k \<Longrightarrow> client s' k" "same_heap s s' \<Longrightarrow> client s k \<Longrightarrow> cream_objects s' = cream_objects s"
  using client_same [of s k s'] by (simp_all add: same_heap_def)

lemma check_disk_shape:
  assumes "check_disk io i s = (v, s')"
  shows "same_heap s s' \<or> (\<exists>t u f. same_heap s t \<and> heap_cream_malloc sizeof_disk t = (v, u) \<and> s' = upd_disk v f u)"
proof -
  have tail: "same_heap s s' \<or> (\<exists>t u f. same_heap s t \<and> heap_cream_malloc sizeof_disk t = (v, u) \<and> s' = upd_disk v f u)"
    if t: "check_disk_tail io p i t0 = (v, s')" and t0: "same_heap s t0" for p t0
  proof -
    obtain st d1 where st: "inb_p io (p + 7) (dev t0) = (st, d1)" by fastforce
    define t1 where "t1 = print nl (print_hex st (print (lit ''status:'')
      (print nl (print_16 i (print (lit ''status obtained for'') (t0\<lparr>dev := d1\<rparr>))))))"
    obtain o' d2 where w: "wait_data io (p + 7) ATA_WAIT st (dev t1) = (o', d2)" by fastforce
    have t1: "same_heap s (t1\<lparr>dev := d2\<rparr>)"
      using t0 by (simp add: t1_def same_heap_def print_16_hex4 print_hex_hex2)
    let ?t = "print (lit ''detected one more disk...'' @ nl) (t1\<lparr>dev := d2\<rparr>)"
    obtain a u where m: "heap_cream_malloc sizeof_disk ?t = (a, u)" by fastforce
    have "s' = t1\<lparr>dev := d2\<rparr> \<or> v = a \<and> s' = upd_disk a (\<lambda>k. k\<lparr>ata_code := ucast i, dtype := DISK_TYPE_REAL\<rparr>) u"
      using t [unfolded check_disk_tail_def st prod.case Let_def, folded t1_def, unfolded w prod.case] m
      by (auto split: option.splits if_splits)
    moreover have "same_heap s ?t" using t1 by simp
    ultimately show ?thesis using t1 m by blast
  qed
  define p where "p = (if i AND 0x02 \<noteq> 0 then 0x170 else 0x1f0 :: u16)"
  define s3 where "s3 = print nl (print_16 i (print (lit ''communication set for'') (upd_dev (\<lambda>d. inb_times io (p + 6) 4
      (outb_p io (p + 6) (if i AND 0x01 \<noteq> 0 then 0xb0 else 0xa0) (outb_p io (p + 0x206) 0x00 d)))
      (print nl (print_16 i (print (lit ''trying'') s))))))"
  obtain stat d1 where st: "inb_p io (p + 7) (dev s3) = (stat, d1)" by fastforce
  define s4 where "s4 = s3\<lparr>dev := d1\<rparr>"
  obtain b1 d2 where w1: "wait_while (busy io (p + 7)) ATA_WAIT (dev s4) = (b1, d2)" by fastforce
  define s7 where "s7 = upd_dev (inb_times io (p + 6) 4) (print nl (print_16 i (print (lit ''info command send for'')
      (s4\<lparr>dev := outb_p io (p + 7) 0xec d2\<rparr>))))"
  obtain b2 d3 where w2: "wait_while (busy_or_no_data io (p + 7)) ATA_WAIT (dev s7) = (b2, d3)" by fastforce
  have s3: "same_heap s s3" by (simp add: s3_def same_heap_def upd_dev_def print_16_hex4)
  then have s7: "same_heap s (s7\<lparr>dev := d\<rparr>)" for d by (simp add: s4_def s7_def same_heap_def upd_dev_def print_16_hex4)
  note c = assms [unfolded check_disk_def Let_def, folded p_def, folded s3_def, unfolded st prod.case, folded s4_def,
    unfolded w1 prod.case, folded s7_def, unfolded w2 prod.case]
  have "s' = print (lit ''no device '' @ nl) s4 \<or> s' = s4\<lparr>dev := d2\<rparr> \<or> s' = s7\<lparr>dev := d3\<rparr> \<or>
      check_disk_tail io p i (s7\<lparr>dev := d3\<rparr>) = (v, s')"
    using c by (cases b1; cases b2) (auto split: if_splits)
  then show ?thesis
    using tail [OF _ s7] s7 s3 by (elim disjE) (auto simp: same_heap_def s4_def)
qed

lemma check_disk_client:
  assumes cl: "client s (Suc k)" and r: "check_disk io i s = (v, s')"
  shows "client s' k" and "cream_objects s \<subseteq> cream_objects s'"
proof -
  have "client s' k \<and> cream_objects s \<subseteq> cream_objects s'"
    using check_disk_shape [OF r]
  proof (elim disjE exE conjE)
    assume q: "same_heap s s'"
    then show ?thesis using client_same_heap [OF q cl] client_less [of s' "Suc k" k] by simp
  next
    fix t u f assume q: "same_heap s t" "heap_cream_malloc sizeof_disk t = (v, u)" "s' = upd_disk v f u"
    note t = client_same_heap [OF q(1) cl]
    obtain n where u: "client u k" "cream_objects u = insert (v, n) (cream_objects t)"
      by (rule client_malloc [OF t(1) _ _ q(2)]) (simp_all add: const_defs)
    show ?thesis using client_upd_disk [OF u(1)] u(2) t(2) by (auto simp: q(3))
  qed
  then show "client s' k" and "cream_objects s \<subseteq> cream_objects s'" by blast+
qed

lemma get_disk_info_client:
  assumes cl: "client s k" and buf: "(buf, N) \<in> cream_objects s" "512 \<le> N" and s': "s' = get_disk_info io p cmd buf s"
  shows "client s' k" and "cream_objects s' = cream_objects s"
proof -
  obtain m d where e: "s' = s\<lparr>mem := m, dev := d\<rparr>" and out: "\<And>x. \<not> in_range buf 512 x \<Longrightarrow> m x = mem s x"
    by (rule get_disk_info_any [OF s']) blast
  have "\<not> in_range buf N x \<Longrightarrow> mem s' x = mem s x" for x
    using out [of x] in_range_mono [OF _ buf(2), of buf x] by (auto simp: e)
  from client_store [OF cl buf(1) this] show "client s' k" "cream_objects s' = cream_objects s" by (simp_all add: e)
qed

lemma set_disk_info_client: "client s k \<Longrightarrow> client (set_disk_info p s) k"
  "client s k \<Longrightarrow> cream_objects (set_disk_info p s) = cream_objects s"
  by (simp_all add: set_disk_info_def Let_def client_upd_disk)

lemma search_step_client:
  assumes cl: "client s (Suc k)" and buf: "(buf, N) \<in> cream_objects s" "512 \<le> N" and r: "search_step io buf i (j, s) = (j', s')"
  shows "client s' k" and "cream_objects s \<subseteq> cream_objects s'"
proof -
  obtain v s1 where c: "check_disk io i s = (v, s1)" by fastforce
  note c1 = check_disk_client [OF cl c]
  define s2 where "s2 = get_disk_info io v 0xec buf (set_disk_info v s1)"
  have b1: "(buf, N) \<in> cream_objects (set_disk_info v s1)" using buf(1) c1 set_disk_info_client by blast
  note s2 = get_disk_info_client [OF set_disk_info_client(1) [OF c1(1)] b1 buf(2) s2_def]
  define s3 where "s3 = upd_disk v (\<lambda>k. k\<lparr>sect_count := sectors_of (mem s2) buf, sect_size := 512\<rparr>) s2"
  have s3: "client s3 k" "cream_objects s3 = cream_objects s1"
    using client_upd_disk [OF s2(1)] s2(2) set_disk_info_client(2) [OF c1(1)] by (simp_all add: s3_def)
  have "s' = s1 \<or> (\<exists>l. s' = s3\<lparr>motherlobe := l\<rparr>)"
    using r by (auto simp: search_step_def c s2_def [symmetric] s3_def [symmetric] Let_def split: if_splits)
  moreover have "client (s3\<lparr>motherlobe := l\<rparr>) k" "cream_objects (s3\<lparr>motherlobe := l\<rparr>) = cream_objects s3" for l
    by (rule client_same [OF s3(1)]; simp)+
  ultimately show "client s' k" "cream_objects s \<subseteq> cream_objects s'" using c1 s3 by auto
qed

lemma search_fold_client:
  "client s (k + length is) \<Longrightarrow> (buf, N) \<in> cream_objects s \<Longrightarrow> 512 \<le> N \<Longrightarrow>
    fold (search_step io buf) is (j, s) = (j', s') \<Longrightarrow> client s' k \<and> cream_objects s \<subseteq> cream_objects s'"
proof (induction "is" arbitrary: j s)
  case (Cons i "is")
  obtain j1 s1 where st: "search_step io buf i (j, s) = (j1, s1)" by fastforce
  have cl: "client s (Suc (k + length is))" using Cons.prems(1) by simp
  note s1 = search_step_client [OF cl Cons.prems(2,3) st]
  have "client s' k \<and> cream_objects s1 \<subseteq> cream_objects s'"
    by (rule Cons.IH [OF s1(1) _ Cons.prems(3)]) (use s1(2) Cons.prems(2,4) st in auto)
  then show ?case using s1(2) by blast
qed simp

lemma disk_search_client:
  assumes cl: "client s (k + 4)"
  shows "client (disk_search_and_init io s) k"
proof -
  define s1 where "s1 = upd_disk (disk1 s) (\<lambda>k. k\<lparr>dtype := DISK_TYPE_REAL, ata_code := ucast (G_BOOT_DRIVE s)\<rparr>) s"
  have s1: "client s1 (Suc (k + 3))" using client_upd_disk(1) [OF cl] by (simp add: s1_def add.commute)
  obtain buf s2 where m: "heap_cream_malloc 512 s1 = (buf, s2)" by fastforce
  obtain N where s2: "client s2 (k + 3)" "512 \<le> N" "cream_objects s2 = insert (buf, N) (cream_objects s1)"
    by (rule client_malloc [OF s1 _ _ m]) (simp_all add: const_defs)
  define s3 where "s3 = get_disk_info io (disk1 s2) 0xec buf (set_disk_info (disk1 s2) s2)"
  have b2: "(buf, N) \<in> cream_objects (set_disk_info (disk1 s2) s2)" using s2(3) set_disk_info_client(2) [OF s2(1)] by simp
  note s3 = get_disk_info_client [OF set_disk_info_client(1) [OF s2(1)] b2 s2(2) s3_def]
  define s4 where "s4 = upd_disk (disk1 s3) (\<lambda>k. k\<lparr>sect_count := sectors_of (mem s3) buf, sect_size := 512\<rparr>) s3"
  define s5 where "s5 = s4\<lparr>motherlobe := (motherlobe s4)[0 := disk1 s4]\<rparr>"
  have s4: "client s4 (k + 3)" "cream_objects s4 = cream_objects s3" using client_upd_disk [OF s3(1)] by (simp_all add: s4_def)
  have s5: "client s5 (k + 3)" "cream_objects s5 = cream_objects s4"
    unfolding s5_def by (rule client_same [OF s4(1)]; simp)+
  have b5: "(buf, N) \<in> cream_objects s5" using b2 s3 s4 s5 by simp
  obtain j s6 where f: "fold (search_step io buf) [0x81, 0x82, 0x83] (1, s5) = (j, s6)" by fastforce
  have s6: "client s6 k" "(buf, N) \<in> cream_objects s6"
    using search_fold_client [OF _ b5 s2(2) f, of k] s5(1) b5 by (auto simp: eval_nat_numeral)
  have "disk_search_and_init io s = snd (heap_cream_free buf s6)"
    by (simp only: disk_search_and_init_def Let_def s1_def [symmetric] m prod.case s3_def [symmetric] s4_def [symmetric]
        s5_def [symmetric] f)
  then show ?thesis using client_free(1) [OF s6 refl] by simp
qed

section \<open>The scan of all disks and the listing\<close>

lemma single_disk_scan_any:
  assumes cl: "client s (c + 5)" and p: "p \<noteq> 0"
  obtains b where "scanned s p b c (single_disk_scan io p s)"
proof -
  obtain buf s1 where m: "heap_cream_malloc 512 (upd_disk p (\<lambda>k. k\<lparr>link_list := 0\<rparr>) s) = (buf, s1)" by fastforce
  obtain r s2 where r: "read_disk_block io p 0 1 buf s1 = (r, s2)" by fastforce
  obtain m1 d where e: "s2 = s1\<lparr>mem := m1, dev := d\<rparr>" and out: "\<And>x. \<not> in_range buf (512 * unat (1 :: u32)) x \<Longrightarrow> m1 x = mem s1 x"
    by (rule read_disk_block_any [OF r]) auto
  have out': "\<not> in_range buf 512 x \<Longrightarrow> m1 x = mem s1 x" for x using out [of x] by simp
  show thesis
    by (rule that, rule single_disk_scan_buffer(1) [OF cl p m r [unfolded e] out' refl refl])
qed

text \<open>\<open>listed s p\<close>: the partition list of disk \<open>p\<close> ends, and its partitions are live objects.\<close>

definition listed :: "('d, 'z) disk_state_scheme \<Rightarrow> addr \<Rightarrow> bool" where
  "listed s p \<longleftrightarrow> (\<exists>as. plist (part_at s) (link_list (disk_at s p)) as \<and> set as \<subseteq> fst ` cream_objects s)"

lemma scanned_listed:
  assumes "scanned s p b c s'"
  shows "listed s' p" and "listed s q \<Longrightarrow> listed s' q" and "client s' c" and "motherlobe s' = motherlobe s"
proof -
  note sc = assms [unfolded scanned_def]
  note sc2 = sc [THEN conjunct2, THEN conjunct2]
  obtain as where as: "plist (part_at s') (link_list (disk_at s' p)) as" "\<forall>a \<in> set as. \<exists>n\<ge>24. (a, n) \<in> cream_objects s'"
    using sc [THEN conjunct1] by (elim exE conjE) (rule that; fast)
  have "set as \<subseteq> fst ` cream_objects s'"
  proof
    fix a assume "a \<in> set as"
    then obtain n where "(a, n) \<in> cream_objects s'" using as(2) by blast
    then show "a \<in> fst ` cream_objects s'" by (rule image_eqI [rotated]) simp
  qed
  with as(1) show l: "listed s' p" by (auto simp: listed_def)
  have sub: "cream_objects s \<subseteq> cream_objects s'" and old: "\<And>a. a \<in> fst ` cream_objects s \<Longrightarrow> part_at s' a = part_at s a"
    and d: "disk_at s' = (disk_at s)(p := (disk_at s p)\<lparr>link_list := link_list (disk_at s' p)\<rparr>)"
    using sc2 [THEN conjunct1] sc2 [THEN conjunct2, THEN conjunct1] sc2 [THEN conjunct2, THEN conjunct2, THEN conjunct2, THEN conjunct1]
    by blast+
  show "client s' c" by (rule sc [THEN conjunct2, THEN conjunct1])
  show "motherlobe s' = motherlobe s" by (rule sc2 [THEN conjunct2, THEN conjunct2, THEN conjunct2, THEN conjunct2])
  show "listed s' q" if "listed s q"
  proof (cases "q = p")
    case False
    obtain bs where bs: "plist (part_at s) (link_list (disk_at s q)) bs" "set bs \<subseteq> fst ` cream_objects s"
      using \<open>listed s q\<close> by (auto simp: listed_def)
    have "disk_at s' q = disk_at s q" by (subst d) (simp add: False)
    moreover have "plist (part_at s') (link_list (disk_at s q)) bs"
      using bs(1) by (subst plist_cong [where g = "part_at s"]) (use bs(2) old in \<open>simp add: subset_iff\<close>)
    ultimately show ?thesis using bs(2) sub by (auto simp: listed_def intro!: exI [of _ bs])
  qed (simp add: l)
qed

lemma scan_fold:
  assumes "client s (c + 5 * n)"
  shows "let s' = fold (\<lambda>i s. if motherlobe s ! i = 0 then s else single_disk_scan io (motherlobe s ! i) s) [0..<n] s in
    client s' c \<and> motherlobe s' = motherlobe s \<and> (\<forall>i<n. motherlobe s ! i \<noteq> 0 \<longrightarrow> listed s' (motherlobe s ! i))"
  using assms
proof (induction n arbitrary: c)
  case (Suc n)
  let ?f = "\<lambda>i s. if motherlobe s ! i = 0 then s else single_disk_scan io (motherlobe s ! i) s"
  define t where "t = fold ?f [0..<n] s"
  have IH: "client t (c + 5)" "motherlobe t = motherlobe s" "\<And>i. i < n \<Longrightarrow> motherlobe s ! i \<noteq> 0 \<Longrightarrow> listed t (motherlobe s ! i)"
    using Suc.IH [of "c + 5"] Suc.prems unfolding Let_def t_def [symmetric] by (auto simp: algebra_simps)
  have e: "fold ?f [0..<Suc n] s = ?f n t" by (simp add: t_def)
  show ?case
  proof (cases "motherlobe s ! n = 0")
    case True
    then show ?thesis unfolding e Let_def using IH client_less [OF IH(1), of c] by (auto simp: less_Suc_eq)
  next
    case False
    obtain b where b: "scanned t (motherlobe s ! n) b c (single_disk_scan io (motherlobe s ! n) t)"
      by (rule single_disk_scan_any [OF IH(1) False]) blast
    show ?thesis unfolding e Let_def using scanned_listed [OF b] IH False by (auto simp: less_Suc_eq)
  qed
qed simp

text \<open>\<open>shown s s'\<close>: only the console has changed.\<close>

definition shown :: "('d, 'z) disk_state_scheme \<Rightarrow> ('d, 'z) disk_state_scheme \<Rightarrow> bool" where
  "shown s s' \<longleftrightarrow> same_heap s s' \<and> motherlobe s' = motherlobe s \<and> disk_at s' = disk_at s \<and>
     part_at s' = part_at s \<and> dev s' = dev s"

lemma shown_refl [simp]: "shown s s"
  by (simp add: shown_def)

lemma shown_print [simp]: "shown s (print cs s') \<longleftrightarrow> shown s s'"
  by (simp add: shown_def)

lemma shown_trans: "shown s s' \<Longrightarrow> shown s' s'' \<Longrightarrow> shown s s''"
  by (auto simp: shown_def same_heap_def)

lemma shown_parts: "shown s s' \<Longrightarrow> shown s (fold (\<lambda>a t. print_part (f a) t) as s')"
  by (induction as arbitrary: s') (simp_all add: print_part_def)

lemma shown_listed: "shown s s' \<Longrightarrow> listed s' p = listed s p"
  using same_heapD(2) [of s s'] by (simp add: shown_def listed_def cream_objects_def)

lemma disk_debug_one_shown [simp]: "shown t (disk_debug_one k s) \<longleftrightarrow> shown t s"
  by (simp add: disk_debug_one_def Let_def print_32_hex8 print_16_hex4 print_hex_hex2)

lemma disk_debug_shown: "shown t s \<Longrightarrow> shown t (disk_debug_print s)"
proof -
  have "shown t s \<Longrightarrow>
    shown t (fold (\<lambda>i s. if motherlobe s ! i \<noteq> 0 then disk_debug_one (disk_at s (motherlobe s ! i)) s else s) is s)" for "is"
    by (induction "is" arbitrary: s) simp_all
  then show "shown t s \<Longrightarrow> shown t (disk_debug_print s)" unfolding disk_debug_print_def by blast
qed

lemma partition_debug_ends:
  "(\<And>i. i \<in> set is \<Longrightarrow> motherlobe s ! i \<noteq> 0 \<Longrightarrow> listed s (motherlobe s ! i)) \<Longrightarrow>
    \<exists>s'. partition_debug_from is s = Some s' \<and> shown s s'"
proof (induction "is" arbitrary: s)
  case (Cons i "is")
  show ?case
  proof (cases "motherlobe s ! i = 0")
    case True
    then show ?thesis using Cons by simp
  next
    case False
    define t where "t = print nl (print_32 (of_nat i) (print (lit ''diskno:'') s))"
    have t: "shown s t" by (simp add: t_def print_32_hex8)
    have "listed t (motherlobe s ! i)" using Cons.prems [of i] False by (simp add: shown_listed [OF t])
    then obtain as where as: "plist (part_at t) (link_list (disk_at t (motherlobe s ! i))) as" by (auto simp: listed_def)
    define u where "u = (if as = [] then print (lit ''no linked list'' @ nl) t else fold (\<lambda>a t'. print_part (part_at t a) t') as t)"
    have p: "print_link_list (motherlobe s ! i) t = Some u"
      using print_link_list_ends [OF as] by (simp add: u_def)
    have u: "shown s u" using t shown_parts [OF t, of "part_at t" as] by (simp add: u_def)
    have "\<exists>s'. partition_debug_from is u = Some s' \<and> shown u s'"
      using Cons.prems u by (intro Cons.IH) (auto simp: shown_listed [OF u] shown_def)
    then show ?thesis using False p shown_trans [OF u] by (auto simp: t_def)
  qed
qed simp

section \<open>Properties\<close>

text \<open>C19: After the set-up half of \<open>kernel_main\<close> all parts stand beside each other: the interrupt table is loaded and
  its 512 gates lead to the handlers, paging is on with every one of the 2^32 addresses mapped to itself, and the
  object heap is empty, in order and sure to serve 124 requests.  (The image the boot loader leaves: the heap's region
  is clear and the two globals of the interrupt table lie outside the heap.)\<close>

theorem kernel_setup_sound:
  assumes "image_ok s" and "s' = kernel_setup io sr0 sr20 sr21 isr_x boot root parts s"
  shows "idtr s' = (4095, idt_table s) \<and> (\<forall>i<512. gate (mem s') (idt_table s) i = vector_gate sr0 sr20 sr21 isr_x i) \<and>
    paged s' \<and> client s' 124 \<and> cream_objects s' = {}"
  using kernel_setup_ok [OF assms] by blast

text \<open>A boot image with one drive and cleared memory.\<close>

definition boot_image :: "channel kernel_state" where
  "boot_image = disk_state.extend (disk_state.truncate blank_state) \<lparr>G_ROOT_DRIVE = 0, G_ROOT_PART = 0\<rparr>"

lemma boot_image_ok: "image_ok boot_image"
proof -
  have f: "idt_table boot_image = 0x200000" "idtr_descriptor boot_image = 0x203000" "mem boot_image = (\<lambda>_. 0)"
    by (simp_all add: boot_image_def disk_state.defs blank_state_def)
  show ?thesis
    unfolding image_ok_def idt_bytes_def heap_bytes_def f
    by (auto simp: in_range_nat const_defs kheap_pages_def intro!: ranges_disjoint_nat)
qed

lemma kernel_setup_sound_witness:
  "paged (kernel_setup ch_io 0x100100 0x100200 0x100300 0x100400 0x80 0x80 1 boot_image)"
  using kernel_setup_sound [OF boot_image_ok refl] by blast

text \<open>C21: \<open>kernel_main\<close> returns, whatever the disks answer or fail to answer: every wait is bounded, every
  request of the search and of the scans is served, and the partition lists that are printed end.  It returns
  with interrupts enabled and the object heap in order, with room for 95 more objects.\<close>

theorem kernel_main_returns:
  assumes "image_ok s"
  shows "\<exists>s'. kernel_main io sr0 sr20 sr21 isr_x boot root parts s = Some s' \<and> interrupts s' \<and> client s' 95"
proof -
  have k: "client (kernel_setup io sr0 sr20 sr21 isr_x boot root parts s) 124" by (rule kernel_setup_ok(1) [OF assms refl])
  define s1 where "s1 = print (lit ''searching for disks....'' @ nl) (kernel_setup io sr0 sr20 sr21 isr_x boot root parts s)"
  define s2 where "s2 = disk_search_and_init io s1"
  define s3 where "s3 = print (lit ''searching for partitions..'' @ nl) (disk_debug_print (print (lit ''printing info obtained'' @ nl @ nl) s2))"
  define s4 where "s4 = scan_part_all_disks io s3"
  have "client s1 124" unfolding s1_def by (rule client_same_heap(1) [OF _ k]) simp
  then have "client s2 120" unfolding s2_def by (intro disk_search_client) simp
  moreover have "same_heap s2 s3" using disk_debug_shown [of s2] by (simp add: s3_def shown_def)
  ultimately have "client s3 (95 + 5 * 5)" using client_same_heap(1) by simp
  from scan_fold [OF this, of io]
  have s4: "client s4 95" "motherlobe s4 = motherlobe s3" "\<And>i. i < 5 \<Longrightarrow> motherlobe s3 ! i \<noteq> 0 \<Longrightarrow> listed s4 (motherlobe s3 ! i)"
    unfolding Let_def scan_part_all_disks_def [symmetric] s4_def [symmetric] by blast+
  then obtain s5 where s5: "partition_debug s4 = Some s5" "shown s4 s5"
    using partition_debug_ends [of "[0..<5]" s4] unfolding partition_debug_def by auto
  then have "kernel_main io sr0 sr20 sr21 isr_x boot root parts s = Some (print (lit ''interrupts enabled....'' @ nl) (enable_interrupts s5))"
    unfolding kernel_main_def Let_def s1_def [symmetric] s2_def [symmetric] s3_def [symmetric] s4_def [symmetric] s5(1) by simp
  moreover have "client (print cs (enable_interrupts s5)) 95" for cs
    by (rule client_same_heap(1) [OF _ s4(1)]) (use s5(2) in \<open>simp add: shown_def same_heap_def enable_interrupts_def\<close>)
  moreover have "interrupts (print cs (enable_interrupts s5))" for cs
    using print_ext [of cs "enable_interrupts s5"] by (auto simp: enable_interrupts_def)
  ultimately show ?thesis by blast
qed

lemma kernel_main_returns_witness:
  "\<exists>s'. kernel_main ch_io 0x100100 0x100200 0x100300 0x100400 0x80 0x80 1 boot_image = Some s' \<and> interrupts s'"
  using kernel_main_returns [OF boot_image_ok] by blast

end
