(* ===== verification/Ata_Bus.thy ===== *)
theory Ata_Bus
  imports Ata
begin

text \<open>
  What the search for disks relies on: two channels with up to two drives each, which answer the command IDENTIFY with
  256 words.  The locale \<open>ata_bus\<close> states this contract, and an executable bus fulfils it.
\<close>

section \<open>Waiting for a condition that comes\<close>

lemma wait_while_ends:
  assumes "P d" and "\<mu> d \<le> k"
    and step: "\<And>d. P d \<Longrightarrow> \<exists>b d'. c d = (b, d') \<and> P d' \<and> (if b then \<mu> d' < \<mu> d else Q d')"
  shows "\<exists>d'. wait_while c k d = (True, d') \<and> P d' \<and> Q d'"
  using assms(1,2)
proof (induction k arbitrary: d)
  case (Suc k)
  from step [OF Suc.prems(1)] obtain b d' where d': "c d = (b, d')" "P d'" "if b then \<mu> d' < \<mu> d else Q d'" by blast
  show ?case
  proof (cases b)
    case True
    then have "\<exists>d''. wait_while c k d' = (True, d'') \<and> P d'' \<and> Q d''" using d' Suc.prems(2) by (intro Suc.IH) simp_all
    then show ?thesis using d' True by (simp add: wait_while.simps [of c "Suc k" d])
  qed (use d' in \<open>simp add: wait_while.simps [of c "Suc k" d]\<close>)
next
  case 0
  from step [OF 0(1)] obtain b d' where "c d = (b, d')" "P d'" "if b then \<mu> d' < \<mu> d else Q d'" by blast
  then show ?case using 0(2) by (cases b) (simp_all add: wait_while.simps [of c 0 d])
qed

lemma wait_while_dec_ends:
  assumes "P d" and "\<mu> d \<le> k"
    and step: "\<And>d. P d \<Longrightarrow> \<exists>b d'. c d = (b, d') \<and> P d' \<and> (if b then \<mu> d' < \<mu> d else Q d')"
  shows "\<exists>d'. wait_while_dec c (Suc k) d = (True, d') \<and> P d' \<and> Q d'"
  using assms(1,2)
proof (induction k arbitrary: d)
  case (Suc k)
  from step [OF Suc.prems(1)] obtain b d' where d': "c d = (b, d')" "P d'" "if b then \<mu> d' < \<mu> d else Q d'" by blast
  show ?case
  proof (cases b)
    case True
    then have "\<exists>d''. wait_while_dec c (Suc k) d' = (True, d'') \<and> P d'' \<and> Q d''" using d' Suc.prems(2) by (intro Suc.IH) simp_all
    then show ?thesis using d' True by (simp add: wait_while_dec.simps [of c "Suc (Suc k)" d])
  qed (use d' in \<open>simp add: wait_while_dec.simps [of c "Suc (Suc k)" d]\<close>)
next
  case 0
  from step [OF 0(1)] obtain b d' where "c d = (b, d')" "P d'" "if b then \<mu> d' < \<mu> d else Q d'" by blast
  then show ?case using 0(2) by (cases b) (simp_all add: wait_while_dec.simps [of c "Suc 0" d])
qed

section \<open>The contract\<close>

text \<open>The base port of a channel; \<open>True\<close> stands for the second channel, and below for the second drive (slave).\<close>

definition port :: "bool \<Rightarrow> u16" where
  "port c = (if c then 0x170 else 0x1f0)"

text \<open>
  \<open>sel d c\<close>: whether the slave is selected on channel \<open>c\<close>.  \<open>ident d c sl\<close>: the answer of a drive to IDENTIFY, \<open>None\<close> when there
  is no drive.  \<open>words d c\<close>: what the channel still has to deliver.  \<open>pending d c\<close>: for how many reads of the status
  the channel stays busy.  The status of a missing drive is 0 or, on an empty channel, 0xff.
\<close>

locale ata_bus =
  fixes io :: "'d port_io"
    and inv :: "'d \<Rightarrow> bool"
    and sel :: "'d \<Rightarrow> bool \<Rightarrow> bool"
    and ident :: "'d \<Rightarrow> bool \<Rightarrow> bool \<Rightarrow> u16 list option"
    and "words" :: "'d \<Rightarrow> bool \<Rightarrow> u16 list"
    and pending :: "'d \<Rightarrow> bool \<Rightarrow> nat"
  assumes pending_bound: "inv d \<Longrightarrow> pending d c < ATA_WAIT"
    and ident_words: "inv d \<Longrightarrow> ident d c sl = Some ws \<Longrightarrow> length ws = 256"
    and status: "inv d \<Longrightarrow> inb_p io (port c + 7) d = (v, d') \<Longrightarrow>
      inv d' \<and> sel d' = sel d \<and> ident d' = ident d \<and> words d' = words d \<and>
      (if ident d c (sel d c) = None then v = 0 \<or> v = 0xff
       else v \<noteq> 0 \<and> v \<noteq> 0xff \<and> pending d' c = pending d c - 1 \<and>
         (if 0 < pending d c then v AND 0x80 \<noteq> 0 else v AND 0x80 = 0 \<and> (v AND 0x08 \<noteq> 0 \<longleftrightarrow> words d c \<noteq> [])))"
    and delay: "inv d \<Longrightarrow> inb_p io (port c + 6) d = (v, d') \<Longrightarrow>
      inv d' \<and> sel d' = sel d \<and> ident d' = ident d \<and> words d' = words d"
    and control: "inv d \<Longrightarrow> d' = outb_p io (port c + 0x206) 0 d \<Longrightarrow>
      inv d' \<and> sel d' = sel d \<and> ident d' = ident d \<and> words d' = words d"
    and select: "inv d \<Longrightarrow> words d c = [] \<or> (v AND 0x10 \<noteq> 0) = sel d c \<Longrightarrow> d' = outb_p io (port c + 6) v d \<Longrightarrow>
      inv d' \<and> sel d' = (sel d)(c := v AND 0x10 \<noteq> 0) \<and> ident d' = ident d \<and> words d' = words d"
    and identify: "inv d \<Longrightarrow> ident d c (sel d c) = Some ws \<Longrightarrow> pending d c = 0 \<Longrightarrow> d' = outb_p io (port c + 7) 0xec d \<Longrightarrow>
      inv d' \<and> sel d' = sel d \<and> ident d' = ident d \<and> words d' = (words d)(c := ws)"
    and word: "inv d \<Longrightarrow> words d c = w # ws \<Longrightarrow> pending d c = 0 \<Longrightarrow> in16_p io (port c) d = (x, d') \<Longrightarrow>
      x = w \<and> inv d' \<and> sel d' = sel d \<and> ident d' = ident d \<and> words d' = (words d)(c := ws) \<and> pending d' c = 0"
begin

definition calm :: "'d \<Rightarrow> 'd \<Rightarrow> bool" where
  "calm d d' \<longleftrightarrow> inv d' \<and> sel d' = sel d \<and> ident d' = ident d \<and> words d' = words d"

lemma calm_refl: "inv d \<Longrightarrow> calm d d"
  by (simp add: calm_def)

lemma calm_trans: "calm d d' \<Longrightarrow> calm d' d'' \<Longrightarrow> calm d d''"
  by (simp add: calm_def)

lemma inb_times_calm: "inv d \<Longrightarrow> calm d (inb_times io (port c + 6) n d)"
proof (induction n)
  case (Suc n)
  let ?d = "inb_times io (port c + 6) n d"
  have "inb_times io (port c + 6) (Suc n) d = snd (inb_p io (port c + 6) ?d)" by (simp add: inb_times_def)
  then show ?case using Suc delay [of ?d c] by (cases "inb_p io (port c + 6) ?d") (auto simp: calm_def)
qed (simp add: inb_times_def calm_refl)

text \<open>The two conditions of waiting, on a channel whose selected drive exists.\<close>

lemma busy_step:
  assumes "inv d" and "ident d c (sel d c) \<noteq> None"
  shows "\<exists>b d'. busy io (port c + 7) d = (b, d') \<and> calm d d' \<and> (if b then pending d' c < pending d c else pending d' c = 0)"
proof -
  obtain v d' where v: "inb_p io (port c + 7) d = (v, d')" by fastforce
  from status [OF assms(1) v] show ?thesis using assms(2) v
    by (intro exI [of _ "v AND 0x80 \<noteq> 0"] exI [of _ d']) (auto simp: busy_def calm_def split: if_splits)
qed

lemma data_step:
  assumes "inv d" and "ident d c (sel d c) \<noteq> None" and "words d c \<noteq> []"
  shows "\<exists>b d'. busy_or_no_data io (port c + 7) d = (b, d') \<and> calm d d' \<and> (if b then pending d' c < pending d c else pending d' c = 0)"
proof -
  obtain v d1 where v: "inb_p io (port c + 7) d = (v, d1)" by fastforce
  note s1 = status [OF assms(1) v]
  show ?thesis
  proof (cases "v AND 0x80 = 0")
    case True
    obtain w d2 where w: "inb_p io (port c + 7) d1 = (w, d2)" by fastforce
    have p: "pending d c = 0" "pending d1 c = 0" using s1 True assms(2) by (auto split: if_splits)
    have "inv d1" using s1 by blast
    from status [OF this w] show ?thesis using True v w p s1 assms(2,3)
      by (intro exI [of _ False] exI [of _ d2]) (auto simp: busy_or_no_data_def calm_def)
  next
    case False
    then show ?thesis using s1 v assms(2)
      by (intro exI [of _ True] exI [of _ d1]) (auto simp: busy_or_no_data_def calm_def split: if_splits)
  qed
qed

lemma wait_steps:
  assumes d: "inv d" "R d"
    and step: "\<And>d. inv d \<Longrightarrow> R d \<Longrightarrow> \<exists>b d'. f d = (b, d') \<and> calm d d' \<and> (if b then pending d' c < pending d c else pending d' c = 0)"
    and R: "\<And>d d'. calm d d' \<Longrightarrow> R d \<Longrightarrow> R d'"
  shows "\<exists>d'. wait_while f ATA_WAIT d = (True, d') \<and> calm d d' \<and> pending d' c = 0"
    and "\<exists>d'. wait_while_dec f ATA_WAIT d = (True, d') \<and> calm d d' \<and> pending d' c = 0"
proof -
  have st: "\<exists>b e'. f e = (b, e') \<and> calm d e' \<and> (if b then pending e' c < pending e c else pending e' c = 0)" if "calm d e" for e
  proof -
    have "inv e" "R e" using that R [OF that d(2)] by (simp_all add: calm_def)
    from step [OF this] show ?thesis using calm_trans [OF that] by blast
  qed
  obtain k where k: "ATA_WAIT = Suc k" "pending d c \<le> Suc k" "pending d c \<le> k"
    using pending_bound [OF d(1), of c] by (cases ATA_WAIT) simp_all
  show "\<exists>d'. wait_while f ATA_WAIT d = (True, d') \<and> calm d d' \<and> pending d' c = 0"
    by (unfold k(1), rule wait_while_ends [where P = "calm d" and \<mu> = "\<lambda>d. pending d c"]) (use k st calm_refl [OF d(1)] in auto)
  show "\<exists>d'. wait_while_dec f ATA_WAIT d = (True, d') \<and> calm d d' \<and> pending d' c = 0"
    unfolding k(1)
    by (rule wait_while_dec_ends [where P = "calm d" and \<mu> = "\<lambda>d. pending d c"]) (use k st calm_refl [OF d(1)] in auto)
qed

lemma wait_ready:
  assumes "inv d" and "ident d c (sel d c) \<noteq> None"
  obtains d' d'' where "wait_while (busy io (port c + 7)) ATA_WAIT d = (True, d')" and "calm d d'" and "pending d' c = 0"
    and "wait_while_dec (busy io (port c + 7)) ATA_WAIT d = (True, d'')" and "calm d d''" and "pending d'' c = 0"
proof -
  let ?R = "\<lambda>d. ident d c (sel d c) \<noteq> None"
  have st: "\<exists>b e'. busy io (port c + 7) e = (b, e') \<and> calm e e' \<and> (if b then pending e' c < pending e c else pending e' c = 0)"
    if "inv e" "?R e" for e using busy_step that by blast
  have keep: "?R e'" if "calm e e'" "?R e" for e e' using that by (simp add: calm_def)
  have R: "?R d" using assms by simp
  have "\<exists>d'. wait_while (busy io (port c + 7)) ATA_WAIT d = (True, d') \<and> calm d d' \<and> pending d' c = 0"
    by (rule wait_steps(1) [where R = ?R, OF assms(1) R]) (use st keep in blast)+
  moreover have "\<exists>d'. wait_while_dec (busy io (port c + 7)) ATA_WAIT d = (True, d') \<and> calm d d' \<and> pending d' c = 0"
    by (rule wait_steps(2) [where R = ?R, OF assms(1) R]) (use st keep in blast)+
  ultimately show thesis using that by blast
qed

lemma wait_words:
  assumes "inv d" and "ident d c (sel d c) \<noteq> None" and "words d c \<noteq> []"
  obtains d' d'' where "wait_while (busy_or_no_data io (port c + 7)) ATA_WAIT d = (True, d')" and "calm d d'" and "pending d' c = 0"
    and "wait_while_dec (busy_or_no_data io (port c + 7)) ATA_WAIT d = (True, d'')" and "calm d d''" and "pending d'' c = 0"
proof -
  let ?R = "\<lambda>d. ident d c (sel d c) \<noteq> None \<and> words d c \<noteq> []"
  have st: "\<exists>b e'. busy_or_no_data io (port c + 7) e = (b, e') \<and> calm e e' \<and> (if b then pending e' c < pending e c else pending e' c = 0)"
    if "inv e" "?R e" for e using data_step that by blast
  have keep: "?R e'" if "calm e e'" "?R e" for e e' using that by (simp add: calm_def)
  have R: "?R d" using assms by simp
  have "\<exists>d'. wait_while (busy_or_no_data io (port c + 7)) ATA_WAIT d = (True, d') \<and> calm d d' \<and> pending d' c = 0"
    by (rule wait_steps(1) [where R = ?R, OF assms(1) R]) (use st keep in blast)+
  moreover have "\<exists>d'. wait_while_dec (busy_or_no_data io (port c + 7)) ATA_WAIT d = (True, d') \<and> calm d d' \<and> pending d' c = 0"
    by (rule wait_steps(2) [where R = ?R, OF assms(1) R]) (use st keep in blast)+
  ultimately show thesis using that by blast
qed

text \<open>The words of the answer arrive in the buffer.\<close>

lemma in_words_ok:
  assumes "inv d" and "words d c = ws" and "pending d c = 0" and "n \<le> length ws"
  shows "\<exists>d'. in_words io (port c) n a (m, d) = (put_words m a (take n ws), d') \<and> inv d' \<and> sel d' = sel d \<and> ident d' = ident d \<and>
    words d' = (words d)(c := drop n ws) \<and> pending d' c = 0"
  using assms(4)
proof (induction n)
  case 0
  then show ?case using assms by (intro exI [of _ d]) (auto simp: in_words_def)
next
  case (Suc n)
  then obtain d1 where d1: "in_words io (port c) n a (m, d) = (put_words m a (take n ws), d1)" "inv d1" "sel d1 = sel d"
    "ident d1 = ident d" "words d1 = (words d)(c := drop n ws)" "pending d1 c = 0" by (auto simp del: fun_upd_apply)
  have n: "n < length ws" using Suc.prems by simp
  then have w: "words d1 c = ws ! n # drop (Suc n) ws" using d1(5) Cons_nth_drop_Suc [OF n] by simp
  obtain x d2 where x: "in16_p io (port c) d1 = (x, d2)" by fastforce
  note rd = word [OF d1(2) w d1(6) x]
  have "in_words io (port c) (Suc n) a (m, d) = (put_words m a (take (Suc n) ws), d2)"
    using d1(1) x rd n put_words_snoc [of m a "take n ws" "ws ! n"]
    by (simp add: in_words_def take_Suc_conv_app_nth)
  then show ?case using rd d1 by (intro exI [of _ d2]) auto
qed

end

section \<open>An executable bus\<close>

record bus =
  bus_sel :: "bool \<Rightarrow> bool"
  bus_ident :: "bool \<Rightarrow> bool \<Rightarrow> u16 list option"
  bus_words :: "bool \<Rightarrow> u16 list"
  bus_busy :: "bool \<Rightarrow> nat"

definition bus_inb :: "u16 \<Rightarrow> bus \<Rightarrow> byte \<times> bus" where
  "bus_inb p d =
     (if p = 0x1f7 \<or> p = 0x177 then
        let c = (p = 0x177)
        in if bus_ident d c (bus_sel d c) = None then (if c then 0xff else 0, d)
           else if 0 < bus_busy d c then (0x80, d\<lparr>bus_busy := (bus_busy d)(c := bus_busy d c - 1)\<rparr>)
           else (if bus_words d c = [] then 0x50 else 0x58, d)
      else (0, d))"

definition bus_in16 :: "u16 \<Rightarrow> bus \<Rightarrow> u16 \<times> bus" where
  "bus_in16 p d =
     (let c = (p = 0x170)
      in case bus_words d c of [] \<Rightarrow> (0, d) | w # ws \<Rightarrow> (w, d\<lparr>bus_words := (bus_words d)(c := ws)\<rparr>))"

definition bus_outb :: "u16 \<Rightarrow> byte \<Rightarrow> bus \<Rightarrow> bus" where
  "bus_outb p v d =
     (if p = 0x1f6 \<or> p = 0x176 then d\<lparr>bus_sel := (bus_sel d)(p = 0x176 := v AND 0x10 \<noteq> 0)\<rparr>
      else if (p = 0x1f7 \<or> p = 0x177) \<and> v = 0xec then
        let c = (p = 0x177)
        in case bus_ident d c (bus_sel d c) of None \<Rightarrow> d
           | Some ws \<Rightarrow> d\<lparr>bus_words := (bus_words d)(c := ws), bus_busy := (bus_busy d)(c := 3)\<rparr>
      else d)"

definition bus_io :: "bus port_io" where
  "bus_io = \<lparr>inb_p = bus_inb, in16_p = bus_in16, outb_p = bus_outb, out16_p = (\<lambda>_ _ d. d)\<rparr>"

definition bus_inv :: "bus \<Rightarrow> bool" where
  "bus_inv d \<longleftrightarrow> (\<forall>c. bus_busy d c < ATA_WAIT) \<and> (\<forall>c sl. case bus_ident d c sl of None \<Rightarrow> True | Some ws \<Rightarrow> length ws = 256)"

text \<open>The ports of a channel.\<close>

lemma port_simps:
  "port c + 7 = (if c then 0x177 else 0x1f7)" "port c + 6 = (if c then 0x176 else 0x1f6)" "port c + 0x206 = (if c then 0x376 else 0x3f6)"
  by (simp_all add: port_def)

lemma bus_inb_ports:
  "bus_inb (port c + 7) d =
     (if bus_ident d c (bus_sel d c) = None then (if c then 0xff else 0, d)
      else if 0 < bus_busy d c then (0x80, d\<lparr>bus_busy := (bus_busy d)(c := bus_busy d c - 1)\<rparr>)
      else (if bus_words d c = [] then 0x50 else 0x58, d))"
  "bus_inb (port c + 6) d = (0, d)"
  by (rule bool.induct [of _ c]; simp add: bus_inb_def port_simps Let_def)+

lemma bus_outb_ports:
  "bus_outb (port c + 0x206) v d = d"
  "bus_outb (port c + 6) v d = d\<lparr>bus_sel := (bus_sel d)(c := v AND 0x10 \<noteq> 0)\<rparr>"
  "bus_outb (port c + 7) 0xec d =
     (case bus_ident d c (bus_sel d c) of None \<Rightarrow> d
      | Some ws \<Rightarrow> d\<lparr>bus_words := (bus_words d)(c := ws), bus_busy := (bus_busy d)(c := 3)\<rparr>)"
  by (rule bool.induct [of _ c]; simp add: bus_outb_def port_simps Let_def)+

lemma bus_in16_port:
  "bus_in16 (port c) d = (case bus_words d c of [] \<Rightarrow> (0, d) | w # ws \<Rightarrow> (w, d\<lparr>bus_words := (bus_words d)(c := ws)\<rparr>))"
  by (rule bool.induct [of _ c]) (simp_all add: bus_in16_def port_def)

lemma bus_inv_upd:
  assumes "bus_inv d"
  shows "n < ATA_WAIT \<Longrightarrow> bus_inv (d\<lparr>bus_busy := (bus_busy d)(c := n)\<rparr>)" and "bus_inv (d\<lparr>bus_words := f\<rparr>)" and "bus_inv (d\<lparr>bus_sel := g\<rparr>)"
    and "bus_ident d c sl = Some ws \<Longrightarrow> length ws = 256" and "bus_busy d c < ATA_WAIT" and "bus_busy d c - Suc 0 < ATA_WAIT"
proof -
  have b: "bus_busy d c < ATA_WAIT" for c using assms by (simp add: bus_inv_def)
  have w: "case bus_ident d c sl of None \<Rightarrow> True | Some ws \<Rightarrow> length ws = 256" for c sl using assms by (simp add: bus_inv_def)
  show "n < ATA_WAIT \<Longrightarrow> bus_inv (d\<lparr>bus_busy := (bus_busy d)(c := n)\<rparr>)" "bus_inv (d\<lparr>bus_words := f\<rparr>)" "bus_inv (d\<lparr>bus_sel := g\<rparr>)"
    unfolding bus_inv_def using b w by simp_all
  show "bus_ident d c sl = Some ws \<Longrightarrow> length ws = 256" using w [of c sl] by simp
  show "bus_busy d c < ATA_WAIT" "bus_busy d c - Suc 0 < ATA_WAIT" using b [of c] by simp_all
qed

interpretation two_channels: ata_bus bus_io bus_inv bus_sel bus_ident bus_words bus_busy
proof unfold_locales
  fix d d' c sl ws v
  assume d: "bus_inv d"
  note inv = bus_inv_upd [OF d]
  show "bus_busy d c < ATA_WAIT" by (rule inv)
  show "bus_ident d c sl = Some ws \<Longrightarrow> length ws = 256" by (rule inv)
  show "inb_p bus_io (port c + 7) d = (v, d') \<Longrightarrow>
      bus_inv d' \<and> bus_sel d' = bus_sel d \<and> bus_ident d' = bus_ident d \<and> bus_words d' = bus_words d \<and>
      (if bus_ident d c (bus_sel d c) = None then v = 0 \<or> v = 0xff
       else v \<noteq> 0 \<and> v \<noteq> 0xff \<and> bus_busy d' c = bus_busy d c - 1 \<and>
         (if 0 < bus_busy d c then v AND 0x80 \<noteq> 0 else v AND 0x80 = 0 \<and> (v AND 0x08 \<noteq> 0 \<longleftrightarrow> bus_words d c \<noteq> [])))"
    using d inv(1) [OF inv(6)] by (cases "bus_ident d c (bus_sel d c) = None"; cases "bus_busy d c = 0"; cases "bus_words d c = []")
      (auto simp: bus_io_def bus_inb_ports)
  show "inb_p bus_io (port c + 6) d = (v, d') \<Longrightarrow>
      bus_inv d' \<and> bus_sel d' = bus_sel d \<and> bus_ident d' = bus_ident d \<and> bus_words d' = bus_words d"
    using d by (simp add: bus_io_def bus_inb_ports)
  show "d' = outb_p bus_io (port c + 0x206) 0 d \<Longrightarrow>
      bus_inv d' \<and> bus_sel d' = bus_sel d \<and> bus_ident d' = bus_ident d \<and> bus_words d' = bus_words d"
    using d by (simp add: bus_io_def bus_outb_ports)
  show "d' = outb_p bus_io (port c + 6) v d \<Longrightarrow>
      bus_inv d' \<and> bus_sel d' = (bus_sel d)(c := v AND 0x10 \<noteq> 0) \<and> bus_ident d' = bus_ident d \<and> bus_words d' = bus_words d"
    using inv by (simp add: bus_io_def bus_outb_ports del: fun_upd_apply)
  show "bus_ident d c (bus_sel d c) = Some ws \<Longrightarrow> d' = outb_p bus_io (port c + 7) 0xec d \<Longrightarrow>
      bus_inv d' \<and> bus_sel d' = bus_sel d \<and> bus_ident d' = bus_ident d \<and> bus_words d' = (bus_words d)(c := ws)"
    using bus_inv_upd(1) [OF inv(2), of 3] by (simp add: bus_io_def bus_outb_ports const_defs del: fun_upd_apply)
  fix w x
  show "bus_words d c = w # ws \<Longrightarrow> bus_busy d c = 0 \<Longrightarrow> in16_p bus_io (port c) d = (x, d') \<Longrightarrow>
      x = w \<and> bus_inv d' \<and> bus_sel d' = bus_sel d \<and> bus_ident d' = bus_ident d \<and> bus_words d' = (bus_words d)(c := ws) \<and> bus_busy d' c = 0"
    using inv by (auto simp: bus_io_def bus_in16_port simp del: fun_upd_apply)
qed

end
