(* ===== verification/Disk_Search.thy ===== *)
theory Disk_Search
  imports Start_Up Ata_Bus
begin

text \<open>
  What \<open>disk_search_and_init\<close> finds on a bus that fulfils the contract of theory \<open>Ata_Bus\<close>: the boot drive and the drives with the
  codes 0x81 to 0x83, each described as it answers IDENTIFY.
\<close>

section \<open>Descriptions of disks\<close>

text \<open>The channel and the drive of a code, and the number of sectors in the answer of a drive.\<close>

definition chan :: "u16 \<Rightarrow> bool" where
  "chan i \<longleftrightarrow> i AND 0x02 \<noteq> 0"

definition slave :: "u16 \<Rightarrow> bool" where
  "slave i \<longleftrightarrow> i AND 0x01 \<noteq> 0"

definition capacity :: "u16 list \<Rightarrow> u32" where
  "capacity ws = push_bit 16 (ucast (ws ! 61)) OR ucast (ws ! 60)"

definition described :: "u16 \<Rightarrow> u16 list \<Rightarrow> disk \<Rightarrow> disk" where
  "described i ws k = k\<lparr>drive_head := if slave i then 0xb0 else 0xa0, is_master := if slave i then 0 else 1,
     base_data_port := port (chan i), command_status_port := port (chan i) + 7, control_port := port (chan i) + 0x206,
     head := port (chan i) + 6, sect_count := capacity ws, sect_size := 512\<rparr>"

text \<open>The record at \<open>a\<close> describes the drive with code \<open>i\<close> as it answers.\<close>

definition found :: "(bool \<Rightarrow> bool \<Rightarrow> u16 list option) \<Rightarrow> ('d, 'z) disk_state_scheme \<Rightarrow> addr \<Rightarrow> u16 \<Rightarrow> bool" where
  "found idn s a i \<longleftrightarrow>
     (case idn (chan i) (slave i) of None \<Rightarrow> False
      | Some ws \<Rightarrow> (\<exists>k. ata_code k = ucast i \<and> dtype k = DISK_TYPE_REAL \<and> disk_at s a = described i ws k))"

lemma found_cong: "disk_at s' a = disk_at s a \<Longrightarrow> found idn s' a i = found idn s a i"
  by (simp add: found_def split: option.split)

lemma described_fields [simp]:
  "base_data_port (described i ws k) = port (chan i)" "is_master (described i ws k) = (if slave i then 0 else 1)"
  "sect_count (described i ws k) = capacity ws" "sect_size (described i ws k) = 512" "ata_code (described i ws k) = ata_code k"
  by (simp_all add: described_def)

lemma set_disk_info_described:
  assumes "ucast (ata_code (disk_at s p)) = i"
  shows "upd_disk p (\<lambda>k. k\<lparr>sect_count := capacity ws, sect_size := 512\<rparr>) (set_disk_info p s) = upd_disk p (described i ws) s"
    and "base_data_port (disk_at (set_disk_info p s) p) = port (chan i)"
    and "command_status_port (disk_at (set_disk_info p s) p) = port (chan i) + 7"
    and "control_port (disk_at (set_disk_info p s) p) = port (chan i) + 0x206"
    and "head (disk_at (set_disk_info p s) p) = port (chan i) + 6"
    and "drive_head (disk_at (set_disk_info p s) p) = (if slave i then 0xb0 else 0xa0)"
  using assms by (auto simp: set_disk_info_def upd_disk_def described_def port_def chan_def slave_def Let_def)

lemma object_in_heap:
  assumes "client s k" and "(a, n) \<in> cream_objects s"
  shows "in_range KHEAP_START (unat KHEAP_SIZE_BYTES) a"
proof -
  obtain m0 ps where ok: "cream_ok s m0 ps" using assms(1) by (auto simp: client_def cream_inv_def)
  obtain j where j: "(a, j) \<in> cream_live s" "n = j * 32" by (rule cream_objectsE [OF assms(2)])
  have "in_range a (j * 32) a" using cream_objects_pos [OF assms(2)] j(2) by (simp add: in_range_self)
  from obj_byte_live [OF ok j(1) this] obtain p where p: "p \<in> ran ps" "in_range (page_addr p) 4096 a" by (auto simp: obj_byte_def)
  have "(p, 1) \<in> kheap_runs s" "kheap_inv s" using ok p(1) by (auto simp: cream_ok_def cream_base_def)
  then have "p < kheap_pages" by (metis run_page(1))
  with p(2) show ?thesis by (rule page_in_heap)
qed

text \<open>Two states that differ in the console and the device only, as far as the disks are concerned.\<close>

definition same_disks :: "('d, 'z) disk_state_scheme \<Rightarrow> ('d, 'z) disk_state_scheme \<Rightarrow> bool" where
  "same_disks s t \<longleftrightarrow> same_heap s t \<and> disk_at t = disk_at s \<and> motherlobe t = motherlobe s \<and> disk1 t = disk1 s"

section \<open>One drive\<close>

context ata_bus
begin

definition idle :: "'d \<Rightarrow> bool" where
  "idle d \<longleftrightarrow> inv d \<and> (\<forall>c. words d c = [])"

lemma choose_drive:
  assumes d: "inv d" and sl: "words d c = [] \<or> sel d c = sl"
    and d': "d' = inb_times io (port c + 6) 4 (outb_p io (port c + 6) (if sl then 0xb0 else 0xa0) (outb_p io (port c + 0x206) 0 d))"
  shows "inv d' \<and> sel d' = (sel d)(c := sl) \<and> ident d' = ident d \<and> words d' = words d"
proof -
  define d1 where "d1 = outb_p io (port c + 0x206) 0 d"
  note d1 = control [OF d d1_def]
  define d2 where "d2 = outb_p io (port c + 6) (if sl then 0xb0 else 0xa0) d1"
  have i: "inv d1" and w: "words d1 c = [] \<or> ((if sl then 0xb0 else 0xa0 :: byte) AND 0x10 \<noteq> 0) = sel d1 c" using d1 sl by auto
  note d2 = select [OF i w d2_def]
  have "inv d2" using d2 by blast
  from inb_times_calm [OF this, of c 4] show ?thesis using d1 d2 by (auto simp: d' d1_def [symmetric] d2_def [symmetric] calm_def simp del: fun_upd_apply)
qed

text \<open>The last part of \<open>check_disk\<close>, when the drive has its answer ready.\<close>

lemma check_disk_tail_ok:
  assumes d: "inv (dev s)" "ident (dev s) c (sel (dev s) c) \<noteq> None" "words (dev s) c \<noteq> []" "pending (dev s) c = 0"
    and r: "check_disk_tail io (port c) i s = (v, s')"
  shows "\<exists>t u. heap_cream_malloc sizeof_disk t = (v, u) \<and> s' = upd_disk v (\<lambda>k. k\<lparr>ata_code := ucast i, dtype := DISK_TYPE_REAL\<rparr>) u \<and>
    same_heap s t \<and> disk_at t = disk_at s \<and> motherlobe t = motherlobe s \<and> disk1 t = disk1 s \<and> calm (dev s) (dev t)"
proof -
  obtain st d1 where st: "inb_p io (port c + 7) (dev s) = (st, d1)" by fastforce
  have b: "st AND 0x08 \<noteq> 0" and c: "calm (dev s) d1" using status [OF d(1) st] d(2-4) by (auto simp: calm_def)
  then have ne: "st \<noteq> 0" "st \<noteq> 1" by auto
  define t where "t = print (lit ''detected one more disk...'' @ nl) ((print nl (print_hex st (print (lit ''status:'')
      (print nl (print_16 i (print (lit ''status obtained for'') (s\<lparr>dev := d1\<rparr>)))))))\<lparr>dev := d1\<rparr>)"
  have "wait_data io (port c + 7) ATA_WAIT st d = (Some st, d)" for d using b by (simp add: wait_data.simps)
  note w = this
  obtain a u where m: "heap_cream_malloc sizeof_disk t = (a, u)" by fastforce
  have "v = a \<and> s' = upd_disk a (\<lambda>k. k\<lparr>ata_code := ucast i, dtype := DISK_TYPE_REAL\<rparr>) u"
    using r b ne m unfolding t_def by (auto simp: check_disk_tail_def st Let_def w print_16_hex4 print_hex_hex2)
  moreover have "same_heap s t" "disk_at t = disk_at s" "motherlobe t = motherlobe s" "disk1 t = disk1 s" "dev t = d1"
    by (simp_all add: t_def same_heap_def print_16_hex4 print_hex_hex2)
  ultimately show ?thesis using m c by blast
qed

lemma check_disk_ok:
  assumes d: "idle (dev s)" and r: "check_disk io i s = (v, s')"
  shows "ident (dev s) (chan i) (slave i) = None \<Longrightarrow>
      v = 0 \<and> same_disks s s' \<and> idle (dev s') \<and> ident (dev s') = ident (dev s)"
    and "ident (dev s) (chan i) (slave i) = Some ws \<Longrightarrow>
      \<exists>t u. heap_cream_malloc sizeof_disk t = (v, u) \<and> s' = upd_disk v (\<lambda>k. k\<lparr>ata_code := ucast i, dtype := DISK_TYPE_REAL\<rparr>) u \<and>
        same_disks s t \<and> inv (dev t) \<and> ident (dev t) = ident (dev s) \<and> sel (dev t) (chan i) = slave i \<and>
        words (dev t) = (words (dev s))(chan i := ws)"
proof -
  let ?c = "chan i" and ?sl = "slave i"
  have p: "(if i AND 0x02 \<noteq> 0 then 0x170 else 0x1f0) = port ?c" by (simp add: port_def chan_def)
  have dr: "(if i AND 0x01 \<noteq> 0 then 0xb0 else 0xa0 :: byte) = (if ?sl then 0xb0 else 0xa0)" by (simp add: slave_def)
  define s3 where "s3 = print nl (print_16 i (print (lit ''communication set for'') (upd_dev (\<lambda>d. inb_times io (port ?c + 6) 4
      (outb_p io (port ?c + 6) (if ?sl then 0xb0 else 0xa0) (outb_p io (port ?c + 0x206) 0x00 d)))
      (print nl (print_16 i (print (lit ''trying'') s))))))"
  have s3: "same_disks s s3" by (simp add: s3_def same_disks_def same_heap_def upd_dev_def print_16_hex4)
  have "dev s3 = inb_times io (port ?c + 6) 4 (outb_p io (port ?c + 6) (if ?sl then 0xb0 else 0xa0) (outb_p io (port ?c + 0x206) 0x00 (dev s)))"
    by (simp add: s3_def upd_dev_def print_16_hex4)
  from choose_drive [OF _ _ this] d have d3: "inv (dev s3)" "sel (dev s3) ?c = ?sl" "ident (dev s3) = ident (dev s)" "words (dev s3) = words (dev s)"
    by (auto simp: idle_def)
  obtain stat d1 where st: "inb_p io (port ?c + 7) (dev s3) = (stat, d1)" by fastforce
  note s1 = status [OF d3(1) st]
  define s4 where "s4 = s3\<lparr>dev := d1\<rparr>"
  have s4: "same_disks s s4" using s3 by (simp add: s4_def same_disks_def same_heap_def)
  note c = r [unfolded check_disk_def Let_def, unfolded p dr, folded s3_def, unfolded st prod.case, folded s4_def]
  show "v = 0 \<and> same_disks s s' \<and> idle (dev s') \<and> ident (dev s') = ident (dev s)" if none: "ident (dev s) ?c ?sl = None"
  proof -
    have "stat = 0 \<or> stat = 0xff" using s1 none d3 by simp
    then have "v = 0" "s' = print (lit ''no device '' @ nl) s4" using c by auto
    then show ?thesis using s4 s1 d d3 by (auto simp: same_disks_def s4_def idle_def)
  qed
  show "\<exists>t u. heap_cream_malloc sizeof_disk t = (v, u) \<and> s' = upd_disk v (\<lambda>k. k\<lparr>ata_code := ucast i, dtype := DISK_TYPE_REAL\<rparr>) u \<and>
        same_disks s t \<and> inv (dev t) \<and> ident (dev t) = ident (dev s) \<and> sel (dev t) ?c = ?sl \<and> words (dev t) = (words (dev s))(?c := ws)"
    if ws: "ident (dev s) ?c ?sl = Some ws"
  proof -
    have ne: "\<not> (stat = 0xff \<or> stat = 0x00)" using s1 ws d3 by simp
    have d4: "inv (dev s4)" "ident (dev s4) ?c (sel (dev s4) ?c) \<noteq> None" using s1 ws d3 by (simp_all add: s4_def)
    from wait_ready [OF d4] obtain d2 where w1: "wait_while (busy io (port ?c + 7)) ATA_WAIT (dev s4) = (True, d2)"
      and d2: "calm (dev s4) d2" "pending d2 ?c = 0" by blast
    define d5 where "d5 = outb_p io (port ?c + 7) 0xec d2"
    have "inv d2" "ident d2 ?c (sel d2 ?c) = Some ws" using d2 s1 ws d3 by (simp_all add: s4_def calm_def)
    note d5 = identify [OF this d2(2) d5_def]
    define s7 where "s7 = upd_dev (inb_times io (port ?c + 6) 4) (print nl (print_16 i (print (lit ''info command send for'')
      (s4\<lparr>dev := d5\<rparr>))))"
    have s7: "same_disks s s7" using s4 by (simp add: s7_def same_disks_def same_heap_def upd_dev_def print_16_hex4)
    have "dev s7 = inb_times io (port ?c + 6) 4 d5" by (simp add: s7_def upd_dev_def print_16_hex4)
    then have d7: "calm d5 (dev s7)" using inb_times_calm d5 by simp
    have "length ws = 256" using ident_words [OF d3(1)] ws d3 by simp
    then have f7: "inv (dev s7)" "ident (dev s7) ?c (sel (dev s7) ?c) \<noteq> None" "words (dev s7) ?c \<noteq> []"
      using d7 d5 d2 s1 d3 ws by (auto simp: calm_def s4_def)
    from wait_words [OF f7] obtain d8 where w2: "wait_while (busy_or_no_data io (port ?c + 7)) ATA_WAIT (dev s7) = (True, d8)"
      and d8: "calm (dev s7) d8" "pending d8 ?c = 0" by blast
    have t: "check_disk_tail io (port ?c) i (s7\<lparr>dev := d8\<rparr>) = (v, s')"
      using c ne unfolding w1 prod.case bool.case d5_def [symmetric] s7_def [symmetric] w2 by simp
    have f8: "inv d8" "sel d8 = sel (dev s7)" "ident d8 = ident (dev s)" "words d8 = (words (dev s))(?c := ws)" "sel d8 ?c = ?sl"
      using d8 d7 d5 d2 s1 d3 by (auto simp: calm_def s4_def simp del: fun_upd_apply)
    from check_disk_tail_ok [OF _ _ _ _ t] f8 f7 d8 ws \<open>length ws = 256\<close> obtain u t where
      u: "heap_cream_malloc sizeof_disk t = (v, u)" "s' = upd_disk v (\<lambda>k. k\<lparr>ata_code := ucast i, dtype := DISK_TYPE_REAL\<rparr>) u"
      and t: "same_heap (s7\<lparr>dev := d8\<rparr>) t" "disk_at t = disk_at s7" "motherlobe t = motherlobe s7" "disk1 t = disk1 s7" "calm d8 (dev t)"
      by fastforce
    have "same_disks s t" using s7 t(1-4) by (auto simp: same_disks_def same_heap_def)
    moreover have "inv (dev t)" "ident (dev t) = ident (dev s)" "sel (dev t) ?c = ?sl" "words (dev t) = (words (dev s))(?c := ws)"
      using t(5) f8 by (simp_all add: calm_def)
    ultimately show ?thesis using u by blast
  qed
qed

lemma upd_disk_late: "upd_disk p f (t\<lparr>mem := m, dev := d\<rparr>) = (upd_disk p f t)\<lparr>mem := m, dev := d\<rparr>"
  by (cases t) (simp add: upd_disk_def)

text \<open>A drive is asked for its description, and the record is filled in.\<close>

definition describe_disk :: "addr \<Rightarrow> addr \<Rightarrow> ('d, 'z) disk_state_scheme \<Rightarrow> ('d, 'z) disk_state_scheme" where
  "describe_disk p buf s =
     (let s2 = get_disk_info io p 0xec buf (set_disk_info p s)
      in upd_disk p (\<lambda>k. k\<lparr>sect_count := sectors_of (mem s2) buf, sect_size := 512\<rparr>) s2)"

lemma describe_disk_client:
  assumes cl: "client s k" and buf: "(buf, N) \<in> cream_objects s" "512 \<le> N"
  shows "client (describe_disk p buf s) k" and "cream_objects (describe_disk p buf s) = cream_objects s"
proof -
  note t = set_disk_info_client [OF cl, of p]
  define s2 where "s2 = get_disk_info io p 0xec buf (set_disk_info p s)"
  have "(buf, N) \<in> cream_objects (set_disk_info p s)" using buf(1) t(2) by simp
  note s2 = get_disk_info_client [OF t(1) this buf(2) s2_def]
  show "client (describe_disk p buf s) k" "cream_objects (describe_disk p buf s) = cream_objects s"
    using client_upd_disk [OF s2(1)] s2(2) t(2) by (simp_all add: describe_disk_def s2_def [symmetric] Let_def)
qed

lemma describe_disk_ok:
  assumes d: "inv (dev s)" and code: "ucast (ata_code (disk_at s p)) = i" and ws: "ident (dev s) (chan i) (slave i) = Some ws"
    and sl: "words (dev s) (chan i) = [] \<or> sel (dev s) (chan i) = slave i"
  shows "\<exists>d'. describe_disk p buf s = (upd_disk p (described i ws) s)\<lparr>mem := put_words (mem s) buf ws, dev := d'\<rparr> \<and>
    inv d' \<and> ident d' = ident (dev s) \<and> words d' = (words (dev s))(chan i := [])"
proof -
  let ?c = "chan i" and ?sl = "slave i"
  define t where "t = set_disk_info p s"
  note k = set_disk_info_described(2-) [OF code, folded t_def]
  have t: "dev t = dev s" "mem t = mem s" by (simp_all add: t_def set_disk_info_def Let_def)
  define d3 where "d3 = inb_times io (port ?c + 6) 4 (outb_p io (port ?c + 6) (if ?sl then 0xb0 else 0xa0) (outb_p io (port ?c + 0x206) 0 (dev s)))"
  note d3 = choose_drive [OF d sl d3_def]
  have r3: "inv d3" "ident d3 ?c (sel d3 ?c) \<noteq> None" using d3 ws by simp_all
  from wait_ready [OF this] obtain d4 where w1: "wait_while_dec (busy io (port ?c + 7)) ATA_WAIT d3 = (True, d4)"
    and d4: "calm d3 d4" "pending d4 ?c = 0" by blast
  define d5 where "d5 = outb_p io (port ?c + 7) 0xec d4"
  have "inv d4" "ident d4 ?c (sel d4 ?c) = Some ws" using d4 d3 ws by (simp_all add: calm_def)
  note d5 = identify [OF this d4(2) d5_def]
  have len: "length ws = 256" by (rule ident_words [OF d ws])
  have "inv d5" "ident d5 ?c (sel d5 ?c) \<noteq> None" "words d5 ?c \<noteq> []" using d5 d4 d3 ws len by (auto simp: calm_def)
  from wait_words [OF this] obtain d6 where w2: "wait_while_dec (busy_or_no_data io (port ?c + 7)) ATA_WAIT d5 = (True, d6)"
    and d6: "calm d5 d6" "pending d6 ?c = 0" by blast
  have "inv d6" "words d6 ?c = ws" using d6 d5 by (simp_all add: calm_def)
  from in_words_ok [OF this d6(2), of 256 buf "mem s"] len obtain d7 where
    rs: "in_words io (port ?c) 256 buf (mem s, d6) = (put_words (mem s) buf ws, d7)"
    and d7: "inv d7" "ident d7 = ident d6" "words d7 = (words d6)(?c := [])" by (auto simp del: fun_upd_apply)
  have info: "get_disk_info io p 0xec buf t = t\<lparr>mem := put_words (mem s) buf ws, dev := d7\<rparr>"
    unfolding get_disk_info_def Let_def k t d3_def [symmetric] w1 prod.case bool.case d5_def [symmetric] w2 rs by simp
  have "put_words (mem s) buf ws = put_bytes (mem s) buf (sector_bytes ws)" using len by (simp add: put_words_bytes)
  then have "sectors_of (put_words (mem s) buf ws) buf = capacity ws"
    using ld16_put_sector [OF len, of 61 "mem s" buf] ld16_put_sector [OF len, of 60 "mem s" buf]
    by (simp add: sectors_of_def capacity_def)
  then have "describe_disk p buf s = (upd_disk p (described i ws) s)\<lparr>mem := put_words (mem s) buf ws, dev := d7\<rparr>"
    using set_disk_info_described(1) [OF code, of ws] upd_disk_late [where t = t]
    by (simp add: describe_disk_def t_def [symmetric] info Let_def)
  moreover have "words d7 = (words (dev s))(?c := [])" "ident d7 = ident (dev s)"
    using d7 d6 d5 d4 d3 by (auto simp: calm_def fun_eq_iff)
  ultimately show ?thesis using d7(1) by blast
qed

end

section \<open>The loop over the codes\<close>

definition present :: "(bool \<Rightarrow> bool \<Rightarrow> u16 list option) \<Rightarrow> u16 \<Rightarrow> bool" where
  "present idn i \<longleftrightarrow> idn (chan i) (slave i) \<noteq> None"

text \<open>
  Between \<open>s\<close> and \<open>s'\<close> the drives with codes \<open>is\<close> have been looked for; the objects \<open>as\<close> describe those that are there and stand in
  \<open>motherlobe\<close> from entry \<open>n\<close> on.
\<close>

definition searched ::
  "(bool \<Rightarrow> bool \<Rightarrow> u16 list option) \<Rightarrow> u16 list \<Rightarrow> addr list \<Rightarrow> nat \<Rightarrow> ('d, 'z) disk_state_scheme \<Rightarrow> ('d, 'z) disk_state_scheme \<Rightarrow> bool" where
  "searched idn is as n s s' \<longleftrightarrow> list_all2 (found idn s') as (filter (present idn) is) \<and>
     motherlobe s' = take n (motherlobe s) @ as @ drop (n + length as) (motherlobe s) \<and>
     distinct as \<and> set as \<inter> fst ` cream_objects s = {} \<and> set as \<subseteq> fst ` cream_objects s' \<and>
     cream_objects s \<subseteq> cream_objects s' \<and> (\<forall>a. a \<notin> set as \<longrightarrow> disk_at s' a = disk_at s a) \<and> disk1 s' = disk1 s"

lemma searched_Nil: "searched idn [] [] n s s"
  by (simp add: searched_def)

lemma searched_trans:
  assumes "searched idn is as n s s1" and "searched idn js bs (n + length as) s1 s2"
    and "n + length as + length bs \<le> length (motherlobe s)"
  shows "searched idn (is @ js) (as @ bs) n s s2"
proof -
  have a: "list_all2 (found idn s1) as (filter (present idn) is)"
      "motherlobe s1 = take n (motherlobe s) @ as @ drop (n + length as) (motherlobe s)"
      "distinct as" "set as \<inter> fst ` cream_objects s = {}" "set as \<subseteq> fst ` cream_objects s1"
      "cream_objects s \<subseteq> cream_objects s1" "\<And>x. x \<notin> set as \<Longrightarrow> disk_at s1 x = disk_at s x" "disk1 s1 = disk1 s"
    using assms(1) by (simp_all add: searched_def)
  have b: "list_all2 (found idn s2) bs (filter (present idn) js)"
      "motherlobe s2 = take (n + length as) (motherlobe s1) @ bs @ drop (n + length as + length bs) (motherlobe s1)"
      "distinct bs" "set bs \<inter> fst ` cream_objects s1 = {}" "set bs \<subseteq> fst ` cream_objects s2"
      "cream_objects s1 \<subseteq> cream_objects s2" "\<And>x. x \<notin> set bs \<Longrightarrow> disk_at s2 x = disk_at s1 x" "disk1 s2 = disk1 s1"
    using assms(2) by (simp_all add: searched_def)
  have dis: "set as \<inter> set bs = {}" using a(5) b(4) by blast
  have "list_all2 (found idn s2) as (filter (present idn) is)"
    using a(1)
  proof (rule list.rel_mono_strong)
    fix x i assume x: "x \<in> set as" "found idn s1 x i"
    then have "disk_at s2 x = disk_at s1 x" using b(7) dis by blast
    then show "found idn s2 x i" using x(2) found_cong by blast
  qed
  then have l: "list_all2 (found idn s2) (as @ bs) (filter (present idn) (is @ js))"
    using b(1) by (simp add: list_all2_appendI)
  have n: "length (take n (motherlobe s)) = n" using assms(3) by simp
  have t: "take (n + length as) (motherlobe s1) = take n (motherlobe s) @ as" unfolding a(2) using n by simp
  have dr: "drop (n + length as + length bs) (motherlobe s1) = drop (n + length (as @ bs)) (motherlobe s)"
    unfolding a(2) using n by (simp add: ac_simps)
  have m: "motherlobe s2 = take n (motherlobe s) @ (as @ bs) @ drop (n + length (as @ bs)) (motherlobe s)"
    unfolding b(2) t dr by simp
  have "distinct (as @ bs)" using a(3) b(3) dis by simp
  moreover have "set (as @ bs) \<inter> fst ` cream_objects s = {}" using a(4,6) b(4) by auto
  moreover have "set (as @ bs) \<subseteq> fst ` cream_objects s2" using a(5) b(5) image_mono [OF b(6), of fst] by auto
  moreover have "cream_objects s \<subseteq> cream_objects s2" using a(6) b(6) by blast
  moreover have "\<forall>x. x \<notin> set (as @ bs) \<longrightarrow> disk_at s2 x = disk_at s x" using a(7) b(7) by simp
  ultimately show ?thesis unfolding searched_def using l m a(8) b(8) by (intro conjI) (assumption | simp)+
qed

context ata_bus
begin

lemma search_step_ok:
  assumes cl: "client s (Suc k)" and buf: "(buf, N) \<in> cream_objects s" "512 \<le> N" and d: "idle (dev s)"
    and n: "n < length (motherlobe s)" and i: "i \<in> {0x81, 0x82, 0x83}"
  shows "\<exists>as s'. search_step io buf i (n, s) = (n + length as, s') \<and> searched (ident (dev s)) [i] as n s s' \<and>
    client s' k \<and> idle (dev s') \<and> ident (dev s') = ident (dev s) \<and> length as \<le> 1"
proof -
  obtain v s1 where c: "check_disk io i s = (v, s1)" by fastforce
  obtain s' where st: "search_step io buf i (n, s) = (if v = 0 then n else Suc n, s')"
    and s': "s' = (if v = 0 then s1 else (describe_disk v buf s1)\<lparr>motherlobe := (motherlobe (describe_disk v buf s1))[n := v]\<rparr>)"
    by (simp add: search_step_def c describe_disk_def Let_def)
  have cl': "client s' k" "cream_objects s \<subseteq> cream_objects s'" using search_step_client [OF cl buf st] by blast+
  show ?thesis
  proof (cases "ident (dev s) (chan i) (slave i)")
    case None
    note k = check_disk_ok(1) [OF d c None]
    have "searched (ident (dev s)) [i] [] n s s'"
      using k cl' None by (simp add: s' searched_def present_def same_disks_def)
    then show ?thesis using st k cl'(1) by (intro exI [of _ "[]"] exI [of _ s']) (simp add: s')
  next
    case (Some ws)
    from check_disk_ok(2) [OF d c Some] obtain t u where m: "heap_cream_malloc sizeof_disk t = (v, u)"
      and s1: "s1 = upd_disk v (\<lambda>k. k\<lparr>ata_code := ucast i, dtype := DISK_TYPE_REAL\<rparr>) u" and t: "same_disks s t"
      and dt: "inv (dev t)" "ident (dev t) = ident (dev s)" "sel (dev t) (chan i) = slave i" "words (dev t) = (words (dev s))(chan i := ws)"
      by blast
    have sh: "same_heap s t" using t by (simp add: same_disks_def)
    note ct = client_same_heap [OF sh cl]
    obtain M where u: "v \<noteq> 0" "client u k" "heap_step t u" "cream_objects u = insert (v, M) (cream_objects t)" "v \<notin> fst ` cream_objects t"
      by (rule client_malloc [OF ct(1) _ _ m]) (simp_all add: const_defs)
    note hs = heap_step_disk [OF u(3)]
    have code: "ucast (ata_code (disk_at s1 v)) = i" using i by (auto simp: s1 upd_disk_def)
    have d1: "inv (dev s1)" "ident (dev s1) (chan i) (slave i) = Some ws" "words (dev s1) (chan i) = [] \<or> sel (dev s1) (chan i) = slave i"
      using dt Some by (simp_all add: s1 hs)
    from describe_disk_ok [OF d1(1) code d1(2,3), of buf] obtain d' where
      e: "describe_disk v buf s1 = (upd_disk v (described i ws) s1)\<lparr>mem := put_words (mem s1) buf ws, dev := d'\<rparr>"
      and d': "inv d'" "ident d' = ident (dev s1)" "words d' = (words (dev s1))(chan i := [])" by blast
    have f1: "disk_at s1 = (disk_at s)(v := (disk_at s v)\<lparr>ata_code := ucast i, dtype := DISK_TYPE_REAL\<rparr>)"
      "motherlobe s1 = motherlobe s" "disk1 s1 = disk1 s"
      using t by (simp_all add: s1 upd_disk_def hs same_disks_def)
    have k: "disk_at s' = (disk_at s)(v := described i ws ((disk_at s v)\<lparr>ata_code := ucast i, dtype := DISK_TYPE_REAL\<rparr>))"
      "motherlobe s' = (motherlobe s)[n := v]" "disk1 s' = disk1 s" "dev s' = d'"
      by (simp_all add: s' u(1) e upd_disk_def f1)
    have o: "v \<notin> fst ` cream_objects s" using u(5) ct(2) by simp
    have c1: "client s1 k" "cream_objects s1 = cream_objects u" using client_upd_disk [OF u(2)] by (simp_all add: s1)
    have "(buf, N) \<in> cream_objects s1" using buf(1) u(4) ct(2) c1(2) by simp
    note cd = describe_disk_client [OF c1(1) this buf(2), of v]
    have "cream_objects s' = cream_objects (describe_disk v buf s1)"
      by (rule client_same(2) [OF cd(1)]) (simp_all add: s' u(1))
    then have "(v, M) \<in> cream_objects s'" using cd(2) c1(2) u(4) by simp
    then have "v \<in> fst ` cream_objects s'" by force
    moreover have "found (ident (dev s)) s' v i"
      unfolding found_def using Some k(1) by (auto intro!: exI [of _ "(disk_at s v)\<lparr>ata_code := ucast i, dtype := DISK_TYPE_REAL\<rparr>"])
    ultimately have "searched (ident (dev s)) [i] [v] n s s'"
      using o k cl'(2) n Some by (simp add: searched_def present_def upd_conv_take_nth_drop)
    moreover have "idle d'" "ident d' = ident (dev s)"
      using d' d dt by (auto simp: idle_def s1 hs)
    ultimately show ?thesis using st u(1) k(4) cl'(1) by (intro exI [of _ "[v]"] exI [of _ s']) simp
  qed
qed

lemma search_fold_ok:
  assumes "client s (k + length is)" and "(buf, N) \<in> cream_objects s" and "512 \<le> N" and "idle (dev s)"
    and "n + length is \<le> length (motherlobe s)" and "set is \<subseteq> {0x81, 0x82, 0x83}"
  shows "\<exists>as s'. fold (search_step io buf) is (n, s) = (n + length as, s') \<and> searched (ident (dev s)) is as n s s' \<and>
    client s' k \<and> idle (dev s') \<and> length as \<le> length is"
  using assms
proof (induction "is" arbitrary: n s)
  case Nil
  then show ?case by (intro exI [of _ "[]"] exI [of _ s]) (simp add: searched_Nil)
next
  case (Cons i "is")
  have cl: "client s (Suc (k + length is))" using Cons.prems(1) by simp
  from search_step_ok [OF cl Cons.prems(2-4), of n i] Cons.prems(5,6) obtain as s1 where
    st: "search_step io buf i (n, s) = (n + length as, s1)" "searched (ident (dev s)) [i] as n s s1" "client s1 (k + length is)"
    "idle (dev s1)" "ident (dev s1) = ident (dev s)" "length as \<le> 1" by auto
  have "length (motherlobe s1) = length (motherlobe s)" using st(2,6) Cons.prems(5) by (auto simp: searched_def min_def)
  moreover have "(buf, N) \<in> cream_objects s1" using st(2) Cons.prems(2) by (auto simp: searched_def)
  ultimately obtain bs s2 where f: "fold (search_step io buf) is (n + length as, s1) = (n + length as + length bs, s2)"
    "searched (ident (dev s)) is bs (n + length as) s1 s2" "client s2 k" "idle (dev s2)" "length bs \<le> length is"
    using Cons.IH [of s1 "n + length as"] st(3-6) Cons.prems(3,5,6) by auto
  have "searched (ident (dev s)) ([i] @ is) (as @ bs) n s s2"
    by (rule searched_trans [OF st(2) f(2)]) (use st(6) f(5) Cons.prems(5) in simp)
  then show ?case using f st(1,6) by (intro exI [of _ "as @ bs"] exI [of _ s2]) auto
qed

lemma ucast_code: "ucast (ucast x :: u32) = (ucast x :: u16)" "ucast (ucast x :: u16) = (ucast x :: u32)" for x :: byte
  by (rule bit_word_eqI; auto simp: bit_simps dest: bit_imp_le_length)+

lemma disk_search_ok:
  fixes s :: "('d, 'z) disk_state_scheme"
  assumes cl: "client s (k + 4)" and d: "idle (dev s)" and boot: "bd = ucast (G_BOOT_DRIVE s)" "present (ident (dev s)) bd"
    and g: "\<not> in_range KHEAP_START (unat KHEAP_SIZE_BYTES) (disk1 s)" and m: "motherlobe s = replicate DISK_SUPPORT_MAX 0"
  shows "\<exists>as s'. s' = disk_search_and_init io s \<and> list_all2 (found (ident (dev s)) s') (disk1 s # as)
      (bd # filter (present (ident (dev s))) [0x81, 0x82, 0x83]) \<and>
    distinct (disk1 s # as) \<and> motherlobe s' = disk1 s # as @ replicate (4 - length as) 0 \<and> client s' k \<and> set as \<subseteq> fst ` cream_objects s' \<and>
    idle (dev s')"
proof -
  let ?p = "disk1 s" and ?idn = "ident (dev s)"
  obtain ws where ws: "?idn (chan bd) (slave bd) = Some ws" using boot(2) by (auto simp: present_def)
  define s1 where "s1 = upd_disk ?p (\<lambda>k. k\<lparr>dtype := DISK_TYPE_REAL, ata_code := ucast (G_BOOT_DRIVE s)\<rparr>) s"
  have s1: "client s1 (Suc (k + 3))" using client_upd_disk(1) [OF cl] by (simp add: s1_def add.commute)
  obtain buf s2 where mal: "heap_cream_malloc 512 s1 = (buf, s2)" by fastforce
  obtain N where s2: "client s2 (k + 3)" "512 \<le> N" "cream_objects s2 = insert (buf, N) (cream_objects s1)" "heap_step s1 s2"
    by (rule client_malloc [OF s1 _ _ mal]) (simp_all add: const_defs)
  note hs = heap_step_disk [OF s2(4)]
  have buf: "(buf, N) \<in> cream_objects s2" using s2(3) by simp
  have same: "disk1 s2 = ?p" "dev s2 = dev s" "motherlobe s2 = motherlobe s" by (simp_all add: hs s1_def)
  have code: "ucast (ata_code (disk_at s2 ?p)) = bd" by (simp add: hs s1_def upd_disk_def boot(1) ucast_code)
  define s4 where "s4 = describe_disk ?p buf s2"
  obtain d4 where s4: "s4 = (upd_disk ?p (described bd ws) s2)\<lparr>mem := put_words (mem s2) buf ws, dev := d4\<rparr>"
    "inv d4" "ident d4 = ?idn" "words d4 = (words (dev s))(chan bd := [])"
    using describe_disk_ok [of s2 ?p bd ws buf] code ws d by (auto simp: s4_def same idle_def)
  note c4 = describe_disk_client [OF s2(1) buf s2(2), of ?p, folded s4_def]
  define s5 where "s5 = s4\<lparr>motherlobe := (motherlobe s4)[0 := disk1 s4]\<rparr>"
  have c5: "client s5 (k + length [0x81, 0x82, 0x83 :: u16])" "cream_objects s5 = cream_objects s4"
    using client_same [OF c4(1), of s5] by (simp_all add: s5_def numeral_3_eq_3)
  have f5: "disk_at s5 = disk_at s4" "disk1 s5 = ?p" "dev s5 = d4" "motherlobe s5 = ?p # replicate 4 0"
    by (simp_all add: s5_def s4(1) same m const_defs) (simp add: numeral_eq_Suc)
  have i5: "idle (dev s5)" "(buf, N) \<in> cream_objects s5" using s4(2,4) d buf c4(2) c5(2) by (simp_all add: f5 idle_def)
  from search_fold_ok [OF c5(1) i5(2) s2(2) i5(1), of 1] obtain as s6 where
    f: "fold (search_step io buf) [0x81, 0x82, 0x83] (1, s5) = (1 + length as, s6)" "client s6 k" "idle (dev s6)"
    and sr: "searched ?idn [0x81, 0x82, 0x83] as 1 s5 s6" and la: "length as \<le> 3"
    by (auto simp: f5 s4(3) simp del: fold.simps)
  define s7 where "s7 = snd (heap_cream_free buf s6)"
  define s3 where "s3 = get_disk_info io ?p 0xec buf (set_disk_info ?p s2)"
  have "disk1 s3 = ?p" by (rule get_disk_info_any [OF s3_def]) (simp add: same set_disk_info_def Let_def)
  note d3 = this
  have s4': "s4 = upd_disk ?p (\<lambda>k. k\<lparr>sect_count := sectors_of (mem s3) buf, sect_size := 512\<rparr>) s3"
    by (simp add: s4_def describe_disk_def s3_def Let_def)
  have "disk_search_and_init io s = s7"
    by (simp only: disk_search_and_init_def Let_def s1_def [symmetric] mal prod.case same(1) s3_def [symmetric] d3
        s4' [symmetric] s5_def [symmetric] f(1) s7_def)
  have b6: "(buf, N) \<in> cream_objects s6" using sr i5(2) by (auto simp: searched_def)
  note f7 = client_free [OF f(2) b6 s7_def] and h7 = heap_step_disk [OF client_free(2) [OF f(2) b6 s7_def]]
  have found7: "found ?idn s7 a i = found ?idn s6 a i" for a i by (rule found_cong) (simp add: h7)
  have out: "a \<noteq> ?p" if "a \<in> set as" for a
  proof -
    have "a \<in> fst ` cream_objects s6" using sr that by (auto simp: searched_def)
    then show ?thesis using object_in_heap [OF f(2)] g by force
  qed
  have "\<forall>a. a \<notin> set as \<longrightarrow> disk_at s6 a = disk_at s5 a" using sr unfolding searched_def by blast
  then have "disk_at s6 ?p = disk_at s5 ?p" using out by blast
  then have "disk_at s6 ?p = described bd ws (disk_at s2 ?p)" by (simp add: f5 s4(1) upd_disk_def)
  moreover have "ata_code (disk_at s2 ?p) = ucast bd" "dtype (disk_at s2 ?p) = DISK_TYPE_REAL"
    by (simp_all add: hs s1_def upd_disk_def boot(1) ucast_code)
  ultimately have p7: "found ?idn s7 ?p bd" unfolding found7 using ws by (auto simp: found_def)
  have as7: "list_all2 (found ?idn s7) as (filter (present ?idn) [0x81, 0x82, 0x83])"
    using sr found7 unfolding searched_def by (auto elim!: list.rel_mono_strong simp del: filter.simps)
  have mo: "motherlobe s7 = ?p # as @ replicate (4 - length as) 0"
    using sr la by (simp add: searched_def h7 f5)
  have di: "distinct (?p # as)" using sr out unfolding searched_def by force
  have "set as \<subseteq> fst ` cream_objects s7"
  proof
    fix a assume a: "a \<in> set as"
    then obtain l where l: "(a, l) \<in> cream_objects s6" using sr by (auto simp: searched_def)
    have "a \<notin> fst ` cream_objects s5" using sr a by (auto simp: searched_def)
    then have "a \<noteq> buf" using i5(2) by force
    then have "(a, l) \<in> cream_objects s7" using f7(3) l by blast
    then show "a \<in> fst ` cream_objects s7" by force
  qed
  moreover have "idle (dev s7)" using f(3) by (simp add: h7)
  ultimately show ?thesis using \<open>disk_search_and_init io s = s7\<close> p7 as7 mo di f7(1)
    by (intro exI [of _ as] exI [of _ s7]) (simp only: list.rel_inject simp_thms)
qed

end

section \<open>Properties\<close>

text \<open>C17: the search lists first the drive that the boot loader named and then, in the order of their codes, exactly the
  drives with the codes 0x81, 0x82 and 0x83 that are there, each in a record of its own with the ports of its channel, its position and
  the number of sectors that it reports.  The boot drive is taken to be there.  With 0x80 as the boot drive that is every drive of the machine
  once; with one of the three codes it is listed twice, and the first
  master not at all.\<close>

theorem disk_search_finds_drives:
  fixes s :: "('d, 'z) disk_state_scheme"
  assumes "ata_bus io dinv sel ident data pending"
    and "client s (k + 4)" and "dinv (dev s)" and "\<And>c. data (dev s) c = []"
    and "bd = ucast (G_BOOT_DRIVE s)" and "present (ident (dev s)) bd"
    and "\<not> in_range KHEAP_START (unat KHEAP_SIZE_BYTES) (disk1 s)" and "motherlobe s = replicate DISK_SUPPORT_MAX 0"
    and "s' = disk_search_and_init io s"
  shows "\<exists>as. motherlobe s' = disk1 s # as @ replicate (4 - length as) 0 \<and> distinct (disk1 s # as) \<and>
    list_all2 (found (ident (dev s)) s') (disk1 s # as) (bd # filter (present (ident (dev s))) [0x81, 0x82, 0x83]) \<and>
    set as \<subseteq> fst ` cream_objects s' \<and> client s' k"
  using ata_bus.disk_search_ok [OF assms(1,2) _ assms(5-8)] assms(3,4,9) ata_bus.idle_def [OF assms(1)] by blast

text \<open>A bus with a master on the first and a slave on the second channel, and a machine with it after its heaps are set up.\<close>

definition demo_bus :: bus where
  "demo_bus = \<lparr>bus_sel = (\<lambda>_. False),
     bus_ident = (\<lambda>c sl. if c = sl then Some ((replicate 256 0)[60 := if c then 500 else 1000]) else None),
     bus_words = (\<lambda>_. []), bus_busy = (\<lambda>_. 0)\<rparr>"

definition bus_image :: "bus disk_state" where
  "bus_image = timer_state.extend (timer_state.truncate blank_state)
     (disk_state.fields demo_bus (\<lambda>_. blank_disk) (part_at blank_state) (replicate DISK_SUPPORT_MAX 0) 0x204000 0x80)"

definition bus_start :: "bus disk_state" where
  "bus_start = help_me_mary_mother_of_god (kheap_init bus_image)"

lemma bus_start_fields:
  "dev bus_start = demo_bus" "disk1 bus_start = 0x204000" "motherlobe bus_start = replicate DISK_SUPPORT_MAX 0"
  "G_BOOT_DRIVE bus_start = 0x80" "client bus_start 124"
proof -
  have f: "mem bus_image = (\<lambda>_. 0)" "dev bus_image = demo_bus" "disk1 bus_image = 0x204000"
    "motherlobe bus_image = replicate DISK_SUPPORT_MAX 0" "G_BOOT_DRIVE bus_image = 0x80"
    by (simp_all add: bus_image_def timer_state.defs disk_state.defs blank_state_def)
  show "client bus_start 124" by (rule boot_client(1) [OF f(1) bus_start_def])
  have "G_BOOT_DRIVE (print cs t) = G_BOOT_DRIVE t" for cs and t :: "bus disk_state" using print_ext [of cs t] by auto
  then have boot: "G_BOOT_DRIVE (kheap_init bus_image) = 0x80"
    by (simp add: f kheap_init_def heap_create_def Let_def heap_validate_alignment_def heap_entry_count_def const_defs)
  obtain p u where u: "heap_step (kheap_init bus_image) u" "bus_start = u\<lparr>mothermary := p\<rparr>"
    unfolding bus_start_def by (rule help_me_step)
  show "dev bus_start = demo_bus" "disk1 bus_start = 0x204000" "motherlobe bus_start = replicate DISK_SUPPORT_MAX 0"
    "G_BOOT_DRIVE bus_start = 0x80"
    using u(1) by (auto simp: u(2) heap_step_def f boot)
qed

lemma disk_search_finds_drives_witness:
  "\<exists>a. motherlobe (disk_search_and_init bus_io bus_start) = [0x204000, a, 0, 0, 0] \<and>
    sect_count (disk_at (disk_search_and_init bus_io bus_start) 0x204000) = 1000 \<and>
    sect_count (disk_at (disk_search_and_init bus_io bus_start) a) = 500 \<and>
    base_data_port (disk_at (disk_search_and_init bus_io bus_start) a) = 0x170"
proof -
  define s' where "s' = disk_search_and_init bus_io bus_start"
  have idn: "bus_ident demo_bus c sl = (if c = sl then Some ((replicate 256 0)[60 := if c then 500 else 1000]) else None)" for c sl
    by (simp add: demo_bus_def)
  have "bus_inv demo_bus" by (simp add: demo_bus_def bus_inv_def const_defs)
  moreover have "client bus_start (120 + 4)" using bus_start_fields(5) by simp
  moreover have "\<not> in_range KHEAP_START (unat KHEAP_SIZE_BYTES) (disk1 bus_start)"
    by (simp add: bus_start_fields in_range_nat const_defs)
  ultimately obtain as where as: "motherlobe s' = 0x204000 # as @ replicate (4 - length as) 0"
    "list_all2 (found (bus_ident demo_bus) s') (0x204000 # as) (0x80 # filter (present (bus_ident demo_bus)) [0x81, 0x82, 0x83])"
    using disk_search_finds_drives [OF two_channels.ata_bus_axioms, of bus_start 120 "0x80" s'] bus_start_fields
    by (auto simp: s'_def idn demo_bus_def present_def chan_def slave_def simp del: filter.simps)
  have "filter (present (bus_ident demo_bus)) [0x81, 0x82, 0x83] = [0x83]"
    by (simp add: present_def idn chan_def slave_def)
  with as(2) obtain a where a: "as = [a]" and f: "found (bus_ident demo_bus) s' 0x204000 0x80" "found (bus_ident demo_bus) s' a 0x83"
    by (auto simp: list_all2_Cons2)
  have cap: "capacity ((replicate 256 0)[60 := v]) = ucast v" for v by (simp add: capacity_def)
  have "sect_count (disk_at s' 0x204000) = 1000" "sect_count (disk_at s' a) = 500" "base_data_port (disk_at s' a) = 0x170"
    using f by (auto simp: found_def idn chan_def slave_def cap port_def)
  then show ?thesis using as(1) a unfolding s'_def [symmetric] by (intro exI [of _ a]) (simp add: numeral_eq_Suc)
qed

end
