(* ===== verification/Ata_Machine.thy ===== *)
theory Ata_Machine
  imports Ata_Bus
begin

text \<open>
  The disks of a whole machine, as a locale: two channels, each with up to two drives.  The identification of drives
  keeps the contract \<open>ata_bus\<close>, the transfers on each channel keep the contract \<open>ata_drive\<close>, and neither disturbs the
  other: identification leaves the media alone, and a transfer leaves the other channel alone.  An executable machine
  fulfils it.
\<close>

section \<open>The contract of a machine\<close>

text \<open>Between commands a channel is idle, or the answer of IDENTIFY is being read.\<close>

definition identifying :: "ata_phase \<Rightarrow> bool" where
  "identifying p \<longleftrightarrow> (case p of Idle \<Rightarrow> True | Reading ws \<Rightarrow> ws \<noteq> [] \<and> length ws \<le> 256 | Writing l n ws \<Rightarrow> False)"

definition words_of :: "ata_phase \<Rightarrow> u16 list" where
  "words_of p = (case p of Reading ws \<Rightarrow> ws | _ \<Rightarrow> [])"

lemma words_of_simps [simp]: "words_of Idle = []" "words_of (Reading ws) = ws" "words_of (Writing l n ws) = []"
  by (simp_all add: words_of_def)

lemma identifying_simps [simp]:
  "identifying Idle" "identifying (Reading ws) \<longleftrightarrow> ws \<noteq> [] \<and> length ws \<le> 256" "\<not> identifying (Writing l n ws)"
  by (simp_all add: identifying_def)

lemma identifying_idle: "identifying p \<Longrightarrow> words_of p = [] \<longleftrightarrow> p = Idle"
  by (cases p) simp_all

text \<open>
  \<open>drv c sl\<close> is the answer of the drive on channel \<open>c\<close> (true for the second) at position \<open>sl\<close> (true for the slave), or
  \<open>None\<close> if there is none.
\<close>

locale ata_machine =
  fixes io :: "'d port_io"
    and inv :: "'d \<Rightarrow> bool"
    and drv :: "bool \<Rightarrow> bool \<Rightarrow> u16 list option"
    and regs :: "'d \<Rightarrow> bool \<Rightarrow> nat \<Rightarrow> byte"
    and media :: "'d \<Rightarrow> bool \<Rightarrow> bool \<Rightarrow> nat \<Rightarrow> u16 list"
    and phase :: "'d \<Rightarrow> bool \<Rightarrow> ata_phase"
    and pending :: "'d \<Rightarrow> bool \<Rightarrow> nat"
  assumes identification: "ata_bus io (\<lambda>d. inv d \<and> media d = M \<and> (\<forall>c. identifying (phase d c)))
      (\<lambda>d c. slave_of (regs d c)) (\<lambda>_. drv) (\<lambda>d c. words_of (phase d c)) pending"
    and transfers: "drv c sl \<noteq> None \<Longrightarrow> ata_drive io (port c) (\<lambda>sl. drv c sl \<noteq> None)
      (\<lambda>d. inv d \<and> phase d (\<not> c) = Idle \<and> media d (\<not> c) = N)
      (\<lambda>d. regs d c) (\<lambda>d. media d c) (\<lambda>d. phase d c) (\<lambda>d. pending d c)"
    and timer: "p = PIT_CHANNEL \<or> p = PIT_VAL_PORT \<Longrightarrow> inv d \<Longrightarrow> d' = outb_p io p v d \<Longrightarrow>
      inv d' \<and> media d' = media d \<and> phase d' = phase d"

section \<open>An executable machine\<close>

record board =
  bd_regs :: "bool \<Rightarrow> nat \<Rightarrow> byte"
  bd_media :: "bool \<Rightarrow> bool \<Rightarrow> nat \<Rightarrow> u16 list"
  bd_phase :: "bool \<Rightarrow> ata_phase"
  bd_busy :: "bool \<Rightarrow> nat"

text \<open>The answer of the selected drive of a channel.\<close>

definition bd_selected :: "(bool \<Rightarrow> bool \<Rightarrow> u16 list option) \<Rightarrow> board \<Rightarrow> bool \<Rightarrow> u16 list option" where
  "bd_selected drv d c = drv c (slave_of (bd_regs d c))"

definition board_status :: "(bool \<Rightarrow> bool \<Rightarrow> u16 list option) \<Rightarrow> bool \<Rightarrow> board \<Rightarrow> byte \<times> board" where
  "board_status drv c d =
     (if bd_selected drv d c = None then (if drv c False = None \<and> drv c True = None then 0xff else 0, d)
      else if 0 < bd_busy d c then (0x80, d\<lparr>bd_busy := (bd_busy d)(c := bd_busy d c - 1)\<rparr>)
      else (if bd_phase d c = Idle then 0x50 else 0x58, d))"

definition board_command :: "(bool \<Rightarrow> bool \<Rightarrow> u16 list option) \<Rightarrow> bool \<Rightarrow> byte \<Rightarrow> board \<Rightarrow> board" where
  "board_command drv c v d =
     (let r = bd_regs d c;
          start = (\<lambda>p. d\<lparr>bd_phase := (bd_phase d)(c := p), bd_busy := (bd_busy d)(c := 3)\<rparr>)
      in case bd_selected drv d c of None \<Rightarrow> d
         | Some ws \<Rightarrow>
             if v = 0xec then start (Reading ws)
             else if v = 0x20 then start (Reading (concat (map (bd_media d c (slave_of r)) [lba_of r..<lba_of r + count_of r])))
             else if v = 0x30 then start (Writing (lba_of r) (count_of r) [])
             else d)"

definition board_inb :: "(bool \<Rightarrow> bool \<Rightarrow> u16 list option) \<Rightarrow> u16 \<Rightarrow> board \<Rightarrow> byte \<times> board" where
  "board_inb drv p d = (if p = 0x1f7 \<or> p = 0x177 then board_status drv (p = 0x177) d else (0, d))"

definition board_outb :: "(bool \<Rightarrow> bool \<Rightarrow> u16 list option) \<Rightarrow> u16 \<Rightarrow> byte \<Rightarrow> board \<Rightarrow> board" where
  "board_outb drv p v d =
     (if p = 0x1f7 \<or> p = 0x177 then board_command drv (p = 0x177) v d
      else if 0x1f2 \<le> p \<and> p \<le> 0x1f6 then d\<lparr>bd_regs := (bd_regs d)(False := (bd_regs d False)(unat (p - 0x1f0) := v))\<rparr>
      else if 0x172 \<le> p \<and> p \<le> 0x176 then d\<lparr>bd_regs := (bd_regs d)(True := (bd_regs d True)(unat (p - 0x170) := v))\<rparr>
      else d)"

definition board_in16 :: "u16 \<Rightarrow> board \<Rightarrow> u16 \<times> board" where
  "board_in16 p d =
     (let c = (p = 0x170)
      in case bd_phase d c of
           Reading (w # ws) \<Rightarrow>
             (w, d\<lparr>bd_phase := (bd_phase d)(c := if ws = [] then Idle else Reading ws),
                   bd_busy := (bd_busy d)(c := if ws \<noteq> [] \<and> length ws mod 256 = 0 then 2 else 0)\<rparr>)
         | _ \<Rightarrow> (0, d))"

definition board_out16 :: "u16 \<Rightarrow> u16 \<Rightarrow> board \<Rightarrow> board" where
  "board_out16 p w d =
     (let c = (p = 0x170); sl = slave_of (bd_regs d c)
      in case bd_phase d c of
           Writing l n ws \<Rightarrow>
             if length ws < 255 then d\<lparr>bd_phase := (bd_phase d)(c := Writing l n (ws @ [w]))\<rparr>
             else d\<lparr>bd_media := (bd_media d)(c := (bd_media d c)(sl := (bd_media d c sl)(l := ws @ [w]))),
                    bd_phase := (bd_phase d)(c := if n \<le> 1 then Idle else Writing (Suc l) (n - 1) []),
                    bd_busy := (bd_busy d)(c := 2)\<rparr>
         | _ \<Rightarrow> d)"

definition board_io :: "(bool \<Rightarrow> bool \<Rightarrow> u16 list option) \<Rightarrow> board port_io" where
  "board_io drv = \<lparr>inb_p = board_inb drv, in16_p = board_in16, outb_p = board_outb drv, out16_p = board_out16\<rparr>"

text \<open>A drive that is not there is never busy, and a channel that is not idle has a drive selected.\<close>

definition bd_wait :: "(bool \<Rightarrow> bool \<Rightarrow> u16 list option) \<Rightarrow> board \<Rightarrow> bool \<Rightarrow> nat" where
  "bd_wait drv d c = (if bd_selected drv d c = None then 0 else bd_busy d c)"

definition board_inv :: "(bool \<Rightarrow> bool \<Rightarrow> u16 list option) \<Rightarrow> board \<Rightarrow> bool" where
  "board_inv drv d \<longleftrightarrow> (\<forall>c. bd_busy d c < ATA_WAIT) \<and> (\<forall>c sl n. length (bd_media d c sl n) = 256) \<and>
     (\<forall>c sl. case drv c sl of None \<Rightarrow> True | Some ws \<Rightarrow> length ws = 256) \<and> (\<forall>c. bd_phase d c \<noteq> Idle \<longrightarrow> bd_selected drv d c \<noteq> None)"

lemma board_invI:
  assumes "\<And>c. bd_busy d c < ATA_WAIT" and "\<And>c sl n. length (bd_media d c sl n) = 256"
    and "\<And>c sl ws. drv c sl = Some ws \<Longrightarrow> length ws = 256" and "\<And>c. bd_phase d c \<noteq> Idle \<Longrightarrow> bd_selected drv d c \<noteq> None"
  shows "board_inv drv d"
  using assms by (simp add: board_inv_def split: option.split)

lemma board_invD:
  assumes "board_inv drv d"
  shows "bd_busy d c < ATA_WAIT" and "length (bd_media d c sl n) = 256" and "drv c sl = Some ws \<Longrightarrow> length ws = 256"
    and "bd_phase d c \<noteq> Idle \<Longrightarrow> bd_selected drv d c \<noteq> None"
proof -
  have "case drv c sl of None \<Rightarrow> True | Some ws \<Rightarrow> length ws = 256" using assms by (simp add: board_inv_def)
  then show "drv c sl = Some ws \<Longrightarrow> length ws = 256" by simp
qed (use assms in \<open>simp_all add: board_inv_def\<close>)

text \<open>The ports of a channel.\<close>

lemma board_ports:
  "inb_p (board_io drv) (port c + 7) d = board_status drv c d" "inb_p (board_io drv) (port c + 6) d = (0, d)"
  "outb_p (board_io drv) (port c + 7) v d = board_command drv c v d" "outb_p (board_io drv) (port c + 0x206) v d = d"
  by (rule bool.induct [of _ c]; simp add: board_io_def board_inb_def board_outb_def port_simps)+

lemma board_register:
  "2 \<le> r \<Longrightarrow> r \<le> 6 \<Longrightarrow> outb_p (board_io drv) (port c + of_nat r) v d = d\<lparr>bd_regs := (bd_regs d)(c := (bd_regs d c)(r := v))\<rparr>"
proof -
  assume "2 \<le> r" "r \<le> 6"
  then have "r \<in> {2, 3, 4, 5, 6}" by auto
  then show ?thesis by (cases c) (auto simp: board_io_def board_outb_def port_def)
qed

lemma board_data:
  "bd_phase d c = Reading (w # ws) \<Longrightarrow> in16_p (board_io drv) (port c) d =
     (w, d\<lparr>bd_phase := (bd_phase d)(c := if ws = [] then Idle else Reading ws),
           bd_busy := (bd_busy d)(c := if ws \<noteq> [] \<and> length ws mod 256 = 0 then 2 else 0)\<rparr>)"
  "bd_phase d c = Writing l n us \<Longrightarrow> out16_p (board_io drv) (port c) x d =
     (if length us < 255 then d\<lparr>bd_phase := (bd_phase d)(c := Writing l n (us @ [x]))\<rparr>
      else d\<lparr>bd_media := (bd_media d)(c := (bd_media d c)(slave_of (bd_regs d c) := (bd_media d c (slave_of (bd_regs d c)))(l := us @ [x]))),
             bd_phase := (bd_phase d)(c := if n \<le> 1 then Idle else Writing (Suc l) (n - 1) []),
             bd_busy := (bd_busy d)(c := 2)\<rparr>)"
  by (cases c; simp add: board_io_def board_in16_def board_out16_def port_def Let_def)+

text \<open>An access keeps the invariant when it keeps the bounds and leaves a channel that is not idle with a drive selected.\<close>

lemma board_inv_step:
  assumes d: "board_inv drv d" and "\<And>k. bd_busy d' k < ATA_WAIT" and "\<And>k sl n. length (bd_media d' k sl n) = 256"
    and same: "\<And>k. k \<noteq> c \<Longrightarrow> bd_phase d' k = bd_phase d k \<and> bd_regs d' k = bd_regs d k"
    and at: "bd_phase d' c \<noteq> Idle \<Longrightarrow> bd_selected drv d' c \<noteq> None"
  shows "board_inv drv d'"
proof (rule board_invI)
  show "drv k sl = Some ws \<Longrightarrow> length ws = 256" for k sl ws by (rule board_invD(3) [OF d])
  show "bd_selected drv d' k \<noteq> None" if "bd_phase d' k \<noteq> Idle" for k
  proof (cases "k = c")
    case True
    then show ?thesis using at that by simp
  next
    case False
    then have "bd_selected drv d k \<noteq> None" using same that by (intro board_invD(4) [OF d]) simp
    then show ?thesis using same [OF False] by (simp add: bd_selected_def)
  qed
qed (fact assms)+

lemma board_inv_upd:
  assumes d: "board_inv drv d"
  shows "n < ATA_WAIT \<Longrightarrow> board_inv drv (d\<lparr>bd_busy := (bd_busy d)(c := n)\<rparr>)"
    and "bd_phase d c = Idle \<or> slave_of r = slave_of (bd_regs d c) \<Longrightarrow> board_inv drv (d\<lparr>bd_regs := (bd_regs d)(c := r)\<rparr>)"
    and "p = Idle \<or> bd_selected drv d c \<noteq> None \<Longrightarrow> n < ATA_WAIT \<Longrightarrow>
      board_inv drv (d\<lparr>bd_phase := (bd_phase d)(c := p), bd_busy := (bd_busy d)(c := n)\<rparr>)"
    and "p = Idle \<or> bd_selected drv d c \<noteq> None \<Longrightarrow> board_inv drv (d\<lparr>bd_phase := (bd_phase d)(c := p)\<rparr>)"
    and "p = Idle \<or> bd_selected drv d c \<noteq> None \<Longrightarrow> n < ATA_WAIT \<Longrightarrow> (\<And>k. length (f k) = 256) \<Longrightarrow>
      board_inv drv (d\<lparr>bd_media := (bd_media d)(c := (bd_media d c)(sl := f)),
        bd_phase := (bd_phase d)(c := p), bd_busy := (bd_busy d)(c := n)\<rparr>)"
proof -
  note b = board_invD(1,2) [OF d] and ph = board_invD(4) [OF d, of c]
  show "board_inv drv (d\<lparr>bd_busy := (bd_busy d)(c := n)\<rparr>)" if "n < ATA_WAIT"
    by (rule board_inv_step [OF d, where c = c]) (use b ph that in \<open>simp_all add: bd_selected_def\<close>)
  show "board_inv drv (d\<lparr>bd_regs := (bd_regs d)(c := r)\<rparr>)" if "bd_phase d c = Idle \<or> slave_of r = slave_of (bd_regs d c)"
    by (rule board_inv_step [OF d, where c = c]) (use b ph that in \<open>auto simp: bd_selected_def\<close>)
  show "board_inv drv (d\<lparr>bd_phase := (bd_phase d)(c := p), bd_busy := (bd_busy d)(c := n)\<rparr>)"
    if "p = Idle \<or> bd_selected drv d c \<noteq> None" "n < ATA_WAIT"
    by (rule board_inv_step [OF d, where c = c]) (use b that in \<open>auto simp: bd_selected_def\<close>)
  show "board_inv drv (d\<lparr>bd_phase := (bd_phase d)(c := p)\<rparr>)" if "p = Idle \<or> bd_selected drv d c \<noteq> None"
    by (rule board_inv_step [OF d, where c = c]) (use b that in \<open>auto simp: bd_selected_def\<close>)
  show "board_inv drv (d\<lparr>bd_media := (bd_media d)(c := (bd_media d c)(sl := f)),
        bd_phase := (bd_phase d)(c := p), bd_busy := (bd_busy d)(c := n)\<rparr>)"
    if "p = Idle \<or> bd_selected drv d c \<noteq> None" "n < ATA_WAIT" "\<And>k. length (f k) = 256"
    by (rule board_inv_step [OF d, where c = c]) (use b that in \<open>auto simp: bd_selected_def\<close>)
qed

lemma board_status_keeps:
  assumes "board_inv drv d" and "board_status drv c d = (v, d')"
  shows "board_inv drv d'" and "bd_regs d' = bd_regs d" and "bd_media d' = bd_media d" and "bd_phase d' = bd_phase d"
    and "bd_wait drv d' c = bd_wait drv d c - 1"
    and "bd_selected drv d c = None \<Longrightarrow> v = (if drv c False = None \<and> drv c True = None then 0xff else 0)"
    and "bd_selected drv d c \<noteq> None \<Longrightarrow> v = (if 0 < bd_wait drv d c then 0x80 else if bd_phase d c = Idle then 0x50 else 0x58)"
proof -
  have s: "bd_selected drv d' c = bd_selected drv d c" using assms(2) by (auto simp: board_status_def bd_selected_def split: if_splits)
  have b: "bd_busy d c - 1 < ATA_WAIT" using board_invD(1) [OF assms(1), of c] by simp
  show "board_inv drv d'" using assms board_inv_upd(1) [OF assms(1) b, of c] by (auto simp: board_status_def split: if_splits)
  show "bd_regs d' = bd_regs d" "bd_media d' = bd_media d" "bd_phase d' = bd_phase d"
    using assms(2) by (auto simp: board_status_def split: if_splits)
  show "bd_wait drv d' c = bd_wait drv d c - 1" using assms(2) s by (auto simp: board_status_def bd_wait_def split: if_splits)
  show "bd_selected drv d c = None \<Longrightarrow> v = (if drv c False = None \<and> drv c True = None then 0xff else 0)"
    "bd_selected drv d c \<noteq> None \<Longrightarrow> v = (if 0 < bd_wait drv d c then 0x80 else if bd_phase d c = Idle then 0x50 else 0x58)"
    using assms(2) by (auto simp: board_status_def bd_wait_def split: if_splits)
qed

lemma board_command_keeps:
  assumes "board_inv drv d" and "bd_selected drv d c = Some ws"
  shows "board_inv drv (board_command drv c v d)" and "bd_regs (board_command drv c v d) = bd_regs d"
    and "bd_media (board_command drv c v d) = bd_media d" and "\<And>k. k \<noteq> c \<Longrightarrow> bd_phase (board_command drv c v d) k = bd_phase d k"
    and "bd_phase (board_command drv c 0xec d) = (bd_phase d)(c := Reading ws)"
    and "bd_phase (board_command drv c 0x20 d) c = Reading (concat (map (bd_media d c (slave_of (bd_regs d c)))
      [lba_of (bd_regs d c)..<lba_of (bd_regs d c) + count_of (bd_regs d c)]))"
    and "bd_phase (board_command drv c 0x30 d) c = Writing (lba_of (bd_regs d c)) (count_of (bd_regs d c)) []"
proof -
  have "board_inv drv (d\<lparr>bd_phase := (bd_phase d)(c := p), bd_busy := (bd_busy d)(c := 3)\<rparr>)" for p
    by (rule board_inv_upd(3) [OF assms(1)]) (use assms(2) in \<open>simp_all add: const_defs\<close>)
  then show "board_inv drv (board_command drv c v d)" using assms by (simp add: board_command_def Let_def)
qed (use assms(2) in \<open>simp_all add: board_command_def Let_def\<close>)

lemma board_bus:
  "ata_bus (board_io drv) (\<lambda>d. board_inv drv d \<and> bd_media d = M \<and> (\<forall>c. identifying (bd_phase d c)))
     (\<lambda>d c. slave_of (bd_regs d c)) (\<lambda>_. drv) (\<lambda>d c. words_of (bd_phase d c)) (bd_wait drv)"
proof (unfold_locales, goal_cases)
  case (1 d c)
  then show ?case using board_invD(1) [of drv d c] by (simp add: bd_wait_def const_defs)
next
  case (2 d c sl ws)
  then show ?case using board_invD(3) by blast
next
  case (3 d c v d')
  then have d: "board_inv drv d" "board_status drv c d = (v, d')" and p: "identifying (bd_phase d c)" by (simp_all add: board_ports)
  note k = board_status_keeps [OF d]
  have s: "drv c (slave_of (bd_regs d c)) = bd_selected drv d c" by (simp add: bd_selected_def)
  show ?case unfolding s using 3 k identifying_idle [OF p] by (cases "bd_selected drv d c = None") simp_all
next
  case (4 d c v d')
  then show ?case by (simp add: board_ports)
next
  case (5 d d' c)
  then show ?case by (simp add: board_ports)
next
  case (6 d c v d')
  then have i: "identifying (bd_phase d c)" and d: "board_inv drv d" by simp_all
  have r: "port c + 6 = port c + of_nat 6" by simp
  have d': "d' = d\<lparr>bd_regs := (bd_regs d)(c := (bd_regs d c)(6 := v))\<rparr>" unfolding 6(3) r by (rule board_register) simp_all
  have sl: "slave_of ((bd_regs d c)(6 := v)) = (v AND 0x10 \<noteq> 0)" by (simp add: slave_of_def)
  have "board_inv drv d'"
    unfolding d' by (rule board_inv_upd(2) [OF d]) (use 6(2) identifying_idle [OF i] sl in auto)
  then show ?case using 6(1) sl by (auto simp: d' fun_eq_iff)
next
  case (7 d c ws d')
  then have d: "board_inv drv d" "bd_selected drv d c = Some ws" and d': "d' = board_command drv c 0xec d"
    by (simp_all add: board_ports bd_selected_def)
  have "length ws = 256" using board_invD(3) [OF d(1)] d(2) by (auto simp: bd_selected_def)
  moreover have "(\<lambda>k. words_of (((bd_phase d)(c := Reading ws)) k)) = (\<lambda>k. words_of (bd_phase d k))(c := ws)" by auto
  moreover note k = board_command_keeps [OF d]
  ultimately show ?case using 7(1) by (auto simp: d' k(1-3) k(5) simp del: fun_upd_apply) auto
next
  case (8 d c w ws x d')
  then have p: "bd_phase d c = Reading (w # ws)" and d: "board_inv drv d" and i: "identifying (bd_phase d c)"
    by (auto simp: words_of_def split: ata_phase.splits)
  have m: "\<not> (ws \<noteq> [] \<and> length ws mod 256 = 0)" using i p by (cases "length ws") auto
  have e: "x = w" "d' = d\<lparr>bd_phase := (bd_phase d)(c := if ws = [] then Idle else Reading ws), bd_busy := (bd_busy d)(c := 0)\<rparr>"
    using 8(4) unfolding board_data(1) [OF p] if_not_P [OF m] by simp_all
  have "bd_selected drv d c \<noteq> None" by (rule board_invD(4) [OF d]) (simp add: p)
  then have "board_inv drv d'" unfolding e(2) by (intro board_inv_upd(3) [OF d]) (simp_all add: const_defs)
  then show ?case using 8(1) i p by (auto simp: e fun_eq_iff bd_wait_def)
qed

lemma board_drive:
  assumes "drv c sl \<noteq> None"
  shows "ata_drive (board_io drv) (port c) (\<lambda>sl. drv c sl \<noteq> None)
     (\<lambda>d. board_inv drv d \<and> bd_phase d (\<not> c) = Idle \<and> bd_media d (\<not> c) = N)
     (\<lambda>d. bd_regs d c) (\<lambda>d. bd_media d c) (\<lambda>d. bd_phase d c) (\<lambda>d. bd_wait drv d c)"
proof (unfold_locales, goal_cases)
  case (1 d)
  then show ?case using board_invD(1) [of drv d c] by (simp add: bd_wait_def const_defs)
next
  case (2 d sl n)
  then show ?case using board_invD(2) by blast
next
  case (3 d v d')
  then have d: "board_inv drv d" "board_status drv c d = (v, d')" by (simp_all add: board_ports)
  note k = board_status_keeps [OF d]
  have "drv c False \<noteq> None \<or> drv c True \<noteq> None" using assms by (cases sl) auto
  moreover have "bd_selected drv d c = None \<Longrightarrow> bd_phase d c = Idle \<and> bd_wait drv d c = 0"
    using board_invD(4) [OF d(1), of c] by (auto simp: bd_wait_def)
  ultimately show ?case using 3 k by (cases "bd_selected drv d c = None") auto
next
  case (4 d r d' v)
  then have d: "board_inv drv d" and d': "d' = d\<lparr>bd_regs := (bd_regs d)(c := (bd_regs d c)(r := v))\<rparr>" by (simp_all add: board_register)
  show ?case using board_inv_upd(2) [OF d, of c "(bd_regs d c)(r := v)"] 4(1,2) by (simp add: d')
next
  case (5 d d')
  then obtain ws where d: "board_inv drv d" "bd_selected drv d c = Some ws" by (auto simp: bd_selected_def)
  show ?case using 5(1,4) board_command_keeps [OF d] by (simp add: board_ports)
next
  case (6 d w ws x d')
  then have d: "board_inv drv d" and e: "x = w" "d' = d\<lparr>bd_phase := (bd_phase d)(c := if ws = [] then Idle else Reading ws),
      bd_busy := (bd_busy d)(c := if ws \<noteq> [] \<and> length ws mod 256 = 0 then 2 else 0)\<rparr>"
    by (simp_all add: board_data(1))
  have "bd_selected drv d c \<noteq> None" by (rule board_invD(4) [OF d]) (simp add: 6(2))
  then have "board_inv drv d'" unfolding e(2) by (intro board_inv_upd(3) [OF d]) (simp_all add: const_defs)
  then show ?case using 6(1) by (auto simp: e bd_wait_def)
next
  case (7 d d')
  then obtain ws where d: "board_inv drv d" "bd_selected drv d c = Some ws" by (auto simp: bd_selected_def)
  show ?case using 7(1,4) board_command_keeps [OF d] by (simp add: board_ports)
next
  case (8 d l n ws d' w)
  then have d: "board_inv drv d" and s: "bd_selected drv d c \<noteq> None" using board_invD(4) [of drv d c] by auto
  show ?case
  proof (cases "length ws < 255")
    case True
    then have e: "d' = d\<lparr>bd_phase := (bd_phase d)(c := Writing l n (ws @ [w]))\<rparr>" using 8(5) by (simp add: board_data(2) [OF 8(2)])
    have "board_inv drv d'" unfolding e by (rule board_inv_upd(4) [OF d]) (simp add: s)
    moreover have "bd_wait drv d' c = bd_wait drv d c" by (simp add: e bd_wait_def bd_selected_def)
    ultimately show ?thesis using 8(1-4) True by (simp add: e)
  next
    case False
    let ?sl = "slave_of (bd_regs d c)"
    have e: "d' = d\<lparr>bd_media := (bd_media d)(c := (bd_media d c)(?sl := (bd_media d c ?sl)(l := ws @ [w]))),
        bd_phase := (bd_phase d)(c := if n \<le> 1 then Idle else Writing (Suc l) (n - 1) []), bd_busy := (bd_busy d)(c := 2)\<rparr>"
      using 8(5) False by (simp add: board_data(2) [OF 8(2)])
    have "board_inv drv d'"
      unfolding e by (rule board_inv_upd(5) [OF d]) (use s board_invD(2) [OF d] 8(3) False in \<open>simp_all add: const_defs\<close>)
    then show ?thesis using 8(1) False by (simp add: e)
  qed
qed

interpretation board: ata_machine "board_io drv" "board_inv drv" drv bd_regs bd_media bd_phase "bd_wait drv"
  for drv :: "bool \<Rightarrow> bool \<Rightarrow> u16 list option"
proof (rule ata_machine.intro)
  fix p :: u16 and v :: byte and d d' :: board
  assume "p = PIT_CHANNEL \<or> p = PIT_VAL_PORT" "board_inv drv d" "d' = outb_p (board_io drv) p v d"
  then show "board_inv drv d' \<and> bd_media d' = bd_media d \<and> bd_phase d' = bd_phase d"
    by (auto simp: board_io_def board_outb_def PIT_CHANNEL_def PIT_VAL_PORT_def)
qed (rule board_bus board_drive; assumption?)+

end
