(* ===== verification/Boot.thy ===== *)
theory Boot
  imports Disk_Search Ata_Machine
begin

text \<open>
  The parts together: \<open>kernel_main\<close> on a machine that fulfils the contract of theory \<open>Ata_Machine\<close>.  The set-up does
  not disturb the disks, the search lists the boot drive and the drives behind the first, and the scan gives each of them the list of its own
  partition table.
\<close>

section \<open>Partition lists\<close>

text \<open>The partition list of the disk at \<open>p\<close> is the partition table in the first of the \<open>sectors\<close>.\<close>

definition partitioned :: "(nat \<Rightarrow> u16 list) \<Rightarrow> ('d, 'z) disk_state_scheme \<Rightarrow> addr \<Rightarrow> bool" where
  "partitioned sectors s p \<longleftrightarrow>
     (\<exists>as. plist (part_at s) (link_list (disk_at s p)) as \<and> set as \<subseteq> fst ` cream_objects s \<and>
        (\<forall>a \<in> set as. f_disk (part_at s a) = p) \<and>
        map (entry \<circ> part_at s) as = disk_entries (sector_bytes (sectors 0)) (sect_count (disk_at s p)))"

lemma partitioned_listed: "partitioned sectors s p \<Longrightarrow> listed s p"
  by (auto simp: partitioned_def listed_def)

lemma partitioned_shown: "shown s s' \<Longrightarrow> partitioned sectors s' p = partitioned sectors s p"
  using same_heapD(2) [of s s'] by (simp add: shown_def partitioned_def cream_objects_def)

lemma found_shown: "shown s s' \<Longrightarrow> found idn s' p i = found idn s p i"
  by (rule found_cong) (simp add: shown_def)

text \<open>A scan lists the partitions of its disk and keeps the descriptions and the lists of the others.\<close>

lemma scanned_disk:
  assumes "scanned s p b c s'"
  shows "q \<noteq> p \<Longrightarrow> disk_at s' q = disk_at s q" and "disk_at s' p = (disk_at s p)\<lparr>link_list := link_list (disk_at s' p)\<rparr>"
proof -
  have d: "disk_at s' = (disk_at s)(p := (disk_at s p)\<lparr>link_list := link_list (disk_at s' p)\<rparr>)"
    using assms unfolding scanned_def by (elim conjE)
  show "q \<noteq> p \<Longrightarrow> disk_at s' q = disk_at s q" by (subst d) simp
  show "disk_at s' p = (disk_at s p)\<lparr>link_list := link_list (disk_at s' p)\<rparr>" by (subst d) (simp only: fun_upd_same)
qed

lemma scanned_sect_count: "scanned s p b c s' \<Longrightarrow> sect_count (disk_at s' q) = sect_count (disk_at s q)"
proof (cases "q = p")
  case True
  assume "scanned s p b c s'"
  then show ?thesis unfolding True by (subst scanned_disk(2)) simp_all
qed (simp add: scanned_disk(1))

lemma described_link_list: "(described i ws k)\<lparr>link_list := l\<rparr> = described i ws (k\<lparr>link_list := l\<rparr>)"
  by (cases k) (simp add: described_def)

lemma scanned_found:
  assumes sc: "scanned s p b c s'" and f: "found idn s q i"
  shows "found idn s' q i"
proof (cases "q = p")
  case False
  then show ?thesis using f found_cong [OF scanned_disk(1) [OF sc]] by blast
next
  case True
  obtain ws k where k: "idn (chan i) (slave i) = Some ws" "ata_code k = ucast i" "dtype k = DISK_TYPE_REAL"
    "disk_at s q = described i ws k" using f by (auto simp: found_def split: option.splits)
  have "disk_at s' q = (described i ws k)\<lparr>link_list := link_list (disk_at s' q)\<rparr>"
    unfolding k(4) [symmetric] True by (rule scanned_disk(2) [OF sc])
  then have "disk_at s' q = described i ws (k\<lparr>link_list := link_list (disk_at s' q)\<rparr>)" by (simp only: described_link_list)
  with k(1-3) show ?thesis unfolding found_def by (auto intro!: exI [of _ "k\<lparr>link_list := link_list (disk_at s' q)\<rparr>"])
qed

lemma scanned_new:
  assumes sc: "scanned s p (sector_bytes (sectors 0)) c s'"
  shows "partitioned sectors s' p"
proof -
  obtain as where as: "plist (part_at s') (link_list (disk_at s' p)) as"
    "map (entry \<circ> part_at s') as = disk_entries (sector_bytes (sectors 0)) (sect_count (disk_at s p))"
    "\<forall>a \<in> set as. f_disk (part_at s' a) = p \<and> (\<exists>n\<ge>24. (a, n) \<in> cream_objects s')"
    using sc [unfolded scanned_def, THEN conjunct1] by blast
  then have "set as \<subseteq> fst ` cream_objects s'" by (force intro: rev_image_eqI)
  with as show ?thesis unfolding partitioned_def scanned_sect_count [OF sc] by blast
qed

lemma scanned_old:
  assumes sc: "scanned s p b c s'" and q: "partitioned sectors s q" "q \<noteq> p"
  shows "partitioned sectors s' q"
proof -
  obtain as where as: "plist (part_at s) (link_list (disk_at s q)) as" "set as \<subseteq> fst ` cream_objects s"
    "\<forall>a \<in> set as. f_disk (part_at s a) = q"
    "map (entry \<circ> part_at s) as = disk_entries (sector_bytes (sectors 0)) (sect_count (disk_at s q))"
    using q(1) by (auto simp: partitioned_def)
  have sub: "cream_objects s \<subseteq> cream_objects s'" using sc unfolding scanned_def by (elim conjE)
  have old: "\<forall>a \<in> fst ` cream_objects s. part_at s' a = part_at s a" using sc unfolding scanned_def by (elim conjE)
  have same: "part_at s' a = part_at s a" if "a \<in> set as" for a using old as(2) that by blast
  have "plist (part_at s') (link_list (disk_at s q)) as" using as(1) plist_cong [of as "part_at s" "part_at s'"] same by metis
  moreover have "map (entry \<circ> part_at s') as = map (entry \<circ> part_at s) as" using same by simp
  moreover have "set as \<subseteq> fst ` cream_objects s'" using as(2) sub by blast
  ultimately show ?thesis unfolding partitioned_def scanned_disk(1) [OF sc q(2)] using as(3,4) same by (intro exI [of _ as]) simp
qed

section \<open>The search and the scans\<close>

context ata_machine
begin

definition ready :: "'d \<Rightarrow> bool" where
  "ready d \<longleftrightarrow> inv d \<and> (\<forall>c. phase d c = Idle)"

lemma pit_calm:
  "inv d \<Longrightarrow> d' = fold (\<lambda>(p, v). outb_p io p v) (pit_init f) d \<Longrightarrow> inv d' \<and> media d' = media d \<and> phase d' = phase d"
  using timer by (simp add: pit_init_def Let_def)

text \<open>One disk: its channel keeps the contract of a drive, and the other channel stays as it is.\<close>

lemma scan_one:
  assumes cl: "client s (c + 5)" and p: "p \<noteq> 0" and d: "ready (dev s)" and f: "found drv s p i" and n: "sect_count (disk_at s p) \<noteq> 0"
    and t: "t = single_disk_scan io p s"
  shows "scanned s p (sector_bytes (media (dev s) (chan i) (slave i) 0)) c t" and "ready (dev t)" and "media (dev t) = media (dev s)"
proof -
  obtain ws k where k: "drv (chan i) (slave i) = Some ws" "disk_at s p = described i ws k" using f by (auto simp: found_def split: option.splits)
  let ?c = "chan i"
  have m: "(is_master (disk_at s p) = 0) = slave i" by (simp add: k(2))
  have at: "attached (port ?c) (\<lambda>sl. drv ?c sl \<noteq> None) (disk_at s p)" unfolding attached_def m using k by simp
  have "drv ?c (slave i) \<noteq> None" using k(1) by simp
  note ok = ata_drive.single_disk_scan_ok [OF transfers [OF this, where N = "media (dev s) (\<not> ?c)"] cl p _ _ at n refl, unfolded m, folded t]
  have pre: "inv (dev s) \<and> phase (dev s) (\<not> ?c) = Idle \<and> media (dev s) (\<not> ?c) = media (dev s) (\<not> ?c)" "phase (dev s) ?c = Idle"
    using d by (simp_all add: ready_def)
  note ok = ok [OF pre]
  show "scanned s p (sector_bytes (media (dev s) ?c (slave i) 0)) c t" by (rule ok(1))
  have both: "(\<forall>c. P c) \<longleftrightarrow> P ?c \<and> P (\<not> ?c)" for P :: "bool \<Rightarrow> bool"
    by (cases ?c) (auto simp: all_bool_eq)
  show "ready (dev t)" unfolding ready_def both using ok(2,3) by simp
  show "media (dev t) = media (dev s)" unfolding fun_eq_iff [of "media (dev t)"] both using ok(2,4) by simp
qed

lemma scan_all:
  fixes s :: "('d, 'z) disk_state_scheme"
  assumes cl: "client s (c + 5 * n)" and d: "ready (dev s)"
    and f: "\<And>i. i < n \<Longrightarrow> motherlobe s ! i \<noteq> 0 \<Longrightarrow> found drv s (motherlobe s ! i) (code i) \<and> sect_count (disk_at s (motherlobe s ! i)) \<noteq> 0"
    and dis: "\<And>i j. i < j \<Longrightarrow> j < n \<Longrightarrow> motherlobe s ! i \<noteq> 0 \<Longrightarrow> motherlobe s ! i \<noteq> motherlobe s ! j"
  shows "let t = fold (\<lambda>i s. if motherlobe s ! i = 0 then s else single_disk_scan io (motherlobe s ! i) s) [0..<n] s in
    client t c \<and> motherlobe t = motherlobe s \<and> ready (dev t) \<and> media (dev t) = media (dev s) \<and>
    (\<forall>p i. found drv s p i \<longrightarrow> found drv t p i) \<and> (\<forall>p. sect_count (disk_at t p) = sect_count (disk_at s p)) \<and>
    (\<forall>i<n. motherlobe s ! i \<noteq> 0 \<longrightarrow> partitioned (media (dev s) (chan (code i)) (slave (code i))) t (motherlobe s ! i))"
  using cl f dis
proof (induction n arbitrary: c)
  case (Suc n)
  let ?f = "\<lambda>i s :: ('d, 'z) disk_state_scheme. if motherlobe s ! i = 0 then s else single_disk_scan io (motherlobe s ! i) s"
  let ?p = "motherlobe s ! n"
  define t where "t = fold ?f [0..<n] s"
  have IH: "client t (c + 5)" "motherlobe t = motherlobe s" "ready (dev t)" "media (dev t) = media (dev s)"
    "\<And>p i. found drv s p i \<Longrightarrow> found drv t p i" "\<And>p. sect_count (disk_at t p) = sect_count (disk_at s p)"
    "\<And>i. i < n \<Longrightarrow> motherlobe s ! i \<noteq> 0 \<Longrightarrow> partitioned (media (dev s) (chan (code i)) (slave (code i))) t (motherlobe s ! i)"
    using Suc.IH [of "c + 5"] Suc.prems unfolding Let_def t_def [symmetric] by (auto simp: algebra_simps)
  have e: "fold ?f [0..<Suc n] s = ?f n t" by (simp add: t_def)
  show ?case
  proof (cases "?p = 0")
    case True
    then have "?f n t = t" by (simp add: IH(2))
    then show ?thesis unfolding e Let_def using IH client_less [OF IH(1), of c] True by (auto simp: less_Suc_eq)
  next
    case False
    define u where "u = single_disk_scan io ?p t"
    have u: "?f n t = u" using False by (simp add: IH(2) u_def)
    have "found drv t ?p (code n)" "sect_count (disk_at t ?p) \<noteq> 0" using Suc.prems(2) [of n] False IH(5,6) by simp_all
    note sc = scan_one [OF IH(1) False IH(3) this u_def, unfolded IH(4)]
    have "partitioned (media (dev s) (chan (code i)) (slave (code i))) u (motherlobe s ! i)" if "i < Suc n" "motherlobe s ! i \<noteq> 0" for i
    proof (cases "i = n")
      case True
      then show ?thesis using scanned_new [where sectors = "media (dev s) (chan (code n)) (slave (code n))", OF sc(1)] by simp
    next
      case False
      then have "i < n" using that(1) by simp
      then show ?thesis using scanned_old [OF sc(1) IH(7)] Suc.prems(3) [of i n] that(2) by simp
    qed
    moreover have "client u c" "motherlobe u = motherlobe s" using scanned_listed(3,4) [OF sc(1)] IH(2) by simp_all
    ultimately show ?thesis
      unfolding e Let_def u using sc(2,3) scanned_found [OF sc(1)] scanned_sect_count [OF sc(1)] IH(5,6) by simp
  qed
qed (simp add: d)

text \<open>Search and scan, from an object heap that is in order.\<close>

lemma heap_object_nonzero: "client s k \<Longrightarrow> (a, n) \<in> cream_objects s \<Longrightarrow> a \<noteq> 0"
  using object_in_heap [of s k a n] by (auto simp: in_range_nat const_defs)

lemma search_and_scan:
  fixes s :: "('d, 'z) disk_state_scheme"
  assumes cl: "client s 124" and d: "ready (dev s)" and boot: "bd = ucast (G_BOOT_DRIVE s)" "present drv bd"
    and cap: "\<And>c sl ws. drv c sl = Some ws \<Longrightarrow> capacity ws \<noteq> 0"
    and g: "\<not> in_range KHEAP_START (unat KHEAP_SIZE_BYTES) (disk1 s)" "disk1 s \<noteq> 0" and m: "motherlobe s = replicate DISK_SUPPORT_MAX 0"
    and s2: "shown (disk_search_and_init io s) s2" and t: "t = scan_part_all_disks io s2"
  shows "\<exists>as. motherlobe t = disk1 s # as @ replicate (4 - length as) 0 \<and> distinct (disk1 s # as) \<and>
    list_all2 (\<lambda>p i. found drv t p i \<and> partitioned (media (dev s) (chan i) (slave i)) t p)
      (disk1 s # as) (bd # filter (present drv) [0x81, 0x82, 0x83]) \<and> media (dev t) = media (dev s) \<and>
    (\<forall>i<5. motherlobe t ! i \<noteq> 0 \<longrightarrow> listed t (motherlobe t ! i))"
proof -
  let ?M = "media (dev s)" and ?codes = "bd # filter (present drv) [0x81, 0x82, 0x83]"
  define s1 where "s1 = disk_search_and_init io s"
  have "ata_bus.idle (\<lambda>d. inv d \<and> media d = ?M \<and> (\<forall>c. identifying (phase d c))) (\<lambda>d c. words_of (phase d c)) d' \<longleftrightarrow>
      ready d' \<and> media d' = ?M" for d'
    unfolding ata_bus.idle_def [OF identification] ready_def using identifying_idle by auto
  note idle = this
  have "client s (120 + 4)" using cl by simp
  from ata_bus.disk_search_ok [OF identification [where M = ?M] this, unfolded idle] d boot g(1) m s1_def
  obtain as where as: "list_all2 (found drv s1) (disk1 s # as) ?codes" "distinct (disk1 s # as)"
    "motherlobe s1 = disk1 s # as @ replicate (4 - length as) 0" "client s1 120" "set as \<subseteq> fst ` cream_objects s1"
    "ready (dev s1)" "media (dev s1) = ?M" by blast
  let ?ps = "disk1 s # as"
  have len: "length ?ps = length ?codes" by (rule list_all2_lengthD [OF as(1)])
  moreover have "length ?codes \<le> 4" by simp
  ultimately have l4: "length ?ps \<le> 4" by (simp only:)
  note sh = s2 [folded s1_def, unfolded shown_def]
  have s2': "client s2 (95 + 5 * 5)" "ready (dev s2)" "motherlobe s2 = ?ps @ replicate (4 - length as) 0" "media (dev s2) = ?M"
    "disk_at s2 = disk_at s1" using sh as client_same_heap(1) [of s1 s2 120] by simp_all
  have f2: "found drv s2 p i = found drv s1 p i" for p i by (rule found_cong) (simp add: s2'(5))
  have pos: "p \<noteq> 0" if "p \<in> set ?ps" for p using that g(2) as(5) heap_object_nonzero [OF as(4)] by auto
  have at: "motherlobe s2 ! i = (if i < length ?ps then ?ps ! i else 0)" if "i < 5" for i
    using that by (simp add: s2'(3) nth_append nth_Cons' del: append_Cons)
  have at0: "motherlobe s2 ! i \<noteq> 0 \<longleftrightarrow> i < length ?ps" if "i < 5" for i using at [OF that] pos nth_mem [of i ?ps] by auto
  have ok: "found drv s2 (motherlobe s2 ! i) (?codes ! i) \<and> sect_count (disk_at s2 (motherlobe s2 ! i)) \<noteq> 0"
    if i: "i < 5" "motherlobe s2 ! i \<noteq> 0" for i
  proof -
    have f: "found drv s2 (motherlobe s2 ! i) (?codes ! i)"
      unfolding f2 using list_all2_nthD [OF as(1), of i] at [OF i(1)] at0 [OF i(1)] i(2) by simp
    then show ?thesis using cap by (auto simp: found_def split: option.splits)
  qed
  have dis: "motherlobe s2 ! i \<noteq> motherlobe s2 ! j" if "i < j" "j < 5" "motherlobe s2 ! i \<noteq> 0" for i j
  proof (cases "j < length ?ps")
    case True
    then show ?thesis using at [of i] at [of j] that(1,2) as(2) nth_eq_iff_index_eq [OF as(2), of i j] by simp
  qed (use at [of j] that in simp)
  from scan_all [OF s2'(1,2) ok dis, unfolded Let_def, folded scan_part_all_disks_def t]
  have sc: "motherlobe t = motherlobe s2" "media (dev t) = ?M" "\<And>p i. found drv s2 p i \<Longrightarrow> found drv t p i"
    "\<And>i. i < 5 \<Longrightarrow> motherlobe s2 ! i \<noteq> 0 \<Longrightarrow> partitioned (?M (chan (?codes ! i)) (slave (?codes ! i))) t (motherlobe s2 ! i)"
    by (simp_all add: s2'(4))
  have "list_all2 (\<lambda>p i. found drv t p i \<and> partitioned (?M (chan i) (slave i)) t p) ?ps ?codes"
  proof (rule list_all2_all_nthI [OF len])
    fix i assume i: "i < length ?ps"
    then have "i < 5" using l4 by simp
    then show "found drv t (?ps ! i) (?codes ! i) \<and> partitioned (?M (chan (?codes ! i)) (slave (?codes ! i))) t (?ps ! i)"
      using at [of i] at0 [of i] i ok [of i] sc(3) sc(4) [of i] by (simp only: if_True)
  qed
  moreover have "\<forall>i<5. motherlobe t ! i \<noteq> 0 \<longrightarrow> listed t (motherlobe t ! i)" using sc(1) partitioned_listed [OF sc(4)] by simp
  ultimately show ?thesis using as(2) sc(1,2) s2'(3) by (intro exI [of _ as]) simp
qed

end

section \<open>Properties\<close>

lemma print_interrupts [simp]: "interrupts (print cs s) = interrupts s"
  using print_ext [of cs s] by auto

lemma shown_interrupts: "shown s t \<Longrightarrow> shown s (print cs (enable_interrupts t))"
  by (simp add: shown_def same_heap_def enable_interrupts_def)

text \<open>C20: \<open>kernel_main\<close> from the boot image to the end, called with any boot drive that is there, on a machine none of whose drives
  reports a capacity of 0 sectors: it returns with the boot drive and then exactly the drives with the codes 0x81, 0x82 and 0x83
  that are there listed, each as it identifies itself, each with the partition list that the table in its own first sector
  describes, and with no sector of any disk changed.  With 0x80 as the boot drive that is every drive of the machine
  once; with one of the three codes it is listed twice, and the first
  master not at all.\<close>

theorem kernel_main_finds_partitions:
  fixes s :: "('d, 'z) kernel_state_scheme"
  assumes "ata_machine io dinv drv regs media phase pending"
    and "image_ok s" and "dinv (dev s)" and "\<And>c. phase (dev s) c = Idle"
    and "present drv (ucast boot)" and "\<And>c sl ws. drv c sl = Some ws \<Longrightarrow> capacity ws \<noteq> 0"
    and "\<not> in_range KHEAP_START (unat KHEAP_SIZE_BYTES) (disk1 s)" and "disk1 s \<noteq> 0" and "motherlobe s = replicate DISK_SUPPORT_MAX 0"
  shows "\<exists>s' as. kernel_main io sr0 sr20 sr21 isr_x boot root parts s = Some s' \<and> interrupts s' \<and>
    motherlobe s' = disk1 s # as @ replicate (4 - length as) 0 \<and> distinct (disk1 s # as) \<and>
    list_all2 (\<lambda>p i. found drv s' p i \<and> partitioned (media (dev s) (chan i) (slave i)) s' p)
      (disk1 s # as) (ucast boot # filter (present drv) [0x81, 0x82, 0x83]) \<and> media (dev s') = media (dev s)"
proof -
  define s0 where "s0 = kernel_setup io sr0 sr20 sr21 isr_x boot root parts s"
  note k = kernel_setup_ok [OF assms(2) s0_def]
  define s1 where "s1 = print (lit ''searching for disks....'' @ nl) s0"
  define s2 where "s2 = disk_search_and_init io s1"
  define s3 where "s3 = print (lit ''searching for partitions..'' @ nl) (disk_debug_print (print (lit ''printing info obtained'' @ nl @ nl) s2))"
  define t where "t = scan_part_all_disks io s3"
  note d = ata_machine.pit_calm [OF assms(1,3) k(6)]
  have r: "ata_machine.ready dinv phase (dev s1)" using d assms(4) by (simp add: ata_machine.ready_def [OF assms(1)] s1_def)
  have c1: "client s1 124" unfolding s1_def by (rule client_same_heap(1) [OF _ k(1)]) simp
  have f1: "disk1 s1 = disk1 s" "motherlobe s1 = motherlobe s" "ucast boot = (ucast (G_BOOT_DRIVE s1) :: u16)" "media (dev s1) = media (dev s)"
    using k(7-9) d by (simp_all add: s1_def)
  have sh: "shown s2 s3" using disk_debug_shown [of s2] by (simp add: s3_def)
  have "\<exists>as. motherlobe t = disk1 s1 # as @ replicate (4 - length as) 0 \<and> distinct (disk1 s1 # as) \<and>
    list_all2 (\<lambda>p i. found drv t p i \<and> partitioned (media (dev s1) (chan i) (slave i)) t p)
      (disk1 s1 # as) (ucast boot # filter (present drv) [0x81, 0x82, 0x83]) \<and> media (dev t) = media (dev s1) \<and>
    (\<forall>i<5. motherlobe t ! i \<noteq> 0 \<longrightarrow> listed t (motherlobe t ! i))"
    by (rule ata_machine.search_and_scan [OF assms(1) c1 r f1(3) assms(5) _ _ _ _ sh [unfolded s2_def] t_def], rule assms(6), assumption)
      (simp_all add: f1 assms(7-9))
  then obtain as where as: "motherlobe t = disk1 s # as @ replicate (4 - length as) 0" "distinct (disk1 s # as)"
    "list_all2 (\<lambda>p i. found drv t p i \<and> partitioned (media (dev s) (chan i) (slave i)) t p)
      (disk1 s # as) (ucast boot # filter (present drv) [0x81, 0x82, 0x83])" "media (dev t) = media (dev s)"
    and li: "\<And>i. i < 5 \<Longrightarrow> motherlobe t ! i \<noteq> 0 \<Longrightarrow> listed t (motherlobe t ! i)" unfolding f1 by blast
  obtain s5 where s5: "partition_debug t = Some s5" "shown t s5"
    using partition_debug_ends [of "[0..<5]" t] li unfolding partition_debug_def by auto
  define s' where "s' = print (lit ''interrupts enabled....'' @ nl) (enable_interrupts s5)"
  have "kernel_main io sr0 sr20 sr21 isr_x boot root parts s = Some s'"
    unfolding kernel_main_def Let_def s0_def [symmetric] s1_def [symmetric] s2_def [symmetric] s3_def [symmetric] t_def [symmetric] s5(1)
    by (simp add: s'_def)
  moreover have "interrupts s'" by (simp add: s'_def enable_interrupts_def)
  moreover have e: "shown t s'" unfolding s'_def by (rule shown_interrupts [OF s5(2)])
  moreover have "list_all2 (\<lambda>p i. found drv s' p i \<and> partitioned (media (dev s) (chan i) (slave i)) s' p)
      (disk1 s # as) (ucast boot # filter (present drv) [0x81, 0x82, 0x83])"
    unfolding partitioned_shown [OF e] found_shown [OF e] by (rule as(3))
  ultimately show ?thesis using as(1,2,4) by (intro exI [of _ s'] exI [of _ as]) (simp add: shown_def)
qed

text \<open>
  A machine with a master on the first and a slave on the second channel: the first disk has the partition table
  \<open>mbr_sector\<close>, the second one no table at all.
\<close>

definition demo_drives :: "bool \<Rightarrow> bool \<Rightarrow> u16 list option" where
  "demo_drives c sl = (if c = sl then Some ((replicate 256 0)[60 := if c then 500 else 1000]) else None)"

definition demo_board :: board where
  "demo_board = \<lparr>bd_regs = (\<lambda>_ _. 0),
     bd_media = (\<lambda>c _ _. if c then replicate 256 0 else words_at (put_bytes (\<lambda>_. 0) 0 mbr_sector) 0 256),
     bd_phase = (\<lambda>_. Idle), bd_busy = (\<lambda>_. 0)\<rparr>"

definition board_disks :: "board disk_state" where
  "board_disks = timer_state.extend (timer_state.truncate blank_state)
     (disk_state.fields demo_board (\<lambda>_. blank_disk) (part_at blank_state) (replicate DISK_SUPPORT_MAX 0) 0x204000 0x80)"

definition board_image :: "board kernel_state" where
  "board_image = disk_state.extend board_disks \<lparr>G_ROOT_DRIVE = 0, G_ROOT_PART = 0\<rparr>"

lemma board_image_fields:
  "dev board_image = demo_board" "disk1 board_image = 0x204000" "motherlobe board_image = replicate DISK_SUPPORT_MAX 0"
  "idt_table board_image = 0x200000" "idtr_descriptor board_image = 0x203000" "mem board_image = (\<lambda>_. 0)"
  by (simp_all add: board_image_def board_disks_def timer_state.defs disk_state.defs blank_state_def)

lemma board_image_ok: "image_ok board_image"
  unfolding image_ok_def idt_bytes_def heap_bytes_def board_image_fields
  by (auto simp: in_range_nat const_defs kheap_pages_def intro!: ranges_disjoint_nat)

lemma demo_board_inv: "board_inv demo_drives demo_board"
  by (rule board_invI) (auto simp: demo_board_def demo_drives_def const_defs split: if_splits)

lemma kernel_main_finds_partitions_witness:
  "\<exists>s' a b. kernel_main (board_io demo_drives) 0x100100 0x100200 0x100300 0x100400 0x80 0x80 1 board_image = Some s' \<and>
    motherlobe s' = [0x204000, a, 0, 0, 0] \<and> link_list (disk_at s' a) = 0 \<and>
    plist (part_at s') (link_list (disk_at s' 0x204000)) [b] \<and> entry (part_at s' b) = (1, FAT_16_LBA, 63, 500)"
proof -
  have cap: "capacity ((replicate 256 0)[60 := v]) = ucast v" for v by (simp add: capacity_def)
  have "demo_drives c sl = Some ws \<Longrightarrow> capacity ws \<noteq> 0" for c sl ws by (auto simp: demo_drives_def cap split: if_splits)
  note capacity = this
  have code: "ucast (0x80 :: byte) = (0x80 :: u16)" by simp
  have "\<exists>s' as. kernel_main (board_io demo_drives) 0x100100 0x100200 0x100300 0x100400 0x80 0x80 1 board_image = Some s' \<and> interrupts s' \<and>
    motherlobe s' = disk1 board_image # as @ replicate (4 - length as) 0 \<and> distinct (disk1 board_image # as) \<and>
    list_all2 (\<lambda>p i. found demo_drives s' p i \<and> partitioned (bd_media (dev board_image) (chan i) (slave i)) s' p)
      (disk1 board_image # as) (ucast (0x80 :: byte) # filter (present demo_drives) [0x81, 0x82, 0x83]) \<and> bd_media (dev s') = bd_media (dev board_image)"
    by (rule kernel_main_finds_partitions [OF board.ata_machine_axioms board_image_ok], unfold board_image_fields,
        rule demo_board_inv, simp add: demo_board_def, simp add: demo_drives_def present_def chan_def slave_def, rule capacity, assumption)
      (simp_all add: in_range_nat const_defs)
  then obtain s' as where k: "kernel_main (board_io demo_drives) 0x100100 0x100200 0x100300 0x100400 0x80 0x80 1 board_image = Some s'"
    "motherlobe s' = 0x204000 # as @ replicate (4 - length as) 0"
    "list_all2 (\<lambda>p i. found demo_drives s' p i \<and> partitioned (bd_media demo_board (chan i) (slave i)) s' p)
      (0x204000 # as) (0x80 # filter (present demo_drives) [0x81, 0x82, 0x83])"
    unfolding board_image_fields code by blast
  have "filter (present demo_drives) [0x81, 0x82, 0x83] = [0x83]" by (simp add: present_def demo_drives_def chan_def slave_def)
  with k(3) obtain a where a: "as = [a]" and l: "found demo_drives s' 0x204000 0x80" "found demo_drives s' a 0x83"
    "partitioned (bd_media demo_board (chan 0x80) (slave 0x80)) s' 0x204000" "partitioned (bd_media demo_board (chan 0x83) (slave 0x83)) s' a"
    by (auto simp: list_all2_Cons2)
  have "sect_count (disk_at s' 0x204000) = 1000" using l(1) by (auto simp: found_def demo_drives_def chan_def slave_def cap)
  moreover have "sector_bytes (bd_media demo_board False False 0) = mbr_sector"
    using bytes_at_put_bytes [of mbr_sector "\<lambda>_. 0" 0] by (simp add: demo_board_def sector_bytes_words_at mbr_sector_def)
  moreover have "chan 0x80 = False" "slave 0x80 = False" by (simp_all add: chan_def slave_def)
  ultimately obtain bs where bs: "plist (part_at s') (link_list (disk_at s' 0x204000)) bs"
    "map (entry \<circ> part_at s') bs = [(1, FAT_16_LBA, 63, 500)]"
    using l(3) mbr_sector_entries unfolding partitioned_def by (elim exE conjE) (simp add: that)
  have z: "sector_bytes (bd_media demo_board True True 0) = replicate 512 0"
    by (simp add: demo_board_def sector_bytes_def word_bytes_def numeral_eq_Suc)
  then have "disk_entries (sector_bytes (bd_media demo_board True True 0)) cap = []" for cap by (simp add: disk_entries_def)
  then have "link_list (disk_at s' a) = 0" using l(4) by (auto simp: partitioned_def chan_def slave_def)
  moreover obtain b where "bs = [b]" "entry (part_at s' b) = (1, FAT_16_LBA, 63, 500)" using bs(2) by auto
  ultimately show ?thesis using k(1,2) bs(1) a by (intro exI [of _ s'] exI [of _ a] exI [of _ b]) (simp add: numeral_eq_Suc)
qed

end
