(* ===== verification/Ctype.thy ===== *)
theory Ctype
  imports Prelude
begin

text \<open>
  The character classes of \<open>src/kernel/ctype/ctype.c\<close>.  A \<open>char\<close> of the i686 target is signed: a
  comparison \<open>65 <= c\<close> promotes the byte to \<open>int\<close>, which is \<open>sint c\<close>.  The results of type \<open>int\<close>
  are integers, those of type \<open>char\<close> are bytes.
\<close>

definition isalpha :: "byte \<Rightarrow> int" where
  "isalpha c = (if (65 \<le> sint c \<and> sint c \<le> 90) \<or> (97 \<le> sint c \<and> sint c \<le> 122) then 1 else 0)"

definition isdigit :: "byte \<Rightarrow> int" where
  "isdigit c = (if 48 \<le> sint c \<and> sint c \<le> 57 then 1 else 0)"

definition isalnum :: "byte \<Rightarrow> int" where
  "isalnum c = (if isalpha c \<noteq> 0 \<or> isdigit c \<noteq> 0 then 1 else 0)"

definition isspace :: "byte \<Rightarrow> int" where
  "isspace c = (if sint c = 32 \<or> (9 \<le> sint c \<and> sint c \<le> 13) then 1 else 0)"

text \<open>\<open>(char)(c & ~(0x20))\<close> and \<open>(char)(c | 0x20)\<close>: the operators work on the promoted \<open>int\<close>.\<close>

definition toupper :: "byte \<Rightarrow> byte" where
  "toupper c = (if 97 \<le> sint c \<and> sint c \<le> 122 then ucast ((scast c :: u32) AND NOT 0x20) else c)"

definition tolower :: "byte \<Rightarrow> byte" where
  "tolower c = (if 65 \<le> sint c \<and> sint c \<le> 90 then ucast ((scast c :: u32) OR 0x20) else c)"

definition isupper :: "byte \<Rightarrow> int" where
  "isupper c = (if 65 \<le> sint c \<and> sint c \<le> 90 then 1 else 0)"

definition islower :: "byte \<Rightarrow> int" where
  "islower c = (if 97 \<le> sint c \<and> sint c \<le> 122 then 1 else 0)"

definition char_to_int :: "byte \<Rightarrow> int" where
  "char_to_int c = sint c - 48"

lemmas ctype_defs = isalpha_def isdigit_def isalnum_def isspace_def toupper_def tolower_def
  isupper_def islower_def char_to_int_def

text \<open>
  The letters are two runs of 26 bytes: a fact about one letter is decided by running through them.
\<close>

lemma sint_run:
  assumes "int lo \<le> sint (c :: byte)" and "sint c \<le> int hi"
  shows "c \<in> of_nat ` set [lo..<Suc hi]"
proof
  have "c = word_of_int (sint c)" by simp
  also have "\<dots> = of_nat (nat (sint c))" using assms by (simp add: word_of_int_nat)
  finally show "c = of_nat (nat (sint c))" .
  show "nat (sint c) \<in> set [lo..<Suc hi]" using assms by auto
qed

lemma lower_case: "97 \<le> sint (c :: byte) \<and> sint c \<le> 122 \<Longrightarrow> c \<in> of_nat ` set [97..<123]"
  using sint_run [of 97 c 122] by simp

lemma upper_case: "65 \<le> sint (c :: byte) \<and> sint c \<le> 90 \<Longrightarrow> c \<in> of_nat ` set [65..<91]"
  using sint_run [of 65 c 90] by simp

lemma toupper_lower:
  assumes "islower c = 1"
  shows "isupper (toupper c) = 1 \<and> tolower (toupper c) = c \<and> toupper c = c - 32"
proof -
  from assms have "97 \<le> sint c \<and> sint c \<le> 122" by (simp add: islower_def split: if_splits)
  then have "c \<in> of_nat ` set [97..<123]" by (rule lower_case)
  then show ?thesis by (simp add: upt_rec ctype_defs) (elim disjE; simp)
qed

lemma tolower_upper:
  assumes "isupper c = 1"
  shows "islower (tolower c) = 1 \<and> toupper (tolower c) = c \<and> tolower c = c + 32"
proof -
  from assms have "65 \<le> sint c \<and> sint c \<le> 90" by (simp add: isupper_def split: if_splits)
  then have "c \<in> of_nat ` set [65..<91]" by (rule upper_case)
  then show ?thesis by (simp add: upt_rec ctype_defs) (elim disjE; simp)
qed

lemma toupper_other: "islower c = 0 \<Longrightarrow> toupper c = c"
  by (auto simp: islower_def toupper_def split: if_splits)

lemma tolower_other: "isupper c = 0 \<Longrightarrow> tolower c = c"
  by (auto simp: isupper_def tolower_def split: if_splits)

lemma isupper_bool: "isupper c = 0 \<or> isupper c = 1"
  by (simp add: isupper_def)

lemma islower_bool: "islower c = 0 \<or> islower c = 1"
  by (simp add: islower_def)

lemma isupper_not_islower: "isupper c = 1 \<Longrightarrow> islower c = 0"
  by (auto simp: isupper_def islower_def split: if_splits)

lemma toupper_tolower: "toupper (tolower c) = toupper c"
  using isupper_bool [of c] tolower_upper [of c] tolower_other [of c] isupper_not_islower [of c]
    toupper_other [of c] by auto

lemma tolower_toupper: "tolower (toupper c) = tolower c"
  using islower_bool [of c] toupper_lower [of c] toupper_other [of c] isupper_not_islower [of c]
    isupper_bool [of c] tolower_other [of c] by auto

lemma isalpha_split: "isalpha c = isupper c + islower c"
  by (auto simp: ctype_defs)

lemma isalnum_split: "isalnum c = isupper c + islower c + isdigit c"
  by (auto simp: ctype_defs)

lemma char_to_int_digit: "isdigit c = 1 \<longleftrightarrow> 0 \<le> char_to_int c \<and> char_to_int c \<le> 9"
  by (auto simp: ctype_defs)

end
