(* ===== verification/Archive.thy ===== *)
theory Archive
  imports Partitions Ctype
begin

text \<open>
  The retired file layer, \<open>src/kernel/file_syst/archive\<close>: \<open>virtual_file.c\<close>, \<open>path_parser.c\<close> and \<open>fat16.c\<close> with their
  headers.  The structs hold arrays of characters, so they lie in the flat memory, each member at its offset.  The
  addresses of local arrays and of the constant \<open>fat16_fops\<close> are arguments, and so is what a variable holds that is never
  assigned.  Loops without a bound are partial functions: \<open>None\<close> is a loop that never ends.
\<close>

section \<open>The structs and globals\<close>

definition PATH_MAX :: u32 where [const_defs]: "PATH_MAX = 64"
definition MAX_MOUNT :: nat where [const_defs]: "MAX_MOUNT = 32"
definition MAX_FILE_COUNT :: nat where [const_defs]: "MAX_FILE_COUNT = 128"
definition DATA_FILE :: u32 where [const_defs]: "DATA_FILE = 0"
definition SUB_DIR :: u32 where [const_defs]: "SUB_DIR = 1"
definition PERM_READ_AND_WRITE :: u32 where [const_defs]: "PERM_READ_AND_WRITE = 6"

text \<open>\<open>struct mount_point_ent\<close>, 76 bytes with the 64 bytes of \<open>path\<close>.\<close>

definition mp_root :: "addr \<Rightarrow> addr" where "mp_root p = p"
definition mp_path :: "addr \<Rightarrow> addr" where "mp_path p = p + 4"
definition mp_partition :: "addr \<Rightarrow> addr" where "mp_partition p = p + 68"
definition mp_disk :: "addr \<Rightarrow> addr" where "mp_disk p = p + 72"
definition sizeof_mount_point_ent :: u32 where [const_defs]: "sizeof_mount_point_ent = 76"

text \<open>\<open>struct file_desc\<close>, 92 bytes: three time stamps of 6 bytes behind the size, and 2 bytes of padding.\<close>

definition fd_type :: "addr \<Rightarrow> addr" where "fd_type p = p"
definition fd_name :: "addr \<Rightarrow> addr" where "fd_name p = p + 4"
definition fd_file_id :: "addr \<Rightarrow> addr" where "fd_file_id p = p + 36"
definition fd_size :: "addr \<Rightarrow> addr" where "fd_size p = p + 40"
definition fd_create :: "addr \<Rightarrow> addr" where "fd_create p = p + 44"
definition fd_update :: "addr \<Rightarrow> addr" where "fd_update p = p + 50"
definition fd_accessed :: "addr \<Rightarrow> addr" where "fd_accessed p = p + 56"
definition fd_fs_hook :: "addr \<Rightarrow> addr" where "fd_fs_hook p = p + 64"
definition fd_permissions :: "addr \<Rightarrow> addr" where "fd_permissions p = p + 68"
definition fd_ops :: "addr \<Rightarrow> addr" where "fd_ops p = p + 72"
definition fd_mnt_pnt :: "addr \<Rightarrow> addr" where "fd_mnt_pnt p = p + 76"
definition fd_parent :: "addr \<Rightarrow> addr" where "fd_parent p = p + 80"
definition fd_sibling :: "addr \<Rightarrow> addr" where "fd_sibling p = p + 88"
definition sizeof_file_desc :: u32 where [const_defs]: "sizeof_file_desc = 92"

text \<open>\<open>struct path_head\<close> (\<open>mnt_pnt\<close>, \<open>first\<close>) and \<open>struct path_body\<close> (\<open>path_content\<close>, \<open>next\<close>).\<close>

definition ph_mnt_pnt :: "addr \<Rightarrow> addr" where "ph_mnt_pnt p = p"
definition ph_first :: "addr \<Rightarrow> addr" where "ph_first p = p + 4"
definition pb_content :: "addr \<Rightarrow> addr" where "pb_content p = p"
definition pb_next :: "addr \<Rightarrow> addr" where "pb_next p = p + 4"
definition sizeof_path_head :: u32 where [const_defs]: "sizeof_path_head = 8"
definition sizeof_path_body :: u32 where [const_defs]: "sizeof_path_body = 8"

definition sizeof_fat_16_root_dir_ent :: u32 where [const_defs]: "sizeof_fat_16_root_dir_ent = 32"

record 'd archive_state = "'d disk_state" +
  mindflayer :: "addr list"
  open_file_table :: "addr list"
  big_brother :: addr

definition peek :: "addr \<Rightarrow> 'z machine_scheme \<Rightarrow> u32" where
  "peek a s = ld32 (mem s) a"

definition poke :: "addr \<Rightarrow> u32 \<Rightarrow> 'z machine_scheme \<Rightarrow> 'z machine_scheme" where
  "poke a v s = s\<lparr>mem := st32 (mem s) a v\<rparr>"

section \<open>The directory entries of FAT16\<close>

definition decode_datetime :: "addr \<Rightarrow> u16 \<Rightarrow> u16 \<Rightarrow> mem \<Rightarrow> mem" where
  "decode_datetime vfs date time m =
     (let m1 = st8 (st8 (st8 m vfs (ucast (date AND 0x1f))) (vfs + 1) (ucast (drop_bit 5 date AND 0x0f)))
            (vfs + 2) (ucast ((drop_bit 9 date AND 0x7f) + 1980))
      in if time = 0 then m1
         else st8 (st8 (st8 m1 (vfs + 3) (ucast ((time AND 0x1f) * 2))) (vfs + 4) (ucast (drop_bit 5 time AND 0x3f)))
                (vfs + 5) (ucast (drop_bit 11 time AND 0x1f)))"

text \<open>The packed \<open>struct fat_16_root_dir_ent\<close> at \<open>dr\<close> has its members at the offsets of the disk format.\<close>

definition fat16tovfs :: "addr \<Rightarrow> addr \<Rightarrow> addr \<Rightarrow> mem \<Rightarrow> mem" where
  "fat16tovfs fops fd dr m =
     (let m1 = strncpy (strncpy m (fd_name fd) dr 8) (fd_name fd + 8) (dr + 8) 3;
          m2 = st32 m1 (fd_permissions fd) PERM_READ_AND_WRITE;
          m3 = st32 m2 (fd_file_id fd) (ucast (ld16 m2 (dr + 26)));
          m4 = st32 m3 (fd_size fd) (ld32 m3 (dr + 28));
          m5 = decode_datetime (fd_create fd) (ld16 m4 (dr + 16)) (ld16 m4 (dr + 14)) m4;
          m6 = decode_datetime (fd_update fd) (ld16 m5 (dr + 24)) (ld16 m5 (dr + 22)) m5;
          m7 = decode_datetime (fd_accessed fd) (ld16 m6 (dr + 18)) 0 m6;
          m8 = st32 m7 (fd_type fd) (if m7 (dr + 11) AND 0x10 \<noteq> 0 then SUB_DIR else DATA_FILE)
      in st32 m8 (fd_ops fd) fops)"

definition fat16_open :: "addr \<Rightarrow> int" where "fat16_open f = 0"
definition fat16_close :: "addr \<Rightarrow> int" where "fat16_close f = 0"
definition fat16_read :: "addr \<Rightarrow> u32 \<Rightarrow> u32 \<Rightarrow> addr \<Rightarrow> int" where "fat16_read f offset len buffer = 0"
definition fat16_write :: "addr \<Rightarrow> u32 \<Rightarrow> u32 \<Rightarrow> addr \<Rightarrow> int" where "fat16_write f offset len buffer = 0"

text \<open>\<open>strncpy(p, "/\0", 2)\<close> stores the two bytes of the literal.\<close>

definition name_root :: "addr \<Rightarrow> 'z machine_scheme \<Rightarrow> 'z machine_scheme" where
  "name_root p s = s\<lparr>mem := put_bytes (mem s) p (lit ''/'' @ [0])\<rparr>"

definition get_root_fat16 :: "addr \<Rightarrow> addr \<Rightarrow> 'z cream_state_scheme \<Rightarrow> addr \<times> 'z cream_state_scheme" where
  "get_root_fat16 fops part s =
     (case heap_cream_malloc sizeof_file_desc s of (p, s1) \<Rightarrow>
        let s2 = poke (fd_file_id p) 0 (poke (fd_fs_hook p) 0 (poke (fd_type p) SUB_DIR s1));
            s3 = name_root (fd_name p) s2
        in (p, poke (fd_ops p) fops (poke (fd_mnt_pnt p) 0 (poke (fd_sibling p) 0 (poke (fd_parent p) 0 s3)))))"

fun name_cmp_from :: "mem \<Rightarrow> addr \<Rightarrow> addr \<Rightarrow> nat \<Rightarrow> nat \<Rightarrow> int option" where
  "name_cmp_from m file_name test_name i 0 = Some 1"
| "name_cmp_from m file_name test_name i (Suc n) =
     (case strlen m test_name of None \<Rightarrow> None
      | Some l \<Rightarrow>
          let k = (if of_nat i < l then toupper (m (test_name + of_nat i)) else 0x20)
          in if toupper (m (file_name + of_nat i)) \<noteq> k then Some 0 else name_cmp_from m file_name test_name (i + 1) n)"

definition fat16_file_name_cmp :: "mem \<Rightarrow> addr \<Rightarrow> addr \<Rightarrow> nat \<Rightarrow> int option" where
  "fat16_file_name_cmp m file_name test_name len = name_cmp_from m file_name test_name 0 len"

record child_locals =
  lc_res_sect :: addr
  lc_sect_per_fat :: addr
  lc_bytes_per_sect :: addr
  lc_rootentcount :: addr
  lc_fat_copies :: addr
  lc_root_child :: addr

text \<open>The loop over the root entries, with the comparisons of a signed \<open>char\<close>; the result is the descriptor of the child, if there is one and memory for it.\<close>

fun root_child_from ::
  "'d port_io \<Rightarrow> addr \<Rightarrow> addr \<Rightarrow> addr \<Rightarrow> u32 \<Rightarrow> addr \<Rightarrow> addr \<Rightarrow> nat \<Rightarrow> nat \<Rightarrow> ('d, 'z) disk_state_scheme \<Rightarrow>
    (addr \<times> ('d, 'z) disk_state_scheme) option" where
  "root_child_from io fops ds ent root_dir_sect nm extension i 0 s = Some (0, s)"
| "root_child_from io fops ds ent root_dir_sect nm extension i (Suc n) s =
     (let s1 = get_bytes_from_disk io ds 32 ent (disk_stream_seek ds (root_dir_sect + of_nat (i * 32)) s)
      in if sint (mem s1 ent) = 0x00 \<or> sint (mem s1 ent) = 0xe5 then root_child_from io fops ds ent root_dir_sect nm extension (i + 1) n s1
         else case fat16_file_name_cmp (mem s1) ent nm 8 of None \<Rightarrow> None
         | Some a \<Rightarrow>
             if a = 0 then root_child_from io fops ds ent root_dir_sect nm extension (i + 1) n s1
             else case fat16_file_name_cmp (mem s1) extension (ent + 8) 3 of None \<Rightarrow> None
             | Some b \<Rightarrow>
                 if b = 0 then root_child_from io fops ds ent root_dir_sect nm extension (i + 1) n s1
                 else case heap_cream_malloc sizeof_file_desc s1 of (child, s2) \<Rightarrow>
                   Some (child, if child = 0 then s2 else s2\<lparr>mem := fat16tovfs fops child ent (mem s2)\<rparr>))"

definition get_root_child ::
  "'d port_io \<Rightarrow> addr \<Rightarrow> child_locals \<Rightarrow> addr \<Rightarrow> addr \<Rightarrow> addr \<Rightarrow> ('d, 'z) disk_state_scheme \<Rightarrow>
    (addr \<times> ('d, 'z) disk_state_scheme) option" where
  "get_root_child io fops L part nm extension s =
     (case init_disk_stream (f_disk (part_at s part)) s of (ds, s0) \<Rightarrow>
        let p = part_at s0 part;
            offset = start_sect p * sect_size (disk_at s0 (f_disk p));
            field = (\<lambda>pos n a s. get_bytes_from_disk io ds n a (disk_stream_seek ds (offset + pos) s));
            s5 = field 0x16 2 (lc_sect_per_fat L) (field 0x11 2 (lc_rootentcount L) (field 0x10 1 (lc_fat_copies L)
                   (field 0x0e 2 (lc_res_sect L) (field 0x0b 2 (lc_bytes_per_sect L) s0))));
            m = mem s5;
            root_dir_sect = (ucast (ld16 m (lc_res_sect L)) + ucast (m (lc_fat_copies L)) * ucast (ld16 m (lc_sect_per_fat L)))
              * ucast (ld16 m (lc_bytes_per_sect L))
        in case heap_cream_malloc sizeof_fat_16_root_dir_ent s5 of (ent, s6) \<Rightarrow>
          if ent = 0 then Some (lc_root_child L, free_disk_stream ds s6)
          else case root_child_from io fops ds ent root_dir_sect nm extension 0 (unat (ld16 (mem s6) (lc_rootentcount L))) s6 of
            None \<Rightarrow> None
          | Some (child, s7) \<Rightarrow> Some (child, free_disk_stream ds (snd (heap_cream_free ent s7))))"

section \<open>Mount points\<close>

definition find_in_oft :: "addr \<Rightarrow> addr" where
  "find_in_oft path = 0"

definition oemi_scan :: "'d port_io \<Rightarrow> addr \<Rightarrow> addr \<Rightarrow> ('d, 'z) disk_state_scheme \<Rightarrow> bool \<times> ('d, 'z) disk_state_scheme" where
  "oemi_scan io oemi dexter s =
     (case init_disk_stream (f_disk (part_at s dexter)) s of (ds, s1) \<Rightarrow>
        let s2 = disk_stream_seek ds (start_sect (part_at s1 dexter) * sect_size (disk_at s1 (motherlobe s1 ! 0)) + 0x3) s1;
            s3 = s2\<lparr>mem := put_bytes (mem s2) oemi (replicate 9 0)\<rparr>;
            s4 = free_disk_stream ds (get_bytes_from_disk io ds 8 oemi s3)
        in (strncmp_lit (mem s4) oemi (lit ''GEN32 OS'') 8 = 0, s4))"

partial_function (option) native_loop ::
  "'d port_io \<Rightarrow> addr \<Rightarrow> addr \<Rightarrow> addr \<Rightarrow> ('d, 'z) disk_state_scheme \<Rightarrow> (addr \<times> ('d, 'z) disk_state_scheme) option" where
  "native_loop io oemi k rtn_val s =
     (if k = 0 then Some (rtn_val, s)
      else
        let p = part_at s k
        in if fs_type p \<in> {FAT_16_LBA, FAT_16_G32, FAT_16_L32} \<and> is_bootable p \<noteq> 0 then
             if rtn_val = 0 then native_loop io oemi (next_part p) k s
             else case oemi_scan io oemi rtn_val s of (found, s1) \<Rightarrow>
               if found then Some (rtn_val, s1) else native_loop io oemi (next_part (part_at s1 k)) k s1
           else native_loop io oemi (next_part p) rtn_val s)"

definition detect_native_part ::
  "'d port_io \<Rightarrow> addr \<Rightarrow> ('d, 'z) disk_state_scheme \<Rightarrow> (addr \<times> ('d, 'z) disk_state_scheme) option" where
  "detect_native_part io oemi s = native_loop io oemi (link_list (disk_at s (motherlobe s ! 0))) 0 s"

definition os_native_main_mount ::
  "'d port_io \<Rightarrow> addr \<Rightarrow> addr \<Rightarrow> ('d, 'z) disk_state_scheme \<Rightarrow> (addr \<times> ('d, 'z) disk_state_scheme) option" where
  "os_native_main_mount io fops oemi s =
     (case heap_cream_malloc sizeof_mount_point_ent s of (p, s1) \<Rightarrow>
        let s2 = name_root (mp_path p) s1;
            s3 = poke (mp_disk p) (motherlobe s2 ! 0) s2
        in case detect_native_part io oemi s3 of None \<Rightarrow> None
        | Some (part, s4) \<Rightarrow>
            (case get_root_fat16 fops part (poke (mp_partition p) part s4) of (root, s5) \<Rightarrow>
               Some (p, poke (mp_root p) root s5)))"

definition init_mindflayer ::
  "'d port_io \<Rightarrow> addr \<Rightarrow> addr \<Rightarrow> ('d, 'z) archive_state_scheme \<Rightarrow> ('d, 'z) archive_state_scheme option" where
  "init_mindflayer io fops oemi s =
     map_option (\<lambda>(p, s1). s1\<lparr>mindflayer := (mindflayer s1)[0 := p]\<rparr>)
       (os_native_main_mount io fops oemi (s\<lparr>mindflayer := replicate MAX_MOUNT 0\<rparr>))"

definition init_open_file_table :: "('d, 'z) archive_state_scheme \<Rightarrow> ('d, 'z) archive_state_scheme" where
  "init_open_file_table s = s\<lparr>open_file_table := replicate MAX_FILE_COUNT 0\<rparr>"

fun scan_mounts :: "mem \<Rightarrow> addr \<Rightarrow> addr list \<Rightarrow> addr option" where
  "scan_mounts m block [] = Some 0"
| "scan_mounts m block (e # es) =
     (if e = 0 then scan_mounts m block es
      else case strlen m (mp_path e) of None \<Rightarrow> None
      | Some a \<Rightarrow>
          (case strlen m block of None \<Rightarrow> None
           | Some b \<Rightarrow> if a = b \<and> strncmp m (mp_path e) block b = 0 then Some e else scan_mounts m block es))"

definition single_scan :: "addr \<Rightarrow> ('d, 'z) archive_state_scheme \<Rightarrow> addr option" where
  "single_scan block s = scan_mounts (mem s) block (mindflayer s)"

text \<open>The last slash at or before index \<open>i\<close>, and the loop that cuts a path there until a mount point has it.\<close>

partial_function (option) slash_before :: "mem \<Rightarrow> addr \<Rightarrow> int \<Rightarrow> int option" where
  "slash_before m p i = (if m (p + of_int i) = of_char (CHR ''/'') then Some i else slash_before m p (i - 1))"

partial_function (option) mount_loop ::
  "addr \<Rightarrow> ('d, 'z) archive_state_scheme \<Rightarrow> (addr \<times> ('d, 'z) archive_state_scheme) option" where
  "mount_loop use_path s =
     (if mem s use_path = 0 then Some (0, s)
      else case single_scan use_path s of None \<Rightarrow> None
      | Some r \<Rightarrow>
          if r \<noteq> 0 then Some (r, s)
          else case strlen (mem s) use_path of None \<Rightarrow> None
          | Some n \<Rightarrow>
              (case slash_before (mem s) use_path (sint (n - 1)) of None \<Rightarrow> None
               | Some i \<Rightarrow> mount_loop use_path (s\<lparr>mem := st8 (mem s) (use_path + of_int i) 0\<rparr>)))"

definition get_mount_point ::
  "addr \<Rightarrow> ('d, 'z) archive_state_scheme \<Rightarrow> (addr \<times> ('d, 'z) archive_state_scheme) option" where
  "get_mount_point path s =
     (if strncmp_lit (mem s) path (lit ''/'') 2 = 0 then Some (mindflayer s ! 0, s)
      else if mem s path \<noteq> of_char (CHR ''/'') then Some (0, s)
      else case heap_cream_malloc PATH_MAX s of (use_path, s1) \<Rightarrow>
        if use_path = 0 then Some (0, s1)
        else case strlen (mem s1) path of None \<Rightarrow> None
        | Some n \<Rightarrow>
            if PATH_MAX < n + 1 then Some (0, snd (heap_cream_free use_path s1))
            else case mount_loop use_path (s1\<lparr>mem := st8 (strncpy (mem s1) use_path path n) (use_path + n) 0\<rparr>) of
              None \<Rightarrow> None
            | Some (r, s2) \<Rightarrow> Some (r, snd (heap_cream_free use_path s2)))"

section \<open>Paths as lists\<close>

definition gen_str :: "addr \<Rightarrow> int \<Rightarrow> int \<Rightarrow> 'z cream_state_scheme \<Rightarrow> addr \<times> 'z cream_state_scheme" where
  "gen_str target start end' s =
     (if end' < start then (0, s)
      else
        let sz = of_int (end' - start + 1) :: u32
        in case heap_cream_malloc sz s of (str, s1) \<Rightarrow>
          (str, s1\<lparr>mem := st8 (fold (\<lambda>i m. st8 m (str + of_nat i) (m (target + of_int (start + int i)))) [0..<unat sz - 1] (mem s1))
                   (str + (sz - 1)) 0\<rparr>))"

partial_function (option) component_end :: "mem \<Rightarrow> addr \<Rightarrow> int \<Rightarrow> int option" where
  "component_end m target j =
     (if m (target + of_int j) \<noteq> of_char (CHR ''/'') \<and> m (target + of_int j) \<noteq> 0 then component_end m target (j + 1)
      else Some j)"

text \<open>The test at the end of the loop body.\<close>

definition drop_empty :: "addr \<Rightarrow> 'z cream_state_scheme \<Rightarrow> 'z cream_state_scheme" where
  "drop_empty hd1 s =
     (let body = peek (ph_first hd1) s
      in if peek (pb_content body) s = 0 then poke (ph_first hd1) 0 (snd (heap_cream_free body s)) else s)"

partial_function (option) path_loop :: "addr \<Rightarrow> addr \<Rightarrow> int \<Rightarrow> addr \<Rightarrow> 'z cream_state_scheme \<Rightarrow> 'z cream_state_scheme option" where
  "path_loop target hd1 i cur s =
     (if mem s (target + of_int i) = 0 then Some s
      else if mem s (target + of_int i) \<noteq> of_char (CHR ''/'') then path_loop target hd1 (i + 1) cur (drop_empty hd1 s)
      else case component_end (mem s) target (i + 1) of None \<Rightarrow> None
      | Some j \<Rightarrow>
          if i = j - 1 \<or> i + 1 = j - 1 then path_loop target hd1 j cur s
          else case gen_str target (i + 1) (j - 1) s of (temp, s1) \<Rightarrow>
            let s2 = (if temp \<noteq> 0 then poke (pb_content cur) temp s1 else s1)
            in if mem s2 (target + of_int j) \<noteq> 0 then
                 case heap_cream_malloc sizeof_path_body s2 of (nex, s3) \<Rightarrow>
                   path_loop target hd1 j nex (drop_empty hd1 (poke (pb_next cur) nex s3))
               else path_loop target hd1 j cur (drop_empty hd1 (poke (pb_next cur) 0 s2)))"

definition path_llist_gen ::
  "addr \<Rightarrow> ('d, 'z) archive_state_scheme \<Rightarrow> (addr \<times> ('d, 'z) archive_state_scheme) option" where
  "path_llist_gen target s =
     (if mem s target \<noteq> of_char (CHR ''/'') then Some (0, s)
      else case get_mount_point target s of None \<Rightarrow> None
      | Some (goku, s1) \<Rightarrow>
          if goku = 0 then Some (0, s1)
          else case heap_cream_malloc sizeof_path_head s1 of (hd1, s2) \<Rightarrow>
            let s3 = poke (ph_mnt_pnt hd1) goku s2
            in if mem s3 (target + 1) = 0 then Some (hd1, poke (ph_first hd1) 0 s3)
               else case heap_cream_malloc sizeof_path_body s3 of (pb, s4) \<Rightarrow>
                 map_option (\<lambda>s5. (hd1, s5)) (path_loop target hd1 0 pb (poke (pb_next pb) 0 (poke (ph_first hd1) pb s4))))"

partial_function (option) path_body_free :: "addr \<Rightarrow> 'z cream_state_scheme \<Rightarrow> 'z cream_state_scheme option" where
  "path_body_free cur s =
     (if cur = 0 then Some s
      else path_body_free (peek (pb_next cur) s)
        (snd (heap_cream_free cur (snd (heap_cream_free (peek (pb_content cur) s) s)))))"

definition path_llist_free :: "addr \<Rightarrow> 'z cream_state_scheme \<Rightarrow> 'z cream_state_scheme option" where
  "path_llist_free hd1 s =
     map_option (\<lambda>s1. snd (heap_cream_free hd1 s1))
       (if peek (ph_first hd1) s \<noteq> 0 then path_body_free (peek (ph_first hd1) s) s else Some s)"

definition path_get_first :: "addr \<Rightarrow> 'z machine_scheme \<Rightarrow> addr" where
  "path_get_first hd1 s = peek (ph_first hd1) s"

definition path_get_next :: "addr \<Rightarrow> 'z machine_scheme \<Rightarrow> addr" where
  "path_get_next body s = peek (pb_next body) s"

text \<open>
  The array \<open>j\<close> of \<open>vfs_open\<close> is a local; the result is what the caller finds after a function without \<open>return\<close>, unless
  the file is open.
\<close>

definition vfs_open ::
  "addr \<Rightarrow> addr \<Rightarrow> addr \<Rightarrow> addr \<Rightarrow> ('d, 'z) archive_state_scheme \<Rightarrow> (addr \<times> ('d, 'z) archive_state_scheme) option" where
  "vfs_open j junk cur_dir path s =
     (case (strlen (mem s) cur_dir, strlen (mem s) path) of
        (Some lc, Some lp) \<Rightarrow>
          (let full = (strncmp (mem s) cur_dir path lc = 0);
               s1 = (if full then s
                     else s\<lparr>mem := st8 (strncpy (strncpy (mem s) j cur_dir lc) (j + lc) path lp) (j + (lc + lp + 1)) 0\<rparr>);
               pass_val = (if full then path else j)
           in if find_in_oft path \<noteq> 0 then Some (find_in_oft path, s1)
              else case path_llist_gen pass_val s1 of None \<Rightarrow> None
              | Some (snake, s2) \<Rightarrow>
                  Some (junk, s2\<lparr>big_brother := peek (fd_ops (peek (mp_root (peek (ph_mnt_pnt snake) s2)) s2)) s2\<rparr>))
      | _ \<Rightarrow> None)"

section \<open>Cutting a path\<close>

lemma cstr_bytes: "cstr m p u \<longleftrightarrow> length u < 2 ^ 32 \<and> 0 \<notin> set u \<and> (\<forall>i < length u. m (p + of_nat i) = u ! i) \<and> m (p + of_nat (length u)) = 0"
proof -
  have "bytes_at m p (Suc (length u)) = u @ [0] \<longleftrightarrow> (\<forall>i < Suc (length u). m (p + of_nat i) = (u @ [0]) ! i)"
    by (simp only: list_eq_iff_nth_eq length_bytes_at) (auto simp del: bytes_at_Suc)
  also have "\<dots> \<longleftrightarrow> (\<forall>i < length u. m (p + of_nat i) = u ! i) \<and> m (p + of_nat (length u)) = 0"
    by (auto simp: nth_append less_Suc_eq)
  finally show ?thesis by (auto simp: cstr_def)
qed

lemma cstr_cut:
  assumes "cstr m p u" and "i \<le> length u"
  shows "cstr (st8 m (p + of_nat i) 0) p (take i u)"
proof -
  have n: "length u < 2 ^ 32" using assms(1) by (simp add: cstr_def)
  then have "p + of_nat j \<noteq> p + of_nat i" if "j < i" for j
    using that assms(2) by (simp add: of_nat_eq_iff32)
  then show ?thesis using assms n by (auto simp: cstr_bytes st8_apply dest: in_set_takeD)
qed

lemma slash_before_ex:
  assumes "cstr m p u" and "u ! 0 = of_char (CHR ''/'')" and "k < length u"
  shows "\<exists>i\<le>k. slash_before m p (int k) = Some (int i) \<and> u ! i = of_char (CHR ''/'')"
  using assms(3)
proof (induction k)
  case 0
  then show ?case using assms cstr_nth [OF assms(1), of 0] by (simp add: slash_before.simps)
next
  case (Suc k)
  have m: "m (p + of_nat (Suc k)) = u ! Suc k" using cstr_nth [OF assms(1) Suc.prems] by simp
  show ?case
  proof (cases "u ! Suc k = of_char (CHR ''/'')")
    case True
    then show ?thesis using m by (intro exI [of _ "Suc k"]) (simp add: slash_before.simps [of m p])
  next
    case False
    then have "slash_before m p (int (Suc k)) = slash_before m p (int k)" using m by (subst slash_before.simps) simp
    then show ?thesis using Suc.IH Suc.prems le_SucI by (metis Suc_lessD)
  qed
qed

text \<open>With nothing mounted but \<open>/\<close>, no prefix of a path that begins with a name is a mount point.\<close>

definition only_root :: "('d, 'z) archive_state_scheme \<Rightarrow> addr \<Rightarrow> bool" where
  "only_root s mp \<longleftrightarrow> mp \<noteq> 0 \<and> mindflayer s = mp # replicate 31 0 \<and> cstr (mem s) (mp_path mp) (lit ''/'')"

lemma scan_mounts_0: "scan_mounts m block (replicate n 0) = Some 0"
  by (induction n) simp_all

lemma single_scan_none:
  assumes "only_root s mp" and "cstr (mem s) p u" and "2 \<le> length u"
  shows "single_scan p s = Some 0"
proof -
  have "strlen (mem s) (mp_path mp) = Some 1" using assms(1) strlen_cstr [of "mem s" "mp_path mp" "lit ''/''"] by (simp add: only_root_def lit_def)
  moreover have "strlen (mem s) p = Some (of_nat (length u))" by (rule strlen_cstr [OF assms(2)])
  moreover have "(1 :: u32) \<noteq> of_nat (length u)"
    using assms(2,3) of_nat_eq_iff32 [of 1 "length u"] by (auto simp: cstr_def)
  ultimately show ?thesis using assms(1) by (simp add: single_scan_def only_root_def scan_mounts_0)
qed

lemma mount_loop_none:
  assumes "only_root s mp" and "cstr (mem s) p u" and "u = [] \<or> (\<exists>c v. u = of_char (CHR ''/'') # c # v \<and> c \<noteq> of_char (CHR ''/''))"
    and "ranges_disjoint p n (mp_path mp) 2" and "length u < n" and "n \<le> 2 ^ 31"
  shows "\<exists>m. mount_loop p s = Some (0, s\<lparr>mem := m\<rparr>) \<and> (\<forall>x. \<not> in_range p n x \<longrightarrow> m x = mem s x)"
  using assms(1-3,5)
proof (induction "length u" arbitrary: s u rule: less_induct)
  case less
  show ?case
  proof (cases u)
    case Nil
    then show ?thesis using less.prems(2) by (intro exI [of _ "mem s"]) (simp add: mount_loop.simps)
  next
    case (Cons a w)
    then obtain c v where u: "u = of_char (CHR ''/'') # c # v" "c \<noteq> of_char (CHR ''/'')" using less.prems(3) by auto
    have l: "length u < 2 ^ 31" using less.prems(4) assms(6) by simp
    have sl: "sint (of_nat (length u) - 1 :: u32) = int (length u - 1)"
    proof -
      have e: "of_nat (length u) - 1 = (of_nat (length u - 1) :: u32)" using u(1) by simp
      have "unat (of_nat (length u - 1) :: u32) = length u - 1" by (rule unat_of_nat32) (use l in simp)
      then show ?thesis unfolding e using sint_nat [of "of_nat (length u - 1)"] l by simp
    qed
    obtain i where i: "i \<le> length u - 1" "slash_before (mem s) p (int (length u - 1)) = Some (int i)" "u ! i = of_char (CHR ''/'')"
      using slash_before_ex [OF less.prems(2), of "length u - 1"] u by auto
    define s1 where "s1 = s\<lparr>mem := st8 (mem s) (p + of_nat i) 0\<rparr>"
    have len: "i < length u" using i(1) u(1) by simp
    have cut: "cstr (mem s1) p (take i u)" unfolding s1_def using cstr_cut [OF less.prems(2)] len by simp
    have "i \<noteq> 1" using i(3) u by auto
    then have shape: "take i u = [] \<or> (\<exists>c v. take i u = of_char (CHR ''/'') # c # v \<and> c \<noteq> of_char (CHR ''/''))"
      using u by (cases i; cases "i - 1") auto
    have out: "\<not> in_range (mp_path mp) 2 (p + of_nat i)"
    proof -
      have "in_range p n (p + of_nat i)" using len less.prems(4) assms(6) by (simp add: in_range_def unat_of_nat32)
      then show ?thesis using assms(4) by (auto simp: ranges_disjoint_def)
    qed
    have root: "only_root s1 mp"
      using less.prems(1) out by (auto simp: only_root_def s1_def lit_def numeral_2_eq_2 intro!: cstr_st8)
    obtain m where m: "mount_loop p s1 = Some (0, s1\<lparr>mem := m\<rparr>)" "\<forall>x. \<not> in_range p n x \<longrightarrow> m x = mem s1 x"
      using less.hyps [OF _ root cut shape] len less.prems(4) by auto
    have "mem s p \<noteq> 0" using cstr_nth [OF less.prems(2), of 0] u(1) by simp
    then have "mount_loop p s = mount_loop p s1"
      using single_scan_none [OF less.prems(1,2)] strlen_cstr [OF less.prems(2)] i(2) sl u(1)
      by (subst mount_loop.simps) (simp add: s1_def)
    moreover have "in_range p n (p + of_nat i)" using len less.prems(4) assms(6) by (simp add: in_range_def unat_of_nat32)
    then have "mem s1 x = mem s x" if "\<not> in_range p n x" for x using that by (auto simp: s1_def st8_apply)
    ultimately show ?thesis using m by (intro exI [of _ m]) (simp add: s1_def)
  qed
qed

section \<open>Terminated copies\<close>

lemma cstr_put_bytes: "length u < 2 ^ 32 - 1 \<Longrightarrow> 0 \<notin> set u \<Longrightarrow> cstr (put_bytes m p (u @ [0])) p u"
  using bytes_at_put_bytes [of "u @ [0]" m p] by (simp add: cstr_def)

lemma put_bytes_outside: "\<not> in_range a n x \<Longrightarrow> length bs \<le> n \<Longrightarrow> put_bytes m a bs x = m x"
  by (rule put_bytes_out) (auto dest: in_range_mono)

lemma put_bytes_end: "length bs < 2 ^ 32 \<Longrightarrow> st8 (put_bytes m a bs) (a + of_nat (length bs)) 0 = put_bytes m a (bs @ [0])"
  using put_bytes_append [of bs "[0]" m a] by (simp add: put_bytes_Cons)

text \<open>The copy of a path that \<open>get_mount_point\<close> cuts.\<close>

lemma path_copied:
  assumes path: "cstr m path u" and len: "length u < 64" and apart: "ranges_disjoint a 64 path (Suc (length u))"
  shows "st8 (strncpy m a path (of_nat (length u))) (a + of_nat (length u)) 0 = put_bytes m a (u @ [0])"
    and "cstr (put_bytes m a (u @ [0])) a u" and "\<And>x. \<not> in_range a 64 x \<Longrightarrow> put_bytes m a (u @ [0]) x = m x"
proof -
  have n: "unat (of_nat (length u) :: u32) = length u" by (rule unat_of_nat32) (use len in simp)
  have "ranges_disjoint a (unat (of_nat (length u) :: u32)) path (Suc (length u))"
    unfolding n by (rule ranges_disjoint_mono [OF apart]) (use len in auto)
  from strncpy_fits [OF path _ this, unfolded n] have "strncpy m a path (of_nat (length u)) = put_bytes m a u" by simp
  then show "st8 (strncpy m a path (of_nat (length u))) (a + of_nat (length u)) 0 = put_bytes m a (u @ [0])"
    using put_bytes_end [of u m a] len by simp
  show "cstr (put_bytes m a (u @ [0])) a u" by (rule cstr_put_bytes) (use len path in \<open>auto simp: cstr_def\<close>)
  show "put_bytes m a (u @ [0]) x = m x" if "\<not> in_range a 64 x" for x by (rule put_bytes_outside [OF that]) (use len in simp)
qed

section \<open>Properties\<close>

text \<open>With only the native root \<open>/\<close> mounted the search finds a mount point for \<open>/\<close> itself and for no other path: the
  last cut of a path leaves the empty string, not \<open>/\<close>.\<close>

theorem get_mount_point_misses_root:
  fixes s :: "('d, 'z) archive_state_scheme"
  assumes "client s (Suc k)" and "only_root s mp" and "(mp, N) \<in> cream_objects s" and "76 \<le> N"
    and "cstr (mem s) path (of_char (CHR ''/'') # c # v)" and "c \<noteq> of_char (CHR ''/'')" and "length v < 62"
    and "(obj, M) \<in> cream_objects s" and "\<And>x. in_range path (length v + 3) x \<Longrightarrow> in_range obj M x"
  shows "\<exists>s'. get_mount_point path s = Some (0, s') \<and> client s' k \<and> mindflayer s' = mindflayer s"
proof -
  let ?u = "of_char (CHR ''/'') # c # v"
  obtain a s1 where al: "heap_cream_malloc PATH_MAX s = (a, s1)" by fastforce
  obtain n where a: "a \<noteq> 0" "client s1 k" "heap_step s s1" "64 \<le> n" "cream_objects s1 = insert (a, n) (cream_objects s)"
    and dis: "\<And>b l. (b, l) \<in> cream_objects s \<Longrightarrow> ranges_disjoint a n b l"
    and keep: "\<And>b l x. (b, l) \<in> cream_objects s \<Longrightarrow> in_range b l x \<Longrightarrow> mem s1 x = mem s x"
    by (rule client_malloc [OF assms(1) _ _ al]) (auto simp: const_defs)
  have mf: "mindflayer s1 = mindflayer s" using a(3) by (auto simp: heap_step_def)
  have len: "length ?u < 64" "length ?u < 2 ^ 32" using assms(7) by simp_all
  have in_obj: "in_range obj M (path + of_nat i)" if "i < length v + 3" for i
    by (rule assms(9)) (use that assms(7) in \<open>simp add: in_range_def unat_of_nat32\<close>)
  have path: "cstr (mem s1) path ?u"
    unfolding cstr_bytes using assms(5) keep [OF assms(8) in_obj] keep [OF assms(8) in_obj [of "length ?u"]] by (auto simp: cstr_bytes)
  have sep: "ranges_disjoint a n obj M" "ranges_disjoint a n mp N" using dis assms(3,8) by blast+
  then have apart: "ranges_disjoint a 64 path (length v + 3)" "ranges_disjoint a 64 (mp_path mp) 2"
  proof -
    have "in_range obj M x" if "in_range path (length v + 3) x" for x using assms(9) that .
    moreover have "in_range mp N x" if "in_range (mp_path mp) 2 x" for x
      using in_range_mono [of mp 76 x N] in_range_sub [of 4 2 76 mp x] that assms(4) by (simp add: mp_path_def)
    ultimately show "ranges_disjoint a 64 path (length v + 3)" "ranges_disjoint a 64 (mp_path mp) 2"
      using sep a(4) unfolding ranges_disjoint_def by (meson in_range_mono)+
  qed
  have "ranges_disjoint a 64 path (Suc (length ?u))" using apart(1) by (simp add: eval_nat_numeral)
  note copy = path_copied [OF path len(1) this]
  define m0 where "m0 = st8 (strncpy (mem s1) a path (of_nat (length ?u))) (a + of_nat (length ?u)) 0"
  have u0: "cstr m0 a ?u" and m0: "\<And>x. \<not> in_range a 64 x \<Longrightarrow> m0 x = mem s1 x" unfolding m0_def copy(1) by (rule copy(2,3))+
  have root: "only_root (s1\<lparr>mem := m0\<rparr>) mp"
  proof -
    have "\<not> in_range a 64 (mp_path mp)" "\<not> in_range a 64 (mp_path mp + 1)"
      using ranges_disjointD [OF apart(2), of 0] ranges_disjointD [OF apart(2), of 1] by auto
    moreover have "in_range mp N (mp_path mp)" "in_range mp N (mp_path mp + 1)"
      using assms(4) by (simp_all add: in_range_def mp_path_def)
    ultimately show ?thesis using assms(2) keep [OF assms(3)] m0 by (auto simp: only_root_def mf lit_def cstr_Cons)
  qed
  obtain m where m: "mount_loop a (s1\<lparr>mem := m0\<rparr>) = Some (0, s1\<lparr>mem := m\<rparr>)" "\<forall>x. \<not> in_range a 64 x \<longrightarrow> m x = m0 x"
    using mount_loop_none [OF root _ _ apart(2), of ?u] u0 assms(6) len by auto
  have cl: "client (s1\<lparr>mem := m\<rparr>) k" "cream_objects (s1\<lparr>mem := m\<rparr>) = cream_objects s1"
    by (rule client_store [OF a(2), of a n]; use a(4,5) m(2) m0 in_range_mono [of a 64 _ n] in auto)+
  define s' where "s' = snd (heap_cream_free a (s1\<lparr>mem := m\<rparr>))"
  note f = client_free [OF cl(1) _ s'_def, of n]
  have "client s' k" "mindflayer s' = mindflayer s" using f(1,2) a(5) mf by (auto simp: cl(2) heap_step_def)
  moreover have "get_mount_point path s = Some (0, s')"
  proof -
    have p: "mem s path = of_char (CHR ''/'')" "mem s (path + 1) = c" "c \<noteq> 0" using assms(5) by (simp_all add: cstr_Cons)
    then have "strncmp_lit (mem s) path (lit ''/'') (Suc (Suc 0)) \<noteq> 0" by (simp add: lit_def uint_0_iff)
    then have "strncmp_lit (mem s) path (lit ''/'') 2 \<noteq> 0" by (simp only: numeral_2_eq_2) simp
    moreover have "\<not> PATH_MAX < of_nat (length ?u) + 1"
    proof -
      have "of_nat (length ?u) + 1 = (of_nat (length v + 3) :: u32)" by simp
      moreover have "unat (of_nat (length v + 3) :: u32) = length v + 3" by (rule unat_of_nat32) (use assms(7) in simp)
      ultimately show ?thesis using assms(7) by (simp only: word_less_nat_alt) (simp add: PATH_MAX_def)
    qed
    ultimately show ?thesis
      using p(1) a(1) strlen_cstr [OF path] m(1) by (simp add: get_mount_point_def al m0_def s'_def del: of_nat_Suc list.size)
  qed
  ultimately show ?thesis by blast
qed

text \<open>A machine after the set-up of the two heaps.\<close>

definition archive_blank :: "channel archive_state" where
  "archive_blank = disk_state.extend blank_state (archive_state.fields (replicate MAX_MOUNT 0) (replicate MAX_FILE_COUNT 0) 0)"

definition archive_booted :: "channel archive_state" where
  "archive_booted = help_me_mary_mother_of_god (kheap_init archive_blank)"

lemma archive_client: "client archive_booted 124" "cream_objects archive_booted = {}"
  by (rule boot_client [OF _ archive_booted_def]; simp add: archive_blank_def disk_state.defs archive_state.defs blank_state_def)+

lemma cstr_put_bytes_other:
  "cstr m p u \<Longrightarrow> ranges_disjoint q (length bs) p (Suc (length u)) \<Longrightarrow> cstr (put_bytes m q bs) p u"
  by (simp add: cstr_def bytes_at_put_bytes_other)

lemma get_mount_point_misses_root_witness:
  "\<exists>(s :: channel archive_state) mp path s'. only_root s mp \<and> cstr (mem s) path (lit ''/ab'') \<and> get_mount_point path s = Some (0, s')"
proof -
  obtain mp s1 where m1: "heap_cream_malloc 76 archive_booted = (mp, s1)" by fastforce
  have "client archive_booted (Suc 123)" using archive_client by simp
  then obtain N where a: "mp \<noteq> 0" "client s1 123" "76 \<le> N" "cream_objects s1 = {(mp, N)}"
    by (rule client_malloc [OF _ _ _ m1]) (use archive_client in \<open>auto simp: const_defs\<close>)
  obtain path s2 where m2: "heap_cream_malloc 64 s1 = (path, s2)" by fastforce
  have "client s1 (Suc 122)" using a(2) by simp
  then obtain M where b: "client s2 122" "64 \<le> M" "cream_objects s2 = {(path, M), (mp, N)}" and dis: "ranges_disjoint path M mp N"
    by (rule client_malloc [OF _ _ _ m2]) (use a(4) in \<open>auto simp: const_defs\<close>)
  define s where "s = s2\<lparr>mem := put_bytes (put_bytes (mem s2) (mp_path mp) (lit ''/'' @ [0])) path (lit ''/ab'' @ [0]), mindflayer := mp # replicate 31 0\<rparr>"
  have inp: "in_range mp N x" if "in_range (mp_path mp) 2 x" for x
    using in_range_mono [of mp 76 x N] in_range_sub [of 4 2 76 mp x] that a(3) by (simp add: mp_path_def)
  have path: "in_range path M x" if "in_range path 4 x" for x using in_range_mono [OF that] b(2) by simp
  have "client s 122" "cream_objects s = cream_objects s2"
  proof -
    have "\<exists>(o1, n) \<in> cream_objects s2. in_range o1 n x" if "mem s x \<noteq> mem s2 x" for x
    proof (rule ccontr)
      assume "\<not> ?thesis"
      then have "\<not> in_range path 4 x" "\<not> in_range (mp_path mp) 2 x" using inp path b(3) by auto
      then have "mem s x = mem s2 x" by (simp add: s_def lit_def put_bytes_outside)
      with that show False by simp
    qed
    then show "client s 122" "cream_objects s = cream_objects s2"
      by (rule client_stores [OF b(1)]; simp add: s_def)+
  qed
  moreover have rd: "ranges_disjoint path 4 (mp_path mp) 2" using dis inp path unfolding ranges_disjoint_def by blast
  have "only_root s mp"
    using a(1) by (auto simp: only_root_def s_def lit_def intro!: cstr_put_bytes_other cstr_put_bytes [of "[47]", simplified] ranges_disjoint_mono [OF rd])
  moreover have str: "cstr (mem s) path (lit ''/ab'')" by (auto simp: s_def lit_def intro!: cstr_put_bytes [of "[47, 97, 98]", simplified])
  ultimately obtain s' where "get_mount_point path s = Some (0, s')"
    using get_mount_point_misses_root [of s 121 mp N path 97 "[98]" path M] a(3) b(3) path by (auto simp: lit_def)
  then show ?thesis using \<open>only_root s mp\<close> str by blast
qed

text \<open>The string made of a path component misses its last character: the size that is to count the
  terminator is the number of the characters.\<close>

theorem gen_str_drops_last:
  assumes "client s (Suc k)" and "(obj, M) \<in> cream_objects s"
    and "\<And>x. in_range (target + of_int start) (length w) x \<Longrightarrow> in_range obj M x"
    and "bytes_at (mem s) (target + of_int start) (length w) = w" and "w \<noteq> []" and "length w \<le> 3968"
    and "end' = start + int (length w) - 1"
  shows "\<exists>str s'. gen_str target start end' s = (str, s') \<and> str \<noteq> 0 \<and> client s' k \<and>
    bytes_at (mem s') str (length w) = butlast w @ [0]"
proof -
  let ?n = "of_nat (length w) :: u32" and ?src = "target + of_int start"
  have n: "unat ?n = length w" by (rule unat_of_nat32) (use assms(6) in simp)
  have pos: "0 < length w" using assms(5) by simp
  obtain a s1 where al: "heap_cream_malloc ?n s = (a, s1)" by fastforce
  have "?n \<noteq> 0" using n pos by (metis unat_0 less_numeral_extra(3))
  moreover have "?n \<le> TOTAL_BYTES_AVAIL" using assms(6) by (simp add: word_le_nat_alt n const_defs)
  ultimately obtain N where a: "a \<noteq> 0" "client s1 k" "length w \<le> N" "(a, N) \<in> cream_objects s1"
    and dis: "ranges_disjoint a N obj M" and keep: "\<And>x. in_range obj M x \<Longrightarrow> mem s1 x = mem s x"
    using client_malloc [OF assms(1) _ _ al] assms(2) n by (metis insertI1)
  let ?d = "length w - 1"
  define m1 where "m1 = put_bytes (mem s1) a (bytes_at (mem s1) ?src ?d)"
  have far: "?d \<le> unat (a - ?src)"
  proof -
    have "0 < N" using a(3) pos by linarith
    then have "in_range a N a" by (simp add: in_range_def)
    then have "\<not> in_range ?src (length w) a" using dis assms(3) unfolding ranges_disjoint_def by blast
    then show ?thesis by (simp add: in_range_def)
  qed
  have m1: "fold (\<lambda>i m. st8 m (a + of_nat i) (m (target + of_int (start + int i)))) [0..<?d] (mem s1) = m1"
    using memcpy_fold [of ?d a ?src "mem s1"] far assms(6) by (simp add: m1_def add.assoc)
  have src: "bytes_at (mem s1) ?src ?d = butlast w"
  proof -
    have "bytes_at (mem s1) ?src ?d = bytes_at (mem s) ?src ?d"
      by (rule bytes_at_cong) (use keep assms(3,6) in \<open>simp add: in_range_def unat_of_nat32\<close>)
    also have "\<dots> = take ?d (bytes_at (mem s) ?src (length w))" by (simp add: take_bytes_at)
    finally show ?thesis using assms(4) by (simp add: butlast_conv_take)
  qed
  have lw: "length (butlast w) = ?d" "length (butlast w @ [0]) = length w" using pos by simp_all
  have trm: "st8 m1 (a + of_nat ?d) 0 = put_bytes (mem s1) a (butlast w @ [0])"
    unfolding m1_def src using put_bytes_end [of "butlast w" "mem s1" a] assms(6) by (simp add: lw(1))
  define s' where "s' = s1\<lparr>mem := st8 m1 (a + of_nat ?d) 0\<rparr>"
  have s'_eq: "s' = s1\<lparr>mem := put_bytes (mem s1) a (butlast w @ [0])\<rparr>" by (simp only: s'_def trm)
  have "gen_str target start end' s = (a, s')"
  proof -
    have "of_int (end' - start + 1) = ?n" by (simp add: assms(7))
    moreover have "?n - 1 = of_nat ?d" using pos by (cases "length w") simp_all
    moreover have "\<not> end' < start" using assms(7) pos by simp
    ultimately show ?thesis by (simp only: gen_str_def if_False Let_def al prod.case n m1 s'_def)
  qed
  moreover have "client s' k"
    by (rule client_store [OF a(2,4)]) (use put_bytes_outside [of a N _ "butlast w @ [0]"] a(3) lw(2) in \<open>simp_all add: s'_eq\<close>)
  moreover have "bytes_at (mem s') a (length w) = butlast w @ [0]"
    using bytes_at_put_bytes [of "butlast w @ [0]" "mem s1" a] assms(6) unfolding lw(2) by (simp add: s'_eq)
  ultimately show ?thesis using a(1) by blast
qed

lemma gen_str_drops_last_witness:
  "\<exists>(s :: channel archive_state) target str s'. bytes_at (mem s) (target + 1) 2 = lit ''ab'' \<and> gen_str target 1 2 s = (str, s') \<and>
    bytes_at (mem s') str 2 = lit ''a'' @ [0]"
proof -
  obtain target s1 where m1: "heap_cream_malloc 64 archive_booted = (target, s1)" by fastforce
  have "client archive_booted (Suc 123)" using archive_client by simp
  then obtain N where a: "client s1 123" "64 \<le> N" "cream_objects s1 = {(target, N)}"
    by (rule client_malloc [OF _ _ _ m1]) (use archive_client in \<open>auto simp: const_defs\<close>)
  define s where "s = s1\<lparr>mem := put_bytes (mem s1) (target + 1) (lit ''ab'')\<rparr>"
  have inp: "in_range target N x" if "in_range (target + 1) 2 x" for x
    using in_range_mono [of target 64 x N] in_range_sub [of 1 2 64 target x] that a(2) by simp
  have "client s 123" "cream_objects s = cream_objects s1"
  proof -
    have eq: "mem s x = mem s1 x" if "\<not> in_range target N x" for x
      using that inp [of x] by (auto simp: s_def lit_def intro!: put_bytes_outside [of _ 2])
    show "client s 123" "cream_objects s = cream_objects s1"
      by (rule client_store [OF a(1), of target N]; use a(3) eq in \<open>simp add: s_def\<close>)+
  qed
  moreover have w: "bytes_at (mem s) (target + 1) 2 = lit ''ab''"
    using bytes_at_put_bytes [of "lit ''ab''" "mem s1" "target + 1"] by (simp add: s_def lit_def flip: numeral_2_eq_2)
  moreover have l: "length (lit ''ab'') = 2" "butlast (lit ''ab'') = lit ''a''" by (simp_all add: lit_def)
  moreover have "(target, N) \<in> cream_objects s1" by (simp add: a(3))
  ultimately have "\<exists>str s'. gen_str target 1 2 s = (str, s') \<and> str \<noteq> 0 \<and> client s' 122 \<and>
      bytes_at (mem s') str (length (lit ''ab'')) = butlast (lit ''ab'') @ [0]"
    by (intro gen_str_drops_last [of s 122 target N]) (use inp in \<open>auto simp: l\<close>, simp add: lit_def)
  then show ?thesis unfolding l using w by blast
qed

end
