(* ===== verification/Fat_Tool.thy ===== *)
theory Fat_Tool
  imports Prelude
begin

text \<open>
  The host program \<open>src/tools/fat.c\<close>, which prints a file of a FAT12 image.  A \<open>FILE\<close> is the bytes of a regular file
  with a position; the program runs on a host with a 64-bit \<open>long\<close> and \<open>size_t\<close>, without input errors.  Memory
  from \<open>malloc\<close> is a list of bytes of its own; \<open>malloc\<close> itself is an argument, which answers a size with such
  a list of any contents, or with \<open>None\<close> for NULL.  The result \<open>None\<close> of an operation is undefined
  behaviour: an access outside an object, a division by zero or a conversion out of range.  \<open>free\<close> has no effect that
  the program could see.
\<close>

section \<open>Files and memory\<close>

record FILE =
  f_bytes :: "byte list"
  f_pos :: nat

definition fseek :: "nat \<Rightarrow> FILE \<Rightarrow> int \<times> FILE" where
  "fseek off f = (0, f\<lparr>f_pos := off\<rparr>)"

text \<open>\<open>fread\<close>: the bytes that are stored, the number of whole items and the file.\<close>

definition fread :: "nat \<Rightarrow> nat \<Rightarrow> FILE \<Rightarrow> byte list \<times> nat \<times> FILE" where
  "fread sz count f =
     (let bs = take (sz * count) (drop (f_pos f) (f_bytes f))
      in (bs, if sz = 0 then 0 else length bs div sz, f\<lparr>f_pos := f_pos f + length bs\<rparr>))"

type_synonym allocator = "nat \<Rightarrow> byte list option"

definition item :: "byte list \<Rightarrow> nat \<Rightarrow> byte option" where
  "item bs i = (if i < length bs then Some (bs ! i) else None)"

definition put_at :: "nat \<Rightarrow> byte list \<Rightarrow> byte list \<Rightarrow> byte list option" where
  "put_at i bs buf = (if i + length bs \<le> length buf then Some (take i buf @ bs @ drop (i + length bs) buf) else None)"

definition memcmp_eq :: "byte list \<Rightarrow> byte list \<Rightarrow> nat \<Rightarrow> bool option" where
  "memcmp_eq a b n = (if length a < n \<or> length b < n then None else Some (take n a = take n b))"

text \<open>What is printed, by stream.\<close>

datatype printed = Stdout "byte list" | Stderr "byte list"

definition isprint :: "byte \<Rightarrow> bool" where
  "isprint b \<longleftrightarrow> 0x20 \<le> b \<and> b \<le> 0x7e"

definition printf_digit :: "nat \<Rightarrow> byte" where
  "printf_digit n = lit ''0123456789abcdef'' ! n"

definition show_byte :: "byte \<Rightarrow> printed" where
  "show_byte b =
     (if isprint b then Stderr [b]
      else Stdout (lit ''<'' @ [printf_digit (unat b div 16), printf_digit (unat b mod 16)] @ lit ''>''))"

section \<open>The structs\<close>

record bios_header =
  jump_state :: "byte list"
  bdb_oem :: "byte list"
  bdb_bytes_per_sector :: u16
  bdb_sector_per_cluster :: byte
  bdb_reserved_sector :: u16
  bdb_fat_count :: byte
  bdb_root_entries :: u16
  bdb_number_sectors :: u16
  bdb_media_desc :: byte
  bdb_sector_per_fat :: u16
  bdb_sector_per_track :: u16
  bdb_heads :: u16
  bdb_hidden_sect :: u32
  bdb_large_sect_count :: u32
  ebr_drive_num :: byte
  ebr_flag :: byte
  ebr_signature :: byte
  ebr_volume_id :: "byte list"
  ebr_volume_label :: "byte list"
  ebr_file_sys_indentify :: "byte list"

definition sizeof_bios_header :: nat where "sizeof_bios_header = 62"

definition part_of :: "nat \<Rightarrow> nat \<Rightarrow> byte list \<Rightarrow> byte list" where
  "part_of i n bs = take n (drop i bs)"

definition bios_header_of :: "byte list \<Rightarrow> bios_header" where
  "bios_header_of b = \<lparr>jump_state = part_of 0 3 b, bdb_oem = part_of 3 8 b, bdb_bytes_per_sector = le16 b 11,
     bdb_sector_per_cluster = b ! 13, bdb_reserved_sector = le16 b 14, bdb_fat_count = b ! 16, bdb_root_entries = le16 b 17,
     bdb_number_sectors = le16 b 19, bdb_media_desc = b ! 21, bdb_sector_per_fat = le16 b 22, bdb_sector_per_track = le16 b 24,
     bdb_heads = le16 b 26, bdb_hidden_sect = le32 b 28, bdb_large_sect_count = le32 b 32, ebr_drive_num = b ! 36,
     ebr_flag = b ! 37, ebr_signature = b ! 38, ebr_volume_id = part_of 39 4 b, ebr_volume_label = part_of 43 11 b,
     ebr_file_sys_indentify = part_of 54 8 b\<rparr>"

record fat12_dir =
  name :: "byte list"
  attr :: byte
  reserved :: byte
  time_creat_sec :: byte
  time_creat :: u16
  date_creat :: u16
  date_last :: u16
  cluster_no_high :: u16
  time_mod :: u16
  date_mod :: u16
  cluster_no_low :: u16
  dir_file_size :: u32

definition sizeof_fat12_dir :: nat where "sizeof_fat12_dir = 32"

definition fat12_dir_of :: "byte list \<Rightarrow> fat12_dir" where
  "fat12_dir_of b = \<lparr>name = part_of 0 11 b, attr = b ! 11, reserved = b ! 12, time_creat_sec = b ! 13, time_creat = le16 b 14,
     date_creat = le16 b 16, date_last = le16 b 18, cluster_no_high = le16 b 20, time_mod = le16 b 22, date_mod = le16 b 24,
     cluster_no_low = le16 b 26, dir_file_size = le32 b 28\<rparr>"

text \<open>Element \<open>i\<close> of \<open>root_dir_entry\<close>.\<close>

definition root_entry :: "byte list \<Rightarrow> nat \<Rightarrow> fat12_dir option" where
  "root_entry root i =
     (if sizeof_fat12_dir * i + sizeof_fat12_dir \<le> length root
      then Some (fat12_dir_of (part_of (sizeof_fat12_dir * i) sizeof_fat12_dir root)) else None)"

text \<open>The globals; \<open>None\<close> is the null pointer.\<close>

record tool_state =
  g_boot_header :: bios_header
  g_fat :: "byte list option"
  root_dir_entry :: "byte list option"
  dir_size :: u32

section \<open>Reading the volume\<close>

definition read_boot_header :: "FILE \<Rightarrow> bool \<times> bios_header \<times> FILE" where
  "read_boot_header f = (case fread sizeof_bios_header 1 f of (bs, n, f') \<Rightarrow> (n \<noteq> 0, bios_header_of bs, f'))"

text \<open>The sectors are stored from index \<open>pos\<close> of the buffer on.\<close>

definition readSector ::
  "bios_header \<Rightarrow> byte list \<Rightarrow> nat \<Rightarrow> u32 \<Rightarrow> u32 \<Rightarrow> FILE \<Rightarrow> (bool \<times> byte list \<times> FILE) option" where
  "readSector h out_buf pos lba count f =
     (case fseek (unat (lba * ucast (bdb_bytes_per_sector h))) f of (r, f1) \<Rightarrow>
        if r \<noteq> 0 then Some (False, out_buf, f1)
        else case fread (unat (bdb_bytes_per_sector h)) (unat count) f1 of (bs, n, f2) \<Rightarrow>
          map_option (\<lambda>buf. (n = unat count, buf, f2)) (put_at pos bs out_buf))"

definition fat_sectors :: "bios_header \<Rightarrow> u32" where
  "fat_sectors h = ucast (bdb_fat_count h) * ucast (bdb_sector_per_fat h)"

definition readFat :: "allocator \<Rightarrow> FILE \<Rightarrow> tool_state \<Rightarrow> (bool \<times> tool_state \<times> FILE) option" where
  "readFat malloc f t =
     (let h = g_boot_header t;
          lba = ucast (bdb_reserved_sector h);
          count = fat_sectors h
      in case malloc (unat (count * ucast (bdb_bytes_per_sector h))) of
        None \<Rightarrow> Some (False, t\<lparr>g_fat := None\<rparr>, f)
      | Some buf \<Rightarrow> map_option (\<lambda>(ok, buf', f'). (ok, t\<lparr>g_fat := Some buf'\<rparr>, f')) (readSector h buf 0 lba count f))"

definition readRootDir :: "allocator \<Rightarrow> FILE \<Rightarrow> tool_state \<Rightarrow> (bool \<times> tool_state \<times> FILE) option" where
  "readRootDir malloc f t =
     (let h = g_boot_header t;
          lba = ucast (bdb_reserved_sector h) + fat_sectors h;
          entries = unat (bdb_root_entries h);
          bps = unat (bdb_bytes_per_sector h)
      in case malloc (entries * sizeof_fat12_dir) of
        None \<Rightarrow> Some (False, t\<lparr>root_dir_entry := None\<rparr>, f)
      | Some buf \<Rightarrow>
          if bps = 0 then None
          else
            let n = of_nat ((sizeof_fat12_dir * entries + bps - 1) div bps)
            in map_option (\<lambda>(ok, buf', f'). (ok, t\<lparr>root_dir_entry := Some buf', dir_size := n\<rparr>, f'))
                 (readSector h buf 0 lba n f))"

text \<open>
  The search: \<open>Some (Some i)\<close> is \<open>true\<close> with index \<open>i\<close>, \<open>Some None\<close> is \<open>false\<close>.  A file name of the command line
  is followed by its terminator.
\<close>

fun search_from :: "byte list \<Rightarrow> byte list \<Rightarrow> nat \<Rightarrow> nat \<Rightarrow> nat option option" where
  "search_from file_name root i 0 = Some None"
| "search_from file_name root i (Suc n) =
     (case item root (sizeof_fat12_dir * i) of None \<Rightarrow> None
      | Some c \<Rightarrow>
          if c = 0 then Some None
          else case memcmp_eq (file_name @ [0]) (drop (sizeof_fat12_dir * i) root) 11 of None \<Rightarrow> None
          | Some eq \<Rightarrow> if eq then Some (Some i) else search_from file_name root (i + 1) n)"

definition search_root :: "byte list \<Rightarrow> tool_state \<Rightarrow> nat option option" where
  "search_root file_name t =
     (case root_dir_entry t of None \<Rightarrow> None
      | Some root \<Rightarrow> search_from file_name root 0 (unat (bdb_root_entries (g_boot_header t))))"

text \<open>\<open>cur_clust * 1.5\<close> is exact; its conversion to 16 bits is defined below \<open>2 ^ 16\<close>.\<close>

definition next_cluster :: "byte list \<Rightarrow> u16 \<Rightarrow> u16 option" where
  "next_cluster fat cur_clust =
     (let off = 3 * unat cur_clust div 2
      in if 2 ^ 16 \<le> off then None
         else case (item fat off, item fat (off + 1)) of
           (Some b0, Some b1) \<Rightarrow>
             Some (if cur_clust mod 2 \<noteq> 0 then push_bit 4 (ucast b1) OR drop_bit 4 (ucast (b0 AND 0xF0))
                   else ucast b0 OR push_bit 8 (ucast (b1 AND 0x0F)))
         | _ \<Rightarrow> None)"

section \<open>Reading a file\<close>

definition cluster_bytes :: "bios_header \<Rightarrow> u32" where
  "cluster_bytes h = ucast (bdb_sector_per_cluster h) * ucast (bdb_bytes_per_sector h)"

definition file_lba :: "bios_header \<Rightarrow> u32 \<Rightarrow> u16 \<Rightarrow> u32" where
  "file_lba h addr cur = addr + of_int ((int (unat cur) - 2) * int (unat (bdb_sector_per_cluster h)))"

lemma put_at_length: "put_at i bs buf = Some buf' \<Longrightarrow> length buf' = length buf \<and> i + length bs \<le> length buf"
  by (auto simp: put_at_def split: if_splits)

lemma cluster_bytes_nat: "unat (cluster_bytes h) = unat (bdb_sector_per_cluster h) * unat (bdb_bytes_per_sector h)"
proof -
  have "unat (bdb_sector_per_cluster h) * unat (bdb_bytes_per_sector h) < 256 * 65536"
    by (rule mult_strict_mono) (use unat_u16 unat_u8 in auto)
  then show ?thesis by (simp add: cluster_bytes_def unat_mult_lem [THEN iffD1] unat_up)
qed

lemma readSector_fits:
  assumes "readSector h buf pos lba (ucast (bdb_sector_per_cluster h)) f = Some (True, buf', f')" and "cluster_bytes h \<noteq> 0"
  shows "length buf' = length buf" and "pos + unat (cluster_bytes h) \<le> length buf"
proof -
  let ?k = "unat (bdb_sector_per_cluster h)" and ?w = "unat (bdb_bytes_per_sector h)"
  obtain bs where bs: "put_at pos bs buf = Some buf'" "?w \<noteq> 0 \<longrightarrow> length bs div ?w = ?k"
    using assms(1) by (auto simp: readSector_def fseek_def fread_def Let_def unat_up split: if_splits)
  have "unat (cluster_bytes h) \<noteq> 0" using assms(2) by (metis unat_0 unat_inj)
  then have "?k * ?w \<le> length bs" using bs(2) div_times_less_eq_dividend [of "length bs" ?w] by (auto simp: cluster_bytes_nat)
  then show "length buf' = length buf" "pos + unat (cluster_bytes h) \<le> length buf"
    using put_at_length [OF bs(1)] by (simp_all add: cluster_bytes_nat)
qed

text \<open>
  The loop; \<open>pos\<close> is \<open>start_loc - buf_out\<close>.  \<open>read_file\<close> has divided by \<open>cluster_bytes\<close> before, so that it is not 0 here.
\<close>

function read_clusters ::
  "bios_header \<Rightarrow> byte list \<Rightarrow> u32 \<Rightarrow> nat \<Rightarrow> u16 \<Rightarrow> byte list \<Rightarrow> FILE \<Rightarrow> (bool \<times> byte list \<times> FILE) option" where
  "read_clusters h fat addr pos cur buf_out f =
     (if cluster_bytes h = 0 then None
      else case readSector h buf_out pos (file_lba h addr cur) (ucast (bdb_sector_per_cluster h)) f of
        None \<Rightarrow> None
      | Some (ok, buf', f') \<Rightarrow>
          if \<not> ok then Some (False, buf', f')
          else case next_cluster fat cur of None \<Rightarrow> None
          | Some c \<Rightarrow>
              if c < 0xff8 then read_clusters h fat addr (pos + unat (cluster_bytes h)) c buf' f' else Some (True, buf', f'))"
  by pat_completeness auto

termination
proof (relation "measure (\<lambda>(h, fat, addr, pos, cur, buf_out, f). length buf_out - pos)", goal_cases)
  case (2 h fat addr pos cur buf_out f r ok q buf' f' c)
  then have "readSector h buf_out pos (file_lba h addr cur) (ucast (bdb_sector_per_cluster h)) f = Some (True, buf', f')" by simp
  moreover have "0 < unat (cluster_bytes h)" using 2 by (simp add: unat_gt_0)
  ultimately show ?case using readSector_fits 2 by fastforce
qed simp

declare read_clusters.simps [simp del]

definition read_file :: "allocator \<Rightarrow> byte list \<Rightarrow> tool_state \<Rightarrow> FILE \<Rightarrow> (bool \<times> printed list \<times> FILE) option" where
  "read_file malloc file_name t f =
     (case search_root file_name t of None \<Rightarrow> None
      | Some None \<Rightarrow> Some (False, [], f)
      | Some (Some i) \<Rightarrow>
          (case (root_dir_entry t, g_fat t) of (Some root, Some fat) \<Rightarrow>
             (case root_entry root i of None \<Rightarrow> None
              | Some d \<Rightarrow>
                  let h = g_boot_header t;
                      cb = cluster_bytes h;
                      addr = ucast (bdb_reserved_sector h) + fat_sectors h + dir_size t;
                      sz = dir_file_size d
                  in if cb = 0 then None
                  else case malloc (unat (cb * ((sz + cb - 1) div cb))) of None \<Rightarrow> Some (False, [], f)
                  | Some buf_out \<Rightarrow>
                      (case read_clusters h fat addr 0 (cluster_no_low d) buf_out f of None \<Rightarrow> None
                       | Some (ok, buf', f') \<Rightarrow>
                           if \<not> ok then Some (False, [], f')
                           else if length buf' < unat sz then None
                           else Some (True, map show_byte (take (unat sz) buf'), f')))
           | _ \<Rightarrow> None))"

text \<open>\<open>fopen\<close> is the argument \<open>open\<close>: the contents of a file that can be opened.  \<open>argv\<close> has \<open>argc\<close> elements.\<close>

definition main :: "allocator \<Rightarrow> (byte list \<Rightarrow> byte list option) \<Rightarrow> byte list list \<Rightarrow> (int \<times> printed list) option" where
  "main malloc open argv =
     (if length argv < 3 then
        (case argv of [] \<Rightarrow> None
         | a # _ \<Rightarrow> Some (- 1, [Stdout (lit ''usage '' @ a @ lit '' <filename> <targetfile>'')]))
      else case open (argv ! 1) of None \<Rightarrow> Some (- 2, [Stderr (lit ''failed to open disk'' @ [10])])
      | Some bytes \<Rightarrow>
        (case read_boot_header \<lparr>f_bytes = bytes, f_pos = 0\<rparr> of (ok, h, f) \<Rightarrow>
           if \<not> ok then Some (- 3, [Stderr (lit ''failed to read boot header'' @ [10])])
           else case readFat malloc f \<lparr>g_boot_header = h, g_fat = None, root_dir_entry = None, dir_size = 0\<rparr> of None \<Rightarrow> None
           | Some (ok, t, f) \<Rightarrow>
               if \<not> ok then Some (- 4, [Stderr (lit ''failed to read fat tables'' @ [10])])
               else case readRootDir malloc f t of None \<Rightarrow> None
               | Some (ok, t, f) \<Rightarrow>
                   if \<not> ok then Some (- 5, [Stderr (lit ''failed to read from root'' @ [10])])
                   else case search_root (argv ! 2) t of None \<Rightarrow> None
                   | Some None \<Rightarrow> Some (- 6, [Stderr (lit ''could not find '' @ argv ! 2 @ lit '' from root'' @ [10])])
                   | Some (Some i) \<Rightarrow>
                       (case read_file malloc (argv ! 2) t f of None \<Rightarrow> None
                        | Some (ok, out, f) \<Rightarrow>
                            if \<not> ok then Some (- 7, out @ [Stderr (lit ''failed to read file.'' @ [10])]) else Some (0, out))))"

section \<open>The table\<close>

text \<open>Two 12-bit entries in three bytes.\<close>

fun pack12 :: "u16 list \<Rightarrow> byte list" where
  "pack12 (a # b # es) = ucast a # (ucast (drop_bit 8 a) OR push_bit 4 (ucast b)) # ucast (drop_bit 4 b) # pack12 es"
| "pack12 _ = []"

lemma next_cluster_nat:
  assumes "c < 43691" and "item fat (3 * c div 2) = Some b0" and "item fat (3 * c div 2 + 1) = Some b1"
  shows "next_cluster fat (of_nat c) =
    Some (if odd c then push_bit 4 (ucast b1) OR drop_bit 4 (ucast (b0 AND 0xF0)) else ucast b0 OR push_bit 8 (ucast (b1 AND 0x0F)))"
proof -
  have u: "unat (of_nat c :: u16) = c" using assms(1) by (simp add: unat_of_nat take_bit_nat_eq_self)
  have "unat ((of_nat c :: u16) mod 2) = c mod 2" by (simp only: unat_mod_distrib u) simp
  then have "(of_nat c :: u16) mod 2 \<noteq> 0 \<longleftrightarrow> odd c" by (metis odd_iff_mod_2_eq_one even_iff_mod_2_eq_zero unat_eq_zero zero_neq_one)
  then show ?thesis using assms by (simp add: next_cluster_def Let_def u)
qed

lemma low12_bit: "a < 4096 \<Longrightarrow> bit (a :: u16) n \<Longrightarrow> n < 12"
proof (rule ccontr)
  assume "a < 4096" "bit a n" "\<not> n < 12"
  have "unat a < 2 ^ 12" using \<open>a < 4096\<close> by (simp add: word_less_nat_alt)
  then have "a = take_bit 12 a" by (intro word_unat_eq_iff [THEN iffD2]) (simp add: unsigned_take_bit_eq take_bit_nat_eq_self)
  then have "bit (take_bit 12 a) n" using \<open>bit a n\<close> by simp
  with \<open>\<not> n < 12\<close> show False by (simp add: bit_take_bit_iff)
qed

lemma nibble_masks: "(0x0F :: byte) = mask 4" "(0xF0 :: byte) = push_bit 4 (mask 4)"
  by (simp_all add: mask_eq_exp_minus_1)

lemma unpack_low: "a < 4096 \<Longrightarrow> ucast (ucast a :: byte) OR push_bit 8 (ucast ((ucast (drop_bit 8 a) OR push_bit 4 (ucast (b :: u16))) AND 0x0F :: byte)) = (a :: u16)"
  unfolding nibble_masks by (rule bit_word_eqI) (use low12_bit in \<open>fastforce simp: bit_simps\<close>)

lemma unpack_high: "a < 4096 \<Longrightarrow> b < 4096 \<Longrightarrow>
  push_bit 4 (ucast (ucast (drop_bit 4 b) :: byte)) OR drop_bit 4 (ucast ((ucast (drop_bit 8 (a :: u16)) OR push_bit 4 (ucast b)) AND 0xF0 :: byte)) = (b :: u16)"
  unfolding nibble_masks
proof (rule bit_word_eqI)
  fix n assume "a < 4096" "b < 4096" "n < LENGTH(16)"
  moreover have "\<not> bit a (12 + n)" using low12_bit [OF \<open>a < 4096\<close>, of "12 + n"] by auto
  moreover have "bit b n \<Longrightarrow> n < 12" using low12_bit [OF \<open>b < 4096\<close>] .
  moreover have "4 \<le> n \<Longrightarrow> 4 + (n - 4) = n" by simp
  ultimately show "bit (push_bit 4 (ucast (ucast (drop_bit 4 b) :: byte)) OR
      drop_bit 4 (ucast ((ucast (drop_bit 8 a) OR push_bit 4 (ucast b)) AND push_bit 4 (mask 4) :: byte)) :: u16) n = bit b n"
    by (cases "n < 4") (auto simp: bit_simps add.commute)
qed

lemma item_Suc: "item (x # xs) (Suc i) = item xs i" and item_0: "item (x # xs) 0 = Some x"
  by (simp_all add: item_def)

lemma next_cluster_pack12:
  assumes "even (length es)" and "c < length es" and "c < 43691" and "\<forall>e \<in> set es. e < 4096"
  shows "\<exists>b0 b1. item (pack12 es) (3 * c div 2) = Some b0 \<and> item (pack12 es) (3 * c div 2 + 1) = Some b1 \<and>
    (if odd c then push_bit 4 (ucast b1) OR drop_bit 4 (ucast (b0 AND 0xF0)) else ucast b0 OR push_bit 8 (ucast (b1 AND 0x0F))) = es ! c"
  using assms
proof (induction es arbitrary: c rule: pack12.induct)
  case (1 a b es)
  consider "c = 0" | "c = 1" | d where "c = Suc (Suc d)" by (metis One_nat_def nat.exhaust)
  then show ?case
  proof cases
    case 3
    then have "3 * c div 2 = Suc (Suc (Suc (3 * d div 2)))" by simp
    then show ?thesis using "1.IH" [of d] "1.prems" 3 by (simp add: item_Suc)
  qed (use "1.prems" in \<open>simp_all add: item_Suc item_0 unpack_low unpack_high\<close>)
qed auto

section \<open>The clusters of a file\<close>

text \<open>
  The number of bytes before cluster \<open>c\<close> in the image, where \<open>addr\<close> is the first data sector, its bytes, and that it lies in
  the image.  \<open>fat_chain fat cs\<close>: the table leads from each of the clusters \<open>cs\<close> to the next and then ends the file.
\<close>

definition cluster_pos :: "bios_header \<Rightarrow> u32 \<Rightarrow> u16 \<Rightarrow> nat" where
  "cluster_pos h addr c =
     (unat addr + (unat c - 2) * unat (bdb_sector_per_cluster h)) * unat (bdb_bytes_per_sector h)"

definition cluster_of :: "bios_header \<Rightarrow> u32 \<Rightarrow> byte list \<Rightarrow> u16 \<Rightarrow> byte list" where
  "cluster_of h addr bytes c = part_of (cluster_pos h addr c) (unat (cluster_bytes h)) bytes"

definition in_image :: "bios_header \<Rightarrow> u32 \<Rightarrow> byte list \<Rightarrow> u16 \<Rightarrow> bool" where
  "in_image h addr bytes c \<longleftrightarrow> 2 \<le> unat c \<and> cluster_pos h addr c + unat (cluster_bytes h) \<le> length bytes"

fun fat_chain :: "byte list \<Rightarrow> u16 list \<Rightarrow> bool" where
  "fat_chain fat [] = False"
| "fat_chain fat [c] = (case next_cluster fat c of None \<Rightarrow> False | Some d \<Rightarrow> \<not> d < 0xff8)"
| "fat_chain fat (c # d # cs) = (next_cluster fat c = Some d \<and> d < 0xff8 \<and> fat_chain fat (d # cs))"

lemma readSector_image:
  assumes "unat lba * unat (bdb_bytes_per_sector h) + unat (bdb_bytes_per_sector h) * unat k \<le> length (f_bytes f)"
    and "length (f_bytes f) < 2 ^ 32" and "bdb_bytes_per_sector h \<noteq> 0"
  shows "\<exists>f'. f_bytes f' = f_bytes f \<and> readSector h buf pos lba k f =
    map_option (\<lambda>buf'. (True, buf', f'))
      (put_at pos (part_of (unat lba * unat (bdb_bytes_per_sector h)) (unat (bdb_bytes_per_sector h) * unat k) (f_bytes f)) buf)"
proof -
  let ?w = "unat (bdb_bytes_per_sector h)"
  have "unat lba * ?w < 2 ^ 32" using assms(1,2) by linarith
  then have off: "unat (lba * ucast (bdb_bytes_per_sector h)) = unat lba * ?w"
    by (simp add: unat_mult_lem [THEN iffD1] unat_up)
  have w: "?w \<noteq> 0" using assms(3) by (simp add: unat_eq_zero)
  then have "length (take (?w * unat k) (drop (unat lba * ?w) (f_bytes f))) div ?w = unat k"
    using assms(1) by (simp add: min_absorb2)
  then show ?thesis using w
    by (intro exI [of _ "f\<lparr>f_pos := unat lba * ?w + length (take (?w * unat k) (drop (unat lba * ?w) (f_bytes f)))\<rparr>"])
      (simp add: readSector_def fseek_def fread_def off part_of_def Let_def del: length_take)
qed

lemma readSector_cluster:
  assumes "in_image h addr (f_bytes f) c" and "length (f_bytes f) < 2 ^ 32" and "cluster_bytes h \<noteq> 0"
  shows "\<exists>f'. f_bytes f' = f_bytes f \<and> readSector h buf pos (file_lba h addr c) (ucast (bdb_sector_per_cluster h)) f =
    map_option (\<lambda>buf'. (True, buf', f')) (put_at pos (cluster_of h addr (f_bytes f) c) buf)"
proof -
  let ?w = "unat (bdb_bytes_per_sector h)" and ?k = "unat (bdb_sector_per_cluster h)"
  let ?l = "unat addr + (unat c - 2) * ?k"
  have w: "bdb_bytes_per_sector h \<noteq> 0" using assms(3) by (auto simp: cluster_bytes_def)
  have "?l * 1 \<le> ?l * ?w" by (rule mult_le_mono2) (use w unat_eq_zero [of "bdb_bytes_per_sector h"] in auto)
  then have "?l \<le> ?l * ?w" by (simp only: mult_1_right)
  moreover have "?l * ?w < 2 ^ 32" using assms(1,2) unfolding in_image_def cluster_pos_def by linarith
  ultimately have "?l < 2 ^ 32" by (rule le_less_trans)
  moreover have "file_lba h addr c = of_nat ?l"
    using assms(1) by (simp add: file_lba_def in_image_def of_nat_diff)
  ultimately have l: "unat (file_lba h addr c) = ?l" by (simp only: unat_of_nat32)
  have "?l * ?w + ?w * ?k \<le> length (f_bytes f)"
    using assms(1) by (simp add: in_image_def cluster_pos_def cluster_bytes_nat mult.commute)
  then show ?thesis
    using readSector_image [of "file_lba h addr c" h "ucast (bdb_sector_per_cluster h)" f buf pos] assms(2) w
    by (simp add: l unat_up cluster_of_def cluster_pos_def cluster_bytes_nat mult.commute)
qed

lemma length_cluster_of: "in_image h addr bytes c \<Longrightarrow> length (cluster_of h addr bytes c) = unat (cluster_bytes h)"
  by (auto simp: cluster_of_def part_of_def in_image_def)

lemma read_clusters_step:
  assumes "in_image h addr (f_bytes f) c" and "length (f_bytes f) < 2 ^ 32" and "cluster_bytes h \<noteq> 0"
  shows "\<exists>f1. f_bytes f1 = f_bytes f \<and> read_clusters h fat addr pos c buf f =
    (case put_at pos (cluster_of h addr (f_bytes f) c) buf of None \<Rightarrow> None
     | Some buf1 \<Rightarrow>
         case next_cluster fat c of None \<Rightarrow> None
         | Some d \<Rightarrow> if d < 0xff8 then read_clusters h fat addr (pos + unat (cluster_bytes h)) d buf1 f1 else Some (True, buf1, f1))"
proof -
  obtain f1 where "f_bytes f1 = f_bytes f" and "readSector h buf pos (file_lba h addr c) (ucast (bdb_sector_per_cluster h)) f =
    map_option (\<lambda>buf'. (True, buf', f1)) (put_at pos (cluster_of h addr (f_bytes f) c) buf)"
    using readSector_cluster [OF assms] by blast
  then show ?thesis using assms(3)
    by (intro exI [of _ f1], subst read_clusters.simps) (simp split: option.split)
qed

text \<open>The loop reads the clusters of the chain, or runs over the end of the buffer.\<close>

lemma read_clusters_chain:
  assumes "fat_chain fat cs" and "\<forall>c \<in> set cs. in_image h addr (f_bytes f) c"
    and "length (f_bytes f) < 2 ^ 32" and "cluster_bytes h \<noteq> 0"
  shows "\<exists>f'. f_bytes f' = f_bytes f \<and> read_clusters h fat addr pos (hd cs) buf f =
    map_option (\<lambda>buf'. (True, buf', f')) (put_at pos (concat (map (cluster_of h addr (f_bytes f)) cs)) buf)"
  using assms(1-3)
proof (induction cs arbitrary: pos buf f rule: fat_chain.induct)
  case (2 fat c)
  have "in_image h addr (f_bytes f) c" using "2.prems"(2) by simp
  from read_clusters_step [OF this "2.prems"(3) assms(4)] obtain f1 where f1: "f_bytes f1 = f_bytes f"
    and st: "read_clusters h fat addr pos c buf f =
    (case put_at pos (cluster_of h addr (f_bytes f) c) buf of None \<Rightarrow> None
     | Some buf1 \<Rightarrow>
         case next_cluster fat c of None \<Rightarrow> None
         | Some d \<Rightarrow> if d < 0xff8 then read_clusters h fat addr (pos + unat (cluster_bytes h)) d buf1 f1 else Some (True, buf1, f1))"
    by blast
  obtain d where d: "next_cluster fat c = Some d" "\<not> d < 0xff8" using "2.prems"(1) by (auto split: option.splits)
  show ?case
  proof (intro exI conjI)
    show "read_clusters h fat addr pos (hd [c]) buf f =
      map_option (\<lambda>buf'. (True, buf', f1)) (put_at pos (concat (map (cluster_of h addr (f_bytes f)) [c])) buf)"
      using d by (cases "put_at pos (cluster_of h addr (f_bytes f) c) buf") (simp_all add: st)
  qed (fact f1)
next
  case (3 fat c d cs)
  let ?b = "cluster_of h addr (f_bytes f) c" and ?p = "pos + unat (cluster_bytes h)"
  have in': "in_image h addr (f_bytes f) c" using "3.prems"(2) by simp
  from read_clusters_step [OF this "3.prems"(3) assms(4)] obtain f1 where f1: "f_bytes f1 = f_bytes f"
    and st: "read_clusters h fat addr pos c buf f =
    (case put_at pos ?b buf of None \<Rightarrow> None
     | Some buf1 \<Rightarrow>
         case next_cluster fat c of None \<Rightarrow> None
         | Some d \<Rightarrow> if d < 0xff8 then read_clusters h fat addr ?p d buf1 f1 else Some (True, buf1, f1))"
    by blast
  have d: "next_cluster fat c = Some d" "d < 0xff8" using "3.prems"(1) by simp_all
  show ?case
  proof (cases "put_at pos ?b buf")
    case None
    moreover from this have "put_at pos (concat (map (cluster_of h addr (f_bytes f)) (c # d # cs))) buf = None"
      by (simp add: put_at_def split: if_splits)
    ultimately show ?thesis by (intro exI [of _ f]) (simp add: st)
  next
    case (Some buf1)
    obtain f' where f': "f_bytes f' = f_bytes f1" and rest: "read_clusters h fat addr ?p (hd (d # cs)) buf1 f1 =
      map_option (\<lambda>buf'. (True, buf', f')) (put_at ?p (concat (map (cluster_of h addr (f_bytes f1)) (d # cs))) buf1)"
      using "3.IH" [of f1 ?p buf1] "3.prems" f1 by (auto simp del: fat_chain.simps(2))
    have "put_at ?p xs buf1 = put_at pos (?b @ xs) buf" for xs
      using Some length_cluster_of [OF in'] by (auto simp: put_at_def ac_simps split: if_splits)
    then show ?thesis using rest f' f1 d Some by (intro exI [of _ f']) (simp add: st)
  qed
qed simp

section \<open>The regions of an image\<close>

text \<open>
  The table, the root directory and the first data sector of an image, and what an image that the program can read looks
  like: it has a boot sector, all of the regions, and a root directory of whole sectors.
\<close>

definition header_of :: "byte list \<Rightarrow> bios_header" where
  "header_of bytes = bios_header_of (take sizeof_bios_header bytes)"

definition volume_fat :: "byte list \<Rightarrow> byte list" where
  "volume_fat bytes =
     (let h = header_of bytes; w = unat (bdb_bytes_per_sector h)
      in part_of (unat (bdb_reserved_sector h) * w) (unat (fat_sectors h) * w) bytes)"

definition root_sectors :: "bios_header \<Rightarrow> nat" where
  "root_sectors h = sizeof_fat12_dir * unat (bdb_root_entries h) div unat (bdb_bytes_per_sector h)"

definition volume_root :: "byte list \<Rightarrow> byte list" where
  "volume_root bytes =
     (let h = header_of bytes
      in part_of ((unat (bdb_reserved_sector h) + unat (fat_sectors h)) * unat (bdb_bytes_per_sector h))
           (sizeof_fat12_dir * unat (bdb_root_entries h)) bytes)"

definition first_data_sector :: "bios_header \<Rightarrow> u32" where
  "first_data_sector h = ucast (bdb_reserved_sector h) + fat_sectors h + of_nat (root_sectors h)"

definition fat_image_ok :: "byte list \<Rightarrow> bool" where
  "fat_image_ok bytes \<longleftrightarrow>
     (let h = header_of bytes; w = unat (bdb_bytes_per_sector h)
      in sizeof_bios_header \<le> length bytes \<and> length bytes < 2 ^ 32 \<and> cluster_bytes h \<noteq> 0 \<and>
         sizeof_fat12_dir * unat (bdb_root_entries h) mod w = 0 \<and>
         (unat (bdb_reserved_sector h) + unat (fat_sectors h)) * w + sizeof_fat12_dir * unat (bdb_root_entries h) \<le> length bytes)"

text \<open>The entry the search finds and the bytes of the clusters of a file.\<close>

definition file_entry :: "byte list \<Rightarrow> byte list \<Rightarrow> fat12_dir option" where
  "file_entry file_name bytes =
     (case search_from file_name (volume_root bytes) 0 (unat (bdb_root_entries (header_of bytes))) of
        Some (Some i) \<Rightarrow> root_entry (volume_root bytes) i | _ \<Rightarrow> None)"

definition clusters_bytes :: "byte list \<Rightarrow> u16 list \<Rightarrow> byte list" where
  "clusters_bytes bytes cs = concat (map (cluster_of (header_of bytes) (first_data_sector (header_of bytes)) bytes) cs)"

definition clusters_for :: "bios_header \<Rightarrow> u32 \<Rightarrow> nat" where
  "clusters_for h sz = (unat sz + unat (cluster_bytes h) - 1) div unat (cluster_bytes h)"

lemma put_at_all: "length bs = length buf \<Longrightarrow> put_at 0 bs buf = Some bs"
  by (simp add: put_at_def)

lemma fat_sectors_nat: "unat (fat_sectors h) = unat (bdb_fat_count h) * unat (bdb_sector_per_fat h)"
proof -
  have "unat (bdb_fat_count h) * unat (bdb_sector_per_fat h) < 256 * 65536"
    by (rule mult_strict_mono) (use unat_u16 unat_u8 in auto)
  then show ?thesis by (simp add: fat_sectors_def unat_mult_lem [THEN iffD1] unat_up)
qed

lemma read_boot_header_image:
  "sizeof_bios_header \<le> length bytes \<Longrightarrow>
    \<exists>f. f_bytes f = bytes \<and> read_boot_header \<lparr>f_bytes = bytes, f_pos = 0\<rparr> = (True, header_of bytes, f)"
  by (simp add: read_boot_header_def fread_def header_of_def sizeof_bios_header_def Let_def)

lemma fat_image_okD:
  assumes "fat_image_ok bytes" and "h = header_of bytes"
  shows "bdb_bytes_per_sector h \<noteq> 0" "cluster_bytes h \<noteq> 0" "length bytes < 2 ^ 32" "sizeof_bios_header \<le> length bytes"
    "unat (bdb_reserved_sector h) * unat (bdb_bytes_per_sector h) + unat (bdb_bytes_per_sector h) * unat (fat_sectors h) \<le> length bytes"
    "(unat (bdb_reserved_sector h) + unat (fat_sectors h)) * unat (bdb_bytes_per_sector h)
      + sizeof_fat12_dir * unat (bdb_root_entries h) \<le> length bytes"
    "root_sectors h * unat (bdb_bytes_per_sector h) = sizeof_fat12_dir * unat (bdb_root_entries h)"
  using assms by (auto simp: fat_image_ok_def Let_def cluster_bytes_def root_sectors_def algebra_simps mod_eq_0_iff_dvd)

lemma readFat_image:
  assumes "fat_image_ok bytes" and "f_bytes f = bytes" and "g_boot_header t = header_of bytes"
    and "\<And>n. \<exists>buf. malloc n = Some buf \<and> length buf = n"
  shows "\<exists>f'. f_bytes f' = bytes \<and> readFat malloc f t = Some (True, t\<lparr>g_fat := Some (volume_fat bytes)\<rparr>, f')"
proof -
  let ?h = "header_of bytes"
  let ?w = "unat (bdb_bytes_per_sector ?h)"
  note ok = fat_image_okD [OF assms(1) refl]
  obtain buf where buf: "malloc (unat (fat_sectors ?h * ucast (bdb_bytes_per_sector ?h))) = Some buf"
    "length buf = unat (fat_sectors ?h * ucast (bdb_bytes_per_sector ?h))" using assms(4) by blast
  have "?w * unat (fat_sectors ?h) < 2 ^ 32" using ok(3,5) by linarith
  then have n: "length buf = unat (fat_sectors ?h) * ?w"
    unfolding buf(2) by (simp add: unat_mult_lem [THEN iffD1] unat_up mult.commute)
  have l: "length (volume_fat bytes) = length buf" using ok(5) by (auto simp: n volume_fat_def part_of_def Let_def mult.commute)
  obtain f' where "f_bytes f' = bytes" "readSector ?h buf 0 (ucast (bdb_reserved_sector ?h)) (fat_sectors ?h) f =
    map_option (\<lambda>buf'. (True, buf', f')) (put_at 0 (volume_fat bytes) buf)"
    using readSector_image [of "ucast (bdb_reserved_sector ?h)" ?h "fat_sectors ?h" f buf 0] ok assms(2)
    by (auto simp: unat_up volume_fat_def Let_def mult.commute)
  then show ?thesis by (intro exI [of _ f']) (simp add: readFat_def Let_def assms(3) buf(1) put_at_all [OF l])
qed

lemma root_sectors_small: "bdb_bytes_per_sector h \<noteq> 0 \<Longrightarrow> root_sectors h < 2 ^ 21"
proof -
  have "root_sectors h \<le> sizeof_fat12_dir * unat (bdb_root_entries h)" by (simp add: root_sectors_def div_le_dividend)
  then show ?thesis using unat_u16 [of "bdb_root_entries h"] by (simp add: sizeof_fat12_dir_def)
qed

lemma readRootDir_image:
  assumes "fat_image_ok bytes" and "f_bytes f = bytes" and "g_boot_header t = header_of bytes"
    and "\<And>n. \<exists>buf. malloc n = Some buf \<and> length buf = n"
  shows "\<exists>f'. f_bytes f' = bytes \<and> readRootDir malloc f t =
    Some (True, t\<lparr>root_dir_entry := Some (volume_root bytes), dir_size := of_nat (root_sectors (header_of bytes))\<rparr>, f')"
proof -
  let ?h = "header_of bytes"
  let ?w = "unat (bdb_bytes_per_sector ?h)" and ?n = "sizeof_fat12_dir * unat (bdb_root_entries (header_of bytes))"
  let ?lba = "ucast (bdb_reserved_sector ?h) + fat_sectors ?h :: u32" and ?r = "unat (bdb_reserved_sector ?h) + unat (fat_sectors ?h)"
  note ok = fat_image_okD [OF assms(1) refl]
  obtain buf where buf: "malloc (unat (bdb_root_entries ?h) * sizeof_fat12_dir) = Some buf" "length buf = ?n"
    using assms(4) by (metis mult.commute)
  have w: "0 < ?w" using ok(1) by (simp add: unat_gt_0)
  have "unat (fat_sectors ?h) < 2 ^ 24"
    unfolding fat_sectors_nat by (rule less_le_trans [OF mult_strict_mono [of _ 256 _ 65536]]) (use unat_u16 unat_u8 in auto)
  then have lba: "unat ?lba = ?r" using unat_u16 [of "bdb_reserved_sector ?h"] by (simp add: unat_plus_simple [THEN iffD1] unat_up word_le_nat_alt unat_word_ariths)
  have "(?n + ?w - 1) div ?w = root_sectors ?h"
  proof -
    have "?n + ?w - 1 = (?w - 1) + root_sectors ?h * ?w" using w ok(7) by simp
    then have "(?n + ?w - 1) div ?w = root_sectors ?h + (?w - 1) div ?w" using w by (simp only: div_mult_self1)
    then show ?thesis using w by simp
  qed
  moreover have r: "unat (of_nat (root_sectors ?h) :: u32) = root_sectors ?h"
    using root_sectors_small [OF ok(1)] by (simp add: unat_of_nat32)
  moreover have "length (volume_root bytes) = length buf" using ok(6) by (auto simp: buf(2) volume_root_def part_of_def Let_def)
  moreover obtain f' where "f_bytes f' = bytes" "readSector ?h buf 0 ?lba (of_nat (root_sectors ?h)) f =
    map_option (\<lambda>buf'. (True, buf', f')) (put_at 0 (volume_root bytes) buf)"
  proof -
    have "(?r * ?w) + ?w * root_sectors ?h \<le> length bytes" using ok(6,7) by (simp add: mult.commute)
    then show ?thesis using readSector_image [of ?lba ?h "of_nat (root_sectors ?h)" f buf 0] ok(1,3,7) assms(2) that
      by (auto simp: lba r volume_root_def Let_def mult.commute)
  qed
  ultimately show ?thesis using w by (intro exI [of _ f']) (simp add: readRootDir_def Let_def assms(3) buf(1) put_at_all)
qed

lemma buffer_size:
  assumes "cluster_bytes h \<noteq> 0" and "unat sz + unat (cluster_bytes h) \<le> 2 ^ 32"
  shows "unat (cluster_bytes h * ((sz + cluster_bytes h - 1) div cluster_bytes h)) = unat (cluster_bytes h) * clusters_for h sz"
proof -
  let ?c = "cluster_bytes h"
  have c: "0 < unat ?c" using assms(1) by (simp add: unat_gt_0)
  have "sz + ?c - 1 = of_nat (unat sz + unat ?c - 1)" using c by (simp add: of_nat_diff)
  then have s: "unat (sz + ?c - 1) = unat sz + unat ?c - 1" using assms(2) c by (simp only: unat_of_nat32)
  have "unat ?c * clusters_for h sz \<le> unat sz + unat ?c - 1" by (simp add: clusters_for_def)
  then have "unat ?c * clusters_for h sz < 2 ^ 32" using assms(2) c by linarith
  then show ?thesis by (simp add: unat_mult_lem [THEN iffD1] unat_div_distrib s clusters_for_def)
qed

lemma clusters_cover: "cluster_bytes h \<noteq> 0 \<Longrightarrow> unat sz \<le> unat (cluster_bytes h) * clusters_for h sz"
proof -
  assume "cluster_bytes h \<noteq> 0"
  then have c: "0 < unat (cluster_bytes h)" by (simp add: unat_gt_0)
  let ?n = "unat sz + unat (cluster_bytes h) - 1"
  have "unat (cluster_bytes h) * (?n div unat (cluster_bytes h)) + ?n mod unat (cluster_bytes h) = ?n" by simp
  moreover have "?n mod unat (cluster_bytes h) < unat (cluster_bytes h)" using c by simp
  ultimately show ?thesis using c unfolding clusters_for_def by linarith
qed

lemma length_clusters_bytes:
  "\<forall>c \<in> set cs. in_image (header_of bytes) (first_data_sector (header_of bytes)) bytes c \<Longrightarrow>
    length (clusters_bytes bytes cs) = unat (cluster_bytes (header_of bytes)) * length cs"
  by (induction cs) (simp_all add: clusters_bytes_def length_cluster_of)

text \<open>What the program does with an image: it prints the file, or leaves its buffer.\<close>

lemma main_image:
  assumes "fat_image_ok bytes" and mal: "\<And>n. \<exists>buf. malloc n = Some buf \<and> length buf = n"
    and "3 \<le> length argv" and "open_file (argv ! 1) = Some bytes" and d: "file_entry (argv ! 2) bytes = Some d"
    and "unat (dir_file_size d) + unat (cluster_bytes (header_of bytes)) \<le> 2 ^ 32"
    and ch: "fat_chain (volume_fat bytes) (cluster_no_low d # cs)"
    and "\<forall>c \<in> set (cluster_no_low d # cs). in_image (header_of bytes) (first_data_sector (header_of bytes)) bytes c"
  shows "\<exists>buf. length buf = unat (cluster_bytes (header_of bytes)) * clusters_for (header_of bytes) (dir_file_size d) \<and>
    main malloc open_file argv = (case put_at 0 (clusters_bytes bytes (cluster_no_low d # cs)) buf of None \<Rightarrow> None
      | Some buf' \<Rightarrow> Some (0, map show_byte (take (unat (dir_file_size d)) buf')))"
proof -
  let ?h = "header_of bytes" and ?root = "volume_root bytes"
  note ok = fat_image_okD [OF assms(1) refl]
  define t0 where "t0 = \<lparr>g_boot_header = ?h, g_fat = None, root_dir_entry = None, dir_size = 0\<rparr>"
  define t1 where "t1 = t0\<lparr>g_fat := Some (volume_fat bytes)\<rparr>"
  define t where "t = t1\<lparr>root_dir_entry := Some ?root, dir_size := of_nat (root_sectors ?h)\<rparr>"
  obtain f0 where f0: "f_bytes f0 = bytes" "read_boot_header \<lparr>f_bytes = bytes, f_pos = 0\<rparr> = (True, ?h, f0)"
    using read_boot_header_image [OF ok(4)] by blast
  obtain f1 where f1: "f_bytes f1 = bytes" "readFat malloc f0 t0 = Some (True, t1, f1)"
    using readFat_image [OF assms(1) f0(1) _ mal, of t0] by (auto simp: t0_def t1_def)
  obtain f2 where f2: "f_bytes f2 = bytes" "readRootDir malloc f1 t1 = Some (True, t, f2)"
    using readRootDir_image [OF assms(1) f1(1) _ mal, of t1] by (auto simp: t0_def t1_def t_def)
  have t: "g_boot_header t = ?h" "root_dir_entry t = Some ?root" "g_fat t = Some (volume_fat bytes)"
    "dir_size t = of_nat (root_sectors ?h)" by (simp_all add: t_def t1_def t0_def)
  obtain i where i: "search_root (argv ! 2) t = Some (Some i)" "root_entry ?root i = Some d"
    using d by (auto simp: file_entry_def search_root_def t split: option.splits)
  obtain buf where buf: "malloc (unat (cluster_bytes ?h * ((dir_file_size d + cluster_bytes ?h - 1) div cluster_bytes ?h))) = Some buf"
    "length buf = unat (cluster_bytes ?h) * clusters_for ?h (dir_file_size d)"
    using mal buffer_size [OF ok(2) assms(6)] by metis
  obtain f3 where f3: "read_clusters ?h (volume_fat bytes) (first_data_sector ?h) 0 (cluster_no_low d) buf f2 =
    map_option (\<lambda>buf'. (True, buf', f3)) (put_at 0 (clusters_bytes bytes (cluster_no_low d # cs)) buf)"
    using read_clusters_chain [OF ch, of ?h "first_data_sector ?h" f2 0 buf] assms(8) ok(2,3)
    by (auto simp: f2(1) clusters_bytes_def)
  have sz: "unat (dir_file_size d) \<le> length buf" using clusters_cover [OF ok(2)] by (simp add: buf(2))
  have rf: "read_file malloc (argv ! 2) t f2 = (case put_at 0 (clusters_bytes bytes (cluster_no_low d # cs)) buf of None \<Rightarrow> None
      | Some buf' \<Rightarrow> Some (True, map show_byte (take (unat (dir_file_size d)) buf'), f3))"
    using ok(2) sz put_at_length [of 0 "clusters_bytes bytes (cluster_no_low d # cs)" buf]
    by (simp add: read_file_def i t buf(1) Let_def f3 [unfolded first_data_sector_def] split: option.split)
  show ?thesis
  proof (intro exI conjI)
    show "main malloc open_file argv = (case put_at 0 (clusters_bytes bytes (cluster_no_low d # cs)) buf of None \<Rightarrow> None
      | Some buf' \<Rightarrow> Some (0, map show_byte (take (unat (dir_file_size d)) buf')))"
      using assms(3,4) by (simp add: main_def f0(2) f1(2) [unfolded t0_def] f2(2) i(1) rf split: option.split)
  qed (fact buf(2))
qed

section \<open>The search\<close>

definition name_at :: "byte list \<Rightarrow> nat \<Rightarrow> byte list" where
  "name_at root i = part_of (sizeof_fat12_dir * i) 11 root"

lemma search_from_spec:
  assumes "sizeof_fat12_dir * (i + n) \<le> length root" and "10 \<le> length file_name"
  shows "search_from file_name root i n =
    Some (List.find (\<lambda>j. name_at root j = take 11 (file_name @ [0])) (takeWhile (\<lambda>j. root ! (sizeof_fat12_dir * j) \<noteq> 0) [i..<i + n]))"
  using assms(1)
proof (induction n arbitrary: i)
  case (Suc n)
  have "[i..<i + Suc n] = i # [Suc i..<Suc i + n]" by (simp add: upt_conv_Cons)
  moreover have "item root (sizeof_fat12_dir * i) = Some (root ! (sizeof_fat12_dir * i))"
    using Suc.prems by (simp add: item_def sizeof_fat12_dir_def)
  moreover have "memcmp_eq (file_name @ [0]) (drop (sizeof_fat12_dir * i) root) 11 = Some (take 11 (file_name @ [0]) = name_at root i)"
    using Suc.prems assms(2) by (simp add: memcmp_eq_def name_at_def part_of_def sizeof_fat12_dir_def)
  ultimately show ?case using Suc.IH [of "Suc i"] Suc.prems by auto
qed simp

section \<open>Properties\<close>

text \<open>The search of the root directory finds the first entry with the 11 bytes of the name before the first unused
  entry, and nothing behind it.\<close>

theorem search_root_first:
  assumes "root_dir_entry t = Some root" and "length root = sizeof_fat12_dir * unat (bdb_root_entries (g_boot_header t))"
    and "length file_name = 11"
  shows "search_root file_name t =
    Some (List.find (\<lambda>i. name_at root i = file_name)
      (takeWhile (\<lambda>i. root ! (sizeof_fat12_dir * i) \<noteq> 0) [0..<unat (bdb_root_entries (g_boot_header t))]))"
  using search_from_spec [of 0 "unat (bdb_root_entries (g_boot_header t))" root file_name] assms by (simp add: search_root_def)

definition demo_root :: "byte list" where
  "demo_root = lit ''LOADER  BIN'' @ replicate 21 0 @ lit ''KERNEL  BIN'' @ replicate 21 1 @ replicate 32 0"

definition tool_demo :: tool_state where
  "tool_demo = \<lparr>g_boot_header = (bios_header_of (replicate 62 0))\<lparr>bdb_root_entries := 3\<rparr>, g_fat = None,
     root_dir_entry = Some demo_root, dir_size = 1\<rparr>"

lemma search_root_first_witness: "search_root (lit ''KERNEL  BIN'') tool_demo = Some (Some 1)"
proof -
  have "search_root (lit ''KERNEL  BIN'') tool_demo =
    Some (List.find (\<lambda>i. name_at demo_root i = lit ''KERNEL  BIN'')
      (takeWhile (\<lambda>i. demo_root ! (sizeof_fat12_dir * i) \<noteq> 0) [0..<unat (bdb_root_entries (g_boot_header tool_demo))]))"
    by (rule search_root_first) (simp_all add: tool_demo_def demo_root_def lit_def sizeof_fat12_dir_def)
  moreover have "unat (bdb_root_entries (g_boot_header tool_demo)) = 3" by (simp add: tool_demo_def)
  moreover have "List.find (\<lambda>i. name_at demo_root i = lit ''KERNEL  BIN'')
      (takeWhile (\<lambda>i. demo_root ! (sizeof_fat12_dir * i) \<noteq> 0) [0..<3]) = Some 1"
    by code_simp
  ultimately show ?thesis by simp
qed

text \<open>C38: on a well-formed image the program prints the file: the bytes of the clusters that the table chains from the
  directory entry on, cut off at the size of the entry; and it ends with success.\<close>

theorem main_prints_file:
  assumes "fat_image_ok bytes" and "\<And>n. \<exists>buf. malloc n = Some buf \<and> length buf = n"
    and "3 \<le> length argv" and "open_file (argv ! 1) = Some bytes" and "file_entry (argv ! 2) bytes = Some d"
    and "unat (dir_file_size d) + unat (cluster_bytes (header_of bytes)) \<le> 2 ^ 32"
    and "fat_chain (volume_fat bytes) (cluster_no_low d # cs)"
    and "\<forall>c \<in> set (cluster_no_low d # cs). in_image (header_of bytes) (first_data_sector (header_of bytes)) bytes c"
    and "length (cluster_no_low d # cs) = clusters_for (header_of bytes) (dir_file_size d)"
  shows "main malloc open_file argv =
    Some (0, map show_byte (take (unat (dir_file_size d)) (clusters_bytes bytes (cluster_no_low d # cs))))"
proof -
  obtain buf where buf: "length buf = unat (cluster_bytes (header_of bytes)) * clusters_for (header_of bytes) (dir_file_size d)"
    and m: "main malloc open_file argv = (case put_at 0 (clusters_bytes bytes (cluster_no_low d # cs)) buf of None \<Rightarrow> None
      | Some buf' \<Rightarrow> Some (0, map show_byte (take (unat (dir_file_size d)) buf')))"
    using main_image [where malloc = malloc and bytes = bytes and argv = argv and open_file = open_file, OF assms(1-8)] by blast
  have "length (clusters_bytes bytes (cluster_no_low d # cs)) = length buf"
    by (simp only: buf length_clusters_bytes [OF assms(8)] assms(9))
  then show ?thesis using m by (simp only: put_at_all option.case)
qed

text \<open>
  An image with sectors of 32 bytes: two reserved sectors, one of the table, one of the root directory, and the file in
  the clusters 2 and 3.  Of the boot sector only the bytes 11 to 23 differ from 0.
\<close>

definition demo_image :: "byte \<Rightarrow> byte list" where
  "demo_image n =
     replicate 11 0 @ [32, 0, 1, 2, 0, 1, 1, 0, 0, 0, 0, 1, 0] @ replicate 40 0 @
     pack12 [0xff0, 0xfff, 3, 0xfff] @ replicate 26 0 @
     lit ''KERNEL  BIN'' @ replicate 15 0 @ [2, 0, n, 0, 0, 0] @
     replicate 32 0x41 @ replicate 32 10"

definition demo_open :: "byte \<Rightarrow> byte list \<Rightarrow> byte list option" where
  "demo_open n f = (if f = lit ''disk'' then Some (demo_image n) else None)"

definition demo_malloc :: allocator where
  "demo_malloc n = Some (replicate n 0)"

lemma demo_header:
  "bdb_bytes_per_sector (header_of (demo_image n)) = 32" "bdb_sector_per_cluster (header_of (demo_image n)) = 1"
  "bdb_reserved_sector (header_of (demo_image n)) = 2" "bdb_fat_count (header_of (demo_image n)) = 1"
  "bdb_root_entries (header_of (demo_image n)) = 1" "bdb_sector_per_fat (header_of (demo_image n)) = 1"
  by (simp_all add: header_of_def bios_header_of_def demo_image_def sizeof_bios_header_def le16_def nth_append)

lemma demo_geometry:
  "cluster_bytes (header_of (demo_image n)) = 32" "fat_sectors (header_of (demo_image n)) = 1"
  "root_sectors (header_of (demo_image n)) = 1" "first_data_sector (header_of (demo_image n)) = 4"
  by (simp_all add: cluster_bytes_def fat_sectors_def root_sectors_def first_data_sector_def demo_header sizeof_fat12_dir_def)

lemma demo_length: "length (demo_image n) = 192"
  by (simp add: demo_image_def lit_def)

lemma demo_regions:
  "volume_fat (demo_image n) = pack12 [0xff0, 0xfff, 3, 0xfff] @ replicate 26 0"
  "volume_root (demo_image n) = lit ''KERNEL  BIN'' @ replicate 15 0 @ [2, 0, n, 0, 0, 0]"
  unfolding volume_fat_def volume_root_def Let_def demo_header demo_geometry
  by (simp_all add: part_of_def sizeof_fat12_dir_def demo_image_def lit_def)

lemma demo_image_ok: "fat_image_ok (demo_image n)"
  by (simp add: fat_image_ok_def Let_def demo_header demo_geometry demo_length sizeof_bios_header_def sizeof_fat12_dir_def)

lemma demo_chain: "fat_chain (volume_fat (demo_image n)) [2, 3]"
  by (simp add: demo_regions next_cluster_def item_def Let_def)

lemma demo_entry: "\<exists>d. file_entry (lit ''KERNEL  BIN'') (demo_image n) = Some d \<and> cluster_no_low d = 2 \<and> dir_file_size d = ucast n"
proof -
  have "search_from (lit ''KERNEL  BIN'') (volume_root (demo_image n)) 0 1 = Some (Some 0)"
    by (simp add: demo_regions item_def memcmp_eq_def sizeof_fat12_dir_def lit_def)
  then have "file_entry (lit ''KERNEL  BIN'') (demo_image n) = root_entry (volume_root (demo_image n)) 0"
    by (simp add: file_entry_def demo_header)
  moreover have "le32 (volume_root (demo_image n)) 28 = ucast n"
    by (simp add: le32_def demo_regions lit_def nth_append)
  moreover have "le16 (volume_root (demo_image n)) 26 = 2"
    by (simp add: le16_def demo_regions lit_def nth_append)
  moreover have "length (volume_root (demo_image n)) = 32" by (simp add: demo_regions lit_def)
  ultimately show ?thesis by (simp add: root_entry_def sizeof_fat12_dir_def part_of_def fat12_dir_of_def)
qed

lemma demo_clusters:
  "\<forall>c \<in> set [2, 3]. in_image (header_of (demo_image n)) (first_data_sector (header_of (demo_image n))) (demo_image n) c"
  "clusters_bytes (demo_image n) [2, 3] = replicate 32 0x41 @ replicate 32 10"
  by (simp_all add: in_image_def cluster_pos_def demo_geometry demo_header demo_length clusters_bytes_def cluster_of_def part_of_def)
    (simp add: demo_image_def lit_def)

lemma main_prints_file_witness:
  "main demo_malloc (demo_open 40) [lit ''fat'', lit ''disk'', lit ''KERNEL  BIN''] =
    Some (0, replicate 32 (Stderr [0x41]) @ replicate 8 (Stdout (lit ''<0a>'')))"
proof -
  obtain d where d: "file_entry (lit ''KERNEL  BIN'') (demo_image 40) = Some d" "cluster_no_low d = 2" "dir_file_size d = 40"
    using demo_entry [of 40] by auto
  have "main demo_malloc (demo_open 40) [lit ''fat'', lit ''disk'', lit ''KERNEL  BIN''] =
    Some (0, map show_byte (take (unat (dir_file_size d)) (clusters_bytes (demo_image 40) (cluster_no_low d # [3]))))"
    by (rule main_prints_file [where bytes = "demo_image 40", OF demo_image_ok])
      (use d demo_chain demo_clusters in \<open>simp_all add: demo_malloc_def demo_open_def demo_geometry clusters_for_def\<close>)
  then show ?thesis
    by (simp add: d demo_clusters show_byte_def isprint_def printf_digit_def lit_def)
qed

text \<open>C39: when the table chains more clusters than the size in the directory entry says, as for every file of size 0, the
  program stores the surplus clusters behind its buffer.\<close>

theorem main_overruns_buffer:
  assumes "fat_image_ok bytes" and "\<And>n. \<exists>buf. malloc n = Some buf \<and> length buf = n"
    and "3 \<le> length argv" and "open_file (argv ! 1) = Some bytes" and "file_entry (argv ! 2) bytes = Some d"
    and "unat (dir_file_size d) + unat (cluster_bytes (header_of bytes)) \<le> 2 ^ 32"
    and "fat_chain (volume_fat bytes) (cluster_no_low d # cs)"
    and "\<forall>c \<in> set (cluster_no_low d # cs). in_image (header_of bytes) (first_data_sector (header_of bytes)) bytes c"
    and "clusters_for (header_of bytes) (dir_file_size d) < length (cluster_no_low d # cs)"
  shows "main malloc open_file argv = None"
proof -
  obtain buf where buf: "length buf = unat (cluster_bytes (header_of bytes)) * clusters_for (header_of bytes) (dir_file_size d)"
    and m: "main malloc open_file argv = (case put_at 0 (clusters_bytes bytes (cluster_no_low d # cs)) buf of None \<Rightarrow> None
      | Some buf' \<Rightarrow> Some (0, map show_byte (take (unat (dir_file_size d)) buf')))"
    using main_image [where malloc = malloc and bytes = bytes and argv = argv and open_file = open_file, OF assms(1-8)] by blast
  have "0 < unat (cluster_bytes (header_of bytes))" using fat_image_okD(2) [OF assms(1) refl] by (simp add: unat_gt_0)
  then have "length buf < length (clusters_bytes bytes (cluster_no_low d # cs))"
    unfolding buf length_clusters_bytes [OF assms(8)] using assms(9) by (simp only: mult_less_cancel1)
  then show ?thesis using m by (simp only: put_at_def) simp
qed

lemma main_overruns_buffer_witness:
  "main demo_malloc (demo_open 0) [lit ''fat'', lit ''disk'', lit ''KERNEL  BIN''] = None"
proof -
  obtain d where d: "file_entry (lit ''KERNEL  BIN'') (demo_image 0) = Some d" "cluster_no_low d = 2" "dir_file_size d = 0"
    using demo_entry [of 0] by auto
  show ?thesis
    by (rule main_overruns_buffer [where bytes = "demo_image 0" and d = d and cs = "[3]", OF demo_image_ok])
      (use d demo_chain demo_clusters in \<open>simp_all add: demo_malloc_def demo_open_def demo_geometry clusters_for_def\<close>)
qed

text \<open>The twelve bits of an entry are unpacked from its bytes: in a table of packed pairs every cluster below
  43691, where the conversion of \<open>cur_clust * 1.5\<close> to 16 bits ends, leads to its entry.\<close>

theorem next_cluster_unpacks:
  assumes "even (length es)" and "c < length es" and "c < 43691" and "\<forall>e \<in> set es. e < 4096"
  shows "next_cluster (pack12 es) (of_nat c) = Some (es ! c)"
  using next_cluster_pack12 [OF assms] next_cluster_nat [OF assms(3)] by force

lemma next_cluster_unpacks_witness: "next_cluster (pack12 [0xff0, 0xfff, 3, 0xabc]) 3 = Some 0xabc"
  using next_cluster_unpacks [of "[0xff0, 0xfff, 3, 0xabc]" 3] by simp

end
