(* ===== verification/Gen32_Heap.thy ===== *)
theory Gen32_Heap
  imports Prelude
begin

text \<open>
  The retired heap of \<open>src/kernel/gen32_heap/heap.c\<close> and \<open>heap.h\<close>, on the flat memory.  A block is a header of 16 bytes
  (\<open>size\<close>, \<open>addr_n\<close>, \<open>free\<close>, \<open>flags\<close> at the offsets 0, 4, 8 and 12) in front of its bytes.  The search along the headers is a
  partial function: \<open>None\<close> is a search that never ends.  The pointer \<open>next\<close> of \<open>default_case\<close> is never assigned; what it
  holds is the argument \<open>junk\<close>.
\<close>

section \<open>The headers\<close>

definition HEAP_START :: addr where [const_defs]: "HEAP_START = 0x1000000"
definition HEAP_SIZE :: u32 where [const_defs]: "HEAP_SIZE = 0x2000000"
definition HEAP_HEADER :: u32 where [const_defs]: "HEAP_HEADER = 16"
definition HEAP_MIN_LIMIT :: u32 where [const_defs]: "HEAP_MIN_LIMIT = 16"

record heap_table_entr =
  hd_size :: u32
  hd_addr_n :: addr
  hd_free :: byte

definition header :: "mem \<Rightarrow> addr \<Rightarrow> heap_table_entr" where
  "header m a = \<lparr>hd_size = ld32 m a, hd_addr_n = ld32 m (a + 4), hd_free = m (a + 8)\<rparr>"

section \<open>The operations\<close>

definition heap_init :: "mem \<Rightarrow> mem" where
  "heap_init m = st32 (st8 (st32 m (HEAP_START + 4) 0) (HEAP_START + 8) 1) HEAP_START (HEAP_SIZE - 0x10)"

definition default_case :: "addr \<Rightarrow> addr \<Rightarrow> u32 \<Rightarrow> mem \<Rightarrow> addr \<times> mem" where
  "default_case junk cur sz m =
     (if HEAP_SIZE < hd_size (header m cur) + sz + HEAP_HEADER then (0, m)
      else
        let m1 = st32 (st32 m (cur + 4) (cur + HEAP_HEADER + sz)) (cur + 4) junk;
            m2 = st32 m1 junk (hd_size (header m1 cur) - (HEAP_HEADER + sz));
            m3 = st8 (st32 m2 cur sz) (cur + 8) 0
        in (cur + HEAP_HEADER, st32 (st8 m3 (junk + 8) 1) (junk + 4) 0))"

definition favourable_worst :: "addr \<Rightarrow> u32 \<Rightarrow> mem \<Rightarrow> addr \<times> mem" where
  "favourable_worst cur sz m = (cur + HEAP_HEADER, st8 m (cur + 8) 0)"

definition fair :: "addr \<Rightarrow> u32 \<Rightarrow> mem \<Rightarrow> addr \<times> mem" where
  "fair cur sz m =
     (let next = cur + sz + HEAP_HEADER;
          m1 = st32 (st32 m (next + 4) (hd_addr_n (header m cur))) (cur + 4) next;
          m2 = st32 (st32 m1 next (hd_size (header m1 cur) - (HEAP_HEADER + sz))) cur sz
      in (cur + HEAP_HEADER, st8 (st8 m2 (next + 8) 1) (cur + 8) 0))"

text \<open>
  The loop over the blocks but the last: \<open>Inl\<close> is a block of exactly the size, \<open>Inr\<close> the last block and the candidate.
\<close>

partial_function (option) malloc_scan :: "mem \<Rightarrow> u32 \<Rightarrow> addr \<Rightarrow> addr \<Rightarrow> (addr + addr \<times> addr) option" where
  "malloc_scan m sz cur cand =
     (if hd_addr_n (header m cur) = 0 then Some (Inr (cur, cand))
      else if hd_free (header m cur) = 1 \<and> hd_size (header m cur) = sz then Some (Inl cur)
      else malloc_scan m sz (hd_addr_n (header m cur))
        (if hd_free (header m cur) \<noteq> 1 then cand
         else if sz + HEAP_HEADER + HEAP_MIN_LIMIT < hd_size (header m cur) then
           if cand = 0 then cur else if hd_size (header m cand) < hd_size (header m cur) then cur else cand
         else if hd_size (header m cur) = sz + HEAP_HEADER + HEAP_MIN_LIMIT \<and> cand = 0 then cur
         else cand))"

definition round16 :: "u32 \<Rightarrow> u32" where
  "round16 sz = (sz + 0xf) AND NOT 0xf"

definition malloc :: "addr \<Rightarrow> u32 \<Rightarrow> mem \<Rightarrow> (addr \<times> mem) option" where
  "malloc junk sz m =
     (if sz = 0 then Some (0, m)
      else
        let sz' = round16 sz
        in map_option (\<lambda>r.
             case r of Inl cur \<Rightarrow> favourable_worst cur sz' m
             | Inr (cur, cand) \<Rightarrow>
                 if cand = 0 then default_case junk cur sz' m
                 else if sz' + HEAP_HEADER + HEAP_MIN_LIMIT < hd_size (header m cand) then fair cand sz' m
                 else favourable_worst cand sz' m)
             (malloc_scan m sz' HEAP_START 0))"

text \<open>\<open>void disk_coalescing();\<close> in the body of \<open>free\<close> declares a function and calls nothing.\<close>

definition free :: "addr \<Rightarrow> mem \<Rightarrow> mem" where
  "free ptr m = st8 m (ptr - HEAP_HEADER + 8) 1"

section \<open>Rounding\<close>

lemma and_not_mask4: "x AND NOT (mask 4) = push_bit 4 (drop_bit 4 x)" for x :: u32
proof (rule bit_word_eqI)
  fix n show "bit (x AND NOT (mask 4)) n = bit (push_bit 4 (drop_bit 4 x)) n" if "n < LENGTH(32)"
    using that by (cases "4 \<le> n") (simp_all add: bit_simps)
qed

lemma round16_nat:
  assumes "unat sz + 15 < 2 ^ 32"
  shows "unat (round16 sz) = 16 * ((unat sz + 15) div 16)"
proof -
  have u: "unat (sz + 0xf) = unat sz + 15" using assms by (simp add: unat_word_ariths)
  have "(0xf :: u32) = mask 4" by (simp add: mask_eq_exp_minus_1)
  then have "round16 sz = push_bit 4 (drop_bit 4 (sz + 0xf))"
    unfolding round16_def by (metis and_not_mask4)
  also have "unat \<dots> = take_bit 32 (push_bit 4 (drop_bit 4 (unat sz + 15)))"
    using assms by (simp add: unsigned_push_bit_eq unsigned_drop_bit_eq u take_bit_nat_eq_self)
  also have "\<dots> = 16 * ((unat sz + 15) div 16)"
  proof -
    have "(unat sz + 15) div 16 * 16 < 2 ^ 32" using assms div_times_less_eq_dividend [of "unat sz + 15" 16] by linarith
    then show ?thesis by (simp add: push_bit_eq_mult drop_bit_eq_div take_bit_nat_eq_self mult.commute)
  qed
  finally show ?thesis .
qed

text \<open>The sum wraps around for the last 15 sizes.\<close>

lemma round16_wraps:
  assumes "2 ^ 32 \<le> unat sz + 15"
  shows "round16 sz = 0"
proof -
  have "unat (sz + 0xf) = unat sz + 15 - 2 ^ 32" using assms unat_lt_2p32 [of sz] by (simp add: unat_plus_if')
  then have "unat (sz + 0xf) < 16" using unat_lt_2p32 [of sz] by simp
  then have "unat (drop_bit 4 (sz + 0xf)) = 0" by (simp add: drop_bit_eq_div unat_div)
  then have z: "drop_bit 4 (sz + 0xf) = 0" by (simp add: unat_eq_zero)
  have "(0xf :: u32) = mask 4" by (simp add: mask_eq_exp_minus_1)
  then show ?thesis unfolding round16_def using and_not_mask4 [of "sz + 0xf"] z by simp
qed

text \<open>The test of \<open>default_case\<close> on the one block after the initialisation refuses exactly the sizes that leave the sum below 2^32.\<close>

lemma init_refuses:
  assumes "sz \<noteq> 0"
  shows "HEAP_SIZE < (HEAP_SIZE - 16) + round16 sz + HEAP_HEADER \<longleftrightarrow> unat sz \<le> 0xfdfffff0"
proof -
  have e: "(HEAP_SIZE - 16) + round16 sz + HEAP_HEADER = 0x2000000 + round16 sz" by (simp add: const_defs)
  show ?thesis
  proof (cases "unat sz + 15 < 2 ^ 32")
    case True
    note r = round16_nat [OF True]
    define k where "k = (unat sz + 15) div 16"
    have k: "1 \<le> k" "k < 2 ^ 28" "k \<le> 0xfdfffff \<longleftrightarrow> unat sz \<le> 0xfdfffff0"
      using assms unat_eq_zero [of sz] True by (auto simp: k_def less_eq_div_iff_mult_less_eq div_less_iff_less_mult div_le_mono)
    have "HEAP_SIZE < 0x2000000 + round16 sz \<longleftrightarrow> k \<le> 0xfdfffff"
    proof (cases "k \<le> 0xfdfffff")
      case True
      then have "unat (0x2000000 + round16 sz) = 0x2000000 + 16 * k" using r by (simp add: unat_plus_if' k_def)
      then show ?thesis using True k(1) by (simp add: const_defs word_less_nat_alt)
    next
      case False
      then have "unat (0x2000000 + round16 sz) = 0x2000000 + 16 * k - 2 ^ 32" using r by (simp add: unat_plus_if' k_def)
      then show ?thesis using False k(2) by (simp add: const_defs word_less_nat_alt)
    qed
    then show ?thesis unfolding e using k(3) by simp
  next
    case False
    then show ?thesis unfolding e using round16_wraps [of sz] by (simp add: const_defs)
  qed
qed

section \<open>Properties\<close>

lemma init_header: "header (heap_init m) HEAP_START = \<lparr>hd_size = HEAP_SIZE - 16, hd_addr_n = 0, hd_free = 1\<rparr>"
  by (simp add: header_def heap_init_def ld32_st32 const_defs) (simp add: ld32_def st32_def st8_def)

text \<open>C40: after its initialisation the heap refuses every request that could be served: one of up to 0xfdfffff0 bytes is answered
  with NULL and changes nothing, because the last block is only split when the whole heap would be larger than it is.  Only
  the larger ones, which no memory can hold, make the sum of the test wrap around and get the address behind the first header.\<close>

theorem gen32_malloc_inverted:
  assumes "sz \<noteq> 0"
  shows "if unat sz \<le> 0xfdfffff0 then malloc junk sz (heap_init m) = Some (0, heap_init m)
    else \<exists>m'. malloc junk sz (heap_init m) = Some (0x1000010, m')"
proof -
  have "malloc_scan (heap_init m) (round16 sz) HEAP_START 0 = Some (Inr (HEAP_START, 0))"
    by (simp add: malloc_scan.simps init_header)
  then have e: "malloc junk sz (heap_init m) = Some (default_case junk HEAP_START (round16 sz) (heap_init m))"
    using assms by (simp add: malloc_def)
  moreover have "HEAP_START + HEAP_HEADER = 0x1000010" by (simp add: const_defs)
  ultimately show ?thesis
    using init_refuses [OF assms] by (simp add: default_case_def init_header Let_def)
qed

lemma gen32_malloc_inverted_witness:
  "malloc 0 100 (heap_init (\<lambda>_. 0)) = Some (0, heap_init (\<lambda>_. 0)) \<and> (\<exists>m'. malloc 0 0xfe000000 (heap_init (\<lambda>_. 0)) = Some (0x1000010, m'))"
  using gen32_malloc_inverted [of 100 0 "\<lambda>_. 0"] gen32_malloc_inverted [of "0xfe000000" 0 "\<lambda>_. 0"] by simp

end
