(* ===== verification/Spec2Isabelle.thy ===== *)
theory Spec2Isabelle
  imports Heap_Runs Fat16_Runs Fat16_Create Fat16_Alloc Boot Archive Fat_Tool Gen32_Heap
begin

text \<open>
  Genesis-32: the C part of a 32-bit x86 kernel (\<open>src/src/kernel\<close>), shallowly embedded.

  \<^bold>\<open>The program.\<close> \<open>kernel_main\<close> clears the screen, sets up a page allocator over a table of block states
  (\<open>heap\<close>, \<open>kheap\<close>), loads the interrupt table (\<open>idt\<close>) and the timer (\<open>pit\<close>), builds an identity-mapping page
  directory (\<open>paging\<close>), sets up the heap for small objects (\<open>heap32\<close>, \<open>heap_cream\<close>), searches for ATA disks
  (\<open>disk\<close>) and lists their partitions (\<open>file_syst/partitions.c\<close>).  On top of that stand a byte stream over
  a disk (\<open>disk_stream\<close>) and a FAT16 layer with a cache table and a mount table (\<open>file_syst/fat16.c\<close>, \<open>vfs.c\<close>).
  Beside the kernel stand the host tool \<open>src/tools/fat.c\<close>, which prints a file of a FAT12 image, and two retired parts:
  an older heap (\<open>gen32_heap\<close>) and an older file layer (\<open>file_syst/archive\<close>).

  \<^bold>\<open>The state.\<close> One record, extended from theory to theory: console, flat memory of bytes, the globals of the
  heaps, the control registers, the interrupt globals, the tick counter, the devices, the disk globals, the
  file-system globals.  Addresses are 32-bit words.  The heaps, the page tables, the interrupt table, sector and
  file buffers, strings and \<open>struct disk_stream\<close> lie in the flat memory, with the stores of the source written
  out byte by byte.  \<open>struct disk\<close>, \<open>struct partition\<close> and the structs of \<open>vfs.h\<close> lie in typed stores (a map
  from addresses to records per struct type), because no code of the program looks at their bytes; an access
  through the null pointer is an access to address 0, as on this machine, where page 0 is mapped, but each struct type has a cell
  of its own there (\<open>umount_fat16\<close> stores through null links; no theorem reads what it stores).  \<open>int\<close>
  variables whose range the code bounds (loop counters, indices) are \<open>nat\<close> or \<open>int\<close>; all other integers
  keep their width, so that wrap-around is the machine's: also the \<open>int\<close> indices of \<open>set_fname\<close>, which run until they wrap.
  The loads of the 64-bit tick counter are atomic.  The effect of port instructions on the devices is a
  parameter, \<open>port_io\<close>; assembly routines (\<open>lidt\<close>, \<open>cr0\<close>, \<open>cr3\<close>, \<open>cli\<close>, \<open>sti\<close>) are updates of registers.  The host tool
  has no flat memory: its blocks are lists of bytes, and an access outside of one is undefined behaviour.

  \<^bold>\<open>The theories.\<close>
  \<^item> \<open>Prelude\<close>: words, memory, ranges, C strings, the collections of simplification rules.
  \<^item> \<open>Essentials\<close>, \<open>Cstring\<close>, \<open>Ctype\<close>: \<open>essentials.c\<close>, \<open>string.c\<close>, \<open>ctype.c\<close>.
  \<^item> \<open>Console\<close>: the VGA console of \<open>kernel.c\<close>.
  \<^item> \<open>Step_Runs\<close>: runs of a step relation, invariants and simulation.
  \<^item> \<open>Block_Table\<close>, \<open>Allocator\<close>: tables of runs of blocks and the interface of an allocator, a locale that both
    heaps interpret.
  \<^item> \<open>Kernel_Heap\<close>: \<open>heap.c\<close>, \<open>kheap.c\<close>.  \<open>Heap32\<close>, \<open>Heap_Cream\<close>, \<open>Cream_Room\<close>: \<open>heap32.c\<close>, \<open>heap_cream.c\<close>;
    \<open>Cream_Room\<close> has the client's view: \<open>client s k\<close>, the heap is in order and \<open>k\<close> more requests are sure
    to be served.  \<open>Object_Store\<close>: an abstract store of byte lists as a state machine, the steps of the clients of a heap, and
    the simulation between them (a locale on top of the interface); \<open>Heap_Runs\<close>: both heaps as interpretations of it.
  \<^item> \<open>Paging\<close>: \<open>paging.c\<close> against the processor's translation.  \<open>Idt\<close>: \<open>idt.c\<close>.  \<open>Timer\<close>: \<open>isr.c\<close>, \<open>time.c\<close>,
    \<open>pit.c\<close>, \<open>clock.c\<close>.
  \<^item> \<open>Disk\<close>: \<open>disk.c\<close> on any device.  \<open>Ata\<close>: the locale \<open>ata_drive\<close>, the contract of a channel with one or
    two drives (a busy drive becomes ready, a command transfers the sectors of the registers), and the transfers
    proved in it.  \<open>Pio\<close>: an executable channel that fulfils the contract.  \<open>Ata_Bus\<close>: the contract of two channels
    as far as the identification of drives goes, and an executable bus; \<open>Disk_Search\<close>: the search for disks on it.  \<open>Ata_Machine\<close>:
    both contracts for the disks of one machine, with what they leave alone, and an executable machine.
  \<^item> \<open>Disk_Stream\<close>: \<open>disk_stream.c\<close>.  \<open>Partitions\<close>: \<open>partitions.c\<close>.  \<open>Start_Up\<close>: \<open>kernel_main\<close>.
    \<open>Boot\<close>: \<open>kernel_main\<close> on a machine with disks, from the boot image to the end.
  \<^item> \<open>Vfs\<close>: \<open>vfs.h\<close>, \<open>vfs.c\<close>, \<open>hash.c\<close>.  \<open>Fat16_Mount\<close>, \<open>Fat16\<close>, \<open>Fat16_Dir\<close>: the functions of \<open>fat16.c\<close>.
    \<open>Fat16_Read\<close>, \<open>Fat16_Tables\<close>: what reading a file delivers and what the tables hold.  \<open>Fat16_Runs\<close>: the tables under any
    sequence of mounts and unmounts.  \<open>Fat16_Write\<close>: what a write
    does to the clusters of a file.  \<open>Fat16_Alloc\<close>: what taking a free cluster does to the tables and chains.
    \<open>Fat16_Create\<close>: \<open>create_file_fat16\<close>.
  \<^item> \<open>Archive\<close>: \<open>file_syst/archive\<close>.  \<open>Gen32_Heap\<close>: \<open>gen32_heap/heap.c\<close>.  \<open>Fat_Tool\<close>: \<open>src/tools/fat.c\<close>.

  \<^bold>\<open>What is shown.\<close> For the heaps: an invariant every operation keeps, freshness and disjointness of what is
  handed out, failure only when it has to be, release as the inverse, and refinement of the abstract store by every sequence of
  requests, releases and stores.  The object heap finds the page of an object only when no slot before it is empty (\<open>reached\<close>); a
  release that does not reach its page changes nothing, and is an event of its own in the runs (\<open>Lost\<close>).  For paging and the interrupt table: what the
  processor finds there.  For the disk: the transfers deliver and change exactly the addressed sectors,
  write and read are inverse, a dead device is given up; the search lists the boot drive and exactly the drives with the
  codes 0x81 to 0x83 that are there (all drives once, when the boot drive is 0x80).  For stream,
  partition scan and file read: refinement of the abstract byte string, partition table and cluster chain of the medium.  For the file write: the bytes of the
  request, and no others, are replaced in the concatenation of the clusters, and a read gives them back; both on volumes with sectors
  of 512 bytes, clusters of at most 7 sectors (a larger one is no object of the heap, and the code does not test for that) and
  inside the clusters a file already has.  For the
  allocation of clusters: every table gets the same change, which extends one chain and leaves all others.  For the start-up:
  all parts stand beside each other, it ends on every device, and on a machine with disks it ends with its drives listed and
  each disk with the partition list of its own first sector.  For the FAT16 tables: the parameters of a boot sector
  against a specification over natural numbers, the first mount, and the
  ways in which the layer cannot work as it is written (no mount succeeds after the first, searches that never end, a name that
  is copied from behind its end over 2 GB, a write behind the end that loses clusters).  For the host tool: it prints the file of the chain in
  the packed FAT12 table, and it overruns its buffer when the table chains more clusters than the directory entry counts.
  For the retired parts: the heap refuses every request that could be served, and with only the root mounted no other path has a mount point.

  \<^bold>\<open>Loops.\<close> Loops the code bounds are recursion over lists or numbers, with the bounds of the source (a busy wait
  reads the status at most \<open>ATA_WAIT + 1\<close> times).  Loops it does not bound (strings, linked lists, cluster chains)
  are partial functions: \<open>None\<close> is a run that never ends, and that they end is proved where they do.  The cluster loop of
  the host tool is a function with a measure, the free bytes of its buffer.

  \<^bold>\<open>Not modelled.\<close> Boot sector, port and interrupt stubs in assembly.  Tables of function pointers (\<open>struct fops\<close>,
  \<open>struct file_system\<close>, \<open>file_operations\<close>), through which no code of the program calls, and prototypes.  \<open>fat16.c\<close>, \<open>vfs.c\<close>,
  \<open>hash.c\<close> and the retired parts are not in the build; \<open>fat16.c\<close> uses a constant that no header defines, which is an
  argument of the model (\<open>l_not_found\<close>).
\<close>

end
